(* ===== verification/Prelude.thy ===== *)
theory Prelude imports Complex_Main begin

text \<open>
  Generic material the component theories share: the collections of simplification
  facts, the few operations of the JavaScript standard library on strings and arrays
  that the source uses (\<open>join\<close>, \<open>split\<close>, \<open>startsWith\<close>, \<open>includes\<close>,
  \<open>indexOf\<close>, the decimal rendering of an array index), prefix sums, and lemmas on lists
  and options. JavaScript strings are modelled as \<open>string\<close> (lists of characters); array
  indices and lengths are natural numbers.
\<close>

named_theorems js_defs \<open>definitions of JavaScript library operations, unfolded on demand\<close>
named_theorems walk_simps \<open>equations of the explicit-stack traversals\<close>

section \<open>Strings\<close>

definition digit_char :: "nat \<Rightarrow> char" where
  "digit_char d = char_of (48 + d)"

fun nat_str :: "nat \<Rightarrow> string" where
  "nat_str n = (if n < 10 then [digit_char n] else nat_str (n div 10) @ [digit_char (n mod 10)])"

declare nat_str.simps [simp del]

lemma char_of_bits:
  "char_of (n :: nat) = Char (odd n) (odd (n div 2)) (odd (n div 4)) (odd (n div 8))
     (odd (n div 16)) (odd (n div 32)) (odd (n div 64)) (odd (n div 128))"
  by (simp add: char_of_def bit_iff_odd)

text \<open>
  A character is a code unit below 256: \<open>toLowerCase\<close> changes the capital letters of ASCII and
  Latin-1, and \<open>trim\<close> removes the white space of that range.
\<close>

definition lower_char :: "char \<Rightarrow> char" where
  "lower_char c = (let n = (of_char c :: nat) in
     if 65 \<le> n \<and> n \<le> 90 \<or> 192 \<le> n \<and> n \<le> 222 \<and> n \<noteq> 215 then char_of (n + 32) else c)"

definition js_lower :: "string \<Rightarrow> string" where
  "js_lower s = map lower_char s"

definition js_space :: "char \<Rightarrow> bool" where
  "js_space c \<longleftrightarrow> (let n = (of_char c :: nat) in 9 \<le> n \<and> n \<le> 13 \<or> n = 32 \<or> n = 160)"

definition js_trim :: "string \<Rightarrow> string" where
  "js_trim s = rev (dropWhile js_space (rev (dropWhile js_space s)))"

fun js_join :: "string \<Rightarrow> string list \<Rightarrow> string" where
  "js_join s [] = []"
| "js_join s [x] = x"
| "js_join s (x # y # r) = x @ s @ js_join s (y # r)"

text \<open>Splitting at a one-character separator always yields at least one part.\<close>

fun js_split :: "char \<Rightarrow> string \<Rightarrow> string list" where
  "js_split c [] = [[]]"
| "js_split c (x # xs) =
     (if x = c then [] # js_split c xs
      else (case js_split c xs of [] \<Rightarrow> [[x]] | p # ps \<Rightarrow> (x # p) # ps))"

text \<open>The value of a hexadecimal digit.\<close>

definition hex_digit_value :: "char \<Rightarrow> nat option" where
  "hex_digit_value c = (let n = (of_char c :: nat) in
     if 48 \<le> n \<and> n \<le> 57 then Some (n - 48)
     else if 97 \<le> n \<and> n \<le> 102 then Some (n - 87)
     else if 65 \<le> n \<and> n \<le> 70 then Some (n - 55) else None)"

definition js_starts_with :: "string \<Rightarrow> string \<Rightarrow> bool" where
  "js_starts_with s p \<longleftrightarrow> take (length p) s = p"

text \<open>\<open>indexOf(pattern)\<close> counted from the head of the given suffix; None is the code's -1.\<close>

fun js_find :: "string \<Rightarrow> string \<Rightarrow> nat option" where
  "js_find p [] = (if p = [] then Some 0 else None)"
| "js_find p (x # xs) =
     (if js_starts_with (x # xs) p then Some 0 else map_option Suc (js_find p xs))"

definition js_includes :: "string \<Rightarrow> string \<Rightarrow> bool" where
  "js_includes s p \<longleftrightarrow> js_find p s \<noteq> None"

definition js_index_of :: "string \<Rightarrow> string \<Rightarrow> nat \<Rightarrow> nat option" where
  "js_index_of s p start =
     (if length s < start then (if p = [] then Some (length s) else None)
      else map_option (\<lambda>i. start + i) (js_find p (drop start s)))"

declare js_starts_with_def [js_defs] js_includes_def [js_defs] js_index_of_def [js_defs]

lemma js_split_not_Nil [simp]: "js_split c s \<noteq> []"
  by (induction s) (auto split: list.splits)

lemma js_split_append:
  "c \<notin> set a \<Longrightarrow> js_split c (a @ c # b) = a # js_split c b"
  by (induction a) auto

lemma js_split_dotless: "c \<notin> set a \<Longrightarrow> js_split c a = [a]"
  by (induction a) auto

lemma js_split_join:
  "ps \<noteq> [] \<Longrightarrow> \<forall>p \<in> set ps. c \<notin> set p \<Longrightarrow> js_split c (js_join [c] ps) = ps"
  by (induction "[c]" ps rule: js_join.induct) (auto simp: js_split_dotless js_split_append)

lemma js_join_split: "js_join [c] (js_split c s) = s"
proof (induction s)
  case Nil
  then show ?case by simp
next
  case (Cons x xs)
  obtain p ps where ps: "js_split c xs = p # ps"
    using js_split_not_Nil [of c xs] by (cases "js_split c xs") auto
  with Cons show ?case by (cases ps) auto
qed

lemma js_join_inj:
  assumes "js_join [c] ps = js_join [c] qs" "ps \<noteq> []" "qs \<noteq> []"
    and "\<forall>p \<in> set ps. c \<notin> set p" "\<forall>q \<in> set qs. c \<notin> set q"
  shows "ps = qs"
  using assms by (metis js_split_join)

lemma js_find_Some:
  "js_find p s = Some i \<Longrightarrow> i + length p \<le> length s \<and> take (length p) (drop i s) = p"
proof (induction p s arbitrary: i rule: js_find.induct)
  case (1 p)
  then show ?case by (auto split: if_splits)
next
  case (2 p x xs)
  show ?case
  proof (cases "js_starts_with (x # xs) p")
    case True
    with "2.prems" have i: "i = 0" by simp
    from True have t: "take (length p) (x # xs) = p" by (simp add: js_starts_with_def)
    then have "length p \<le> length (x # xs)" by (metis length_take min.absorb_iff2 min.commute)
    with i t show ?thesis by simp
  next
    case False
    with "2.prems" obtain j where "js_find p xs = Some j" "i = Suc j" by auto
    with "2.IH" False show ?thesis by auto
  qed
qed

lemma js_find_None:
  "js_find p s = None \<Longrightarrow> i \<le> length s \<Longrightarrow> take (length p) (drop i s) \<noteq> p"
proof (induction p s arbitrary: i rule: js_find.induct)
  case (1 p)
  then show ?case by (auto split: if_splits)
next
  case (2 p x xs)
  then have "\<not> js_starts_with (x # xs) p" and "js_find p xs = None"
    by (auto split: if_splits)
  with 2 show ?case by (cases i) (auto simp: js_starts_with_def)
qed

lemma js_includes_iff: "js_includes s p \<longleftrightarrow> (\<exists>a b. s = a @ p @ b)"
proof
  assume "js_includes s p"
  then obtain i where "js_find p s = Some i" by (auto simp: js_includes_def)
  then have "i + length p \<le> length s" "take (length p) (drop i s) = p" using js_find_Some by blast+
  then have "s = take i s @ p @ drop (i + length p) s"
    by (metis append_take_drop_id drop_drop add.commute)
  then show "\<exists>a b. s = a @ p @ b" by blast
next
  assume "\<exists>a b. s = a @ p @ b"
  then obtain a b where "s = a @ p @ b" by blast
  then have "take (length p) (drop (length a) s) = p" "length a \<le> length s" by simp_all
  then show "js_includes s p" unfolding js_includes_def using js_find_None by metis
qed

lemma js_find_least:
  "js_find p s = Some i \<Longrightarrow> j < i \<Longrightarrow> take (length p) (drop j s) \<noteq> p"
proof (induction p s arbitrary: i j rule: js_find.induct)
  case (1 p)
  then show ?case by (auto split: if_splits)
next
  case (2 p x xs)
  then have "\<not> js_starts_with (x # xs) p" by (auto split: if_splits)
  with 2 show ?case by (cases j) (auto simp: js_starts_with_def)
qed

section \<open>Prefix sums\<close>

text \<open>The running totals the offset arrays hold.\<close>

fun psums_from :: "nat \<Rightarrow> nat list \<Rightarrow> nat list" where
  "psums_from c [] = []"
| "psums_from c (x # xs) = (c + x) # psums_from (c + x) xs"

abbreviation psums :: "nat list \<Rightarrow> nat list" where
  "psums xs \<equiv> psums_from 0 xs"

lemma length_psums_from [simp]: "length (psums_from c xs) = length xs"
  by (induction xs arbitrary: c) auto

lemma nth_psums_from: "i < length xs \<Longrightarrow> psums_from c xs ! i = c + sum_list (take (Suc i) xs)"
proof (induction xs arbitrary: c i)
  case Nil
  then show ?case by simp
next
  case (Cons x xs)
  then show ?case by (cases i) (auto simp: add.assoc)
qed

lemma psums_from_eq_Nil [simp]: "psums_from c xs = [] \<longleftrightarrow> xs = []"
  by (cases xs) auto

lemma sum_list_take_mono:
  "i \<le> j \<Longrightarrow> sum_list (take i xs) \<le> sum_list (take j (xs :: nat list))"
  by (metis le_add1 le_add_diff_inverse sum_list_append take_add)

lemma psums_mono:
  "i \<le> j \<Longrightarrow> j < length xs \<Longrightarrow> psums xs ! i \<le> psums xs ! j"
  by (simp add: nth_psums_from sum_list_take_mono)

section \<open>Lists\<close>

lemma nth_concat_block:
  assumes "i < length xss" "j < length (xss ! i)"
  shows "concat xss ! (sum_list (map length (take i xss)) + j) = xss ! i ! j"
    and "sum_list (map length (take i xss)) + j < length (concat xss)"
  using assms
proof (induction xss arbitrary: i)
  case Nil
  { case 1 then show ?case by simp }
  { case 2 then show ?case by simp }
next
  case (Cons xs xss)
  { case 1 with Cons show ?case by (cases i) (auto simp: nth_append add.assoc) }
  { case 2 with Cons show ?case by (cases i) (auto simp: add.assoc) }
qed

section \<open>Objects used as dictionaries\<close>

text \<open>Assignment to a property: in place when the key exists, else at the end.\<close>

fun rec_set :: "'k \<Rightarrow> 'v \<Rightarrow> ('k \<times> 'v) list \<Rightarrow> ('k \<times> 'v) list" where
  "rec_set k v [] = [(k, v)]"
| "rec_set k v ((k', v') # r) = (if k' = k then (k, v) # r else (k', v') # rec_set k v r)"

lemma map_of_rec_set [simp]: "map_of (rec_set k v r) = (map_of r)(k \<mapsto> v)"
  by (induction k v r rule: rec_set.induct) auto

lemma keys_rec_set [simp]: "fst ` set (rec_set k v r) = insert k (fst ` set r)"
  by (induction k v r rule: rec_set.induct) auto

lemma distinct_rec_set: "distinct (map fst r) \<Longrightarrow> distinct (map fst (rec_set k v r))"
  by (induction k v r rule: rec_set.induct) auto

lemma fold_rec_set_fresh:
  "distinct (map fst (r @ ps)) \<Longrightarrow> fold (\<lambda>(k, v) r. rec_set k v r) ps r = r @ ps"
proof (induction ps arbitrary: r)
  case (Cons e ps)
  obtain k v where e: "e = (k, v)" by (cases e)
  have "k \<notin> fst ` set r \<Longrightarrow> rec_set k v r = r @ [(k, v)]"
    by (induction k v r rule: rec_set.induct) auto
  with Cons e show ?case by simp
qed simp

section \<open>Point-wise writes\<close>

text \<open>Visiting each address of a list with an idempotent cell update.\<close>

lemma fold_pointwise:
  assumes "\<And>n. g (g n) = g n"
  shows "fold (\<lambda>a c. c(a := g (c a))) xs c = (\<lambda>b. if b \<in> set xs then g (c b) else c b)"
  by (induction xs arbitrary: c) (auto simp: assms fun_eq_iff)

text \<open>Where a key is split at its last colon.\<close>

lemma last_colon:
  assumes "a @ CHR '':'' # b = c @ CHR '':'' # d" "CHR '':'' \<notin> set b" "CHR '':'' \<notin> set d"
  shows "a = c \<and> b = d"
  using assms by (auto simp: append_eq_append_conv2 append_eq_Cons_conv Cons_eq_append_conv)

end
