(* ===== verification/Stack_Walk.thy ===== *)
theory Stack_Walk imports Prelude begin

text \<open>
  The source avoids recursion: every traversal of a tree is a loop over an explicit stack
  (\<open>while (stack.length > 0) { const x = stack.pop(); ...; stack.push(...) }\<close>). This
  theory holds the two loop shapes the components share, \<open>stack_loop\<close> (run to the end) and
  \<open>stack_find\<close> (return early), as \<open>partial_function (option)\<close>, so that a loop that
  does not end is \<open>None\<close>; rose trees with their pre- and postorder; and two locales, the
  contracts under which such a loop ends and visits exactly the nodes of a tree in preorder.
  A stack is a list whose head is the top, so what a body pushes is listed top first.
\<close>

section \<open>Rose trees\<close>

datatype 'a rose = Rose (label: 'a) (subs: "'a rose list")

primrec preorder :: "'a rose \<Rightarrow> 'a list" where
  "preorder (Rose a ts) = a # concat (map preorder ts)"

primrec postorder :: "'a rose \<Rightarrow> 'a list" where
  "postorder (Rose a ts) = concat (map postorder ts) @ [a]"

primrec mirror :: "'a rose \<Rightarrow> 'a rose" where
  "mirror (Rose a ts) = Rose a (rev (map mirror ts))"

text \<open>The tree of an entry/exit traversal: every node again, below its children.\<close>

primrec exits :: "'a rose \<Rightarrow> ('a \<times> bool) rose" where
  "exits (Rose a ts) = Rose (a, False) (map exits ts @ [Rose (a, True) []])"

abbreviation forest_preorder :: "'a rose list \<Rightarrow> 'a list" where
  "forest_preorder ts \<equiv> concat (map preorder ts)"

lemma preorder_not_Nil [simp]: "preorder t \<noteq> []"
  by (cases t) simp

lemma postorder_not_Nil [simp]: "postorder t \<noteq> []"
  by (cases t) simp

lemma hd_preorder [simp]: "hd (preorder t) = label t"
  by (cases t) simp

lemma label_in_preorder [simp]: "label t \<in> set (preorder t)"
  by (cases t) simp

lemma label_mirror [simp]: "label (mirror t) = label t"
  by (cases t) simp

lemma set_postorder [simp]: "set (postorder t) = set (preorder t)"
  by (induction t) auto

lemma set_preorder_mirror [simp]: "set (preorder (mirror t)) = set (preorder t)"
  by (induction t) auto

lemma mirror_mirror [simp]: "mirror (mirror t) = t"
proof (induction t)
  case (Rose a ts)
  then show ?case by (simp add: rev_map [symmetric] map_idI)
qed

lemma length_concat_same:
  "(\<And>x. x \<in> set xs \<Longrightarrow> length (f x) = length (g x)) \<Longrightarrow>
   length (concat (map f xs)) = length (concat (map g xs))"
  by (induction xs) auto

lemma length_postorder [simp]: "length (postorder t) = length (preorder t)"
proof (induction t)
  case (Rose a ts)
  then have "length (concat (map postorder ts)) = length (concat (map preorder ts))"
    by (intro length_concat_same)
  then show ?case by simp
qed

lemma distinct_postorder [simp]: "distinct (postorder t) \<longleftrightarrow> distinct (preorder t)"
  by (metis card_distinct distinct_card length_postorder set_postorder)

lemma postorder_exits:
  "map fst (filter snd (preorder (exits t))) = postorder t"
proof (induction t)
  case (Rose a ts)
  have "map fst (filter snd (concat (map (preorder \<circ> exits) us))) = concat (map postorder us)"
    if "set us \<subseteq> set ts" for us
    using that Rose by (induction us) auto
  from this [of ts] show ?case by simp
qed

lemma forest_distinct_sub: "distinct (forest_preorder ts) \<Longrightarrow> t \<in> set ts \<Longrightarrow> distinct (preorder t)"
  by (induction ts) auto

lemma forest_owner_unique:
  "distinct (forest_preorder ts) \<Longrightarrow> t \<in> set ts \<Longrightarrow> u \<in> set ts \<Longrightarrow>
   a \<in> set (preorder t) \<Longrightarrow> a \<in> set (preorder u) \<Longrightarrow> t = u"
  by (induction ts) auto

lemma size_forest_step:
  "size_list size (us @ ts) < size_list size (Rose a us # ts)"
  by simp

section \<open>The loops\<close>

partial_function (option) stack_loop ::
  "('s \<Rightarrow> 'a \<Rightarrow> 's \<times> 'a list) \<Rightarrow> 's \<Rightarrow> 'a list \<Rightarrow> 's option" where
  "stack_loop body s stk =
     (case stk of
        [] \<Rightarrow> Some s
      | x # rest \<Rightarrow>
          (case body s x of (s', pushed) \<Rightarrow> stack_loop body s' (pushed @ rest)))"

partial_function (option) stack_find ::
  "('a \<Rightarrow> 'r + 'a list) \<Rightarrow> 'a list \<Rightarrow> 'r option option" where
  "stack_find body stk =
     (case stk of
        [] \<Rightarrow> Some None
      | x # rest \<Rightarrow>
          (case body x of
             Inl r \<Rightarrow> Some (Some r)
           | Inr pushed \<Rightarrow> stack_find body (pushed @ rest)))"

lemma stack_loop_Nil [walk_simps]: "stack_loop body s [] = Some s"
  by (simp add: stack_loop.simps)

lemma stack_loop_Cons [walk_simps]:
  "stack_loop body s (x # rest) =
     stack_loop body (fst (body s x)) (snd (body s x) @ rest)"
  by (subst stack_loop.simps) (simp add: case_prod_beta)

lemma stack_find_Nil [walk_simps]: "stack_find body [] = Some None"
  by (simp add: stack_find.simps)

lemma stack_find_Cons [walk_simps]:
  "stack_find body (x # rest) =
     (case body x of Inl r \<Rightarrow> Some (Some r) | Inr pushed \<Rightarrow> stack_find body (pushed @ rest))"
  by (subst stack_find.simps) simp

fun first_some :: "('a \<Rightarrow> 'b option) \<Rightarrow> 'a list \<Rightarrow> 'b option" where
  "first_some f [] = None"
| "first_some f (x # xs) = (case f x of Some r \<Rightarrow> Some r | None \<Rightarrow> first_some f xs)"

lemma first_some_append:
  "first_some f (xs @ ys) = (case first_some f xs of Some r \<Rightarrow> Some r | None \<Rightarrow> first_some f ys)"
  by (induction xs) (auto split: option.splits)

section \<open>Contracts\<close>

text \<open>
  The body of a traversal: in a state that represents the tree, popping a node updates the
  state by \<open>visit\<close> and pushes the node's children, leftmost on top; and no visit changes
  the tree the state represents.
\<close>

locale stack_walk =
  fixes body :: "'s \<Rightarrow> 'a \<Rightarrow> 's \<times> 'a list"
    and visit :: "'s \<Rightarrow> 'a \<Rightarrow> 's"
    and Inv :: "'s \<Rightarrow> 'a rose \<Rightarrow> bool"
  assumes body_tree: "Inv s (Rose a ts) \<Longrightarrow> body s a = (visit s a, map label ts)"
    and Inv_sub: "Inv s (Rose a ts) \<Longrightarrow> t \<in> set ts \<Longrightarrow> Inv s t"
    and Inv_visit: "Inv s t \<Longrightarrow> Inv (visit s a) t"
begin

abbreviation visit_all :: "'a list \<Rightarrow> 's \<Rightarrow> 's" where
  "visit_all xs s \<equiv> fold (\<lambda>a s. visit s a) xs s"

lemma loop_forest:
  "\<forall>t \<in> set ts. Inv s t \<Longrightarrow>
   stack_loop body s (map label ts @ stk) = stack_loop body (visit_all (forest_preorder ts) s) stk"
proof (induction "size_list size ts" arbitrary: ts s rule: less_induct)
  case less
  show ?case
  proof (cases ts)
    case Nil
    then show ?thesis by simp
  next
    case (Cons t ts')
    obtain a us where t: "t = Rose a us" by (cases t)
    with Cons less.prems have inv: "Inv s (Rose a us)" by simp
    have "\<forall>u \<in> set (us @ ts'). Inv (visit s a) u"
      using Cons less.prems inv by (auto intro: Inv_visit Inv_sub)
    moreover have "size_list size (us @ ts') < size_list size ts"
      unfolding Cons t by (rule size_forest_step)
    ultimately have "stack_loop body (visit s a) (map label (us @ ts') @ stk) =
        stack_loop body (visit_all (forest_preorder (us @ ts')) (visit s a)) stk"
      by (rule less.hyps [rotated])
    then show ?thesis
      using body_tree [OF inv] by (simp add: Cons t stack_loop_Cons)
  qed
qed

lemma loop_tree: "Inv s t \<Longrightarrow> stack_loop body s [label t] = Some (visit_all (preorder t) s)"
  using loop_forest [of "[t]" s "[]"] by (simp add: stack_loop_Nil)

lemma loop_forest_all:
  "\<forall>t \<in> set ts. Inv s t \<Longrightarrow>
   stack_loop body s (map label ts) = Some (visit_all (forest_preorder ts) s)"
  using loop_forest [of ts s "[]"] by (simp add: stack_loop_Nil)

end

text \<open>A search: the body returns at the first node that hits, else pushes the children.\<close>

locale stack_search =
  fixes body :: "'a \<Rightarrow> 'r + 'a list"
    and hit :: "'a \<Rightarrow> 'r option"
    and Inv :: "'a rose \<Rightarrow> bool"
  assumes body_search: "Inv (Rose a ts) \<Longrightarrow>
      body a = (case hit a of Some r \<Rightarrow> Inl r | None \<Rightarrow> Inr (map label ts))"
    and Inv_branch: "Inv (Rose a ts) \<Longrightarrow> t \<in> set ts \<Longrightarrow> Inv t"
begin

lemma find_forest:
  "\<forall>t \<in> set ts. Inv t \<Longrightarrow>
   stack_find body (map label ts @ stk) =
     (case first_some hit (forest_preorder ts) of
        Some r \<Rightarrow> Some (Some r) | None \<Rightarrow> stack_find body stk)"
proof (induction "size_list size ts" arbitrary: ts rule: less_induct)
  case less
  show ?case
  proof (cases ts)
    case Nil
    then show ?thesis by simp
  next
    case (Cons t ts')
    obtain a us where t: "t = Rose a us" by (cases t)
    with Cons less.prems have inv: "Inv (Rose a us)" by simp
    have "\<forall>u \<in> set (us @ ts'). Inv u"
      using Cons less.prems inv by (auto intro: Inv_branch)
    moreover have "size_list size (us @ ts') < size_list size ts"
      unfolding Cons t by (rule size_forest_step)
    ultimately have "stack_find body (map label (us @ ts') @ stk) =
        (case first_some hit (forest_preorder (us @ ts')) of
           Some r \<Rightarrow> Some (Some r) | None \<Rightarrow> stack_find body stk)"
      by (rule less.hyps [rotated])
    then show ?thesis
      using body_search [OF inv] by (simp add: Cons t stack_find_Cons split: option.split)
  qed
qed

lemma find_tree: "Inv t \<Longrightarrow> stack_find body [label t] = Some (first_some hit (preorder t))"
  using find_forest [of "[t]" "[]"] by (simp add: stack_find_Nil split: option.split)

end

end
