(* ===== verification/Json_Value.thy ===== *)
theory Json_Value imports Stack_Walk begin

text \<open>
  The JSON values the viewer displays and the pure helpers on them:
  \<^verbatim>\<open>AdvancedJsonViewer/utils/jsonTypes.ts\<close> (type classification, children,
  recursive descendant count), \<^verbatim>\<open>pathUtils.ts\<close> (paths as dot-separated strings),
  \<^verbatim>\<open>rowCount.ts\<close> (the row estimate) and \<^verbatim>\<open>calculateWidth.ts\<close> (the width estimate).

  An object is the list of its entries in the order \<open>Object.entries\<close> gives them. A number
  is represented by its rendering \<open>String(n)\<close>, which is all these functions observe of it.
  Widths are exact rationals where the code has doubles.
\<close>

datatype json =
    JNull
  | JUndefined
  | JBool bool
  | JNumber string
  | JString string
  | JArray "json list"
  | JObject "(string \<times> json) list"

datatype json_type = TString | TNumber | TBoolean | TNull | TUndefined | TObject | TArray

datatype key = KStr string | KNum nat

fun getJSONType :: "json \<Rightarrow> json_type" where
  "getJSONType JNull = TNull"
| "getJSONType JUndefined = TUndefined"
| "getJSONType (JArray _) = TArray"
| "getJSONType (JString _) = TString"
| "getJSONType (JNumber _) = TNumber"
| "getJSONType (JBool _) = TBoolean"
| "getJSONType (JObject _) = TObject"

definition isExpandable_value :: "json \<Rightarrow> bool" where
  "isExpandable_value v \<longleftrightarrow> getJSONType v = TObject \<or> getJSONType v = TArray"

fun getChildCount :: "json \<Rightarrow> nat" where
  "getChildCount (JArray xs) = length xs"
| "getChildCount (JObject kvs) = length kvs"
| "getChildCount _ = 0"

definition isPrimitive :: "json \<Rightarrow> bool" where
  "isPrimitive v \<longleftrightarrow> getJSONType v \<in> {TString, TNumber, TBoolean, TNull, TUndefined}"

fun getChildren :: "json \<Rightarrow> (key \<times> json) list" where
  "getChildren (JArray xs) = map (\<lambda>(i, x). (KNum i, x)) (enumerate 0 xs)"
| "getChildren (JObject kvs) = map (\<lambda>(k, x). (KStr k, x)) kvs"
| "getChildren _ = []"

fun key_str :: "key \<Rightarrow> string" where
  "key_str (KStr s) = s"
| "key_str (KNum n) = nat_str n"

definition formatValuePreview :: "json \<Rightarrow> nat \<Rightarrow> string" where
  "formatValuePreview v maxLength = (case v of
       JArray xs \<Rightarrow> ''Array('' @ nat_str (length xs) @ '')''
     | JObject kvs \<Rightarrow>
         (let keys = map fst kvs; count = length keys in
          if count = 0 then ''{}''
          else if count = 1 then ''{'' @ hd keys @ ''}''
          else ''{'' @ nat_str count @ '' keys}'')
     | JString s \<Rightarrow>
         (let q = [CHR 0x22] in
          if length s = 0 then q @ q
          else if length s > maxLength then q @ take maxLength s @ ''...'' @ q
          else q @ s @ q)
     | JNull \<Rightarrow> ''null''
     | JUndefined \<Rightarrow> ''undefined''
     | JBool b \<Rightarrow> (if b then ''true'' else ''false'')
     | JNumber n \<Rightarrow> n)"

lemma size_getChildren: "(k, c) \<in> set (getChildren v) \<Longrightarrow> size c < size v"
proof (cases v)
  case (JArray xs)
  assume "(k, c) \<in> set (getChildren v)"
  with JArray have "c \<in> set xs" by (auto simp: in_set_enumerate_eq)
  then have "size c \<le> size_list size xs" by (intro size_list_estimation') auto
  with JArray show ?thesis by simp
next
  case (JObject kvs)
  assume "(k, c) \<in> set (getChildren v)"
  with JObject obtain s where m: "(s, c) \<in> set kvs" by auto
  have "size c \<le> size_prod (\<lambda>x. 0) size (s, c)" by simp
  with m have "size c \<le> size_list (size_prod (\<lambda>x. 0) size) kvs"
    by (intro size_list_estimation') auto
  with JObject show ?thesis by simp
qed auto

text \<open>
  \<open>countAllDescendants\<close> counts each child and, recursively, its descendants; the loop's
  running total is the sum.
\<close>

function countAllDescendants :: "json \<Rightarrow> nat" where
  "countAllDescendants v =
     (if \<not> isExpandable_value v then 0
      else sum_list (map (\<lambda>(_, c). 1 + countAllDescendants c) (getChildren v)))"
  by pat_completeness auto
termination
  by (relation "measure size") (auto dest: size_getChildren)

declare countAllDescendants.simps [simp del]

lemma not_expandable_children: "\<not> isExpandable_value v \<Longrightarrow> getChildren v = []"
  by (cases v) (auto simp: isExpandable_value_def)

lemma length_getChildren: "length (getChildren v) = getChildCount v"
  by (cases v) auto

lemma countAllDescendants_children:
  "countAllDescendants v = sum_list (map (\<lambda>(_, c). 1 + countAllDescendants c) (getChildren v))"
  by (subst countAllDescendants.simps) (simp add: not_expandable_children)

lemma isPrimitive_iff: "isPrimitive v \<longleftrightarrow> \<not> isExpandable_value v"
  by (cases v) (auto simp: isPrimitive_def isExpandable_value_def)

section \<open>Paths\<close>

definition joinPath :: "key list \<Rightarrow> string" where
  "joinPath parts = js_join ''.'' (map key_str parts)"

definition isAncestorPath :: "string \<Rightarrow> string \<Rightarrow> bool" where
  "isAncestorPath ancestorPath descendantPath \<longleftrightarrow>
     (if ancestorPath = descendantPath then False
      else js_starts_with descendantPath (ancestorPath @ ''.'') \<or> descendantPath = ancestorPath)"

definition buildPath :: "string \<Rightarrow> key \<Rightarrow> string" where
  "buildPath parentPath k = parentPath @ ''.'' @ key_str k"

text \<open>The test \<open>/^[a-zA-Z_][a-zA-Z0-9_]*$/\<close>, on character codes.\<close>

definition ident_start :: "char \<Rightarrow> bool" where
  "ident_start c \<longleftrightarrow>
     (let n = (of_char c :: nat) in (97 \<le> n \<and> n \<le> 122) \<or> (65 \<le> n \<and> n \<le> 90) \<or> n = 95)"

definition ident_char :: "char \<Rightarrow> bool" where
  "ident_char c \<longleftrightarrow> ident_start c \<or> (let n = (of_char c :: nat) in 48 \<le> n \<and> n \<le> 57)"

definition simple_key :: "string \<Rightarrow> bool" where
  "simple_key s \<longleftrightarrow> (case s of [] \<Rightarrow> False | c # cs \<Rightarrow> ident_start c \<and> list_all ident_char cs)"

text \<open>Backslashes first, then quotes, each preceded by a backslash.\<close>

definition escape_key :: "string \<Rightarrow> string" where
  "escape_key s =
     (let bs = concat (map (\<lambda>c. if c = CHR 0x5C then [CHR 0x5C, CHR 0x5C] else [c]) s)
      in concat (map (\<lambda>c. if c = CHR 0x27 then [CHR 0x5C, CHR 0x27] else [c]) bs))"

fun json_path_part :: "key \<Rightarrow> string" where
  "json_path_part (KNum n) = ''['' @ nat_str n @ '']''"
| "json_path_part (KStr s) =
     (if simple_key s then ''.'' @ s
      else ''['' @ [CHR 0x27] @ escape_key s @ [CHR 0x27] @ '']'')"

definition pathArrayToJsonPath :: "key list \<Rightarrow> string" where
  "pathArrayToJsonPath pathArray =
     (if length pathArray = 0 then ''$''
      else if length pathArray = 1 then ''$''
      else fold (\<lambda>part jsonPath. jsonPath @ json_path_part part) (drop 1 pathArray) ''$'')"

section \<open>The row estimate\<close>

function countJsonRows :: "json \<Rightarrow> nat" where
  "countJsonRows v = (case v of
       JNull \<Rightarrow> 0
     | JUndefined \<Rightarrow> 0
     | JString _ \<Rightarrow> 1
     | JNumber _ \<Rightarrow> 1
     | JBool _ \<Rightarrow> 1
     | JArray xs \<Rightarrow> 1 + sum_list (map countJsonRows xs)
     | JObject kvs \<Rightarrow> 1 + sum_list (map (\<lambda>(_, x). countJsonRows x) kvs))"
  by pat_completeness auto
termination
proof (relation "measure size", goal_cases)
  case 1
  then show ?case by simp
next
  case (2 v xs x)
  then have "size x \<le> size_list size xs" by (intro size_list_estimation') auto
  with 2 show ?case by simp
next
  case (3 v kvs kx k x)
  then have "size x \<le> size_list (size_prod (\<lambda>x. 0) size) kvs"
    by (intro size_list_estimation' [where x = "(k, x)"]) auto
  with 3 show ?case by simp
qed

declare countJsonRows.simps [simp del]

definition exceedsRowThreshold :: "json \<Rightarrow> nat \<Rightarrow> bool" where
  "exceedsRowThreshold v threshold \<longleftrightarrow> countJsonRows v > threshold"

section \<open>The width estimate\<close>

record width_config =
  charWidthPx :: rat
  indentSizePx :: rat
  extraBufferPx :: rat

definition getValueDisplayLength :: "json \<Rightarrow> nat" where
  "getValueDisplayLength v = (case v of
       JNull \<Rightarrow> 4
     | JUndefined \<Rightarrow> 9
     | JBool b \<Rightarrow> (if b then 4 else 5)
     | JNumber n \<Rightarrow> length n
     | JString s \<Rightarrow> length s + 2
     | JArray xs \<Rightarrow> length (''Array('' @ nat_str (length xs) @ '')'')
     | JObject kvs \<Rightarrow>
         (let keys = map fst kvs in
          if length keys = 0 then 2
          else if length keys = 1 then length (hd keys) + 2
          else length (''{'' @ nat_str (length keys) @ '' keys}'')))"

section \<open>The tree of paths of a value\<close>

text \<open>
  The specification side: the value with its path at the root, and below it the trees of
  its children. Identifiers in the viewer are the joined paths; \<open>dotless_json\<close> says that no
  key contains the separator (and that an object's keys are distinct, as they always are),
  which makes the identifiers distinct.
\<close>

function json_rose :: "key list \<Rightarrow> json \<Rightarrow> (key list \<times> json) rose" where
  "json_rose p v = Rose (p, v) (map (\<lambda>(k, c). json_rose (p @ [k]) c) (getChildren v))"
  by pat_completeness auto
termination
  by (relation "measure (size \<circ> snd)") (auto dest: size_getChildren)

declare json_rose.simps [simp del]

lemma label_json_rose [simp]: "label (json_rose p v) = (p, v)"
  by (simp add: json_rose.simps)

definition path_ids :: "key list \<Rightarrow> json \<Rightarrow> string list" where
  "path_ids p v = map (joinPath \<circ> fst) (preorder (json_rose p v))"

fun dotless_json :: "json \<Rightarrow> bool" where
  "dotless_json (JArray xs) \<longleftrightarrow> (\<forall>x \<in> set xs. dotless_json x)"
| "dotless_json (JObject kvs) \<longleftrightarrow>
     distinct (map fst kvs) \<and> (\<forall>(k, x) \<in> set kvs. CHR ''.'' \<notin> set k \<and> dotless_json x)"
| "dotless_json _ \<longleftrightarrow> True"

subsection \<open>Decimal renderings\<close>

definition str_nat :: "string \<Rightarrow> nat" where
  "str_nat s = foldl (\<lambda>n c. 10 * n + (of_char c - 48)) 0 s"

lemma of_char_digit [simp]: "d < 10 \<Longrightarrow> (of_char (digit_char d) :: nat) = 48 + d"
  by (simp add: digit_char_def)

lemma str_nat_nat_str [simp]: "str_nat (nat_str n) = n"
proof (induction n rule: nat_str.induct)
  case (1 n)
  show ?case
  proof (cases "n < 10")
    case True
    then show ?thesis by (subst nat_str.simps) (simp add: str_nat_def)
  next
    case False
    then have "str_nat (nat_str n) = 10 * str_nat (nat_str (n div 10)) + n mod 10"
      by (subst nat_str.simps) (simp add: str_nat_def)
    with False 1 show ?thesis by (metis div_mult_mod_eq mult.commute)
  qed
qed

lemma nat_str_inj [simp]: "nat_str m = nat_str n \<longleftrightarrow> m = n"
  by (metis str_nat_nat_str)

lemma digit_not_dot: "d < 10 \<Longrightarrow> digit_char d \<noteq> CHR ''.''"
proof
  assume "d < 10" "digit_char d = CHR ''.''"
  then have "48 + d = (of_char (CHR ''.'') :: nat)" by (metis of_char_digit)
  then show False by simp
qed

lemma nat_str_dotless [simp]: "CHR ''.'' \<notin> set (nat_str n)"
proof (induction n rule: nat_str.induct)
  case (1 n)
  have "digit_char (n mod 10) \<noteq> CHR ''.''" by (rule digit_not_dot) simp
  with 1 show ?case by (subst nat_str.simps) (auto dest: digit_not_dot)
qed

subsection \<open>Distinct identifiers\<close>

lemma comp_pair: "f \<circ> (\<lambda>(k, c). g k c) = (\<lambda>(k, c). f (g k c))"
  by auto

lemma array_key_strs:
  "map (key_str \<circ> fst) (map (\<lambda>(i, x). (KNum i, x)) (enumerate n xs)) = map nat_str [n..<n + length xs]"
  by (induction xs arbitrary: n) (simp_all add: upt_conv_Cons del: upt_Suc)

lemma object_key_strs: "map (key_str \<circ> fst) (map (\<lambda>(k, x). (KStr k, x)) kvs) = map fst kvs"
  by (induction kvs) auto

lemma children_keys_distinct:
  assumes "dotless_json v"
  shows "distinct (map (key_str \<circ> fst) (getChildren v))"
proof (cases v)
  case (JArray xs)
  have "distinct (map nat_str [0..<length xs])" by (simp add: distinct_map inj_on_def)
  moreover have "map (key_str \<circ> fst) (getChildren v) = map nat_str [0..<length xs]"
    unfolding JArray getChildren.simps using array_key_strs [of 0 xs] by simp
  ultimately show ?thesis by simp
next
  case (JObject kvs)
  have "map (key_str \<circ> fst) (getChildren v) = map fst kvs"
    unfolding JObject getChildren.simps by (rule object_key_strs)
  moreover from assms JObject have "distinct (map fst kvs)" by simp
  ultimately show ?thesis by simp
qed simp_all

lemma children_dotless:
  assumes "dotless_json v" and "(k, c) \<in> set (getChildren v)"
  shows "CHR ''.'' \<notin> set (key_str k) \<and> dotless_json c"
proof (cases v)
  case (JArray xs)
  with assms(2) obtain i where "k = KNum i" "c \<in> set xs" by (auto simp: in_set_enumerate_eq)
  with JArray assms(1) show ?thesis by simp
next
  case (JObject kvs)
  with assms(2) obtain s where "k = KStr s" "(s, c) \<in> set kvs" by auto
  with JObject assms(1) show ?thesis by auto
qed (use assms in simp_all)

lemma json_rose_prefix:
  "(q, w) \<in> set (preorder (json_rose p v)) \<Longrightarrow> \<exists>r. q = p @ r"
proof (induction p v rule: json_rose.induct)
  case (1 p v)
  from 1(2) consider "q = p" |
    k c where "(k, c) \<in> set (getChildren v)" "(q, w) \<in> set (preorder (json_rose (p @ [k]) c))"
    by (subst (asm) json_rose.simps) auto
  then show ?case
  proof cases
    case 1
    then show ?thesis by simp
  next
    case (2 k c)
    from "1.IH" [OF 2(1) refl 2(2)] obtain r where "q = (p @ [k]) @ r" by blast
    then show ?thesis by simp
  qed
qed

lemma json_rose_dotless:
  "(q, w) \<in> set (preorder (json_rose p v)) \<Longrightarrow> dotless_json v \<Longrightarrow>
   \<forall>k \<in> set p. CHR ''.'' \<notin> set (key_str k) \<Longrightarrow> \<forall>k \<in> set q. CHR ''.'' \<notin> set (key_str k)"
proof (induction p v rule: json_rose.induct)
  case (1 p v)
  from 1(2) consider "q = p" |
    k c where "(k, c) \<in> set (getChildren v)" "(q, w) \<in> set (preorder (json_rose (p @ [k]) c))"
    by (subst (asm) json_rose.simps) auto
  then show ?case
  proof cases
    case 1
    with "1.prems" show ?thesis by simp
  next
    case (2 k c)
    from children_dotless [OF "1.prems"(2) 2(1)]
    have k: "CHR ''.'' \<notin> set (key_str k)" and c: "dotless_json c" by blast+
    from k "1.prems"(3) have "\<forall>k' \<in> set (p @ [k]). CHR ''.'' \<notin> set (key_str k')" by simp
    from "1.IH" [OF 2(1) refl 2(2) c this] show ?thesis .
  qed
qed

lemma distinct_concat_blocks:
  assumes "\<And>x. x \<in> set xs \<Longrightarrow> distinct (f x)"
    and "\<And>x y. x \<in> set xs \<Longrightarrow> y \<in> set xs \<Longrightarrow> g x \<noteq> g y \<Longrightarrow> set (f x) \<inter> set (f y) = {}"
    and "distinct (map g xs)"
  shows "distinct (concat (map f xs))"
  using assms
proof (induction xs)
  case Nil
  then show ?case by simp
next
  case (Cons x xs)
  then have "distinct (concat (map f xs))" by simp
  moreover have "set (f x) \<inter> set (f y) = {}" if "y \<in> set xs" for y
    using Cons.prems(3) that by (intro Cons.prems(2)) auto
  ultimately show ?case using Cons.prems(1) by auto
qed

lemma distinct_str_paths:
  "dotless_json v \<Longrightarrow> distinct (map (map key_str \<circ> fst) (preorder (json_rose p v)))"
proof (induction p v rule: json_rose.induct)
  case (1 p v)
  let ?f = "\<lambda>(k, c). map (map key_str \<circ> fst) (preorder (json_rose (p @ [k]) c))"
  have pre: "\<exists>r. s = map key_str p @ key_str k # r"
    if "s \<in> set (?f (k, c))" for s k c
    using that by (auto dest!: json_rose_prefix)
  have "distinct (concat (map ?f (getChildren v)))"
  proof (rule distinct_concat_blocks [where g = "key_str \<circ> fst"])
    show "distinct (?f x)" if "x \<in> set (getChildren v)" for x
    proof -
      obtain k c where x: "x = (k, c)" by (cases x)
      with that 1(2) have "dotless_json c" using children_dotless by blast
      with 1(1) [of "(k, c)" k c] that x show ?thesis by (simp add: comp_def)
    qed
    show "set (?f x) \<inter> set (?f y) = {}"
      if "(key_str \<circ> fst) x \<noteq> (key_str \<circ> fst) y" for x y
    proof -
      obtain k c k' c' where [simp]: "x = (k, c)" "y = (k', c')" by (cases x; cases y)
      { fix s assume "s \<in> set (?f x)" "s \<in> set (?f y)"
        then have "s \<in> set (?f (k, c))" "s \<in> set (?f (k', c'))" by simp_all
        then obtain r r' where "s = map key_str p @ key_str k # r" "s = map key_str p @ key_str k' # r'"
          using pre by blast
        with that have False by simp }
      then show ?thesis by blast
    qed
    show "distinct (map (key_str \<circ> fst) (getChildren v))"
      using 1 by (simp add: children_keys_distinct)
  qed
  moreover have "map key_str p \<notin> set (concat (map ?f (getChildren v)))"
    using pre by fastforce
  ultimately show ?case
    by (subst json_rose.simps) (simp add: map_concat comp_pair)
qed

lemma path_ids_distinct:
  assumes "dotless_json v" and "\<forall>k \<in> set p. CHR ''.'' \<notin> set (key_str k)" and "p \<noteq> []"
  shows "distinct (path_ids p v)"
proof -
  let ?ps = "preorder (json_rose p v)"
  have "inj_on (js_join ''.'') (set (map (map key_str \<circ> fst) ?ps))"
  proof (rule inj_onI)
    fix a b
    assume a: "a \<in> set (map (map key_str \<circ> fst) ?ps)" and b: "b \<in> set (map (map key_str \<circ> fst) ?ps)"
      and eq: "js_join ''.'' a = js_join ''.'' b"
    have ok: "c \<noteq> [] \<and> (\<forall>s \<in> set c. CHR ''.'' \<notin> set s)"
      if "c \<in> set (map (map key_str \<circ> fst) ?ps)" for c
      using that assms(3) json_rose_prefix [of _ _ p v] json_rose_dotless [OF _ assms(1,2)] by fastforce
    show "a = b" using js_join_inj [OF eq] ok [OF a] ok [OF b] by blast
  qed
  with distinct_str_paths [OF assms(1)] show ?thesis
    by (simp add: path_ids_def distinct_map joinPath_def comp_def inj_on_def)
qed

subsection \<open>The counts agree with the tree\<close>

lemma sum_list_pairs_cong:
  "(\<And>k c. (k, c) \<in> set xs \<Longrightarrow> f k c = g k c) \<Longrightarrow>
   sum_list (map (\<lambda>(k, c). f k c) xs) = sum_list (map (\<lambda>(k, c). g k c) xs)"
  by (intro arg_cong [where f = sum_list] map_cong) auto

lemma length_concat_pairs:
  "length (concat (map (\<lambda>(k, c). f k c) xs)) = sum_list (map (\<lambda>(k, c). length (f k c)) xs)"
  by (induction xs) auto

lemma length_json_rose: "length (preorder (json_rose p v)) = 1 + countAllDescendants v"
proof (induction p v rule: json_rose.induct)
  case (1 p v)
  have "sum_list (map (\<lambda>(k, c). length (preorder (json_rose (p @ [k]) c))) (getChildren v))
      = sum_list (map (\<lambda>(k, c). 1 + countAllDescendants c) (getChildren v))"
    using 1 by (intro sum_list_pairs_cong) auto
  then show ?case
    by (subst json_rose.simps, subst countAllDescendants_children)
      (simp add: length_concat_pairs comp_pair)
qed

text \<open>The values \<open>countJsonRows\<close> gives no row.\<close>

definition is_nullish :: "json \<Rightarrow> bool" where
  "is_nullish v \<longleftrightarrow> v = JNull \<or> v = JUndefined"

definition nullish_nodes :: "json \<Rightarrow> nat" where
  "nullish_nodes v = length (filter (is_nullish \<circ> snd) (preorder (json_rose [] v)))"

lemma sum_enumerate: "sum_list (map (\<lambda>(_, c). f c) (map (\<lambda>(i, x). (KNum i, x)) (enumerate n xs))) = sum_list (map f xs)"
  by (induction xs arbitrary: n) (auto simp: comp_pair)

lemma sum_entries: "sum_list (map (\<lambda>(_, c). f c) (map (\<lambda>(k, x). (KStr k, x)) kvs)) = sum_list (map (\<lambda>(_, c). f c) kvs)"
  by (induction kvs) auto

lemma countJsonRows_children:
  "countJsonRows v =
     (if is_nullish v then 0 else 1 + sum_list (map (\<lambda>(_, c). countJsonRows c) (getChildren v)))"
proof (cases v)
  case (JArray xs)
  have "sum_list (map (\<lambda>(_, c). countJsonRows c) (getChildren v)) = sum_list (map countJsonRows xs)"
    unfolding JArray getChildren.simps by (rule sum_enumerate)
  with JArray show ?thesis by (subst countJsonRows.simps) (simp add: is_nullish_def)
next
  case (JObject kvs)
  have "sum_list (map (\<lambda>(_, c). countJsonRows c) (getChildren v)) = sum_list (map (\<lambda>(_, c). countJsonRows c) kvs)"
    unfolding JObject getChildren.simps by (rule sum_entries)
  with JObject show ?thesis by (subst countJsonRows.simps) (simp add: is_nullish_def)
qed (subst countJsonRows.simps, simp add: is_nullish_def)+

lemma filter_concat_pairs:
  "length (filter P (concat (map (\<lambda>(k, c). f k c) xs))) = sum_list (map (\<lambda>(k, c). length (filter P (f k c))) xs)"
  by (induction xs) auto

lemma nullish_no_children: "is_nullish v \<Longrightarrow> getChildren v = []"
  by (auto simp: is_nullish_def)

lemma countJsonRows_rose:
  "countJsonRows v = length (filter (\<lambda>x. \<not> is_nullish (snd x)) (preorder (json_rose p v)))"
proof (induction p v rule: json_rose.induct)
  case (1 p v)
  have "sum_list (map (\<lambda>(k, c). length (filter (\<lambda>x. \<not> is_nullish (snd x)) (preorder (json_rose (p @ [k]) c)))) (getChildren v))
      = sum_list (map (\<lambda>(k, c). countJsonRows c) (getChildren v))"
    by (intro sum_list_pairs_cong) (use 1 in auto)
  then show ?case
    by (subst countJsonRows_children, subst json_rose.simps)
      (simp add: nullish_no_children filter_concat_pairs comp_pair)
qed

lemma count_rows_plus_nullish: "countJsonRows v + nullish_nodes v = 1 + countAllDescendants v"
  unfolding nullish_nodes_def countJsonRows_rose [of v "[]"] length_json_rose [of "[]" v, symmetric]
  by (simp add: comp_def sum_length_filter_compl add.commute)

end
