(* ===== verification/Tree_Store.thy ===== *)
theory Tree_Store imports Json_Value begin

text \<open>
  The viewer's tree nodes (\<open>TreeNode\<close> and \<open>TreeState\<close> of
  \<^verbatim>\<open>AdvancedJsonViewer/utils/treeStructure.ts\<close>) as objects in a store. The code's
  nodes are mutable objects that point to their parent and to their children and are shared
  between \<open>rootNode\<close>, \<open>nodeMap\<close> and \<open>allNodes\<close>; the store is a function from
  addresses to node records with an allocation counter, and a node's address is its identity.

  \<open>tree_at h p t\<close> says that the objects below the address \<open>label t\<close> form the tree
  \<open>t\<close> whose root has the parent pointer \<open>p\<close>; \<open>node_ok\<close> is the local contract of
  the navigation offsets, and \<open>offsets_ok\<close> that contract on every node of a tree.
\<close>

type_synonym addr = nat

datatype node_kind = Meta | Section_Header | Section_Footer | Section_Spacer | Json_Node

record tnode =
  node_id :: string
  node_key :: key
  pathArray :: "key list"
  node_value :: json
  node_type :: json_type
  depth :: int
  parentNode :: "addr option"
  children :: "addr list"
  childCount :: nat
  isExpandable :: bool
  isExpanded :: bool
  userExpand :: "bool option"
  childOffsets :: "nat list"
  visibleDescendantCount :: nat
  totalDescendantCount :: "nat option"
  absoluteLineNumber :: nat
  indexInParent :: nat
  isLastChild :: bool
  nodeType :: "node_kind option"
  sectionKey :: "string option"
  backgroundColor :: "string option"
  sectionLineNumber :: "nat option"
  minHeight :: "string option"
  spacerHeight :: "rat option"

record store =
  cell :: "addr \<Rightarrow> tnode"
  next_addr :: addr

record tree_state =
  rootNode :: addr
  nodeMap :: "string \<rightharpoonup> addr"
  allNodes :: "addr list"
  totalNodeCount :: nat
  maxDepth :: int
  maxContentWidth :: rat

abbreviation upd_cell :: "addr \<Rightarrow> (tnode \<Rightarrow> tnode) \<Rightarrow> store \<Rightarrow> store" where
  "upd_cell a f h \<equiv> h\<lparr>cell := (cell h)(a := f (cell h a))\<rparr>"

definition alloc :: "tnode \<Rightarrow> store \<Rightarrow> addr \<times> store" where
  "alloc n h = (next_addr h, \<lparr>cell = (cell h)(next_addr h := n), next_addr = Suc (next_addr h)\<rparr>)"

section \<open>Trees in the store\<close>

primrec tree_at :: "(addr \<Rightarrow> tnode) \<Rightarrow> addr option \<Rightarrow> addr rose \<Rightarrow> bool" where
  "tree_at c p (Rose a ts) \<longleftrightarrow>
     parentNode (c a) = p \<and> children (c a) = map label ts \<and> list_all (tree_at c (Some a)) ts"

text \<open>Two stores with the same links hold the same trees.\<close>

definition same_links :: "(addr \<Rightarrow> tnode) \<Rightarrow> (addr \<Rightarrow> tnode) \<Rightarrow> bool" where
  "same_links c c' \<longleftrightarrow> (\<forall>a. children (c' a) = children (c a) \<and> parentNode (c' a) = parentNode (c a))"

lemma same_links_refl [simp]: "same_links c c"
  by (simp add: same_links_def)

lemma same_links_trans: "same_links c d \<Longrightarrow> same_links d e \<Longrightarrow> same_links c e"
  by (simp add: same_links_def)

lemma same_links_upd [simp]:
  "children n = children (c a) \<Longrightarrow> parentNode n = parentNode (c a) \<Longrightarrow> same_links c (c(a := n))"
  by (simp add: same_links_def)

lemma tree_at_links: "same_links c c' \<Longrightarrow> tree_at c' p t \<longleftrightarrow> tree_at c p t"
proof (induction t arbitrary: p)
  case (Rose a ts)
  then have "list_all (tree_at c' (Some a)) ts \<longleftrightarrow> list_all (tree_at c (Some a)) ts"
    by (simp add: list_all_iff)
  with Rose show ?case by (simp add: same_links_def)
qed

lemma tree_at_children: "tree_at c p (Rose a ts) \<Longrightarrow> children (c a) = map label ts"
  by simp

lemma tree_at_sub: "tree_at c p (Rose a ts) \<Longrightarrow> t \<in> set ts \<Longrightarrow> tree_at c (Some a) t"
  by (simp add: list_all_iff)

text \<open>Inside a tree the parent pointer is the inverse of the child links.\<close>

lemma tree_parent_of_child:
  "tree_at c p t \<Longrightarrow> a \<in> set (preorder t) \<Longrightarrow> b \<in> set (children (c a)) \<Longrightarrow>
   parentNode (c b) = Some a \<and> b \<in> set (preorder t)"
proof (induction t arbitrary: p)
  case (Rose r ts)
  show ?case
  proof (cases "a = r")
    case True
    with Rose.prems obtain t where "t \<in> set ts" "b = label t" by auto
    with Rose.prems True show ?thesis by (cases t) (fastforce simp: list_all_iff)
  next
    case False
    with Rose.prems obtain t where t: "t \<in> set ts" "a \<in> set (preorder t)" by auto
    with Rose.prems have "tree_at c (Some r) t" by (simp add: list_all_iff)
    with Rose.IH t Rose.prems have "parentNode (c b) = Some a \<and> b \<in> set (preorder t)" by blast
    with t show ?thesis by auto
  qed
qed

section \<open>Visible rows and offsets\<close>

text \<open>The rows shown for a subtree: its root, and its children's rows when it is expanded.\<close>

primrec visible :: "(addr \<Rightarrow> tnode) \<Rightarrow> addr rose \<Rightarrow> addr list" where
  "visible c (Rose a ts) = a # (if isExpanded (c a) then concat (map (visible c) ts) else [])"

text \<open>The expanded part of a tree as a tree.\<close>

primrec prune :: "(addr \<Rightarrow> tnode) \<Rightarrow> addr rose \<Rightarrow> addr rose" where
  "prune c (Rose a ts) = Rose a (if isExpanded (c a) then map (prune c) ts else [])"

definition child_rows :: "(addr \<Rightarrow> tnode) \<Rightarrow> addr \<Rightarrow> nat list" where
  "child_rows c a = map (\<lambda>b. 1 + visibleDescendantCount (c b)) (children (c a))"

definition node_ok :: "(addr \<Rightarrow> tnode) \<Rightarrow> addr \<Rightarrow> bool" where
  "node_ok c a \<longleftrightarrow>
     childOffsets (c a) = (if isExpanded (c a) then psums (child_rows c a) else []) \<and>
     visibleDescendantCount (c a) = (if isExpanded (c a) then sum_list (child_rows c a) else 0)"

definition offsets_ok :: "(addr \<Rightarrow> tnode) \<Rightarrow> addr rose \<Rightarrow> bool" where
  "offsets_ok c t \<longleftrightarrow> (\<forall>a \<in> set (preorder t). node_ok c a)"

lemma offsets_ok_sub: "offsets_ok c (Rose a ts) \<Longrightarrow> t \<in> set ts \<Longrightarrow> offsets_ok c t"
  by (auto simp: offsets_ok_def)

lemma offsets_ok_root: "offsets_ok c t \<Longrightarrow> node_ok c (label t)"
  by (simp add: offsets_ok_def)

lemma visible_prune: "visible c t = preorder (prune c t)"
  by (induction t) (auto intro!: arg_cong [where f = concat])

lemma label_prune [simp]: "label (prune c t) = label t"
  by (cases t) simp

lemma hd_visible [simp]: "visible c t ! 0 = label t"
  by (cases t) simp

lemma set_visible: "set (visible c t) \<subseteq> set (preorder t)"
  by (induction t) auto

lemma length_visible:
  "tree_at c p t \<Longrightarrow> offsets_ok c t \<Longrightarrow> length (visible c t) = 1 + visibleDescendantCount (c (label t))"
proof (induction t arbitrary: p)
  case (Rose a ts)
  have "length (visible c t) = 1 + visibleDescendantCount (c (label t))" if "t \<in> set ts" for t
    using Rose.IH [OF that tree_at_sub [OF Rose.prems(1) that] offsets_ok_sub [OF Rose.prems(2) that]] .
  then have "map length (map (visible c) ts) = child_rows c a"
    using Rose.prems(1) by (simp add: child_rows_def)
  then have "length (concat (map (visible c) ts)) = sum_list (child_rows c a)"
    by (simp add: length_concat)
  with offsets_ok_root [OF Rose.prems(2)] show ?case by (simp add: node_ok_def)
qed

lemma child_rows_visible:
  assumes "tree_at c p (Rose a ts)" "offsets_ok c (Rose a ts)"
  shows "child_rows c a = map (length \<circ> visible c) ts"
proof -
  have "length (visible c t) = 1 + visibleDescendantCount (c (label t))" if "t \<in> set ts" for t
    using length_visible [OF tree_at_sub [OF assms(1) that] offsets_ok_sub [OF assms(2) that]] .
  with assms(1) show ?thesis by (simp add: child_rows_def)
qed

text \<open>A write that leaves links, expansion and row counts alone keeps the offsets.\<close>

lemma node_ok_cong:
  "children (c' a) = children (c a) \<Longrightarrow> isExpanded (c' a) = isExpanded (c a) \<Longrightarrow>
   childOffsets (c' a) = childOffsets (c a) \<Longrightarrow>
   visibleDescendantCount (c' a) = visibleDescendantCount (c a) \<Longrightarrow>
   (\<And>b. b \<in> set (children (c a)) \<Longrightarrow> visibleDescendantCount (c' b) = visibleDescendantCount (c b)) \<Longrightarrow>
   node_ok c' a \<longleftrightarrow> node_ok c a"
  by (simp add: node_ok_def child_rows_def cong: map_cong)

lemma child_rows_upd_other:
  "b \<notin> set (children (c a)) \<Longrightarrow> children (c' a) = children (c a) \<Longrightarrow>
   (\<And>x. x \<noteq> b \<Longrightarrow> c' x = c x) \<Longrightarrow> child_rows c' a = child_rows c a"
  unfolding child_rows_def by (rule map_cong) (simp, metis)

section \<open>A sample tree\<close>

text \<open>
  The stored tree of \<open>{"a": [7], "b": null}\<close>, expanded, for the witnesses: the root 0,
  its children 1 and 3, and the array element 2.
\<close>

definition blank_node :: "addr option \<Rightarrow> addr list \<Rightarrow> string \<Rightarrow> tnode" where
  "blank_node p cs i = \<lparr>node_id = i, node_key = KStr i, pathArray = [KStr i], node_value = JNull,
     node_type = TNull, depth = 0, parentNode = p, children = cs, childCount = length cs,
     isExpandable = (cs \<noteq> []), isExpanded = False, userExpand = None, childOffsets = [],
     visibleDescendantCount = 0, totalDescendantCount = None, absoluteLineNumber = 0,
     indexInParent = 0, isLastChild = False, nodeType = None, sectionKey = None,
     backgroundColor = None, sectionLineNumber = None, minHeight = None, spacerHeight = None\<rparr>"

definition sample_cell :: "addr \<Rightarrow> tnode" where
  "sample_cell a =
     (if a = 0 then (blank_node None [1, 3] ''r'')\<lparr>isExpanded := True, childOffsets := [2, 3],
        visibleDescendantCount := 3\<rparr>
      else if a = 1 then (blank_node (Some 0) [2] ''r.a'')\<lparr>isExpanded := True, childOffsets := [1],
        visibleDescendantCount := 1\<rparr>
      else if a = 2 then blank_node (Some 1) [] ''r.a.0''
      else blank_node (Some 0) [] ''r.b'')"

definition sample_rose :: "addr rose" where
  "sample_rose = Rose 0 [Rose 1 [Rose 2 []], Rose 3 []]"

lemma sample_tree: "tree_at sample_cell None sample_rose"
  by (simp add: sample_rose_def sample_cell_def blank_node_def)

lemma sample_offsets: "offsets_ok sample_cell sample_rose"
  by (simp add: offsets_ok_def sample_rose_def node_ok_def child_rows_def sample_cell_def blank_node_def)

lemma sample_label: "label sample_rose = 0"
  by (simp add: sample_rose_def)

lemma sample_distinct: "distinct (preorder sample_rose)"
  by (simp add: sample_rose_def)

lemma sample_visible: "visible sample_cell sample_rose = [0, 1, 2, 3]"
  by (simp add: sample_rose_def sample_cell_def blank_node_def)

lemma sample_ids: "distinct (map (node_id \<circ> sample_cell) (visible sample_cell sample_rose))"
  by (simp add: sample_visible sample_cell_def blank_node_def)

end
