(* ===== verification/Tree_Navigation.thy ===== *)
theory Tree_Navigation imports Tree_Store begin

text \<open>
  \<^verbatim>\<open>AdvancedJsonViewer/utils/treeNavigation.ts\<close>: finding the node shown at a row
  by binary search over the cumulative offsets, the inverse search by identifier, the list
  of visible nodes, and the validators. All of it reads the store and never writes it, so the
  definitions take the cells only. A loop that would not end is \<open>None\<close>; an out-of-range
  read of \<open>childOffsets\<close> (\<open>undefined\<close> in the code) does not happen where \<open>offsets_ok\<close>
  holds.
\<close>

section \<open>getNodeByIndex\<close>

text \<open>The inner binary search: the least child whose offset reaches the index.\<close>

function offset_search :: "nat list \<Rightarrow> int \<Rightarrow> nat \<Rightarrow> nat \<Rightarrow> nat" where
  "offset_search offs r left right =
     (if left < right then
        (let mid = (left + right) div 2 in
         if r \<le> int (offs ! mid) then offset_search offs r left mid
         else offset_search offs r (mid + 1) right)
      else left)"
  by pat_completeness auto
termination
  by (relation "measure (\<lambda>(offs, r, left, right). right - left)") auto

declare offset_search.simps [simp del]

definition child_index :: "nat list \<Rightarrow> int \<Rightarrow> nat" where
  "child_index offs r =
     (if r \<le> int (offs ! 0) then 0 else offset_search offs r 0 (length offs - 1))"

function getNodeByIndex_loop :: "(addr \<Rightarrow> tnode) \<Rightarrow> addr \<Rightarrow> int \<Rightarrow> addr option" where
  "getNodeByIndex_loop c currentNode remainingIndex =
     (if remainingIndex > 0 then
        (if \<not> isExpanded (c currentNode) \<or> length (childOffsets (c currentNode)) = 0 then None
         else
           (let offs = childOffsets (c currentNode);
                childs = children (c currentNode);
                childIndex = child_index offs remainingIndex;
                previousOffset = (if childIndex > 0 then offs ! (childIndex - 1) else 0)
            in if childIndex < length childs
               then getNodeByIndex_loop c (childs ! childIndex)
                      (remainingIndex - int previousOffset - 1)
               else None))
      else Some currentNode)"
  by pat_completeness auto
termination
  by (relation "measure (\<lambda>(c, a, r). nat r)") auto

declare getNodeByIndex_loop.simps [simp del]

definition getNodeByIndex :: "(addr \<Rightarrow> tnode) \<Rightarrow> addr \<Rightarrow> int \<Rightarrow> addr option" where
  "getNodeByIndex c rn index = (if index < 0 then None else getNodeByIndex_loop c rn index)"

definition getVisibleRowCount :: "(addr \<Rightarrow> tnode) \<Rightarrow> addr \<Rightarrow> nat" where
  "getVisibleRowCount c rn = 1 + visibleDescendantCount (c rn)"

subsection \<open>Correctness of the searches\<close>

lemma offset_search_spec:
  assumes "left \<le> right" "right < length offs" "\<And>i j. i \<le> j \<Longrightarrow> j < length offs \<Longrightarrow> offs ! i \<le> offs ! j"
  shows "left \<le> offset_search offs r left right \<and> offset_search offs r left right \<le> right \<and>
    (\<forall>j. left \<le> j \<longrightarrow> j < offset_search offs r left right \<longrightarrow> int (offs ! j) < r) \<and>
    (offset_search offs r left right < right \<longrightarrow> r \<le> int (offs ! offset_search offs r left right))"
  using assms
proof (induction offs r left right rule: offset_search.induct)
  case (1 offs r left right)
  show ?case
  proof (cases "left < right")
    case False
    then have "offset_search offs r left right = left"
      by (simp add: offset_search.simps [of offs r left right])
    with False "1.prems" show ?thesis by simp
  next
    case True
    define mid where "mid = (left + right) div 2"
    have mid: "left \<le> mid" "mid < right" using True by (auto simp: mid_def)
    show ?thesis
    proof (cases "r \<le> int (offs ! mid)")
      case le: True
      have eq: "offset_search offs r left right = offset_search offs r left mid"
        using True le by (simp add: offset_search.simps [of offs r left right] mid_def Let_def)
      have "left \<le> offset_search offs r left mid \<and> offset_search offs r left mid \<le> mid \<and>
        (\<forall>j. left \<le> j \<longrightarrow> j < offset_search offs r left mid \<longrightarrow> int (offs ! j) < r) \<and>
        (offset_search offs r left mid < mid \<longrightarrow> r \<le> int (offs ! offset_search offs r left mid))"
        using "1.IH"(1) [OF True mid_def le] mid "1.prems" by auto
      with eq mid le show ?thesis
        by (cases "offset_search offs r left mid = mid") auto
    next
      case gt: False
      have eq: "offset_search offs r left right = offset_search offs r (mid + 1) right"
        using True gt by (simp add: offset_search.simps [of offs r left right] mid_def Let_def)
      have ih: "mid + 1 \<le> offset_search offs r (mid + 1) right \<and> offset_search offs r (mid + 1) right \<le> right \<and>
        (\<forall>j. mid + 1 \<le> j \<longrightarrow> j < offset_search offs r (mid + 1) right \<longrightarrow> int (offs ! j) < r) \<and>
        (offset_search offs r (mid + 1) right < right \<longrightarrow> r \<le> int (offs ! offset_search offs r (mid + 1) right))"
        using "1.IH"(2) [OF True mid_def gt] mid "1.prems" by auto
      have "int (offs ! j) < r" if "left \<le> j" "j < offset_search offs r (mid + 1) right" for j
      proof (cases "j \<le> mid")
        case True
        then have "offs ! j \<le> offs ! mid" using "1.prems" mid by auto
        with gt show ?thesis by linarith
      next
        case False
        with ih that show ?thesis by simp
      qed
      with ih eq mid show ?thesis by auto
    qed
  qed
qed

text \<open>On running totals: the block the index falls into, the last one when it is past the end.\<close>

lemma child_index_spec:
  assumes "xs \<noteq> []" and "0 < r"
  defines "k \<equiv> child_index (psums xs) r"
  shows "k < length xs" and "int (sum_list (take k xs)) < r"
    and "k < length xs - 1 \<or> r \<le> int (psums xs ! 0) \<Longrightarrow> r \<le> int (sum_list (take (Suc k) xs))"
proof -
  have mono: "psums xs ! i \<le> psums xs ! j" if "i \<le> j" "j < length (psums xs)" for i j
    using that by (simp add: psums_mono)
  let ?s = "offset_search (psums xs) r 0 (length xs - 1)"
  have s: "?s \<le> length xs - 1" "\<forall>j < ?s. int (psums xs ! j) < r"
      "?s < length xs - 1 \<longrightarrow> r \<le> int (psums xs ! ?s)"
    using offset_search_spec [of 0 "length xs - 1" "psums xs" r] mono assms(1) by auto
  have k: "k = (if r \<le> int (psums xs ! 0) then 0 else ?s)"
    by (simp add: k_def child_index_def)
  have ne: "length xs - 1 < length xs" using assms(1) by simp
  show lt: "k < length xs"
  proof -
    have "?s < length xs" using s(1) ne by linarith
    with k assms(1) show ?thesis by simp
  qed
  show "int (sum_list (take k xs)) < r"
  proof (cases k)
    case 0
    with assms(2) show ?thesis by simp
  next
    case (Suc j)
    with k s have "int (psums xs ! j) < r" by (auto split: if_splits)
    with Suc lt show ?thesis by (simp add: nth_psums_from)
  qed
  assume "k < length xs - 1 \<or> r \<le> int (psums xs ! 0)"
  then have "r \<le> int (psums xs ! k)"
    using k s by (auto split: if_splits)
  with lt show "r \<le> int (sum_list (take (Suc k) xs))"
    by (simp add: nth_psums_from)
qed

lemma getNodeByIndex_loop_visible:
  "tree_at c p t \<Longrightarrow> offsets_ok c t \<Longrightarrow> 0 \<le> r \<Longrightarrow>
   getNodeByIndex_loop c (label t) r =
     (if nat r < length (visible c t) then Some (visible c t ! nat r) else None)"
proof (induction t arbitrary: p r)
  case (Rose a ts)
  note unfold = getNodeByIndex_loop.simps [of c a r]
  have vlen: "length (visible c (Rose a ts)) = 1 + visibleDescendantCount (c a)"
    using length_visible [OF Rose.prems(1,2)] by simp
  from Rose.prems have ok: "node_ok c a" by (simp add: offsets_ok_def)
  show ?case
  proof (cases "r = 0 \<or> \<not> isExpanded (c a) \<or> ts = []")
    case True
    with Rose.prems(1,3) ok vlen show ?thesis
      by (auto simp: unfold node_ok_def child_rows_def)
  next
    case False
    then have r: "0 < r" and ex: "isExpanded (c a)" and ne: "ts \<noteq> []" using Rose.prems(3) by auto
    define xs where "xs = child_rows c a"
    have ch: "children (c a) = map label ts" using Rose.prems(1) by simp
    have xs: "xs \<noteq> []" "length xs = length ts" "xs = map (length \<circ> visible c) ts"
      using child_rows_visible [OF Rose.prems(1,2)] ne by (auto simp: xs_def)
    have offs: "childOffsets (c a) = psums xs" using ok ex by (simp add: node_ok_def xs_def)
    define k where "k = child_index (psums xs) r"
    note kspec = child_index_spec [OF xs(1) r, folded k_def]
    then have kt: "k < length ts" using xs by simp
    define s where "s = sum_list (take k xs)"
    have prev: "(if k > 0 then psums xs ! (k - 1) else 0) = s"
      using kspec(1) by (auto simp: s_def nth_psums_from)
    have reduce: "getNodeByIndex_loop c a r =
        getNodeByIndex_loop c (label (ts ! k)) (r - int (if k > 0 then psums xs ! (k - 1) else 0) - 1)"
      using r ex xs(1) kt by (simp add: unfold offs ch Let_def k_def [symmetric] del: One_nat_def)
    have step: "getNodeByIndex_loop c a r = getNodeByIndex_loop c (label (ts ! k)) (r - int s - 1)"
      unfolding reduce prev by (rule refl)
    have sub: "ts ! k \<in> set ts" using kt by simp
    have s_lt: "int s < r" using kspec(2) by (simp add: s_def)
    have IH: "getNodeByIndex_loop c (label (ts ! k)) (r - int s - 1) =
        (if nat (r - int s - 1) < length (visible c (ts ! k))
         then Some (visible c (ts ! k) ! nat (r - int s - 1)) else None)"
      using s_lt
      by (intro Rose.IH [OF sub tree_at_sub [OF Rose.prems(1) sub] offsets_ok_sub [OF Rose.prems(2) sub]]) simp
    have vis: "visible c (Rose a ts) = a # concat (map (visible c) ts)" using ex by simp
    have blk: "s = sum_list (map length (take k (map (visible c) ts)))"
      by (simp add: s_def xs(3) take_map)
    have nth: "xs ! k = length (visible c (ts ! k))" using kt xs(3) by simp
    show ?thesis
    proof (cases "nat (r - int s - 1) < length (visible c (ts ! k))")
      case True
      have "nat r = Suc (s + nat (r - int s - 1))" using s_lt by simp
      moreover have "concat (map (visible c) ts) ! (s + nat (r - int s - 1)) =
            visible c (ts ! k) ! nat (r - int s - 1)"
          "s + nat (r - int s - 1) < length (concat (map (visible c) ts))"
        using nth_concat_block [of k "map (visible c) ts" "nat (r - int s - 1)"] True kt
        by (simp_all add: blk)
      ultimately show ?thesis using IH step True vis by simp
    next
      case False
      have "int (sum_list (take (Suc k) xs)) < r"
        using False s_lt nth kspec(1) by (simp add: s_def take_Suc_conv_app_nth)
      then have last: "k = length xs - 1" using kspec(1,3) by linarith
      then have "take (Suc k) xs = xs" using xs(1) by simp
      with \<open>int (sum_list (take (Suc k) xs)) < r\<close> have "int (sum_list xs) < r" by simp
      moreover have "sum_list xs = length (concat (map (visible c) ts))"
        by (simp add: xs(3) length_concat)
      ultimately have "\<not> nat r < length (visible c (Rose a ts))" using vis by simp
      with IH step False show ?thesis by simp
    qed
  qed
qed

lemma getNodeByIndex_visible:
  "tree_at c p t \<Longrightarrow> offsets_ok c t \<Longrightarrow>
   getNodeByIndex c (label t) i =
     (if 0 \<le> i \<and> nat i < length (visible c t) then Some (visible c t ! nat i) else None)"
  by (simp add: getNodeByIndex_def getNodeByIndex_loop_visible)

section \<open>Visible nodes\<close>

definition visible_body :: "(addr \<Rightarrow> tnode) \<Rightarrow> addr list \<Rightarrow> addr \<Rightarrow> addr list \<times> addr list" where
  "visible_body c nodes a =
     (nodes @ [a],
      if isExpanded (c a) \<and> length (children (c a)) > 0 then children (c a) else [])"

definition getAllVisibleNodes :: "(addr \<Rightarrow> tnode) \<Rightarrow> addr \<Rightarrow> addr list option" where
  "getAllVisibleNodes c rn = stack_loop (visible_body c) [] [rn]"

text \<open>The expanded part of a stored tree.\<close>

definition shown_tree :: "(addr \<Rightarrow> tnode) \<Rightarrow> addr rose \<Rightarrow> bool" where
  "shown_tree c t \<longleftrightarrow> (\<exists>u p. t = prune c u \<and> tree_at c p u)"

lemma shown_treeE:
  assumes "shown_tree c (Rose a ts)"
  obtains us p where "tree_at c p (Rose a us)" "ts = (if isExpanded (c a) then map (prune c) us else [])"
proof -
  from assms obtain u p where u: "Rose a ts = prune c u" "tree_at c p u"
    by (auto simp: shown_tree_def)
  obtain b us where b: "u = Rose b us" by (cases u)
  with u have "b = a" "ts = (if isExpanded (c a) then map (prune c) us else [])" by simp_all
  with u(2) b show ?thesis by (intro that) simp_all
qed

lemma shown_tree_children:
  "shown_tree c (Rose a ts) \<Longrightarrow>
   map label ts = (if isExpanded (c a) \<and> length (children (c a)) > 0 then children (c a) else [])"
proof -
  assume "shown_tree c (Rose a ts)"
  from shown_treeE [OF this] obtain us p
    where "tree_at c p (Rose a us)" "ts = (if isExpanded (c a) then map (prune c) us else [])" .
  then show ?thesis by (auto simp: comp_def)
qed

lemma shown_tree_sub: "shown_tree c (Rose a ts) \<Longrightarrow> t \<in> set ts \<Longrightarrow> shown_tree c t"
proof -
  assume "shown_tree c (Rose a ts)" and t: "t \<in> set ts"
  from shown_treeE [OF this(1)] obtain us p
    where u: "tree_at c p (Rose a us)" "ts = (if isExpanded (c a) then map (prune c) us else [])" .
  with t obtain u' where "u' \<in> set us" "t = prune c u'" by (auto split: if_splits)
  with tree_at_sub [OF u(1)] show ?thesis by (auto simp: shown_tree_def)
qed

interpretation shown: stack_walk "visible_body c" "\<lambda>nodes a. nodes @ [a]" "\<lambda>_. shown_tree c"
  for c
proof unfold_locales
  show "visible_body c s a = (s @ [a], map label ts)" if "shown_tree c (Rose a ts)" for s a ts
    using shown_tree_children [OF that] by (simp add: visible_body_def)
qed (auto intro: shown_tree_sub)

lemma fold_append: "fold (\<lambda>a xs. xs @ [a]) ys xs = xs @ ys"
  by (induction ys arbitrary: xs) auto

lemma getAllVisibleNodes_visible:
  assumes "tree_at c p t"
  shows "getAllVisibleNodes c (label t) = Some (visible c t)"
proof -
  have "shown_tree c (prune c t)" using assms by (auto simp: shown_tree_def)
  from shown.loop_tree [OF this, of "[]"] show ?thesis
    by (simp add: getAllVisibleNodes_def fold_append visible_prune)
qed

section \<open>The row of a node\<close>

text \<open>The children with the rows the loop computes for them from the offsets.\<close>

definition indexed_children :: "(addr \<Rightarrow> tnode) \<Rightarrow> addr \<Rightarrow> nat \<Rightarrow> (addr \<times> nat) list" where
  "indexed_children c a i =
     map (\<lambda>j. (children (c a) ! j,
               i + (if j = 0 then 1 else childOffsets (c a) ! (j - 1) + 1)))
       [0..<length (children (c a))]"

definition row_body :: "(addr \<Rightarrow> tnode) \<Rightarrow> (tnode \<Rightarrow> bool) \<Rightarrow> addr \<times> nat \<Rightarrow> nat + (addr \<times> nat) list" where
  "row_body c target ai = (case ai of (a, i) \<Rightarrow>
     if target (c a) then Inl i
     else Inr (if isExpanded (c a) \<and> length (children (c a)) > 0 then indexed_children c a i else []))"

definition row_result :: "nat option \<Rightarrow> int" where
  "row_result r = (case r of Some i \<Rightarrow> int i | None \<Rightarrow> -1)"

definition findNodeIndex :: "(addr \<Rightarrow> tnode) \<Rightarrow> addr \<Rightarrow> string \<Rightarrow> int option" where
  "findNodeIndex c rn targetId =
     map_option row_result (stack_find (row_body c (\<lambda>n. node_id n = targetId)) [(rn, 0)])"

definition findSectionHeaderIndex :: "(addr \<Rightarrow> tnode) \<Rightarrow> addr \<Rightarrow> string \<Rightarrow> int option" where
  "findSectionHeaderIndex c rn section_key =
     map_option row_result
       (stack_find (row_body c (\<lambda>n. nodeType n = Some Section_Header \<and> sectionKey n = Some section_key))
         [(rn, 0)])"

primrec row_tree :: "(addr \<Rightarrow> tnode) \<Rightarrow> addr rose \<Rightarrow> nat \<Rightarrow> (addr \<times> nat) rose" where
  "row_tree c (Rose a ts) = (\<lambda>i. Rose (a, i)
     (if isExpanded (c a)
      then map (\<lambda>(f, j). f (i + (if j = 0 then 1 else childOffsets (c a) ! (j - 1) + 1)))
             (zip (map (row_tree c) ts) [0..<length ts])
      else []))"

lemma label_row_tree [simp]: "label (row_tree c t i) = (label t, i)"
  by (cases t) simp

definition rows_from :: "(addr \<Rightarrow> tnode) \<Rightarrow> (addr \<times> nat) rose \<Rightarrow> bool" where
  "rows_from c t \<longleftrightarrow> (\<exists>u p i. t = row_tree c u i \<and> tree_at c p u)"

lemma row_tree_children:
  "tree_at c p (Rose a us) \<Longrightarrow>
   map label (subs (row_tree c (Rose a us) i)) =
     (if isExpanded (c a) \<and> length (children (c a)) > 0 then indexed_children c a i else [])"
proof -
  assume t: "tree_at c p (Rose a us)"
  then have ch: "children (c a) = map label us" by simp
  have "map label (map (\<lambda>(f, j). f (i + (if j = 0 then 1 else childOffsets (c a) ! (j - 1) + 1)))
         (zip (map (row_tree c) us) [0..<length us])) = indexed_children c a i"
    by (rule nth_equalityI) (simp_all add: indexed_children_def ch)
  with ch show ?thesis by (auto simp: indexed_children_def)
qed

lemma rows_fromE:
  assumes "rows_from c (Rose ai ts)"
  obtains a us p i where "ai = (a, i)" "ts = subs (row_tree c (Rose a us) i)" "tree_at c p (Rose a us)"
proof -
  from assms obtain u p i where u: "Rose ai ts = row_tree c u i" "tree_at c p u"
    by (auto simp: rows_from_def)
  obtain a us where "u = Rose a us" by (cases u)
  with u that show ?thesis by simp
qed

lemma rows_from_body:
  "rows_from c (Rose ai ts) \<Longrightarrow>
   row_body c P ai = (if P (c (fst ai)) then Inl (snd ai) else Inr (map label ts))"
proof -
  assume "rows_from c (Rose ai ts)"
  from rows_fromE [OF this] obtain a us p i
    where "ai = (a, i)" "ts = subs (row_tree c (Rose a us) i)" "tree_at c p (Rose a us)" .
  then show ?thesis using row_tree_children [of c p a us i] by (simp add: row_body_def)
qed

lemma rows_from_sub: "rows_from c (Rose ai ts) \<Longrightarrow> t \<in> set ts \<Longrightarrow> rows_from c t"
proof -
  assume "rows_from c (Rose ai ts)" and t: "t \<in> set ts"
  from rows_fromE [OF this(1)] obtain a us p i
    where u: "ts = subs (row_tree c (Rose a us) i)" "tree_at c p (Rose a us)" .
  let ?g = "\<lambda>(f, j). f (i + (if j = 0 then 1 else childOffsets (c a) ! (j - 1) + 1))"
  have "t \<in> ?g ` set (zip (map (row_tree c) us) [0..<length us])"
    using t u(1) by (simp split: if_splits)
  then obtain fj where fj: "fj \<in> set (zip (map (row_tree c) us) [0..<length us])" "t = ?g fj"
    by blast
  obtain f j where "fj = (f, j)" by (cases fj)
  with fj have f: "(f, j) \<in> set (zip (map (row_tree c) us) [0..<length us])" "t = ?g (f, j)"
    by simp_all
  from set_zip_leftD [OF f(1)] obtain u' where "u' \<in> set us" "f = row_tree c u'" by auto
  with f(2) tree_at_sub [OF u(2)] show ?thesis by (auto simp: rows_from_def)
qed

interpretation row_search: stack_search "row_body c P"
    "\<lambda>ai. if P (c (fst ai)) then Some (snd ai) else None" "rows_from c"
  for c P
  by unfold_locales (auto simp: rows_from_body intro: rows_from_sub)

lemma concat_zip_blocks:
  assumes "length starts = length xss"
    and "\<And>j. j < length xss \<Longrightarrow> starts ! j = n + sum_list (map length (take j xss))"
  shows "concat (map (\<lambda>(xs, s). zip xs [s..<s + length xs]) (zip xss starts)) =
    zip (concat xss) [n..<n + length (concat xss)]"
  using assms
proof (induction xss arbitrary: starts n)
  case Nil
  then show ?case by simp
next
  case (Cons xs xss)
  then obtain s ss where st: "starts = s # ss" "length ss = length xss" by (cases starts) auto
  have s: "s = n" using Cons.prems(2) [of 0] st by simp
  have ss: "ss ! j = n + length xs + sum_list (map length (take j xss))" if "j < length xss" for j
    using Cons.prems(2) [of "Suc j"] that st by simp
  from Cons.IH [OF st(2) ss]
  have "concat (map (\<lambda>(xs, s). zip xs [s..<s + length xs]) (zip xss ss)) =
      zip (concat xss) [n + length xs..<n + length xs + length (concat xss)]" by simp
  moreover have "[n..<n + (length xs + length (concat xss))] =
      [n..<n + length xs] @ [n + length xs..<n + length xs + length (concat xss)]"
    by (metis add.assoc le_add1 upt_add_eq_append)
  ultimately show ?case using s by (simp add: st zip_append)
qed

lemma preorder_row_tree:
  "tree_at c p t \<Longrightarrow> offsets_ok c t \<Longrightarrow>
   preorder (row_tree c t i) = zip (visible c t) [i..<i + length (visible c t)]"
proof (induction t arbitrary: p i)
  case (Rose a ts)
  show ?case
  proof (cases "isExpanded (c a)")
    case False
    then show ?thesis by simp
  next
    case True
    let ?s = "\<lambda>j. i + (if j = 0 then 1 else childOffsets (c a) ! (j - 1) + 1)"
    let ?xss = "map (visible c) ts"
    have xs: "child_rows c a = map length ?xss"
      using child_rows_visible [OF Rose.prems] by simp
    have offs: "childOffsets (c a) = psums (child_rows c a)"
      using offsets_ok_root [OF Rose.prems(2)] True by (simp add: node_ok_def)
    have start: "?s j = Suc i + sum_list (map length (take j ?xss))" if "j < length ts" for j
      using that by (cases j) (simp_all add: offs xs nth_psums_from take_map)
    have "concat (map preorder (subs (row_tree c (Rose a ts) i))) =
        concat (map (\<lambda>(xs, s). zip xs [s..<s + length xs]) (zip ?xss (map ?s [0..<length ts])))"
    proof (rule arg_cong [where f = concat], rule nth_equalityI)
      fix j
      assume "j < length (map preorder (subs (row_tree c (Rose a ts) i)))"
      then have j: "j < length ts" using True by simp
      then have m: "ts ! j \<in> set ts" by simp
      show "map preorder (subs (row_tree c (Rose a ts) i)) ! j =
          map (\<lambda>(xs, s). zip xs [s..<s + length xs]) (zip ?xss (map ?s [0..<length ts])) ! j"
        using Rose.IH [OF m tree_at_sub [OF Rose.prems(1) m] offsets_ok_sub [OF Rose.prems(2) m], of "?s j"]
          True j by simp
    qed (use True in simp)
    also have "\<dots> = zip (concat ?xss) [Suc i..<Suc i + length (concat ?xss)]"
    proof (rule concat_zip_blocks)
      show "map ?s [0..<length ts] ! j = Suc i + sum_list (map length (take j ?xss))"
        if "j < length ?xss" for j
      proof -
        have "map ?s [0..<length ts] ! j = ?s (0 + j)"
          by (rule nth_map_upt) (use that in simp)
        with start [of j] that show ?thesis by (simp only: add_0 length_map)
      qed
    qed simp
    finally have "concat (map preorder (subs (row_tree c (Rose a ts) i))) =
        zip (concat ?xss) [Suc i..<Suc i + length (concat ?xss)]" .
    moreover have "preorder (row_tree c (Rose a ts) i) =
        (a, i) # concat (map preorder (subs (row_tree c (Rose a ts) i)))" by simp
    moreover have "[i..<i + length (visible c (Rose a ts))] = i # [Suc i..<Suc i + length (concat ?xss)]"
      using True by (simp add: upt_conv_Cons del: upt_Suc)
    ultimately show ?thesis using True by simp
  qed
qed

lemma first_some_zip:
  "first_some (\<lambda>ai. if P (fst ai) then Some (snd ai) else None) (zip xs [n..<n + length xs]) =
    (if \<exists>x \<in> set xs. P x then Some (n + (LEAST k. k < length xs \<and> P (xs ! k))) else None)"
proof (induction xs arbitrary: n)
  case Nil
  then show ?case by simp
next
  case (Cons x xs)
  have upt: "[n..<n + length (x # xs)] = n # [Suc n..<Suc n + length xs]"
    by (simp add: upt_conv_Cons del: upt_Suc)
  show ?case
  proof (cases "P x")
    case True
    then have "(LEAST k. k < length (x # xs) \<and> P ((x # xs) ! k)) = 0" by (intro Least_equality) auto
    with True upt show ?thesis by simp
  next
    case False
    show ?thesis
    proof (cases "\<exists>y \<in> set xs. P y")
      case True
      then obtain k where k: "k < length xs" "P (xs ! k)" by (auto simp: in_set_conv_nth)
      have "(LEAST k. k < length (x # xs) \<and> P ((x # xs) ! k)) =
          Suc (LEAST k. k < length xs \<and> P (xs ! k))"
        using Least_Suc [of "\<lambda>k. k < length (x # xs) \<and> P ((x # xs) ! k)" "Suc k"] k False by simp
      with False True upt Cons.IH [of "Suc n"] show ?thesis by simp
    next
      case none: False
      with False upt Cons.IH [of "Suc n"] show ?thesis by simp
    qed
  qed
qed

section \<open>Ancestors\<close>

partial_function (option) path_loop :: "(addr \<Rightarrow> tnode) \<Rightarrow> addr option \<Rightarrow> addr list \<Rightarrow> addr list option" where
  "path_loop c current path =
     (case current of None \<Rightarrow> Some path | Some a \<Rightarrow> path_loop c (parentNode (c a)) (a # path))"

definition getPathToNode :: "(addr \<Rightarrow> tnode) \<Rightarrow> addr \<Rightarrow> addr list option" where
  "getPathToNode c a = path_loop c (Some a) []"

partial_function (option) visible_loop :: "(addr \<Rightarrow> tnode) \<Rightarrow> addr option \<Rightarrow> bool option" where
  "visible_loop c current =
     (case current of
        None \<Rightarrow> Some True
      | Some a \<Rightarrow> if \<not> isExpanded (c a) then Some False else visible_loop c (parentNode (c a)))"

definition isNodeVisible :: "(addr \<Rightarrow> tnode) \<Rightarrow> addr \<Rightarrow> bool option" where
  "isNodeVisible c a = visible_loop c (parentNode (c a))"

lemma visible_loop_simps [walk_simps]:
  "visible_loop c None = Some True"
  "visible_loop c (Some a) =
     (if \<not> isExpanded (c a) then Some False else visible_loop c (parentNode (c a)))"
  by (simp_all add: visible_loop.simps)

lemma path_loop_simps [walk_simps]:
  "path_loop c None path = Some path"
  "path_loop c (Some a) path = path_loop c (parentNode (c a)) (a # path)"
  by (simp_all add: path_loop.simps)

lemma visible_loop_tree:
  "tree_at c p t \<Longrightarrow> distinct (preorder t) \<Longrightarrow> a \<in> set (preorder t) \<Longrightarrow>
   visible_loop c (parentNode (c a)) =
     (if a \<in> set (visible c t) then visible_loop c p else Some False)"
proof (induction t arbitrary: p)
  case (Rose r ts)
  show ?case
  proof (cases "a = r")
    case True
    with Rose.prems show ?thesis by simp
  next
    case False
    with Rose.prems(3) obtain u where u: "u \<in> set ts" "a \<in> set (preorder u)" by auto
    have dist: "distinct (preorder u)" using Rose.prems(2) u(1) forest_distinct_sub by auto
    have sub: "tree_at c (Some r) u" using tree_at_sub [OF Rose.prems(1) u(1)] .
    have unique: "u' = u" if u': "u' \<in> set ts" "a \<in> set (preorder u')" for u'
      using forest_owner_unique [of ts u' u a] Rose.prems(2) u u' by simp
    have "a \<in> set (visible c (Rose r ts)) \<longleftrightarrow> isExpanded (c r) \<and> a \<in> set (visible c u)"
    proof -
      have "(\<exists>u' \<in> set ts. a \<in> set (visible c u')) \<longleftrightarrow> a \<in> set (visible c u)"
        using unique u(1) set_visible by blast
      with False show ?thesis by simp
    qed
    moreover have "parentNode (c r) = p" using Rose.prems(1) by simp
    ultimately show ?thesis
      using Rose.IH [OF u(1) sub dist u(2)] by (simp add: visible_loop_simps)
  qed
qed

lemma isNodeVisible_iff:
  "tree_at c None t \<Longrightarrow> distinct (preorder t) \<Longrightarrow> a \<in> set (preorder t) \<Longrightarrow>
   isNodeVisible c a = Some (a \<in> set (visible c t))"
  by (simp add: isNodeVisible_def visible_loop_tree visible_loop_simps)

lemma path_loop_tree:
  "tree_at c p t \<Longrightarrow> a \<in> set (preorder t) \<Longrightarrow>
   \<exists>xs. path_loop c (Some a) path = path_loop c p (xs @ path) \<and> xs \<noteq> [] \<and> hd xs = label t \<and>
     last xs = a \<and> set xs \<subseteq> set (preorder t) \<and>
     (\<forall>i. Suc i < length xs \<longrightarrow> parentNode (c (xs ! Suc i)) = Some (xs ! i))"
proof (induction t arbitrary: p a path)
  case (Rose r ts)
  show ?case
  proof (cases "a = r")
    case True
    with Rose.prems show ?thesis
      by (intro exI [of _ "[r]"]) (simp add: path_loop_simps)
  next
    case False
    with Rose.prems(2) obtain u where u: "u \<in> set ts" "a \<in> set (preorder u)" by auto
    have sub: "tree_at c (Some r) u" using tree_at_sub [OF Rose.prems(1) u(1)] .
    obtain xs where xs: "path_loop c (Some a) path = path_loop c (Some r) (xs @ path)" "xs \<noteq> []"
        "hd xs = label u" "last xs = a" "set xs \<subseteq> set (preorder u)"
        "\<forall>i. Suc i < length xs \<longrightarrow> parentNode (c (xs ! Suc i)) = Some (xs ! i)"
      using Rose.IH [OF u(1) sub u(2), of path] by blast
    have link: "parentNode (c (hd xs)) = Some r" using sub xs(3) by (cases u) simp
    have "parentNode (c ((r # xs) ! Suc i)) = Some ((r # xs) ! i)" if "Suc i < length (r # xs)" for i
      using that link xs(2,6) by (cases i) (auto simp: hd_conv_nth)
    moreover have "path_loop c (Some a) path = path_loop c p ((r # xs) @ path)"
      using xs(1) Rose.prems(1) by (simp add: path_loop_simps)
    ultimately show ?thesis
      using xs(2,4,5) u(1) by (intro exI [of _ "r # xs"]) auto
  qed
qed

section \<open>Validators\<close>

datatype offset_error = Offset_Length addr nat nat | Offset_Value addr nat nat nat

text \<open>The inner loop over the children: the first offset that is not the running total.\<close>

fun check_offsets :: "(addr \<Rightarrow> tnode) \<Rightarrow> addr \<Rightarrow> addr list \<Rightarrow> nat list \<Rightarrow> nat \<Rightarrow> nat \<Rightarrow> offset_error option" where
  "check_offsets c a (b # bs) (f # fs) i expectedCumulative =
     (let e = expectedCumulative + (1 + visibleDescendantCount (c b)) in
      if f \<noteq> e then Some (Offset_Value a i f e) else check_offsets c a bs fs (Suc i) e)"
| "check_offsets c a _ _ i expectedCumulative = None"

definition node_offset_error :: "(addr \<Rightarrow> tnode) \<Rightarrow> addr \<Rightarrow> offset_error option" where
  "node_offset_error c a =
     (if isExpanded (c a) \<and> length (children (c a)) > 0 then
        (if length (childOffsets (c a)) \<noteq> length (children (c a))
         then Some (Offset_Length a (length (childOffsets (c a))) (length (children (c a))))
         else check_offsets c a (children (c a)) (childOffsets (c a)) 0 0)
      else None)"

definition validate_body :: "(addr \<Rightarrow> tnode) \<Rightarrow> addr \<Rightarrow> offset_error + addr list" where
  "validate_body c a = (case node_offset_error c a of
       Some e \<Rightarrow> Inl e
     | None \<Rightarrow> Inr (if isExpanded (c a) \<and> length (children (c a)) > 0 then rev (children (c a)) else []))"

definition validateTreeOffsets :: "(addr \<Rightarrow> tnode) \<Rightarrow> addr \<Rightarrow> (offset_error + bool) option" where
  "validateTreeOffsets c rn =
     map_option (\<lambda>r. case r of Some e \<Rightarrow> Inl e | None \<Rightarrow> Inr True) (stack_find (validate_body c) [rn])"

lemma check_offsets_None:
  "length fs = length bs \<Longrightarrow>
   check_offsets c a bs fs i e = None \<longleftrightarrow> fs = psums_from e (map (\<lambda>b. 1 + visibleDescendantCount (c b)) bs)"
  by (induction c a bs fs i e rule: check_offsets.induct) (auto simp: Let_def)

lemma node_offset_error_None:
  "node_offset_error c a = None \<longleftrightarrow>
     (isExpanded (c a) \<and> children (c a) \<noteq> [] \<longrightarrow> childOffsets (c a) = psums (child_rows c a))"
proof (cases "isExpanded (c a) \<and> children (c a) \<noteq> []")
  case True
  show ?thesis
  proof (cases "length (childOffsets (c a)) = length (children (c a))")
    case len: True
    with True show ?thesis
      using check_offsets_None [OF len, of c a 0 0] by (simp add: node_offset_error_def child_rows_def)
  next
    case False
    then have "childOffsets (c a) \<noteq> psums (child_rows c a)"
      by (metis child_rows_def length_map length_psums_from)
    with True False show ?thesis by (simp add: node_offset_error_def)
  qed
qed (auto simp: node_offset_error_def)

interpretation validate: stack_search "validate_body c" "node_offset_error c"
    "\<lambda>t. shown_tree c (mirror t)" for c
proof unfold_locales
  fix a ts
  assume s: "shown_tree c (mirror (Rose a ts))"
  have "map label (rev (map mirror ts)) =
      (if isExpanded (c a) \<and> length (children (c a)) > 0 then children (c a) else [])"
    using shown_tree_children [of c a "rev (map mirror ts)"] s by simp
  then have "rev (map label (rev (map mirror ts))) =
      rev (if isExpanded (c a) \<and> length (children (c a)) > 0 then children (c a) else [])"
    by (rule arg_cong)
  then have "map label ts =
      (if isExpanded (c a) \<and> length (children (c a)) > 0 then rev (children (c a)) else [])"
    by (simp add: rev_map comp_def)
  then show "validate_body c a =
      (case node_offset_error c a of Some r \<Rightarrow> Inl r | None \<Rightarrow> Inr (map label ts))"
    by (simp only: validate_body_def)
next
  fix a ts t
  assume "shown_tree c (mirror (Rose a ts))" "t \<in> set ts"
  then show "shown_tree c (mirror t)" by (auto intro: shown_tree_sub)
qed

lemma first_some_None: "first_some f xs = None \<longleftrightarrow> (\<forall>x \<in> set xs. f x = None)"
  by (induction xs) (auto split: option.splits)

lemma validateTreeOffsets_result:
  assumes "tree_at c p t"
  shows "\<exists>r. validateTreeOffsets c (label t) = Some r \<and>
    (r = Inr True \<longleftrightarrow> (\<forall>a \<in> set (visible c t). node_offset_error c a = None))"
proof -
  have "shown_tree c (mirror (mirror (prune c t)))" using assms by (auto simp: shown_tree_def)
  from validate.find_tree [OF this]
  have "stack_find (validate_body c) [label t] =
      Some (first_some (node_offset_error c) (preorder (mirror (prune c t))))" by simp
  moreover have "first_some (node_offset_error c) (preorder (mirror (prune c t))) = None \<longleftrightarrow>
      (\<forall>a \<in> set (visible c t). node_offset_error c a = None)"
    by (simp add: first_some_None visible_prune)
  ultimately show ?thesis
    by (auto simp: validateTreeOffsets_def split: option.splits)
qed

datatype lookup_error = Lookup_Null nat addr | Lookup_Mismatch nat addr addr

fun validate_lookups :: "(addr \<Rightarrow> tnode) \<Rightarrow> addr \<Rightarrow> nat \<Rightarrow> addr list \<Rightarrow> lookup_error + bool" where
  "validate_lookups c rn i [] = Inr True"
| "validate_lookups c rn i (expected # rest) =
     (case getNodeByIndex c rn (int i) of
        None \<Rightarrow> Inl (Lookup_Null i expected)
      | Some actual \<Rightarrow>
          if node_id (c actual) \<noteq> node_id (c expected) then Inl (Lookup_Mismatch i expected actual)
          else validate_lookups c rn (Suc i) rest)"

definition validateGetNodeByIndex :: "(addr \<Rightarrow> tnode) \<Rightarrow> addr \<Rightarrow> (lookup_error + bool) option" where
  "validateGetNodeByIndex c rn = map_option (validate_lookups c rn 0) (getAllVisibleNodes c rn)"

definition getVisibleDepthRange :: "(addr \<Rightarrow> tnode) \<Rightarrow> addr \<Rightarrow> (int \<times> int) option" where
  "getVisibleDepthRange c rn =
     map_option (\<lambda>nodes. case nodes of
         [] \<Rightarrow> (0, 0)
       | a # rest \<Rightarrow> fold (\<lambda>b (lo, hi).
           (if depth (c b) < lo then depth (c b) else lo, if depth (c b) > hi then depth (c b) else hi))
           rest (depth (c a), depth (c a)))
       (getAllVisibleNodes c rn)"

lemma validate_lookups_ok:
  "(\<And>j. j < length xs \<Longrightarrow> getNodeByIndex c rn (int (i + j)) = Some (xs ! j)) \<Longrightarrow>
   validate_lookups c rn i xs = Inr True"
proof (induction xs arbitrary: i)
  case Nil
  then show ?case by simp
next
  case (Cons x xs)
  have "getNodeByIndex c rn (int (Suc i + j)) = Some (xs ! j)" if "j < length xs" for j
    using Cons.prems [of "Suc j"] that by simp
  then have "validate_lookups c rn (Suc i) xs = Inr True" by (rule Cons.IH)
  with Cons.prems [of 0] show ?case by simp
qed

lemma depth_range_fold:
  fixes d :: "addr \<Rightarrow> int"
  shows "fold (\<lambda>b (lo, hi). (if d b < lo then d b else lo, if d b > hi then d b else hi)) xs (lo, hi) =
    (fold min (map d xs) lo, fold max (map d xs) hi)"
  by (induction xs arbitrary: lo hi) (auto simp: min_def max_def)

text \<open>The shared loop of the two row searches finds the first visible node that passes.\<close>

definition first_row :: "(addr \<Rightarrow> tnode) \<Rightarrow> (tnode \<Rightarrow> bool) \<Rightarrow> addr list \<Rightarrow> int" where
  "first_row c P rows =
     (if \<exists>a \<in> set rows. P (c a) then int (LEAST k. k < length rows \<and> P (c (rows ! k))) else -1)"

lemma row_search_result:
  assumes "tree_at c p t" and "offsets_ok c t"
  shows "map_option row_result (stack_find (row_body c P) [(label t, 0)]) =
    Some (first_row c P (visible c t))"
proof -
  have "rows_from c (row_tree c t 0)" using assms(1) by (auto simp: rows_from_def)
  from row_search.find_tree [OF this, of P] show ?thesis
    using first_some_zip [of "\<lambda>a. P (c a)" "visible c t" 0]
    by (simp add: first_row_def row_result_def preorder_row_tree [OF assms])
qed

lemma first_row_unique:
  assumes "distinct (map (node_id \<circ> c) rows)" and "k < length rows"
  shows "first_row c (\<lambda>n. node_id n = node_id (c (rows ! k))) rows = int k"
proof -
  have eq: "node_id (c (rows ! j)) = node_id (c (rows ! k)) \<longleftrightarrow> j = k" if "j < length rows" for j
    using nth_eq_iff_index_eq [OF assms(1), of j k] that assms(2) by simp
  have "(LEAST j. j < length rows \<and> node_id (c (rows ! j)) = node_id (c (rows ! k))) = k"
    by (rule Least_equality) (use eq assms(2) in auto)
  with assms(2) show ?thesis by (auto simp: first_row_def)
qed

section \<open>Properties\<close>

text \<open>C10: on a tree whose offsets are consistent, the binary search of \<open>getNodeByIndex\<close>
  returns exactly the node a flat listing of the expanded tree has at that index, \<open>null\<close>
  for every index outside of it, and \<open>getVisibleRowCount\<close> is the length of that listing.\<close>

theorem getNodeByIndex_correct:
  assumes "tree_at c p t" and "offsets_ok c t"
  shows "getNodeByIndex c (label t) i =
      (if 0 \<le> i \<and> nat i < length (visible c t) then Some (visible c t ! nat i) else None) \<and>
    getVisibleRowCount c (label t) = length (visible c t)"
  using getNodeByIndex_visible [OF assms] length_visible [OF assms]
  by (simp add: getVisibleRowCount_def)

theorem getNodeByIndex_correct_witness:
  "getNodeByIndex sample_cell 0 2 = Some 2 \<and> getNodeByIndex sample_cell 0 4 = None \<and>
   getVisibleRowCount sample_cell 0 = 4"
  using getNodeByIndex_correct [OF sample_tree sample_offsets, of 2]
    getNodeByIndex_correct [OF sample_tree sample_offsets, of 4]
  by (simp add: sample_visible sample_label)

text \<open>\<open>findNodeIndex\<close> and \<open>findSectionHeaderIndex\<close> return, and their result is
  the row of the first visible node with the identifier (the first visible section header with
  the key), or -1 when no visible node qualifies; they compute the row from the cumulative
  offsets without listing the rows before it.\<close>

theorem findNodeIndex_correct:
  assumes "tree_at c p t" and "offsets_ok c t"
  shows "findNodeIndex c (label t) target =
      Some (first_row c (\<lambda>n. node_id n = target) (visible c t)) \<and>
    findSectionHeaderIndex c (label t) sk =
      Some (first_row c (\<lambda>n. nodeType n = Some Section_Header \<and> sectionKey n = Some sk) (visible c t))"
  by (simp add: findNodeIndex_def findSectionHeaderIndex_def row_search_result [OF assms])

theorem findNodeIndex_correct_witness:
  "findNodeIndex sample_cell 0 ''x'' = Some (-1) \<and> findSectionHeaderIndex sample_cell 0 ''in'' = Some (-1)"
  using findNodeIndex_correct [OF sample_tree sample_offsets, of "''x''" "''in''"]
  by (simp add: sample_visible sample_label first_row_def) (simp add: sample_cell_def blank_node_def)

text \<open>with distinct identifiers, \<open>findNodeIndex\<close> and \<open>getNodeByIndex\<close> are inverse to
  each other on the visible rows.\<close>

theorem row_roundtrip:
  assumes "tree_at c p t" and "offsets_ok c t"
    and "distinct (map (node_id \<circ> c) (visible c t))" and "k < length (visible c t)"
  shows "findNodeIndex c (label t) (node_id (c (visible c t ! k))) = Some (int k) \<and>
    getNodeByIndex c (label t) (int k) = Some (visible c t ! k)"
  using getNodeByIndex_visible [OF assms(1,2), of "int k"] assms(4)
  by (simp add: findNodeIndex_def row_search_result [OF assms(1,2)] first_row_unique [OF assms(3,4)])

theorem row_roundtrip_witness:
  "findNodeIndex sample_cell 0 ''r.b'' = Some 3 \<and> getNodeByIndex sample_cell 0 3 = Some 3"
  using row_roundtrip [OF sample_tree sample_offsets sample_ids, of 3]
  by (simp add: sample_visible sample_label) (simp add: sample_cell_def blank_node_def)

text \<open>walking the parent pointers ends. \<open>isNodeVisible\<close> holds exactly for the nodes of
  the flat listing, and \<open>getPathToNode\<close> is the chain of parent links from the root to the
  node.\<close>

theorem ancestor_walks:
  assumes "tree_at c None t" and "distinct (preorder t)" and "a \<in> set (preorder t)"
  shows "isNodeVisible c a = Some (a \<in> set (visible c t)) \<and>
    (\<exists>xs. getPathToNode c a = Some xs \<and> xs \<noteq> [] \<and> hd xs = label t \<and> last xs = a \<and>
       (\<forall>i. Suc i < length xs \<longrightarrow> parentNode (c (xs ! Suc i)) = Some (xs ! i)))"
proof -
  obtain xs where "path_loop c (Some a) [] = path_loop c None (xs @ [])" "xs \<noteq> []"
      "hd xs = label t" "last xs = a"
      "\<forall>i. Suc i < length xs \<longrightarrow> parentNode (c (xs ! Suc i)) = Some (xs ! i)"
    using path_loop_tree [OF assms(1,3), of "[]"] by blast
  with isNodeVisible_iff [OF assms] show ?thesis
    by (auto simp: getPathToNode_def path_loop_simps)
qed

theorem ancestor_walks_witness: "isNodeVisible sample_cell 2 = Some True"
  using ancestor_walks [OF sample_tree sample_distinct, of 2]
  by (simp add: sample_visible) (simp add: sample_rose_def)

text \<open>\<open>validateTreeOffsets\<close> ends and accepts a tree exactly when every expanded node it
  shows has the running totals of its children's row counts as offsets; and on a tree whose
  offsets are consistent \<open>validateGetNodeByIndex\<close> accepts.\<close>

theorem validators_correct:
  assumes "tree_at c p t"
  shows "(\<exists>r. validateTreeOffsets c (label t) = Some r \<and>
      (r = Inr True \<longleftrightarrow> (\<forall>a \<in> set (visible c t).
         isExpanded (c a) \<and> children (c a) \<noteq> [] \<longrightarrow> childOffsets (c a) = psums (child_rows c a)))) \<and>
    (offsets_ok c t \<longrightarrow> validateGetNodeByIndex c (label t) = Some (Inr True))"
proof -
  have "validate_lookups c (label t) 0 (visible c t) = Inr True" if "offsets_ok c t"
    by (rule validate_lookups_ok) (simp add: getNodeByIndex_visible [OF assms that])
  then show ?thesis
    using validateTreeOffsets_result [OF assms]
    by (simp add: validateGetNodeByIndex_def getAllVisibleNodes_visible [OF assms] node_offset_error_None)
qed

theorem validators_correct_witness: "validateGetNodeByIndex sample_cell 0 = Some (Inr True)"
  using validators_correct [OF sample_tree] sample_offsets by (simp add: sample_label)

end
