(* ===== verification/Tree_Expansion.thy ===== *)
theory Tree_Expansion imports Tree_Navigation begin

text \<open>
  \<^verbatim>\<open>AdvancedJsonViewer/utils/treeExpansion.ts\<close>: expanding and collapsing nodes in
  place and keeping the offsets of the ancestors up to date. Every operation takes the cells
  and returns the updated cells; \<open>None\<close> is a loop that does not end.
  The lemmas show which operations keep \<open>offsets_ok\<close>, the contract the row lookup of
  \<^verbatim>\<open>Tree_Navigation\<close> relies on, and which do not.
\<close>

type_synonym cells = "addr \<Rightarrow> tnode"

section \<open>Recomputing offsets\<close>

text \<open>The \<open>forEach\<close> loop over the children with its two running variables.\<close>

definition accumulate_offsets :: "cells \<Rightarrow> addr \<Rightarrow> nat list \<times> nat" where
  "accumulate_offsets c a =
     fold (\<lambda>b (offsets, cumulative).
         let cumulative' = cumulative + (1 + visibleDescendantCount (c b))
         in (offsets @ [cumulative'], cumulative'))
       (children (c a)) ([], 0)"

definition recomputeNodeOffsets :: "cells \<Rightarrow> addr \<Rightarrow> cells" where
  "recomputeNodeOffsets c a =
     (if \<not> isExpanded (c a) \<or> length (children (c a)) = 0
      then c(a := (c a)\<lparr>childOffsets := [], visibleDescendantCount := 0\<rparr>)
      else (case accumulate_offsets c a of (offsets, cumulative) \<Rightarrow>
        c(a := (c a)\<lparr>childOffsets := offsets, visibleDescendantCount := cumulative\<rparr>)))"

partial_function (option) propagateOffsetsUpward :: "cells \<Rightarrow> addr option \<Rightarrow> cells option" where
  "propagateOffsetsUpward c current =
     (case current of
        None \<Rightarrow> Some c
      | Some a \<Rightarrow>
          (let c' = recomputeNodeOffsets c a in propagateOffsetsUpward c' (parentNode (c' a))))"

lemma propagate_simps [walk_simps]:
  "propagateOffsetsUpward c None = Some c"
  "propagateOffsetsUpward c (Some a) =
     propagateOffsetsUpward (recomputeNodeOffsets c a) (parentNode (recomputeNodeOffsets c a a))"
  by (simp_all add: propagateOffsetsUpward.simps Let_def)

lemma accumulate_offsets_eq:
  "accumulate_offsets c a = (psums (child_rows c a), sum_list (child_rows c a))"
proof -
  have "fold (\<lambda>b (offsets, cumulative).
         let cumulative' = cumulative + (1 + visibleDescendantCount (c b))
         in (offsets @ [cumulative'], cumulative')) bs (os, n) =
       (os @ psums_from n (map (\<lambda>b. 1 + visibleDescendantCount (c b)) bs),
        n + sum_list (map (\<lambda>b. 1 + visibleDescendantCount (c b)) bs))" for bs os n
    by (induction bs arbitrary: os n) (simp_all add: Let_def)
  then show ?thesis by (simp add: accumulate_offsets_def child_rows_def)
qed

definition offset_values :: "cells \<Rightarrow> addr \<Rightarrow> nat list \<times> nat" where
  "offset_values c a =
     (if isExpanded (c a) then (psums (child_rows c a), sum_list (child_rows c a)) else ([], 0))"

lemma recompute_eq:
  "recomputeNodeOffsets c a =
     c(a := (c a)\<lparr>childOffsets := fst (offset_values c a), visibleDescendantCount := snd (offset_values c a)\<rparr>)"
  by (auto simp: recomputeNodeOffsets_def accumulate_offsets_eq offset_values_def child_rows_def)

text \<open>A node without its offsets: what recomputing offsets never changes.\<close>

definition core :: "tnode \<Rightarrow> tnode" where
  "core n = n\<lparr>childOffsets := [], visibleDescendantCount := 0\<rparr>"

definition only_offsets :: "cells \<Rightarrow> cells \<Rightarrow> bool" where
  "only_offsets c c' \<longleftrightarrow> (\<forall>a. core (c' a) = core (c a))"

lemma core_fields:
  assumes "core m = core n"
  shows "node_id m = node_id n" "children m = children n" "parentNode m = parentNode n"
    "isExpanded m = isExpanded n" "isExpandable m = isExpandable n" "userExpand m = userExpand n"
    "depth m = depth n"
proof -
  have "node_id (core m) = node_id (core n)" "children (core m) = children (core n)"
    "parentNode (core m) = parentNode (core n)" "isExpanded (core m) = isExpanded (core n)"
    "isExpandable (core m) = isExpandable (core n)" "userExpand (core m) = userExpand (core n)"
    "depth (core m) = depth (core n)"
    using assms by simp_all
  then show "node_id m = node_id n" "children m = children n" "parentNode m = parentNode n"
    "isExpanded m = isExpanded n" "isExpandable m = isExpandable n" "userExpand m = userExpand n"
    "depth m = depth n"
    by (simp_all add: core_def)
qed

lemma only_offsets_refl [simp]: "only_offsets c c"
  by (simp add: only_offsets_def)

lemma only_offsets_trans: "only_offsets c d \<Longrightarrow> only_offsets d e \<Longrightarrow> only_offsets c e"
  by (simp add: only_offsets_def)

lemma only_offsets_links: "only_offsets c c' \<Longrightarrow> same_links c c'"
  by (auto simp: only_offsets_def same_links_def dest: core_fields)

lemma only_offsets_expanded: "only_offsets c c' \<Longrightarrow> isExpanded (c' a) = isExpanded (c a)"
  by (auto simp: only_offsets_def dest: core_fields)

lemma recompute_only_offsets [simp]: "only_offsets c (recomputeNodeOffsets c a)"
  by (simp add: only_offsets_def recompute_eq core_def)

lemma recompute_node_ok: "a \<notin> set (children (c a)) \<Longrightarrow> node_ok (recomputeNodeOffsets c a) a"
proof -
  assume "a \<notin> set (children (c a))"
  then have "child_rows (recomputeNodeOffsets c a) a = child_rows c a"
    by (intro child_rows_upd_other [of a]) (auto simp: recompute_eq)
  moreover have "isExpanded (recomputeNodeOffsets c a a) = isExpanded (c a)"
    "childOffsets (recomputeNodeOffsets c a a) = fst (offset_values c a)"
    "visibleDescendantCount (recomputeNodeOffsets c a a) = snd (offset_values c a)"
    by (simp_all add: recompute_eq)
  ultimately show ?thesis by (simp add: node_ok_def offset_values_def)
qed

text \<open>A write to one cell can only break the contract of that cell and of its parents.\<close>

lemma node_ok_write:
  assumes "\<And>x. x \<noteq> a \<Longrightarrow> c' x = c x" and "b \<noteq> a" and "a \<notin> set (children (c b))"
  shows "node_ok c' b \<longleftrightarrow> node_ok c b"
proof (rule node_ok_cong)
  show "visibleDescendantCount (c' x) = visibleDescendantCount (c x)" if "x \<in> set (children (c b))" for x
    using assms(1) [of x] assms(3) that by (cases "x = a") auto
qed (use assms(1) [OF assms(2)] in simp_all)

section \<open>Propagation to the ancestors\<close>

definition ok_except :: "cells \<Rightarrow> addr rose \<Rightarrow> addr set \<Rightarrow> bool" where
  "ok_except c t S \<longleftrightarrow> (\<forall>b \<in> set (preorder t). node_ok c b \<or> b \<in> S)"

lemma ok_except_empty: "ok_except c t {} \<longleftrightarrow> offsets_ok c t"
  by (simp add: ok_except_def offsets_ok_def)

lemma tree_no_self_child:
  "tree_at c p t \<Longrightarrow> distinct (preorder t) \<Longrightarrow> a \<in> set (preorder t) \<Longrightarrow> a \<notin> set (children (c a))"
proof (induction t arbitrary: p)
  case (Rose r ts)
  show ?case
  proof (cases "a = r")
    case True
    have "label u \<noteq> r" if "u \<in> set ts" for u
      using Rose.prems(2) that label_in_preorder [of u] by auto
    with True Rose.prems(1) show ?thesis by auto
  next
    case False
    with Rose.prems(3) obtain u where u: "u \<in> set ts" "a \<in> set (preorder u)" by auto
    with Rose.prems(2) have "distinct (preorder u)" using forest_distinct_sub by auto
    with Rose.IH [OF u(1) tree_at_sub [OF Rose.prems(1) u(1)]] u(2) show ?thesis by blast
  qed
qed

lemma tree_parent_inside:
  "tree_at c p t \<Longrightarrow> a \<in> set (preorder t) \<Longrightarrow>
   parentNode (c a) = p \<or> (\<exists>b \<in> set (preorder t). parentNode (c a) = Some b)"
proof (induction t arbitrary: p)
  case (Rose r ts)
  show ?case
  proof (cases "a = r")
    case True
    with Rose.prems show ?thesis by simp
  next
    case False
    with Rose.prems(2) obtain u where u: "u \<in> set ts" "a \<in> set (preorder u)" by auto
    have "parentNode (c a) = Some r \<or> (\<exists>b \<in> set (preorder u). parentNode (c a) = Some b)"
      using Rose.IH [OF u(1) tree_at_sub [OF Rose.prems(1) u(1)] u(2)] .
    with u(1) show ?thesis by auto
  qed
qed

lemma recompute_ok_except:
  assumes "tree_at c p t" "distinct (preorder t)" "a \<in> set (preorder t)" "ok_except c t {a}"
  shows "ok_except (recomputeNodeOffsets c a) t (set_option (parentNode (c a)))"
  unfolding ok_except_def
proof
  fix b
  assume b: "b \<in> set (preorder t)"
  show "node_ok (recomputeNodeOffsets c a) b \<or> b \<in> set_option (parentNode (c a))"
  proof (cases "b = a")
    case True
    then show ?thesis
      using recompute_node_ok tree_no_self_child [OF assms(1-3)] by blast
  next
    case False
    then have ok: "node_ok c b" using assms(4) b by (auto simp: ok_except_def)
    show ?thesis
    proof (cases "a \<in> set (children (c b))")
      case True
      then have "parentNode (c a) = Some b" using tree_parent_of_child [OF assms(1) b] by blast
      then show ?thesis by simp
    next
      case no: False
      have "node_ok (recomputeNodeOffsets c a) b \<longleftrightarrow> node_ok c b"
        by (rule node_ok_write [where a = a]) (use False no in \<open>simp_all add: recompute_eq\<close>)
      with ok show ?thesis by simp
    qed
  qed
qed

text \<open>The induction behind the upward loop: below any node, given that continuing at the
  node's parent restores the contract, so does starting at a node of the subtree.\<close>

lemma propagate_sub:
  assumes t: "tree_at c0 p0 t" "distinct (preorder t)"
  shows "tree_at c0 p u \<Longrightarrow> set (preorder u) \<subseteq> set (preorder t) \<Longrightarrow>
    (\<And>c. same_links c0 c \<Longrightarrow> ok_except c t (set_option p) \<Longrightarrow>
       \<exists>c'. propagateOffsetsUpward c p = Some c' \<and> only_offsets c c' \<and> offsets_ok c' t) \<Longrightarrow>
    a \<in> set (preorder u) \<Longrightarrow> same_links c0 c \<Longrightarrow> ok_except c t {a} \<Longrightarrow>
    \<exists>c'. propagateOffsetsUpward c (Some a) = Some c' \<and> only_offsets c c' \<and> offsets_ok c' t"
proof (induction u arbitrary: p a c)
  case (Rose r ts)
  have start: "\<exists>c'. propagateOffsetsUpward c (Some r) = Some c' \<and> only_offsets c c' \<and> offsets_ok c' t"
    if c: "same_links c0 c" "ok_except c t {r}" for c
  proof -
    let ?c = "recomputeNodeOffsets c r"
    have links: "same_links c0 ?c"
      using c(1) only_offsets_links [OF recompute_only_offsets] same_links_trans by blast
    have par: "parentNode (c r) = p"
      using Rose.prems(1) c(1) by (simp add: same_links_def)
    have "ok_except ?c t (set_option p)"
      using recompute_ok_except [of c p0 t r] t c(2) par Rose.prems(2) tree_at_links [OF c(1)] by auto
    from Rose.prems(3) [OF links this] obtain c' where
      "propagateOffsetsUpward ?c p = Some c'" "only_offsets ?c c'" "offsets_ok c' t" by blast
    moreover have "parentNode (?c r) = p" using par by (simp add: recompute_eq)
    ultimately show ?thesis
      using only_offsets_trans [OF recompute_only_offsets] by (auto simp: propagate_simps)
  qed
  show ?case
  proof (cases "a = r")
    case True
    with start Rose.prems show ?thesis by blast
  next
    case False
    with Rose.prems(4) obtain u where u: "u \<in> set ts" "a \<in> set (preorder u)" by auto
    show ?thesis
    proof (rule Rose.IH [OF u(1) tree_at_sub [OF Rose.prems(1) u(1)] _ _ u(2) Rose.prems(5,6)])
      show "set (preorder u) \<subseteq> set (preorder t)" using Rose.prems(2) u(1) by auto
    qed (use start in auto)
  qed
qed

lemma propagate_restores:
  assumes "tree_at c None t" "distinct (preorder t)"
    and "a \<in> set (preorder t)" "ok_except c t (set_option (parentNode (c a)))"
  shows "\<exists>c'. propagateOffsetsUpward c (parentNode (c a)) = Some c' \<and> only_offsets c c' \<and> offsets_ok c' t"
proof (cases "parentNode (c a)")
  case None
  with assms(4) show ?thesis by (simp add: propagate_simps ok_except_empty)
next
  case (Some b)
  then have b: "b \<in> set (preorder t)" using tree_parent_inside [OF assms(1,3)] by auto
  have "\<exists>c'. propagateOffsetsUpward c (Some b) = Some c' \<and> only_offsets c c' \<and> offsets_ok c' t"
    by (rule propagate_sub [OF assms(1,2,1) _ _ b])
      (use assms(4) Some in \<open>auto simp: propagate_simps ok_except_empty\<close>)
  with Some show ?thesis by simp
qed

section \<open>Toggling one node\<close>

definition clear_offsets :: "cells \<Rightarrow> addr \<Rightarrow> cells" where
  "clear_offsets c a = c(a := (c a)\<lparr>childOffsets := [], visibleDescendantCount := 0\<rparr>)"

definition toggleNodeExpansion :: "tree_state \<Rightarrow> cells \<Rightarrow> string \<Rightarrow> cells option" where
  "toggleNodeExpansion T c nodeId = (case nodeMap T nodeId of
       None \<Rightarrow> Some c
     | Some a \<Rightarrow>
         if \<not> isExpandable (c a) then Some c
         else
           (let newExpanded = \<not> isExpanded (c a);
                c1 = c(a := (c a)\<lparr>isExpanded := newExpanded, userExpand := Some newExpanded\<rparr>);
                c2 = (if newExpanded then recomputeNodeOffsets c1 a else clear_offsets c1 a)
            in propagateOffsetsUpward c2 (parentNode (c2 a))))"

text \<open>The contract a single-node write must meet before the upward loop runs.\<close>

lemma local_change_ok_except:
  assumes t: "tree_at c None t" "distinct (preorder t)" "offsets_ok c t" "a \<in> set (preorder t)"
    and other: "\<And>b. b \<noteq> a \<Longrightarrow> c' b = c b"
    and links: "children (c' a) = children (c a)" "parentNode (c' a) = parentNode (c a)"
    and ok: "node_ok c' a"
  shows "tree_at c' None t" "ok_except c' t (set_option (parentNode (c' a)))"
proof -
  have sl: "same_links c c'"
    unfolding same_links_def using other links by metis
  then show "tree_at c' None t" using tree_at_links t(1) by blast
  show "ok_except c' t (set_option (parentNode (c' a)))"
    unfolding ok_except_def
  proof
    fix b
    assume b: "b \<in> set (preorder t)"
    consider "b = a" | "b \<noteq> a" "a \<in> set (children (c b))" | "b \<noteq> a" "a \<notin> set (children (c b))" by blast
    then show "node_ok c' b \<or> b \<in> set_option (parentNode (c' a))"
    proof cases
      case 1
      with ok show ?thesis by simp
    next
      case 2
      with tree_parent_of_child [OF t(1) b] links show ?thesis by simp
    next
      case 3
      with node_ok_write [of a c' c b] other t(3) b show ?thesis by (auto simp: offsets_ok_def)
    qed
  qed
qed

lemma toggle_works:
  assumes t: "tree_at c None t" "distinct (preorder t)" "offsets_ok c t"
    and a: "nodeMap T i = Some a" "a \<in> set (preorder t)" "isExpandable (c a)"
  shows "\<exists>c'. toggleNodeExpansion T c i = Some c' \<and> tree_at c' None t \<and> offsets_ok c' t \<and>
    only_offsets (c(a := (c a)\<lparr>isExpanded := \<not> isExpanded (c a), userExpand := Some (\<not> isExpanded (c a))\<rparr>)) c'"
proof -
  let ?e = "\<not> isExpanded (c a)"
  let ?c1 = "c(a := (c a)\<lparr>isExpanded := ?e, userExpand := Some ?e\<rparr>)"
  let ?c2 = "if ?e then recomputeNodeOffsets ?c1 a else clear_offsets ?c1 a"
  have no_self: "a \<notin> set (children (c a))" using tree_no_self_child [OF t(1,2) a(2)] .
  have ok: "node_ok ?c2 a"
    using recompute_node_ok [of a ?c1] no_self by (auto simp: node_ok_def clear_offsets_def)
  have oo: "only_offsets ?c1 ?c2"
    by (simp add: only_offsets_def recompute_eq clear_offsets_def core_def)
  have fields: "children (?c2 a) = children (c a)" "parentNode (?c2 a) = parentNode (c a)"
    by (simp_all add: recompute_eq clear_offsets_def)
  have other: "?c2 b = c b" if "b \<noteq> a" for b
    using that by (simp add: recompute_eq clear_offsets_def)
  note local = local_change_ok_except [of c t a ?c2, OF t a(2) other fields ok]
  obtain c' where c': "propagateOffsetsUpward ?c2 (parentNode (?c2 a)) = Some c'"
      "only_offsets ?c2 c'" "offsets_ok c' t"
    using propagate_restores [OF local(1) t(2) a(2) local(2)] by blast
  have "toggleNodeExpansion T c i = Some c'"
    using a c'(1) by (simp add: toggleNodeExpansion_def Let_def)
  moreover have "tree_at c' None t"
    using local(1) tree_at_links [OF only_offsets_links [OF c'(2)]] by blast
  ultimately show ?thesis using c'(2,3) only_offsets_trans [OF oo] by blast
qed

section \<open>Collapsing and expanding whole subtrees\<close>

definition collapse_node :: "tnode \<Rightarrow> tnode" where
  "collapse_node n = (if isExpandable n
     then n\<lparr>isExpanded := False, userExpand := Some False, childOffsets := [], visibleDescendantCount := 0\<rparr>
     else n)"

definition collapse_body :: "cells \<Rightarrow> addr \<Rightarrow> cells \<times> addr list" where
  "collapse_body c a =
     (c(a := collapse_node (c a)), if isExpandable (c a) then rev (children (c a)) else [])"

definition collapseAllDescendants :: "tree_state \<Rightarrow> cells \<Rightarrow> string \<Rightarrow> cells option" where
  "collapseAllDescendants T c nodeId = (case nodeMap T nodeId of
       None \<Rightarrow> Some c
     | Some a \<Rightarrow>
         (case stack_loop collapse_body c [a] of
            None \<Rightarrow> None
          | Some c' \<Rightarrow> propagateOffsetsUpward c' (parentNode (c' a))))"

definition expand_visit :: "cells \<Rightarrow> addr \<Rightarrow> cells" where
  "expand_visit c a = (if isExpandable (c a)
     then recomputeNodeOffsets (c(a := (c a)\<lparr>isExpanded := True, userExpand := Some True\<rparr>)) a
     else c)"

definition expand_body :: "cells \<Rightarrow> addr \<Rightarrow> cells \<times> addr list" where
  "expand_body c a =
     (expand_visit c a, if isExpandable (c a) then rev (children (c a)) else [])"

definition expandAllDescendants :: "tree_state \<Rightarrow> cells \<Rightarrow> string \<Rightarrow> cells option" where
  "expandAllDescendants T c nodeId = (case nodeMap T nodeId of
       None \<Rightarrow> Some c
     | Some a \<Rightarrow>
         (case stack_loop expand_body c [a] of
            None \<Rightarrow> None
          | Some c' \<Rightarrow> propagateOffsetsUpward c' (parentNode (c' a))))"

text \<open>
  Nodes with children or marked expanded are expandable: true of the trees
  \<open>buildTreeFromJSON\<close> makes, and kept by every operation here.
\<close>

definition expandable_ok :: "cells \<Rightarrow> addr rose \<Rightarrow> bool" where
  "expandable_ok c t \<longleftrightarrow>
     (\<forall>a \<in> set (preorder t). children (c a) \<noteq> [] \<or> isExpanded (c a) \<longrightarrow> isExpandable (c a))"

text \<open>A subtree pushed by \<open>forEach\<close> is walked right to left: it is the mirrored tree.\<close>

definition mirrored_at :: "cells \<Rightarrow> addr rose \<Rightarrow> bool" where
  "mirrored_at c t \<longleftrightarrow> (\<exists>p. tree_at c p (mirror t)) \<and>
     (\<forall>a \<in> set (preorder t). children (c a) \<noteq> [] \<longrightarrow> isExpandable (c a))"

lemma mirrored_children:
  assumes "mirrored_at c (Rose a ts)"
  shows "map label ts = (if isExpandable (c a) then rev (children (c a)) else [])"
proof -
  from assms have ch: "children (c a) = map label (rev (map mirror ts))"
    and e: "children (c a) \<noteq> [] \<longrightarrow> isExpandable (c a)"
    by (auto simp: mirrored_at_def)
  have "map label (rev (map mirror ts)) = rev (map label ts)" by (simp add: rev_map comp_def)
  with ch e show ?thesis by auto
qed

lemma mirrored_sub: "mirrored_at c (Rose a ts) \<Longrightarrow> t \<in> set ts \<Longrightarrow> mirrored_at c t"
  unfolding mirrored_at_def by (auto simp: list_all_iff)

lemma mirrored_write:
  assumes "mirrored_at c t" "children n = children (c a)" "parentNode n = parentNode (c a)"
    "isExpandable n = isExpandable (c a)"
  shows "mirrored_at (c(a := n)) t"
proof -
  have sl: "same_links c (c(a := n))" using assms(2,3) by simp
  show ?thesis
    unfolding mirrored_at_def tree_at_links [OF sl]
    using assms by (auto simp: mirrored_at_def)
qed

interpretation collapse_walk: stack_walk collapse_body "\<lambda>c a. c(a := collapse_node (c a))" mirrored_at
proof unfold_locales
  show "collapse_body c a = (c(a := collapse_node (c a)), map label ts)"
    if "mirrored_at c (Rose a ts)" for c a ts
    using mirrored_children [OF that] by (simp add: collapse_body_def)
  show "mirrored_at (c(a := collapse_node (c a))) t" if "mirrored_at c t" for c a t
    by (rule mirrored_write [OF that]) (simp_all add: collapse_node_def)
qed (auto intro: mirrored_sub)

interpretation expand_walk: stack_walk expand_body expand_visit mirrored_at
proof unfold_locales
  show "expand_body c a = (expand_visit c a, map label ts)"
    if "mirrored_at c (Rose a ts)" for c a ts
    using mirrored_children [OF that] by (simp add: expand_body_def)
  show "mirrored_at (expand_visit c a) t" if "mirrored_at c t" for c a t
  proof (cases "isExpandable (c a)")
    case True
    then show ?thesis
      using that by (auto simp: expand_visit_def recompute_eq intro!: mirrored_write)
  next
    case False
    with that show ?thesis by (simp add: expand_visit_def)
  qed
qed (auto intro: mirrored_sub)

lemma subtree_at:
  "tree_at c p t \<Longrightarrow> distinct (preorder t) \<Longrightarrow> a \<in> set (preorder t) \<Longrightarrow>
   \<exists>u. tree_at c (parentNode (c a)) u \<and> label u = a \<and> set (preorder u) \<subseteq> set (preorder t) \<and> distinct (preorder u)"
proof (induction t arbitrary: p)
  case (Rose r ts)
  show ?case
  proof (cases "a = r")
    case True
    with Rose.prems show ?thesis by (intro exI [of _ "Rose r ts"]) auto
  next
    case False
    with Rose.prems(3) obtain u where u: "u \<in> set ts" "a \<in> set (preorder u)" by auto
    with Rose.prems(2) have "distinct (preorder u)" using forest_distinct_sub by auto
    with Rose.IH [OF u(1) tree_at_sub [OF Rose.prems(1) u(1)]] u(2) obtain v where
      "tree_at c (parentNode (c a)) v" "label v = a" "set (preorder v) \<subseteq> set (preorder u)" "distinct (preorder v)"
      by blast
    with u(1) show ?thesis by (intro exI [of _ v]) auto
  qed
qed

lemma subtree_children:
  "tree_at c p u \<Longrightarrow> b \<in> set (preorder u) \<Longrightarrow> x \<in> set (children (c b)) \<Longrightarrow> x \<in> set (preorder u)"
  using tree_parent_of_child by blast

text \<open>A write inside a subtree can only break the contract of the subtree root's parent.\<close>

lemma subtree_change_ok_except:
  assumes t: "tree_at c None t" "distinct (preorder t)" "offsets_ok c t"
    and u: "tree_at c (parentNode (c a)) u" "label u = a" "set (preorder u) \<subseteq> set (preorder t)"
    and other: "\<And>b. b \<notin> set (preorder u) \<Longrightarrow> c' b = c b"
    and links: "same_links c c'"
    and ok: "\<And>b. b \<in> set (preorder u) \<Longrightarrow> node_ok c' b"
  shows "ok_except c' t (set_option (parentNode (c' a)))"
  unfolding ok_except_def
proof
  fix b
  assume b: "b \<in> set (preorder t)"
  have par: "parentNode (c' a) = parentNode (c a)" using links by (simp add: same_links_def)
  show "node_ok c' b \<or> b \<in> set_option (parentNode (c' a))"
  proof (cases "b \<in> set (preorder u)")
    case True
    with ok show ?thesis by simp
  next
    case out: False
    show ?thesis
    proof (cases "\<exists>x \<in> set (children (c b)). x \<in> set (preorder u)")
      case True
      then obtain x where x: "x \<in> set (children (c b))" "x \<in> set (preorder u)" by blast
      then have px: "parentNode (c x) = Some b" using tree_parent_of_child [OF t(1) b] by blast
      from tree_parent_inside [OF u(1) x(2)] px out have "parentNode (c a) = Some b" by auto
      with par show ?thesis by simp
    next
      case False
      have "node_ok c' b \<longleftrightarrow> node_ok c b"
        by (rule node_ok_cong) (use other out False in \<open>metis+\<close>)
      with t(3) b show ?thesis by (auto simp: offsets_ok_def)
    qed
  qed
qed

lemma collapse_node_idem: "collapse_node (collapse_node n) = collapse_node n"
  by (simp add: collapse_node_def)

lemma collapse_works:
  assumes t: "tree_at c None t" "distinct (preorder t)" "offsets_ok c t" "expandable_ok c t"
    and a: "nodeMap T i = Some a" "a \<in> set (preorder t)"
  shows "\<exists>c' u. collapseAllDescendants T c i = Some c' \<and> tree_at c' None t \<and> offsets_ok c' t \<and>
    tree_at c (parentNode (c a)) u \<and> label u = a \<and>
    (\<forall>b. isExpanded (c' b) = (isExpanded (c b) \<and> b \<notin> set (preorder u)))"
proof -
  obtain u where u: "tree_at c (parentNode (c a)) u" "label u = a"
      "set (preorder u) \<subseteq> set (preorder t)" "distinct (preorder u)"
    using subtree_at [OF t(1,2) a(2)] by blast
  let ?c1 = "\<lambda>b. if b \<in> set (preorder u) then collapse_node (c b) else c b"
  have "mirrored_at c (mirror u)"
    using u t(4) by (auto simp: mirrored_at_def expandable_ok_def)
  from collapse_walk.loop_tree [OF this]
  have loop: "stack_loop collapse_body c [a] = Some ?c1"
    by (simp add: u(2) fold_pointwise collapse_node_idem)
  have links: "same_links c ?c1" by (simp add: same_links_def collapse_node_def)
  have expanded: "isExpanded (?c1 b) = (isExpanded (c b) \<and> b \<notin> set (preorder u))" for b
    using t(4) u(3) by (auto simp: collapse_node_def expandable_ok_def)
  have ok: "node_ok ?c1 b" if b: "b \<in> set (preorder u)" for b
  proof -
    have "node_ok c b" using t(3) u(3) b by (auto simp: offsets_ok_def)
    moreover have "isExpanded (c b) \<longrightarrow> isExpandable (c b)" using t(4) u(3) b by (auto simp: expandable_ok_def)
    ultimately show ?thesis using b expanded [of b] by (auto simp: node_ok_def collapse_node_def)
  qed
  have exc: "ok_except ?c1 t (set_option (parentNode (?c1 a)))"
    by (rule subtree_change_ok_except [OF t(1-3) u(1-3) _ links ok]) auto
  have t1: "tree_at ?c1 None t" using t(1) tree_at_links [OF links] by blast
  obtain c' where c': "propagateOffsetsUpward ?c1 (parentNode (?c1 a)) = Some c'"
      "only_offsets ?c1 c'" "offsets_ok c' t"
    using propagate_restores [OF t1 t(2) a(2) exc] by blast
  moreover have "collapseAllDescendants T c i = Some c'"
    using a(1) c'(1) by (simp add: collapseAllDescendants_def loop)
  moreover have "tree_at c' None t"
    using t1 tree_at_links [OF only_offsets_links [OF c'(2)]] by blast
  moreover have "isExpanded (c' b) = (isExpanded (c b) \<and> b \<notin> set (preorder u))" for b
    using only_offsets_expanded [OF c'(2), of b] expanded [of b] by simp
  ultimately show ?thesis using u by blast
qed

section \<open>Passes over the nodes\<close>

text \<open>
  A pass visits a list of addresses with a step that rewrites one cell. \<open>core_pass\<close>: up to
  its offsets, the cell becomes a fixed idempotent function of what it was. \<open>offset_pass\<close>: the
  step also leaves the visited node's offsets right with respect to its children, so a pass in
  an order where children come first establishes the contract everywhere.
\<close>

locale core_pass =
  fixes step :: "cells \<Rightarrow> addr \<Rightarrow> cells"
    and upd :: "tnode \<Rightarrow> tnode"
  assumes step_other: "b \<noteq> a \<Longrightarrow> step c a b = c b"
    and step_core: "core (step c a a) = upd (core (c a))"
    and upd_idem: "upd (upd (core n)) = upd (core n)"
    and upd_links: "children (upd (core n)) = children n" "parentNode (upd (core n)) = parentNode n"
begin

abbreviation run :: "addr list \<Rightarrow> cells \<Rightarrow> cells" where
  "run xs c \<equiv> fold (\<lambda>a c. step c a) xs c"

lemma step_core_at: "core (step c a b) = (if b = a then upd (core (c b)) else core (c b))"
  using step_core step_other by (cases "b = a") simp_all

lemma run_core: "core (run xs c b) = (if b \<in> set xs then upd (core (c b)) else core (c b))"
proof (induction xs arbitrary: c)
  case Nil
  then show ?case by simp
next
  case (Cons x xs)
  then show ?case by (auto simp: step_core_at upd_idem)
qed

lemma run_other: "b \<notin> set xs \<Longrightarrow> run xs c b = c b"
  by (induction xs arbitrary: c) (auto simp: step_other)

lemma run_links: "same_links c (run xs c)"
proof -
  have core: "children (core n) = children n" "parentNode (core n) = parentNode n" for n
    by (simp_all add: core_def)
  have "children (core (run xs c a)) = children (c a) \<and> parentNode (core (run xs c a)) = parentNode (c a)" for a
    unfolding run_core by (simp add: core upd_links)
  then show ?thesis by (simp add: same_links_def core)
qed

end

text \<open>Every node of the list has its children before it (or in \<open>D\<close>).\<close>

fun child_first :: "cells \<Rightarrow> addr set \<Rightarrow> addr list \<Rightarrow> bool" where
  "child_first c D [] \<longleftrightarrow> True"
| "child_first c D (a # xs) \<longleftrightarrow>
     a \<notin> D \<and> set (children (c a)) \<subseteq> D \<and> child_first c (insert a D) xs"

lemma child_first_links: "same_links c c' \<Longrightarrow> child_first c' D xs \<longleftrightarrow> child_first c D xs"
  by (induction xs arbitrary: D) (auto simp: same_links_def)

lemma child_first_append:
  "child_first c D (xs @ ys) \<longleftrightarrow> child_first c D xs \<and> child_first c (D \<union> set xs) ys"
  by (induction xs arbitrary: D) (auto simp: insert_commute)

lemma child_first_mono:
  "child_first c D xs \<Longrightarrow> D \<subseteq> E \<Longrightarrow> E \<inter> set xs = {} \<Longrightarrow> distinct xs \<Longrightarrow> child_first c E xs"
proof (induction xs arbitrary: D E)
  case Nil
  then show ?case by simp
next
  case (Cons x xs)
  have "child_first c (insert x D) xs" "insert x D \<subseteq> insert x E" "insert x E \<inter> set xs = {}" "distinct xs"
    using Cons.prems by auto
  then have "child_first c (insert x E) xs" by (rule Cons.IH)
  with Cons.prems show ?case by auto
qed

lemma child_first_postorder:
  "tree_at c p t \<Longrightarrow> distinct (preorder t) \<Longrightarrow> child_first c {} (postorder t)"
proof (induction t arbitrary: p)
  case (Rose a ts)
  have forest: "child_first c {} (concat (map postorder us))"
    if "set us \<subseteq> set ts" "distinct (forest_preorder us)" for us
    using that
  proof (induction us)
    case Nil
    then show ?case by simp
  next
    case (Cons u us)
    then have u: "u \<in> set ts" "distinct (preorder u)" by auto
    then have one: "child_first c {} (postorder u)"
      using Rose.IH tree_at_sub [OF Rose.prems(1)] by blast
    have rest: "child_first c {} (concat (map postorder us))" using Cons by auto
    have "set (postorder u) \<inter> set (concat (map postorder us)) = {}"
      using Cons.prems(2) by auto
    moreover have "distinct (concat (map postorder us))"
      using Cons.prems(2) by (induction us) auto
    ultimately have "child_first c ({} \<union> set (postorder u)) (concat (map postorder us))"
      by (intro child_first_mono [OF rest]) auto
    with one show ?case by (simp add: child_first_append)
  qed
  have "child_first c {} (concat (map postorder ts))" using forest Rose.prems(2) by auto
  moreover have "a \<notin> set (concat (map postorder ts))" using Rose.prems(2) by auto
  moreover have "set (children (c a)) \<subseteq> set (concat (map postorder ts))"
    using Rose.prems(1) by auto
  ultimately show ?case by (simp add: child_first_append)
qed

locale offset_pass = core_pass +
  fixes Pre :: "tnode \<Rightarrow> bool"
  assumes step_ok: "Pre (c a) \<Longrightarrow> a \<notin> set (children (c a)) \<Longrightarrow> node_ok (step c a) a"
begin

lemma run_ok:
  "child_first c D xs \<Longrightarrow> \<forall>a \<in> set xs. Pre (c a) \<Longrightarrow> distinct xs \<Longrightarrow>
   \<forall>d \<in> D. node_ok c d \<and> set (children (c d)) \<subseteq> D \<Longrightarrow>
   \<forall>d \<in> D \<union> set xs. node_ok (run xs c) d"
proof (induction xs arbitrary: c D)
  case Nil
  then show ?case by simp
next
  case (Cons a xs)
  let ?c = "step c a"
  have links: "same_links c ?c" using run_links [of c "[a]"] by simp
  then have ch: "children (?c b) = children (c b)" for b by (simp add: same_links_def)
  have a: "a \<notin> D" "set (children (c a)) \<subseteq> D" using Cons.prems(1) by auto
  have "node_ok ?c a" using step_ok Cons.prems(2) a by auto
  moreover have "node_ok ?c d" if "d \<in> D" for d
  proof -
    have "d \<noteq> a" "a \<notin> set (children (c d))" using that a Cons.prems(4) by auto
    then have "node_ok ?c d \<longleftrightarrow> node_ok c d" using node_ok_write [of a ?c c d] step_other by blast
    with that Cons.prems(4) show ?thesis by simp
  qed
  ultimately have "\<forall>d \<in> insert a D. node_ok ?c d \<and> set (children (?c d)) \<subseteq> insert a D"
    using a Cons.prems(4) by (auto simp: ch)
  moreover have "child_first ?c (insert a D) xs"
    using Cons.prems(1) child_first_links [OF links] by simp
  moreover have "\<forall>b \<in> set xs. Pre (?c b)"
  proof
    fix b
    assume b: "b \<in> set xs"
    with Cons.prems(3) have "b \<noteq> a" by auto
    with b Cons.prems(2) show "Pre (?c b)" by (simp add: step_other)
  qed
  ultimately have "\<forall>d \<in> insert a D \<union> set xs. node_ok (run xs ?c) d"
    using Cons.IH [of ?c "insert a D"] Cons.prems(3) by simp
  then show ?case by simp
qed

lemma run_tree:
  assumes "tree_at c p t" "distinct (preorder t)" "\<forall>a \<in> set (preorder t). Pre (c a)"
  shows "offsets_ok (run (postorder t) c) t" "tree_at (run (postorder t) c) p t"
proof -
  have "\<forall>d \<in> {} \<union> set (postorder t). node_ok (run (postorder t) c) d"
    by (rule run_ok [OF child_first_postorder [OF assms(1,2)]]) (use assms in auto)
  then show "offsets_ok (run (postorder t) c) t" by (simp add: offsets_ok_def)
  show "tree_at (run (postorder t) c) p t"
    using tree_at_links [OF run_links] assms(1) by blast
qed

end

text \<open>Expanding every node of a subtree, before its children have been expanded.\<close>

definition expand_core :: "tnode \<Rightarrow> tnode" where
  "expand_core n = (if isExpandable n then n\<lparr>isExpanded := True, userExpand := Some True\<rparr> else n)"

interpretation expand_pass: core_pass expand_visit expand_core
  by unfold_locales (auto simp: expand_visit_def expand_core_def recompute_eq core_def)

lemma propagate_core:
  "propagateOffsetsUpward c p = Some c' \<Longrightarrow> only_offsets c c'"
proof -
  assume r: "propagateOffsetsUpward c p = Some c'"
  show ?thesis
  proof (rule propagateOffsetsUpward.raw_induct [where P = "\<lambda>c p c'. only_offsets c c'", OF _ r])
    fix f c p c'
    assume IH: "\<And>c p c'. f c p = Some c' \<Longrightarrow> only_offsets c c'"
      and eq: "(case p of None \<Rightarrow> Some c
        | Some a \<Rightarrow> let d = recomputeNodeOffsets c a in f d (parentNode (d a))) = Some c'"
    show "only_offsets c c'"
    proof (cases p)
      case None
      with eq show ?thesis by simp
    next
      case (Some a)
      with eq have "f (recomputeNodeOffsets c a) (parentNode (recomputeNodeOffsets c a a)) = Some c'"
        by (simp add: Let_def)
      from only_offsets_trans [OF recompute_only_offsets IH [OF this]] show ?thesis .
    qed
  qed
qed

lemma propagate_terminates:
  "tree_at c0 p u \<Longrightarrow> (\<And>c. same_links c0 c \<Longrightarrow> \<exists>c'. propagateOffsetsUpward c p = Some c') \<Longrightarrow>
   a \<in> set (preorder u) \<Longrightarrow> same_links c0 c \<Longrightarrow> \<exists>c'. propagateOffsetsUpward c (Some a) = Some c'"
proof (induction u arbitrary: p a c)
  case (Rose r ts)
  have start: "\<exists>c'. propagateOffsetsUpward c (Some r) = Some c'" if c: "same_links c0 c" for c
  proof -
    let ?c = "recomputeNodeOffsets c r"
    have links: "same_links c0 ?c"
      using c only_offsets_links [OF recompute_only_offsets] same_links_trans by blast
    moreover have "parentNode (?c r) = p"
      using Rose.prems(1) links by (simp add: same_links_def)
    ultimately show ?thesis using Rose.prems(2) by (simp add: propagate_simps)
  qed
  show ?case
  proof (cases "a = r")
    case True
    with start Rose.prems show ?thesis by blast
  next
    case False
    with Rose.prems(3) obtain u where u: "u \<in> set ts" "a \<in> set (preorder u)" by auto
    show ?thesis
      by (rule Rose.IH [OF u(1) tree_at_sub [OF Rose.prems(1) u(1)] _ u(2) Rose.prems(4)])
        (use start in auto)
  qed
qed

lemma propagate_parent_terminates:
  assumes "tree_at c None t" "a \<in> set (preorder t)" "same_links c d"
  shows "\<exists>d'. propagateOffsetsUpward d (parentNode (d a)) = Some d'"
proof -
  have par: "parentNode (d a) = parentNode (c a)" using assms(3) by (simp add: same_links_def)
  show ?thesis
  proof (cases "parentNode (c a)")
    case None
    with par show ?thesis by (simp add: propagate_simps)
  next
    case (Some b)
    then have "b \<in> set (preorder t)" using tree_parent_inside [OF assms(1,2)] by auto
    with propagate_terminates [OF assms(1) _ _ assms(3)] Some par show ?thesis
      by (simp add: propagate_simps)
  qed
qed

lemma expand_core_expanded:
  "isExpanded (expand_core n) = (isExpanded n \<or> isExpandable n)"
  by (simp add: expand_core_def)

lemma core_expanded [simp]: "isExpanded (core n) = isExpanded n" "isExpandable (core n) = isExpandable n"
  "node_id (core n) = node_id n" "userExpand (core n) = userExpand n" "depth (core n) = depth n"
  by (simp_all add: core_def)

lemma expandAll_effect:
  assumes t: "tree_at c None t" "distinct (preorder t)" "expandable_ok c t"
    and a: "nodeMap T i = Some a" "a \<in> set (preorder t)"
  shows "\<exists>c' u. expandAllDescendants T c i = Some c' \<and> tree_at c' None t \<and>
    tree_at c (parentNode (c a)) u \<and> label u = a \<and>
    (\<forall>b. isExpanded (c' b) = (isExpanded (c b) \<or> (b \<in> set (preorder u) \<and> isExpandable (c b))))"
proof -
  obtain u where u: "tree_at c (parentNode (c a)) u" "label u = a"
      "set (preorder u) \<subseteq> set (preorder t)"
    using subtree_at [OF t(1,2) a(2)] by blast
  let ?c1 = "expand_pass.run (preorder (mirror u)) c"
  have "mirrored_at c (mirror u)"
    using u t(3) by (auto simp: mirrored_at_def expandable_ok_def)
  from expand_walk.loop_tree [OF this] u(2)
  have loop: "stack_loop expand_body c [a] = Some ?c1" by simp
  have links: "same_links c ?c1" by (rule expand_pass.run_links)
  obtain c' where c': "propagateOffsetsUpward ?c1 (parentNode (?c1 a)) = Some c'"
    using propagate_parent_terminates [OF t(1) a(2) links] by blast
  note oo = propagate_core [OF c']
  have "isExpanded (c' b) = (isExpanded (c b) \<or> (b \<in> set (preorder u) \<and> isExpandable (c b)))" for b
  proof -
    have "isExpanded (c' b) = isExpanded (core (?c1 b))"
      using only_offsets_expanded [OF oo, of b] by simp
    also have "\<dots> = (isExpanded (c b) \<or> (b \<in> set (preorder u) \<and> isExpandable (c b)))"
      unfolding expand_pass.run_core by (auto simp: expand_core_expanded)
    finally show ?thesis .
  qed
  moreover have "expandAllDescendants T c i = Some c'"
    using a(1) c' by (simp add: expandAllDescendants_def loop)
  moreover have "tree_at c' None t"
    using t(1) tree_at_links [OF same_links_trans [OF links only_offsets_links [OF oo]]] by blast
  ultimately show ?thesis using u by blast
qed

section \<open>Revealing a node\<close>

partial_function (option) collapsed_ancestors :: "cells \<Rightarrow> addr option \<Rightarrow> addr list \<Rightarrow> addr list option" where
  "collapsed_ancestors c current ancestorsToExpand =
     (case current of
        None \<Rightarrow> Some ancestorsToExpand
      | Some a \<Rightarrow> collapsed_ancestors c (parentNode (c a))
          (if isExpandable (c a) \<and> \<not> isExpanded (c a) then ancestorsToExpand @ [a]
           else ancestorsToExpand))"

lemma collapsed_ancestors_simps [walk_simps]:
  "collapsed_ancestors c None acc = Some acc"
  "collapsed_ancestors c (Some a) acc = collapsed_ancestors c (parentNode (c a))
     (if isExpandable (c a) \<and> \<not> isExpanded (c a) then acc @ [a] else acc)"
  by (simp_all add: collapsed_ancestors.simps)

definition reveal_step :: "cells \<Rightarrow> addr \<Rightarrow> cells" where
  "reveal_step c a = recomputeNodeOffsets (c(a := (c a)\<lparr>isExpanded := True, userExpand := Some True\<rparr>)) a"

definition expandToNode :: "tree_state \<Rightarrow> cells \<Rightarrow> string \<Rightarrow> cells option" where
  "expandToNode T c nodeId = (case nodeMap T nodeId of
       None \<Rightarrow> Some c
     | Some a \<Rightarrow>
         (case collapsed_ancestors c (parentNode (c a)) [] of
            None \<Rightarrow> None
          | Some found \<Rightarrow>
              (let ancestorsToExpand = rev found;
                   c' = fold (\<lambda>b c. reveal_step c b) ancestorsToExpand c
               in if length ancestorsToExpand > 0
                  then propagateOffsetsUpward c' (parentNode (c' (ancestorsToExpand ! 0)))
                  else Some c')))"

interpretation reveal_pass: core_pass reveal_step "\<lambda>n. n\<lparr>isExpanded := True, userExpand := Some True\<rparr>"
  by unfold_locales (auto simp: reveal_step_def recompute_eq core_def)

text \<open>The nodes met on the way up from a node, which is \<open>None\<close> above the root; and those above a node.\<close>

inductive way_up :: "cells \<Rightarrow> addr option \<Rightarrow> addr \<Rightarrow> bool" for c where
  here: "way_up c (Some a) a"
| higher: "way_up c (parentNode (c a)) b \<Longrightarrow> way_up c (Some a) b"

inductive_simps way_up_simps: "way_up c None b" "way_up c (Some a) b"

definition ancestor :: "cells \<Rightarrow> addr \<Rightarrow> addr \<Rightarrow> bool" where
  "ancestor c b a \<longleftrightarrow> way_up c (parentNode (c a)) b"

definition reveals :: "cells \<Rightarrow> addr set \<Rightarrow> addr option \<Rightarrow> bool" where
  "reveals c N q \<longleftrightarrow> (\<forall>acc. \<exists>l. collapsed_ancestors c q acc = Some (acc @ l) \<and> set l \<subseteq> N \<and>
     set l = {b. way_up c q b \<and> isExpandable (c b) \<and> \<not> isExpanded (c b)} \<and>
     (\<forall>c'. same_links c c' \<longrightarrow> (\<forall>b. isExpanded (c b) \<or> b \<in> set l \<longrightarrow> isExpanded (c' b)) \<longrightarrow>
        visible_loop c' q = Some True))"

lemma reveals_step:
  assumes "reveals c N (parentNode (c a))" "a \<in> N" "isExpandable (c a)"
  shows "reveals c N (Some a)"
  unfolding reveals_def
proof
  fix acc
  let ?acc = "if isExpandable (c a) \<and> \<not> isExpanded (c a) then acc @ [a] else acc"
  from assms(1) obtain l where l: "collapsed_ancestors c (parentNode (c a)) ?acc = Some (?acc @ l)"
      "set l \<subseteq> N"
      "\<forall>c'. same_links c c' \<longrightarrow> (\<forall>b. isExpanded (c b) \<or> b \<in> set l \<longrightarrow> isExpanded (c' b)) \<longrightarrow>
        visible_loop c' (parentNode (c a)) = Some True"
      "set l = {b. way_up c (parentNode (c a)) b \<and> isExpandable (c b) \<and> \<not> isExpanded (c b)}"
    unfolding reveals_def by blast
  let ?l = "if isExpandable (c a) \<and> \<not> isExpanded (c a) then a # l else l"
  have "collapsed_ancestors c (Some a) acc = Some (acc @ ?l)"
    using l(1) by (simp add: collapsed_ancestors_simps)
  moreover have "set ?l \<subseteq> N" using l(2) assms(2) by simp
  moreover have "set ?l = {b. way_up c (Some a) b \<and> isExpandable (c b) \<and> \<not> isExpanded (c b)}"
    using l(4) by (auto simp: way_up_simps)
  moreover have "visible_loop c' (Some a) = Some True"
    if "same_links c c'" "\<forall>b. isExpanded (c b) \<or> b \<in> set ?l \<longrightarrow> isExpanded (c' b)" for c'
  proof -
    have "isExpanded (c a) \<or> a \<in> set ?l" using assms(3) by simp
    then have "isExpanded (c' a)" using that(2) by blast
    moreover have "parentNode (c' a) = parentNode (c a)" using that(1) by (simp add: same_links_def)
    moreover have "visible_loop c' (parentNode (c a)) = Some True"
    proof -
      have "\<forall>b. isExpanded (c b) \<or> b \<in> set l \<longrightarrow> isExpanded (c' b)"
        using that(2) by (metis (full_types) list.set_intros(2))
      with l(3) that(1) show ?thesis by blast
    qed
    ultimately show ?thesis by (simp add: visible_loop_simps)
  qed
  ultimately show "\<exists>l. collapsed_ancestors c (Some a) acc = Some (acc @ l) \<and> set l \<subseteq> N \<and>
     set l = {b. way_up c (Some a) b \<and> isExpandable (c b) \<and> \<not> isExpanded (c b)} \<and>
     (\<forall>c'. same_links c c' \<longrightarrow> (\<forall>b. isExpanded (c b) \<or> b \<in> set l \<longrightarrow> isExpanded (c' b)) \<longrightarrow>
        visible_loop c' (Some a) = Some True)" by blast
qed

lemma reveals_sub:
  "tree_at c p u \<Longrightarrow> reveals c N p \<Longrightarrow> set (preorder u) \<subseteq> N \<Longrightarrow>
   \<forall>b \<in> set (preorder u). children (c b) \<noteq> [] \<longrightarrow> isExpandable (c b) \<Longrightarrow>
   a \<in> set (preorder u) \<Longrightarrow> reveals c N (parentNode (c a))"
proof (induction u arbitrary: p)
  case (Rose r ts)
  show ?case
  proof (cases "a = r")
    case True
    with Rose.prems show ?thesis by simp
  next
    case False
    with Rose.prems(5) obtain u where u: "u \<in> set ts" "a \<in> set (preorder u)" by auto
    have ch: "children (c r) \<noteq> []" using Rose.prems(1) u(1) by auto
    have "reveals c N (Some r)"
      using Rose.prems ch by (intro reveals_step) auto
    then show ?thesis
      by (rule Rose.IH [OF u(1) tree_at_sub [OF Rose.prems(1) u(1)]])
        (use Rose.prems(3,4) u in auto)
  qed
qed

lemma expandToNode_reveals:
  assumes t: "tree_at c None t" "expandable_ok c t"
    and a: "nodeMap T i = Some a" "a \<in> set (preorder t)"
  shows "\<exists>c'. expandToNode T c i = Some c' \<and> isNodeVisible c' a = Some True \<and>
    (\<forall>b. isExpanded (c' b) = (isExpanded (c b) \<or> ancestor c b a \<and> isExpandable (c b)))"
proof -
  have revealed: "reveals c (set (preorder t)) (parentNode (c a))"
  proof (rule reveals_sub [OF t(1)])
    show "reveals c (set (preorder t)) None"
      by (auto simp: reveals_def collapsed_ancestors_simps visible_loop_simps way_up_simps intro: exI [of _ "[]"])
    show "\<forall>b \<in> set (preorder t). children (c b) \<noteq> [] \<longrightarrow> isExpandable (c b)"
      using t(2) by (auto simp: expandable_ok_def)
  qed (use a in auto)
  obtain l where l: "collapsed_ancestors c (parentNode (c a)) [] = Some l" "set l \<subseteq> set (preorder t)"
      "\<forall>c'. same_links c c' \<longrightarrow> (\<forall>b. isExpanded (c b) \<or> b \<in> set l \<longrightarrow> isExpanded (c' b)) \<longrightarrow>
        visible_loop c' (parentNode (c a)) = Some True"
      and set_l: "set l = {b. ancestor c b a \<and> isExpandable (c b) \<and> \<not> isExpanded (c b)}"
    using revealed [unfolded reveals_def, THEN spec, of "[]"] unfolding ancestor_def append_Nil by blast
  let ?c1 = "reveal_pass.run (rev l) c"
  have links: "same_links c ?c1" by (rule reveal_pass.run_links)
  have ex: "isExpanded (?c1 b) = (isExpanded (c b) \<or> b \<in> set l)" for b
  proof -
    have "isExpanded (core (?c1 b)) = (isExpanded (c b) \<or> b \<in> set l)"
      unfolding reveal_pass.run_core by auto
    then show ?thesis by simp
  qed
  obtain c' where c': "expandToNode T c i = Some c'" "only_offsets ?c1 c'"
  proof (cases "l = []")
    case True
    with a(1) l(1) that show ?thesis by (simp add: expandToNode_def)
  next
    case False
    then have "rev l ! 0 \<in> set (preorder t)" using l(2) by (metis length_greater_0_conv nth_mem rev_is_Nil_conv set_rev subsetD)
    from propagate_parent_terminates [OF t(1) this links] obtain d where
      d: "propagateOffsetsUpward ?c1 (parentNode (?c1 (rev l ! 0))) = Some d" by blast
    with a(1) l(1) False have "expandToNode T c i = Some d"
      by (simp add: expandToNode_def Let_def)
    with propagate_core [OF d] that show ?thesis by blast
  qed
  have links': "same_links c c'"
    using same_links_trans [OF links only_offsets_links [OF c'(2)]] .
  have ex': "isExpanded (c' b) = (isExpanded (c b) \<or> b \<in> set l)" for b
    using only_offsets_expanded [OF c'(2), of b] ex by simp
  then have "visible_loop c' (parentNode (c a)) = Some True" using l(3) links' by blast
  moreover have "parentNode (c' a) = parentNode (c a)" using links' by (simp add: same_links_def)
  ultimately show ?thesis using c'(1) ex' set_l by (auto simp: isNodeVisible_def)
qed

end
