(* ===== verification/Tree_Passes.thy ===== *)
theory Tree_Passes imports Tree_Expansion begin

text \<open>
  The operations of \<^verbatim>\<open>AdvancedJsonViewer/utils/treeExpansion.ts\<close> that go over the whole
  tree: the post-order collection with an explicit stack of entry and exit marks,
  \<open>expandToDepth\<close>, \<open>applyExpansionState\<close> with its prefix matching, \<open>exportExpansionState\<close>
  and \<open>getExpansionStats\<close>. The two rewriting passes are interpretations of \<open>offset_pass\<close>:
  they establish the offset contract whatever the offsets were before.
\<close>

section \<open>Collecting the nodes in post-order\<close>

definition post_body :: "cells \<Rightarrow> addr list \<Rightarrow> addr \<times> bool \<Rightarrow> addr list \<times> (addr \<times> bool) list" where
  "post_body c postOrder current = (case current of (node, visited) \<Rightarrow>
     if visited then (postOrder @ [node], [])
     else (postOrder, map (\<lambda>b. (b, False)) (children (c node)) @ [(node, True)]))"

definition collect_postorder :: "cells \<Rightarrow> addr \<Rightarrow> addr list option" where
  "collect_postorder c rn = stack_loop (post_body c) [] [(rn, False)]"

primrec marks_ok :: "cells \<Rightarrow> (addr \<times> bool) rose \<Rightarrow> bool" where
  "marks_ok c (Rose m ts) \<longleftrightarrow>
     map label ts = (if snd m then [] else map (\<lambda>b. (b, False)) (children (c (fst m))) @ [(fst m, True)]) \<and>
     list_all (marks_ok c) ts"

definition post_visit :: "addr list \<Rightarrow> addr \<times> bool \<Rightarrow> addr list" where
  "post_visit postOrder m = (if snd m then postOrder @ [fst m] else postOrder)"

interpretation post_walk: stack_walk "post_body c" post_visit "\<lambda>_. marks_ok c"
  by unfold_locales (auto simp: post_body_def post_visit_def list_all_iff split: if_splits)

lemma label_exits [simp]: "label (exits t) = (label t, False)"
  by (cases t) simp

lemma marks_ok_exits: "tree_at c p t \<Longrightarrow> marks_ok c (exits t)"
proof (induction t arbitrary: p)
  case (Rose a ts)
  then have "list_all (marks_ok c) (map exits ts)"
    by (fastforce simp: list_all_iff)
  with Rose.prems show ?case by (simp add: comp_def)
qed

lemma fold_post_visit: "fold (\<lambda>m l. post_visit l m) ms l = l @ map fst (filter snd ms)"
  by (induction ms arbitrary: l) (auto simp: post_visit_def)

lemma collect_postorder_eq:
  assumes "tree_at c p t"
  shows "collect_postorder c (label t) = Some (postorder t)"
  using post_walk.loop_tree [OF marks_ok_exits [OF assms], of "[]"]
  by (simp add: collect_postorder_def fold_post_visit postorder_exits)

section \<open>Passes that rewrite every expandable node\<close>

text \<open>
  The body of the two \<open>forEach\<close> loops: a node that is not expandable is left alone, any other
  gets its two flags and recomputed offsets.
\<close>

definition flag_step :: "(tnode \<Rightarrow> bool) \<Rightarrow> (tnode \<Rightarrow> bool option) \<Rightarrow> cells \<Rightarrow> addr \<Rightarrow> cells" where
  "flag_step e u c a =
     (if \<not> isExpandable (c a) then c
      else recomputeNodeOffsets
             (c(a := (c a)\<lparr>isExpanded := e (c a), userExpand := u (c a)\<rparr>)) a)"

definition flag_core :: "(tnode \<Rightarrow> bool) \<Rightarrow> (tnode \<Rightarrow> bool option) \<Rightarrow> tnode \<Rightarrow> tnode" where
  "flag_core e u n =
     (if isExpandable n then n\<lparr>isExpanded := e n, userExpand := u n\<rparr> else n)"

text \<open>A leaf that no pass touches has no offsets to repair.\<close>

definition leaf_blank :: "tnode \<Rightarrow> bool" where
  "leaf_blank n \<longleftrightarrow> isExpandable n \<or>
     \<not> isExpanded n \<and> childOffsets n = [] \<and> visibleDescendantCount n = 0"

definition by_fields :: "(tnode \<Rightarrow> 'a) \<Rightarrow> bool" where
  "by_fields f \<longleftrightarrow> (\<forall>m n. node_id m = node_id n \<longrightarrow> depth m = depth n \<longrightarrow> f m = f n)"

lemma flag_step_core:
  assumes "by_fields e" "by_fields u"
  shows "core (flag_step e u c a a) = flag_core e u (core (c a))"
proof -
  have "e (core (c a)) = e (c a)" "u (core (c a)) = u (c a)"
    using assms unfolding by_fields_def by (metis core_expanded(3,5))+
  then show ?thesis by (simp add: flag_step_def flag_core_def recompute_eq core_def)
qed

lemma flag_step_ok:
  assumes "leaf_blank (c a)" "a \<notin> set (children (c a))"
  shows "node_ok (flag_step e u c a) a"
proof (cases "isExpandable (c a)")
  case True
  with assms(2) show ?thesis by (simp add: flag_step_def recompute_node_ok)
next
  case False
  with assms(1) show ?thesis by (simp add: flag_step_def leaf_blank_def node_ok_def)
qed

lemma by_fields_upd:
  "by_fields f \<Longrightarrow> f (n\<lparr>isExpanded := x, userExpand := y\<rparr>) = f n"
  unfolding by_fields_def by (erule allE [of _ "n\<lparr>isExpanded := x, userExpand := y\<rparr>"]) (erule allE [of _ n], simp)

lemma flag_core_idem:
  assumes "by_fields e" "by_fields u"
  shows "flag_core e u (flag_core e u n) = flag_core e u n"
  by (simp add: flag_core_def by_fields_upd [OF assms(1)] by_fields_upd [OF assms(2)])

lemma flag_pass:
  assumes "by_fields e" "by_fields u"
  shows "offset_pass (flag_step e u) (flag_core e u) leaf_blank"
proof unfold_locales
  show "flag_step e u c a b = c b" if "b \<noteq> a" for c a b
    using that by (simp add: flag_step_def recompute_eq)
  show "children (flag_core e u (core n)) = children n" for n
    by (simp add: flag_core_def core_def)
  show "parentNode (flag_core e u (core n)) = parentNode n" for n
    by (simp add: flag_core_def core_def)
qed (simp_all add: flag_step_core [OF assms] flag_core_idem [OF assms] flag_step_ok)

section \<open>Expanding to a depth\<close>

definition depth_step :: "int \<Rightarrow> cells \<Rightarrow> addr \<Rightarrow> cells" where
  "depth_step d c a =
     (if \<not> isExpandable (c a) then c
      else
        (let shouldExpand = depth (c a) < d;
             c' = c(a := (c a)\<lparr>isExpanded := shouldExpand, userExpand := Some shouldExpand\<rparr>)
         in recomputeNodeOffsets c' a))"

definition expandToDepth :: "tree_state \<Rightarrow> cells \<Rightarrow> int \<Rightarrow> cells option" where
  "expandToDepth T c d =
     (case collect_postorder c (rootNode T) of
        None \<Rightarrow> None
      | Some postOrder \<Rightarrow> Some (fold (\<lambda>a c. depth_step d c a) postOrder c))"

lemma depth_step_flag: "depth_step d = flag_step (\<lambda>n. depth n < d) (\<lambda>n. Some (depth n < d))"
  by (simp add: fun_eq_iff depth_step_def flag_step_def Let_def)

section \<open>Applying a stored expansion state\<close>

datatype expansion_state = ExpAll bool | ExpMap "(string \<times> bool) list"

definition collapsed_paths :: "expansion_state \<Rightarrow> string list" where
  "collapsed_paths s = (case s of
       ExpAll b \<Rightarrow> if \<not> b then [''*''] else []
     | ExpMap m \<Rightarrow> map fst (filter (\<lambda>e. \<not> snd e) m))"

definition expanded_paths :: "expansion_state \<Rightarrow> string list" where
  "expanded_paths s = (case s of ExpAll b \<Rightarrow> [] | ExpMap m \<Rightarrow> map fst (filter snd m))"

definition expanded_ancestors :: "string list \<Rightarrow> string list" where
  "expanded_ancestors expandedPaths =
     concat (map (\<lambda>path. let parts = js_split CHR ''.'' path in
         map (\<lambda>i. js_join ''.'' (take i parts)) [1..<length parts]) expandedPaths)"

definition should_expand :: "expansion_state \<Rightarrow> string \<Rightarrow> bool" where
  "should_expand s i =
     (if ''*'' \<in> set (collapsed_paths s) then False
      else (case s of
          ExpAll b \<Rightarrow> b
        | ExpMap m \<Rightarrow>
            if i \<in> set (collapsed_paths s) then False
            else if i \<in> set (expanded_paths s) then True
            else if i \<in> set (expanded_ancestors (expanded_paths s)) then True
            else True))"

definition tracked_expand :: "expansion_state \<Rightarrow> string \<Rightarrow> bool option" where
  "tracked_expand s i = (case s of
       ExpAll b \<Rightarrow> None
     | ExpMap m \<Rightarrow>
         (case map_of m i of
            Some v \<Rightarrow> Some v
          | None \<Rightarrow> if i \<in> set (expanded_ancestors (expanded_paths s)) then Some True else None))"

definition apply_step :: "expansion_state \<Rightarrow> cells \<Rightarrow> addr \<Rightarrow> cells" where
  "apply_step s c a =
     (if \<not> isExpandable (c a) then c
      else recomputeNodeOffsets
             (c(a := (c a)\<lparr>isExpanded := should_expand s (node_id (c a)),
                           userExpand := tracked_expand s (node_id (c a))\<rparr>)) a)"

definition applyExpansionState :: "tree_state \<Rightarrow> cells \<Rightarrow> expansion_state \<Rightarrow> cells option" where
  "applyExpansionState T c s =
     (case collect_postorder c (rootNode T) of
        None \<Rightarrow> None
      | Some postOrder \<Rightarrow> Some (fold (\<lambda>a c. apply_step s c a) postOrder c))"

lemma apply_step_flag:
  "apply_step s = flag_step (\<lambda>n. should_expand s (node_id n)) (\<lambda>n. tracked_expand s (node_id n))"
  by (simp add: fun_eq_iff apply_step_def flag_step_def)

interpretation depth_pass: offset_pass "depth_step d"
  "flag_core (\<lambda>n. depth n < d) (\<lambda>n. Some (depth n < d))" leaf_blank
  unfolding depth_step_flag by (rule flag_pass) (simp_all add: by_fields_def)

interpretation apply_pass: offset_pass "apply_step s"
  "flag_core (\<lambda>n. should_expand s (node_id n)) (\<lambda>n. tracked_expand s (node_id n))" leaf_blank
  unfolding apply_step_flag by (rule flag_pass) (simp_all add: by_fields_def)

lemma flag_core_expanded:
  "isExpanded (flag_core e u (core n)) = (if isExpandable n then e (core n) else isExpanded n)"
  "userExpand (flag_core e u (core n)) = (if isExpandable n then u (core n) else userExpand n)"
  by (simp_all add: flag_core_def)

lemma expandToDepth_works:
  assumes t: "tree_at c None t" "label t = rootNode T" "distinct (preorder t)"
    and blank: "\<forall>a \<in> set (preorder t). leaf_blank (c a)"
  shows "\<exists>c'. expandToDepth T c d = Some c' \<and> tree_at c' None t \<and> offsets_ok c' t \<and>
    (\<forall>a. isExpanded (c' a) = (if a \<in> set (preorder t) \<and> isExpandable (c a) then depth (c a) < d
                             else isExpanded (c a)))"
proof -
  let ?c = "depth_pass.run d (postorder t) c"
  have "expandToDepth T c d = Some ?c"
    using collect_postorder_eq [OF t(1)] t(2) by (simp add: expandToDepth_def)
  moreover have "isExpanded (?c a) = (if a \<in> set (preorder t) \<and> isExpandable (c a) then depth (c a) < d
                             else isExpanded (c a))" for a
  proof -
    have "isExpanded (core (?c a)) = (if a \<in> set (preorder t) \<and> isExpandable (c a) then depth (c a) < d
                             else isExpanded (c a))"
      unfolding depth_pass.run_core by (simp add: flag_core_expanded)
    then show ?thesis by simp
  qed
  ultimately show ?thesis
    using depth_pass.run_tree [OF t(1,3) blank] by blast
qed

lemma applyExpansionState_works:
  assumes t: "tree_at c None t" "label t = rootNode T" "distinct (preorder t)"
    and blank: "\<forall>a \<in> set (preorder t). leaf_blank (c a)"
  shows "\<exists>c'. applyExpansionState T c s = Some c' \<and> tree_at c' None t \<and> offsets_ok c' t \<and>
    (\<forall>a. isExpanded (c' a) = (if a \<in> set (preorder t) \<and> isExpandable (c a)
                             then should_expand s (node_id (c a)) else isExpanded (c a)) \<and>
         userExpand (c' a) = (if a \<in> set (preorder t) \<and> isExpandable (c a)
                             then tracked_expand s (node_id (c a)) else userExpand (c a)) \<and>
         node_id (c' a) = node_id (c a) \<and> isExpandable (c' a) = isExpandable (c a))"
proof -
  let ?c = "apply_pass.run s (postorder t) c"
  have "applyExpansionState T c s = Some ?c"
    using collect_postorder_eq [OF t(1)] t(2) by (simp add: applyExpansionState_def)
  moreover have "isExpanded (?c a) = (if a \<in> set (preorder t) \<and> isExpandable (c a)
                             then should_expand s (node_id (c a)) else isExpanded (c a)) \<and>
         userExpand (?c a) = (if a \<in> set (preorder t) \<and> isExpandable (c a)
                             then tracked_expand s (node_id (c a)) else userExpand (c a)) \<and>
         node_id (?c a) = node_id (c a) \<and> isExpandable (?c a) = isExpandable (c a)" for a
  proof -
    have core: "core (?c a) = (if a \<in> set (preorder t)
        then flag_core (\<lambda>n. should_expand s (node_id n)) (\<lambda>n. tracked_expand s (node_id n)) (core (c a))
        else core (c a))"
      unfolding apply_pass.run_core by simp
    have "isExpanded (core (?c a)) = (if a \<in> set (preorder t) \<and> isExpandable (c a)
                             then should_expand s (node_id (c a)) else isExpanded (c a))"
      "userExpand (core (?c a)) = (if a \<in> set (preorder t) \<and> isExpandable (c a)
                             then tracked_expand s (node_id (c a)) else userExpand (c a))"
      "node_id (core (?c a)) = node_id (c a)" "isExpandable (core (?c a)) = isExpandable (c a)"
      unfolding core by (simp_all add: flag_core_expanded) (simp_all add: flag_core_def)
    then show ?thesis by simp
  qed
  ultimately show ?thesis
    using apply_pass.run_tree [OF t(1,3) blank, of s] by blast
qed


section \<open>Exporting the expansion state\<close>

definition exportExpansionState :: "tree_state \<Rightarrow> cells \<Rightarrow> (string \<times> bool) list" where
  "exportExpansionState T c =
     fold (\<lambda>a expansionState.
         case userExpand (c a) of
           Some v \<Rightarrow> if isExpandable (c a) then rec_set (node_id (c a)) v expansionState else expansionState
         | None \<Rightarrow> expansionState)
       (allNodes T) []"

abbreviation export_step :: "cells \<Rightarrow> addr \<Rightarrow> (string \<times> bool) list \<Rightarrow> (string \<times> bool) list" where
  "export_step c a m \<equiv> (case userExpand (c a) of
      Some v \<Rightarrow> if isExpandable (c a) then rec_set (node_id (c a)) v m else m | None \<Rightarrow> m)"

lemma export_distinct_step: "distinct (map fst m) \<Longrightarrow> distinct (map fst (export_step c a m))"
  by (simp add: distinct_rec_set split: option.split)

lemma distinct_export: "distinct (map fst (exportExpansionState T c))"
proof -
  have "distinct (map fst m) \<Longrightarrow> distinct (map fst (fold (export_step c) xs m))" for xs m
    by (induction xs arbitrary: m) (simp_all add: export_distinct_step)
  then show ?thesis by (simp add: exportExpansionState_def)
qed

lemma export_lookup:
  assumes "distinct (map (node_id \<circ> c) (allNodes T))" "a \<in> set (allNodes T)" "isExpandable (c a)"
  shows "map_of (exportExpansionState T c) (node_id (c a)) = userExpand (c a)"
proof -
  have other: "map_of (fold (export_step c) xs m) i = map_of m i"
    if "i \<notin> (node_id \<circ> c) ` set xs" for xs m i
    using that
  proof (induction xs arbitrary: m)
    case Nil
    then show ?case by simp
  next
    case (Cons x xs)
    then show ?case by (simp split: option.split)
  qed
  have "map_of (fold (export_step c) xs m) (node_id (c a)) = userExpand (c a)"
    if "distinct (map (node_id \<circ> c) xs)" "a \<in> set xs" "map_of m (node_id (c a)) = None" for xs m
    using that
  proof (induction xs arbitrary: m)
    case Nil
    then show ?case by simp
  next
    case (Cons x xs)
    show ?case
    proof (cases "a = x")
      case True
      then have "node_id (c a) \<notin> (node_id \<circ> c) ` set xs" using Cons.prems(1) by simp
      from other [OF this] True Cons.prems(3) assms(3) show ?thesis by (simp split: option.split)
    next
      case False
      then have a: "a \<in> set xs" using Cons.prems(2) by simp
      with Cons.prems(1) have "node_id (c a) \<noteq> node_id (c x)" by (auto simp: image_iff)
      then have "map_of (export_step c x m) (node_id (c a)) = None"
        using Cons.prems(3) by (simp split: option.split)
      with Cons.IH a Cons.prems(1) show ?thesis by simp
    qed
  qed
  with assms show ?thesis by (simp add: exportExpansionState_def)
qed

lemma export_keys:
  "k \<in> fst ` set (exportExpansionState T c) \<Longrightarrow> \<exists>a \<in> set (allNodes T). isExpandable (c a) \<and> node_id (c a) = k"
proof -
  have "k \<in> fst ` set (fold (export_step c) xs m) \<Longrightarrow>
      k \<in> fst ` set m \<or> (\<exists>a \<in> set xs. isExpandable (c a) \<and> node_id (c a) = k)" for xs m
  proof (induction xs arbitrary: m)
    case Nil
    then show ?case by simp
  next
    case (Cons x xs)
    then have "k \<in> fst ` set (export_step c x m) \<or> (\<exists>a \<in> set xs. isExpandable (c a) \<and> node_id (c a) = k)"
      by simp
    moreover have "k \<in> fst ` set (export_step c x m) \<Longrightarrow>
        k \<in> fst ` set m \<or> isExpandable (c x) \<and> node_id (c x) = k"
      by (auto split: option.splits if_splits)
    ultimately show ?case by auto
  qed
  then show "k \<in> fst ` set (exportExpansionState T c) \<Longrightarrow> ?thesis" by (force simp: exportExpansionState_def)
qed

lemma collapsed_paths_map_of:
  "distinct (map fst m) \<Longrightarrow> i \<in> set (collapsed_paths (ExpMap m)) \<longleftrightarrow> map_of m i = Some False"
  by (force simp: collapsed_paths_def map_of_eq_Some_iff)

section \<open>Statistics\<close>

record expansion_stats =
  totalExpandable :: nat
  totalExpanded :: nat
  totalCollapsed :: nat
  visibleNodes :: nat
  maxVisibleDepth :: int

definition depth_body :: "cells \<Rightarrow> int \<Rightarrow> addr \<Rightarrow> int \<times> addr list" where
  "depth_body c m a =
     (if depth (c a) > m then depth (c a) else m,
      if isExpanded (c a) then rev (children (c a)) else [])"

definition getExpansionStats :: "tree_state \<Rightarrow> cells \<Rightarrow> expansion_stats option" where
  "getExpansionStats T c =
     (let (e, x) = fold (\<lambda>a (e, x).
             if isExpandable (c a) then (Suc e, if isExpanded (c a) then Suc x else x) else (e, x))
           (allNodes T) (0, 0)
      in case stack_loop (depth_body c) 0 [rootNode T] of
           None \<Rightarrow> None
         | Some m \<Rightarrow> Some \<lparr>totalExpandable = e, totalExpanded = x, totalCollapsed = e - x,
             visibleNodes = 1 + visibleDescendantCount (c (rootNode T)), maxVisibleDepth = m\<rparr>)"

definition shown_mirrored :: "cells \<Rightarrow> addr rose \<Rightarrow> bool" where
  "shown_mirrored c t \<longleftrightarrow> shown_tree c (mirror t)"

interpretation depth_walk: stack_walk "depth_body c" "\<lambda>m a. max m (depth (c a))" "\<lambda>_. shown_mirrored c"
proof unfold_locales
  fix s a ts
  assume "shown_mirrored c (Rose a ts)"
  then have "(if isExpanded (c a) then children (c a) else []) = map label (rev (map mirror ts))"
    using shown_tree_children [of c a "rev (map mirror ts)"] by (simp add: shown_mirrored_def)
  then have "(if isExpanded (c a) then rev (children (c a)) else []) = map label ts"
    by (auto simp: rev_map comp_def split: if_splits)
  then show "depth_body c s a = (max s (depth (c a)), map label ts)"
    by (auto simp: depth_body_def max_def)
next
  show "shown_mirrored c t" if "shown_mirrored c (Rose a ts)" "t \<in> set ts" for a ts t
    using that shown_tree_sub [of c a "rev (map mirror ts)" "mirror t"]
    by (simp add: shown_mirrored_def)
qed

lemma fold_max: "fold (\<lambda>a m. max m (f a)) xs (m :: int) = Max (insert m (f ` set xs))"
proof (induction xs arbitrary: m)
  case Nil
  then show ?case by simp
next
  case (Cons x xs)
  then show ?case by (cases "xs = []") (simp_all add: max.assoc)
qed

lemma fold_counts:
  "fold (\<lambda>a (e, x). if P a then (Suc e, if Q a then Suc x else x) else (e, x)) xs (e, x) =
   (e + length (filter P xs), x + length (filter (\<lambda>a. P a \<and> Q a) xs))"
  by (induction xs arbitrary: e x) auto

lemma stats_eq:
  assumes "tree_at c None t" "label t = rootNode T" "offsets_ok c t"
  shows "getExpansionStats T c = Some
    \<lparr>totalExpandable = length (filter (\<lambda>a. isExpandable (c a)) (allNodes T)),
     totalExpanded = length (filter (\<lambda>a. isExpandable (c a) \<and> isExpanded (c a)) (allNodes T)),
     totalCollapsed = length (filter (\<lambda>a. isExpandable (c a) \<and> \<not> isExpanded (c a)) (allNodes T)),
     visibleNodes = length (visible c t),
     maxVisibleDepth = Max (insert 0 ((\<lambda>a. depth (c a)) ` set (visible c t)))\<rparr>"
proof -
  have "shown_mirrored c (mirror (prune c t))"
    using assms(1) by (auto simp: shown_mirrored_def shown_tree_def)
  from depth_walk.loop_tree [OF this, of 0]
  have "stack_loop (depth_body c) 0 [rootNode T] =
      Some (Max (insert 0 ((\<lambda>a. depth (c a)) ` set (visible c t))))"
    by (simp add: assms(2) fold_max visible_prune)
  moreover have "length (filter P xs) - length (filter (\<lambda>a. P a \<and> Q a) xs) =
      length (filter (\<lambda>a. P a \<and> \<not> Q a) xs)" for P Q and xs :: "addr list"
    using sum_length_filter_compl [of Q "filter P xs"] by (simp add: conj_commute)
  moreover have "1 + visibleDescendantCount (c (rootNode T)) = length (visible c t)"
    using length_visible [OF assms(1,3)] assms(2) by simp
  ultimately show ?thesis by (simp add: getExpansionStats_def fold_counts Let_def)
qed


section \<open>Properties\<close>

text \<open>
  C9: toggling an expandable node of a tree whose offsets are right terminates, flips exactly
  that node's flag (and records it as the user's choice), keeps the tree and the other nodes'
  flags, and leaves the offsets right everywhere, so row lookups stay correct.
\<close>

theorem toggle_keeps_contract:
  assumes "tree_at c None t" "distinct (preorder t)" "offsets_ok c t"
    and "nodeMap T i = Some a" "a \<in> set (preorder t)" "isExpandable (c a)"
  shows "\<exists>c'. toggleNodeExpansion T c i = Some c' \<and> tree_at c' None t \<and> offsets_ok c' t \<and>
    isExpanded (c' a) = (\<not> isExpanded (c a)) \<and> userExpand (c' a) = Some (\<not> isExpanded (c a)) \<and>
    (\<forall>b. b \<noteq> a \<longrightarrow> core (c' b) = core (c b))"
proof -
  obtain c' where "toggleNodeExpansion T c i = Some c'" "tree_at c' None t" "offsets_ok c' t"
    and oo: "only_offsets (c(a := (c a)\<lparr>isExpanded := \<not> isExpanded (c a), userExpand := Some (\<not> isExpanded (c a))\<rparr>)) c'"
    using toggle_works [OF assms] by blast
  moreover have "core (c' b) = core ((c(a := (c a)\<lparr>isExpanded := \<not> isExpanded (c a), userExpand := Some (\<not> isExpanded (c a))\<rparr>)) b)" for b
    using oo by (simp add: only_offsets_def)
  from this [of a] core_fields(4,6) [OF this [of a]] this
  have "isExpanded (c' a) = (\<not> isExpanded (c a))" "userExpand (c' a) = Some (\<not> isExpanded (c a))"
    "\<forall>b. b \<noteq> a \<longrightarrow> core (c' b) = core (c b)" by simp_all
  ultimately show ?thesis by blast
qed

definition sample_state :: tree_state where
  "sample_state = \<lparr>rootNode = 0, nodeMap = [''r'' \<mapsto> 0, ''r.a'' \<mapsto> 1, ''r.a.0'' \<mapsto> 2, ''r.b'' \<mapsto> 3],
     allNodes = [0, 1, 2, 3], totalNodeCount = 4, maxDepth = 2, maxContentWidth = 0\<rparr>"

lemma sample_nodes: "a \<in> {0, 1, 2, 3} \<Longrightarrow> a \<in> set (preorder sample_rose)"
  by (auto simp: sample_rose_def)

lemma sample_lookup: "nodeMap sample_state ''r.a'' = Some 1" "nodeMap sample_state ''r.a.0'' = Some 2"
  by (simp_all add: sample_state_def)

lemma sample_expandable: "isExpandable (sample_cell 1)" "expandable_ok sample_cell sample_rose"
  by (simp_all add: expandable_ok_def sample_rose_def sample_cell_def blank_node_def)

theorem toggle_keeps_contract_witness:
  "\<exists>c'. toggleNodeExpansion sample_state sample_cell ''r.a'' = Some c' \<and> offsets_ok c' sample_rose \<and>
     \<not> isExpanded (c' 1)"
proof -
  have "isExpanded (sample_cell 1)" by (simp add: sample_cell_def)
  with toggle_keeps_contract [OF sample_tree sample_distinct sample_offsets sample_lookup(1)
      sample_nodes sample_expandable(1)]
  show ?thesis by auto
qed

text \<open>
  collapsing the descendants of a node terminates, collapses exactly the nodes of its
  subtree, keeps every other flag and leaves the offsets right everywhere.
\<close>

theorem collapseAll_keeps_contract:
  assumes "tree_at c None t" "distinct (preorder t)" "offsets_ok c t" "expandable_ok c t"
    and "nodeMap T i = Some a" "a \<in> set (preorder t)"
  shows "\<exists>c' u. collapseAllDescendants T c i = Some c' \<and> tree_at c' None t \<and> offsets_ok c' t \<and>
    tree_at c (parentNode (c a)) u \<and> label u = a \<and>
    (\<forall>b. isExpanded (c' b) = (isExpanded (c b) \<and> b \<notin> set (preorder u)))"
  by (rule collapse_works [OF assms])

theorem collapseAll_keeps_contract_witness:
  "\<exists>c'. collapseAllDescendants sample_state sample_cell ''r.a'' = Some c' \<and> offsets_ok c' sample_rose"
  using collapseAll_keeps_contract [OF sample_tree sample_distinct sample_offsets sample_expandable(2)
      sample_lookup(1) sample_nodes] by auto

text \<open>
  C24: expanding the descendants of a node and revealing a node terminate and set exactly the flags they
  should: the first expands the expandable nodes of the subtree and no other, the second the expandable nodes
  above the node and no other, which makes the node visible; nothing is collapsed.
\<close>

theorem expand_operations_flags:
  assumes "tree_at c None t" "distinct (preorder t)" "expandable_ok c t"
    and "nodeMap T i = Some a" "a \<in> set (preorder t)"
  shows "(\<exists>c' u. expandAllDescendants T c i = Some c' \<and> tree_at c (parentNode (c a)) u \<and> label u = a \<and>
      (\<forall>b. isExpanded (c' b) = (isExpanded (c b) \<or> (b \<in> set (preorder u) \<and> isExpandable (c b))))) \<and>
    (\<exists>c'. expandToNode T c i = Some c' \<and> isNodeVisible c' a = Some True \<and>
      (\<forall>b. isExpanded (c' b) = (isExpanded (c b) \<or> ancestor c b a \<and> isExpandable (c b))))"
  using expandAll_effect [OF assms] expandToNode_reveals [OF assms(1,3,4,5)] by blast

theorem expand_operations_flags_witness:
  "\<exists>c'. expandToNode sample_state sample_cell ''r.a.0'' = Some c' \<and> isNodeVisible c' 2 = Some True"
  using expand_operations_flags [OF sample_tree sample_distinct sample_expandable(2) sample_lookup(2)
      sample_nodes] by auto


text \<open>
  C22: \<open>expandToDepth\<close> and \<open>applyExpansionState\<close> terminate and establish the offset contract on
  every node, whatever the offsets of the expandable nodes were before; the first expands exactly
  the expandable nodes above the depth, the second gives each expandable node the flag the stored
  state asks for.
\<close>

theorem whole_tree_passes:
  assumes "tree_at c None t" "label t = rootNode T" "distinct (preorder t)"
    and "\<forall>a \<in> set (preorder t). leaf_blank (c a)"
  shows "(\<exists>c'. expandToDepth T c d = Some c' \<and> tree_at c' None t \<and> offsets_ok c' t \<and>
      (\<forall>a \<in> set (preorder t). isExpanded (c' a) =
        (if isExpandable (c a) then depth (c a) < d else isExpanded (c a)))) \<and>
    (\<exists>c'. applyExpansionState T c s = Some c' \<and> tree_at c' None t \<and> offsets_ok c' t \<and>
      (\<forall>a \<in> set (preorder t). isExpanded (c' a) =
        (if isExpandable (c a) then should_expand s (node_id (c a)) else isExpanded (c a))))"
proof -
  obtain c' where c': "expandToDepth T c d = Some c'" "tree_at c' None t" "offsets_ok c' t"
    "\<forall>a. isExpanded (c' a) = (if a \<in> set (preorder t) \<and> isExpandable (c a) then depth (c a) < d
       else isExpanded (c a))"
    using expandToDepth_works [OF assms, of d] by blast
  obtain d' where d': "applyExpansionState T c s = Some d'" "tree_at d' None t" "offsets_ok d' t"
    "\<forall>a. isExpanded (d' a) = (if a \<in> set (preorder t) \<and> isExpandable (c a)
       then should_expand s (node_id (c a)) else isExpanded (c a))"
    using applyExpansionState_works [OF assms, of s] by blast
  from c' d' show ?thesis by auto
qed

lemma sample_blank: "\<forall>a \<in> set (preorder sample_rose). leaf_blank (sample_cell a)"
  by (simp add: sample_rose_def sample_cell_def blank_node_def leaf_blank_def)

lemma sample_root: "label sample_rose = rootNode sample_state"
  by (simp add: sample_rose_def sample_state_def)

theorem whole_tree_passes_witness:
  "\<exists>c'. applyExpansionState sample_state sample_cell (ExpMap [(''r.a'', False)]) = Some c' \<and>
     offsets_ok c' sample_rose \<and> \<not> isExpanded (c' 1) \<and> isExpanded (c' 0)"
proof -
  have "\<not> should_expand (ExpMap [(''r.a'', False)]) (node_id (sample_cell 1))"
    "should_expand (ExpMap [(''r.a'', False)]) (node_id (sample_cell 0))"
    by (simp_all add: should_expand_def collapsed_paths_def expanded_paths_def expanded_ancestors_def
        sample_cell_def blank_node_def)
  moreover have "isExpandable (sample_cell 1)" "isExpandable (sample_cell 0)"
    by (simp_all add: sample_cell_def blank_node_def)
  moreover have "0 \<in> set (preorder sample_rose)" "1 \<in> set (preorder sample_rose)"
    by (simp_all add: sample_rose_def)
  ultimately show ?thesis
    using whole_tree_passes [OF sample_tree sample_root sample_distinct sample_blank,
        of 0 "ExpMap [(''r.a'', False)]"] by fastforce
qed

text \<open>
  C23: exporting the expansion state of a tree and applying it to any tree with the same nodes gives every
  expandable node the user's recorded choice, and expands it if there is none. So a flag comes back exactly
  if it is the recorded choice or, without one, the node was expanded; a node that was collapsed by a default
  depth or by a stored state alone is expanded. Ids must be distinct and none the marker \<open>*\<close>.
\<close>

theorem export_apply_roundtrip:
  assumes "tree_at c' None t" "label t = rootNode T" "distinct (preorder t)"
    and "\<forall>a \<in> set (preorder t). leaf_blank (c' a)"
    and "set (allNodes T) = set (preorder t)" "distinct (map (node_id \<circ> c) (allNodes T))"
    and "\<forall>a \<in> set (preorder t). node_id (c' a) = node_id (c a) \<and> isExpandable (c' a) = isExpandable (c a) \<and>
      node_id (c a) \<noteq> ''*''"
  shows "\<exists>c''. applyExpansionState T c' (ExpMap (exportExpansionState T c)) = Some c'' \<and>
    offsets_ok c'' t \<and>
    (\<forall>a \<in> set (preorder t). isExpandable (c a) \<longrightarrow>
       isExpanded (c'' a) = (case userExpand (c a) of Some b \<Rightarrow> b | None \<Rightarrow> True) \<and>
       (isExpanded (c'' a) = isExpanded (c a) \<longleftrightarrow>
          userExpand (c a) = Some (isExpanded (c a)) \<or> userExpand (c a) = None \<and> isExpanded (c a)))"
proof -
  let ?m = "exportExpansionState T c"
  have star: "''*'' \<notin> set (collapsed_paths (ExpMap ?m))"
  proof
    assume "''*'' \<in> set (collapsed_paths (ExpMap ?m))"
    then have "''*'' \<in> fst ` set ?m" by (auto simp: collapsed_paths_def)
    with export_keys assms(5,7) show False by metis
  qed
  have "should_expand (ExpMap ?m) (node_id (c' a)) = (userExpand (c a) \<noteq> Some False)"
    if "a \<in> set (preorder t)" "isExpandable (c a)" for a
  proof -
    have "map_of ?m (node_id (c a)) = userExpand (c a)"
      using export_lookup [OF assms(6)] that assms(5) by blast
    moreover have "should_expand (ExpMap ?m) (node_id (c a)) \<longleftrightarrow>
        node_id (c a) \<notin> set (collapsed_paths (ExpMap ?m))"
      using star by (simp add: should_expand_def)
    ultimately show ?thesis
      using collapsed_paths_map_of [OF distinct_export] assms(7) that(1) by simp
  qed
  with assms(7) have flag: "should_expand (ExpMap ?m) (node_id (c a)) = (userExpand (c a) \<noteq> Some False) \<and> isExpandable (c' a)"
    if "a \<in> set (preorder t)" "isExpandable (c a)" for a using that by metis
  obtain c'' where c'': "applyExpansionState T c' (ExpMap ?m) = Some c''" "offsets_ok c'' t"
    "\<forall>a. isExpanded (c'' a) = (if a \<in> set (preorder t) \<and> isExpandable (c' a)
       then should_expand (ExpMap ?m) (node_id (c' a)) else isExpanded (c' a))"
    using applyExpansionState_works [OF assms(1-4), of "ExpMap ?m"] by blast
  have "isExpanded (c'' a) = (userExpand (c a) \<noteq> Some False)" if "a \<in> set (preorder t)" "isExpandable (c a)" for a
    using c''(3) flag [OF that] assms(7) that by metis
  with c''(1,2) show ?thesis by (intro exI [of _ c'']) (auto split: option.split)
qed

theorem export_apply_roundtrip_witness:
  "\<exists>c''. applyExpansionState sample_state sample_cell (ExpMap (exportExpansionState sample_state sample_cell)) =
     Some c'' \<and> offsets_ok c'' sample_rose \<and> isExpanded (c'' 1) = isExpanded (sample_cell 1)"
proof -
  have all: "set (allNodes sample_state) = set (preorder sample_rose)"
    "distinct (map (node_id \<circ> sample_cell) (allNodes sample_state))"
    by (auto simp: sample_state_def sample_rose_def sample_cell_def blank_node_def)
  have ids: "\<forall>a \<in> set (preorder sample_rose). node_id (sample_cell a) = node_id (sample_cell a) \<and>
      isExpandable (sample_cell a) = isExpandable (sample_cell a) \<and> node_id (sample_cell a) \<noteq> ''*''"
    by (simp add: sample_cell_def blank_node_def)
  have "isExpanded (sample_cell 1)" "userExpand (sample_cell 1) = None" "1 \<in> set (preorder sample_rose)"
    by (simp_all add: sample_cell_def blank_node_def sample_rose_def)
  with export_apply_roundtrip [OF sample_tree sample_root sample_distinct sample_blank all ids] sample_expandable(1)
  show ?thesis by fastforce
qed

text \<open>
  on a tree with right offsets the statistics are those of the visible rows: the number of
  rows shown, the greatest depth among them, and the expandable nodes split into expanded and
  collapsed ones.
\<close>

theorem stats_describe_visible_rows:
  assumes "tree_at c None t" "label t = rootNode T" "offsets_ok c t"
  shows "getExpansionStats T c = Some
    \<lparr>totalExpandable = length (filter (\<lambda>a. isExpandable (c a)) (allNodes T)),
     totalExpanded = length (filter (\<lambda>a. isExpandable (c a) \<and> isExpanded (c a)) (allNodes T)),
     totalCollapsed = length (filter (\<lambda>a. isExpandable (c a) \<and> \<not> isExpanded (c a)) (allNodes T)),
     visibleNodes = length (visible c t),
     maxVisibleDepth = Max (insert 0 ((\<lambda>a. depth (c a)) ` set (visible c t)))\<rparr>"
  by (rule stats_eq [OF assms])

theorem stats_describe_visible_rows_witness:
  "map_option visibleNodes (getExpansionStats sample_state sample_cell) = Some 4"
  using stats_describe_visible_rows [OF sample_tree sample_root sample_offsets]
  by (simp add: sample_visible)

text \<open>
  The two operations that recompute offsets top-down leave stale counts. A collapsed chain of
  three nodes: after expanding all descendants of the root, three rows are shown but the root
  counts two and the third row cannot be looked up; revealing the last node does the same.
\<close>

definition chain_cell :: "addr \<Rightarrow> tnode" where
  "chain_cell a =
     (if a = 0 then blank_node None [1] ''r''
      else if a = 1 then blank_node (Some 0) [2] ''r.a''
      else blank_node (Some 1) [] ''r.a.b'')"

definition chain_state :: tree_state where
  "chain_state = \<lparr>rootNode = 0, nodeMap = [''r'' \<mapsto> 0, ''r.a'' \<mapsto> 1, ''r.a.b'' \<mapsto> 2],
     allNodes = [0, 1, 2], totalNodeCount = 3, maxDepth = 2, maxContentWidth = 0\<rparr>"

lemma chain_ok: "tree_at chain_cell None (Rose 0 [Rose 1 [Rose 2 []]])"
  "offsets_ok chain_cell (Rose 0 [Rose 1 [Rose 2 []]])"
  by (simp_all add: chain_cell_def blank_node_def offsets_ok_def node_ok_def)

lemmas chain_simps = chain_state_def chain_cell_def blank_node_def walk_simps recompute_eq offset_values_def
  child_rows_def getVisibleRowCount_def getAllVisibleNodes_def visible_body_def

text \<open>
  after expanding everything below the collapsed root of a three-node chain whose offsets were
  right, three rows are visible but the root's stored count is two: the top-down recomputation
  leaves the offsets stale.
\<close>

theorem expandAll_leaves_stale_count:
  "\<exists>c'. expandAllDescendants chain_state chain_cell ''r'' = Some c' \<and>
     getAllVisibleNodes c' 0 = Some [0, 1, 2] \<and> getVisibleRowCount c' 0 = 2"
  by (simp add: expandAllDescendants_def expand_body_def expand_visit_def chain_simps)

text \<open>
  revealing the last node of the collapsed three-node chain makes it visible, but the root's
  stored count is two while three rows are visible: the ancestors are processed top-down.
\<close>

theorem expandToNode_leaves_stale_count:
  "\<exists>c'. expandToNode chain_state chain_cell ''r.a.b'' = Some c' \<and>
     getAllVisibleNodes c' 0 = Some [0, 1, 2] \<and> getVisibleRowCount c' 0 = 2"
  by (simp add: expandToNode_def reveal_step_def chain_simps)

end
