(* ===== verification/Tree_Structure.thy ===== *)
theory Tree_Structure imports Tree_Passes begin

text \<open>
  The first pass of \<^verbatim>\<open>AdvancedJsonViewer/utils/treeStructure.ts\<close>: \<open>buildTreeStructureIterative\<close>
  allocates one node per JSON value with an explicit stack, finding the node to fill by its
  joined path in \<open>nodesToPopulate\<close>, plus the node estimate that decides whether a worker is used.

  \<open>built c t n\<close> says that the objects at the tree of addresses \<open>t\<close> are exactly the node \<open>n\<close> and,
  below it, the nodes the code creates for the children of its value. When the joined paths of the
  value are distinct, the loop builds such a tree and maps every joined path to its node.
\<close>

section \<open>Creating nodes\<close>

record stack_item =
  item_value :: json
  item_key :: key
  item_path :: "key list"
  item_depth :: int
  item_parent :: "addr option"
  item_index :: nat
  item_last :: bool

record build_state =
  heap :: store
  built_map :: "string \<rightharpoonup> addr"
  nodesToPopulate :: "string \<rightharpoonup> addr"

definition new_root :: "string \<Rightarrow> json \<Rightarrow> tnode" where
  "new_root rootKey data = \<lparr>node_id = rootKey, node_key = KStr rootKey, pathArray = [KStr rootKey],
     node_value = data, node_type = getJSONType data, depth = 0, parentNode = None, children = [],
     childCount = 0, isExpandable = isExpandable_value data, isExpanded = False, userExpand = None,
     childOffsets = [], visibleDescendantCount = 0, totalDescendantCount = None,
     absoluteLineNumber = 1, indexInParent = 0, isLastChild = True, nodeType = None,
     sectionKey = None, backgroundColor = None, sectionLineNumber = None, minHeight = None,
     spacerHeight = None\<rparr>"

definition new_child :: "addr \<Rightarrow> key list \<Rightarrow> int \<Rightarrow> nat \<Rightarrow> nat \<times> key \<times> json \<Rightarrow> tnode" where
  "new_child parent path d len = (\<lambda>(i, childKey, childValue).
     (let childPathArray = path @ [childKey]; childExpandable = isExpandable_value childValue
      in \<lparr>node_id = joinPath childPathArray, node_key = childKey, pathArray = childPathArray,
     node_value = childValue, node_type = getJSONType childValue, depth = d + 1,
     parentNode = Some parent, children = [],
     childCount = (if childExpandable then length (getChildren childValue) else 0),
     isExpandable = childExpandable, isExpanded = False, userExpand = None,
     childOffsets = [], visibleDescendantCount = 0, totalDescendantCount = None,
     absoluteLineNumber = 0, indexInParent = i, isLastChild = (i + 1 = len), nodeType = None,
     sectionKey = None, backgroundColor = None, sectionLineNumber = None, minHeight = None,
     spacerHeight = None\<rparr>))"

text \<open>
  One round of the first inner loop: the node is allocated, entered in both maps and put in the
  parent's array. The array is pre-allocated and filled left to right, so it is the list extended.
\<close>

definition create_child :: "addr \<Rightarrow> tnode \<Rightarrow> build_state \<Rightarrow> build_state" where
  "create_child parent m s =
     (case alloc m (heap s) of (b, h) \<Rightarrow>
        s\<lparr>heap := upd_cell parent (\<lambda>n. n\<lparr>children := children n @ [b]\<rparr>) h,
          built_map := (built_map s)(node_id m \<mapsto> b),
          nodesToPopulate := (nodesToPopulate s)(node_id m \<mapsto> b)\<rparr>)"

definition create_children :: "addr \<Rightarrow> key list \<Rightarrow> int \<Rightarrow> (key \<times> json) list \<Rightarrow> build_state \<Rightarrow> build_state" where
  "create_children parent path d kids s =
     fold (\<lambda>ikv s. create_child parent (new_child parent path d (length kids) ikv) s) (enumerate 0 kids)
       (s\<lparr>heap := upd_cell parent (\<lambda>n. n\<lparr>children := []\<rparr>) (heap s)\<rparr>)"

definition item_of :: "tnode \<Rightarrow> stack_item" where
  "item_of n = \<lparr>item_value = node_value n, item_key = node_key n, item_path = pathArray n,
     item_depth = depth n, item_parent = parentNode n, item_index = indexInParent n,
     item_last = isLastChild n\<rparr>"

text \<open>The second inner loop pushes the children in reverse, so the first is on top.\<close>

definition pushed_children :: "addr \<Rightarrow> build_state \<Rightarrow> stack_item list" where
  "pushed_children parent s = map (\<lambda>b. item_of (cell (heap s) b)) (children (cell (heap s) parent))"

definition build_body :: "addr \<Rightarrow> string \<Rightarrow> json \<Rightarrow> build_state \<Rightarrow> stack_item \<Rightarrow> build_state \<times> stack_item list" where
  "build_body rn rootId data s current =
     (let currentId = joinPath (item_path current); currentNode = nodesToPopulate s currentId in
      if currentId = rootId then
        (if isExpandable_value data then
           (let kids = getChildren data;
                s1 = s\<lparr>heap := upd_cell rn (\<lambda>n. n\<lparr>childCount := length kids\<rparr>) (heap s)\<rparr>;
                s2 = create_children rn (item_path current) (item_depth current) kids s1
            in (s2, pushed_children rn s2))
         else (s, []))
      else
        (case currentNode of
           None \<Rightarrow> (s, [])
         | Some a \<Rightarrow>
             if isExpandable (cell (heap s) a) then
               (let s2 = create_children a (item_path current) (item_depth current)
                           (getChildren (item_value current)) s
                in (s2, pushed_children a s2))
             else (s, [])))"

definition buildTreeStructureIterative ::
    "json \<Rightarrow> string \<Rightarrow> store \<Rightarrow> (addr \<times> (string \<rightharpoonup> addr) \<times> store) option" where
  "buildTreeStructureIterative data rootKey h =
     (case alloc (new_root rootKey data) h of (rn, h1) \<Rightarrow>
        (let s0 = \<lparr>heap = h1, built_map = [rootKey \<mapsto> rn], nodesToPopulate = [rootKey \<mapsto> rn]\<rparr>
         in case stack_loop (build_body rn rootKey data) s0 [item_of (new_root rootKey data)] of
              None \<Rightarrow> None
            | Some s \<Rightarrow> Some (rn, built_map s, heap s)))"

section \<open>The node estimate\<close>

definition count_body :: "nat \<Rightarrow> json \<Rightarrow> nat \<times> json list" where
  "count_body count v =
     (count + 1, if isExpandable_value v then rev (map snd (getChildren v)) else [])"

definition estimateNodeCount :: "json \<Rightarrow> nat option" where
  "estimateNodeCount data = stack_loop count_body 0 [data]"

definition TREE_BUILD_THRESHOLD :: nat where
  "TREE_BUILD_THRESHOLD = 10000"

definition shouldUseWorkerForTreeBuild :: "json \<Rightarrow> bool option" where
  "shouldUseWorkerForTreeBuild data =
     map_option (\<lambda>n. n > TREE_BUILD_THRESHOLD) (estimateNodeCount data)"

text \<open>The tree of values the estimate walks, children right to left.\<close>

function value_rose :: "json \<Rightarrow> json rose" where
  "value_rose v = Rose v (rev (map (\<lambda>(k, c). value_rose c) (getChildren v)))"
  by pat_completeness auto
termination
  by (relation "measure size") (auto dest: size_getChildren)

declare value_rose.simps [simp del]

lemma label_value_rose [simp]: "label (value_rose v) = v"
  by (simp add: value_rose.simps)

interpretation count_walk: stack_walk count_body "\<lambda>n v. n + 1" "\<lambda>_ t. \<exists>v. t = value_rose v"
proof unfold_locales
  fix s a ts
  assume "\<exists>v. Rose a ts = value_rose v"
  then have "ts = rev (map (\<lambda>(k, c). value_rose c) (getChildren a))"
    by (auto simp: value_rose.simps)
  then have "map label ts = rev (map snd (getChildren a))"
    by (simp add: rev_map comp_pair case_prod_unfold)
  then show "count_body s a = (s + 1, map label ts)"
    by (simp add: count_body_def not_expandable_children)
next
  fix a :: json and ts t
  assume "\<exists>v. Rose a ts = value_rose v" "t \<in> set ts"
  then show "\<exists>v. t = value_rose v" by (auto simp: value_rose.simps)
qed auto

lemma length_value_rose: "length (preorder (value_rose v)) = 1 + countAllDescendants v"
proof (induction v rule: value_rose.induct)
  case (1 v)
  have "sum_list (map (\<lambda>(k, c). length (preorder (value_rose c))) (getChildren v)) =
      sum_list (map (\<lambda>(k, c). 1 + countAllDescendants c) (getChildren v))"
    using 1 by (intro sum_list_pairs_cong) auto
  moreover have "length (concat (rev xss)) = sum_list (map length xss)" for xss :: "json list list"
    by (induction xss) auto
  ultimately show ?case
    by (subst value_rose.simps, subst countAllDescendants_children)
      (simp add: rev_map [symmetric] comp_pair)
qed

lemma estimateNodeCount_eq: "estimateNodeCount v = Some (1 + countAllDescendants v)"
proof -
  have "fold (\<lambda>_ n. n + 1) xs (n :: nat) = n + length xs" for xs :: "json list" and n
    by (induction xs arbitrary: n) auto
  then show ?thesis
    using count_walk.loop_tree [of "value_rose v" 0] length_value_rose [of v]
    by (auto simp: estimateNodeCount_def)
qed


section \<open>What the loop builds\<close>

definition child_nodes :: "addr \<Rightarrow> tnode \<Rightarrow> tnode list" where
  "child_nodes a n =
     map (new_child a (pathArray n) (depth n) (length (getChildren (node_value n))))
       (enumerate 0 (getChildren (node_value n)))"

primrec built :: "cells \<Rightarrow> addr rose \<Rightarrow> tnode \<Rightarrow> bool" where
  "built c (Rose a ts) n \<longleftrightarrow>
     c a = n\<lparr>children := map label ts\<rparr> \<and> list_all2 (\<lambda>f m. f m) (map (built c) ts) (child_nodes a n)"

definition sub_ids :: "tnode \<Rightarrow> string list" where
  "sub_ids n = path_ids (pathArray n) (node_value n)"

lemma path_ids_step:
  "path_ids p v = joinPath p # concat (map (\<lambda>(k, c). path_ids (p @ [k]) c) (getChildren v))"
  unfolding path_ids_def by (subst json_rose.simps) (simp add: map_concat comp_pair)

lemma map_enumerate_snd: "map (\<lambda>(i, x). f x) (enumerate k xs) = map f xs"
  by (induction xs arbitrary: k) auto

lemma new_child_fields [simp]:
  "node_id (new_child a p d l (i, k, v)) = joinPath (p @ [k])"
  "pathArray (new_child a p d l (i, k, v)) = p @ [k]"
  "node_value (new_child a p d l (i, k, v)) = v"
  "children (new_child a p d l (i, k, v)) = []"
  "parentNode (new_child a p d l (i, k, v)) = Some a"
  "depth (new_child a p d l (i, k, v)) = d + 1"
  "isExpandable (new_child a p d l (i, k, v)) = isExpandable_value v"
  by (simp_all add: new_child_def Let_def)

lemma child_nodes_ids:
  "concat (map sub_ids (child_nodes a n)) =
     concat (map (\<lambda>(k, c). path_ids (pathArray n @ [k]) c) (getChildren (node_value n)))"
proof -
  have "map sub_ids (child_nodes a n) =
      map (\<lambda>(i, k, c). path_ids (pathArray n @ [k]) c) (enumerate 0 (getChildren (node_value n)))"
    by (auto simp: child_nodes_def sub_ids_def)
  also have "\<dots> = map (\<lambda>(k, c). path_ids (pathArray n @ [k]) c) (getChildren (node_value n))"
    using map_enumerate_snd [of "\<lambda>(k, c). path_ids (pathArray n @ [k]) c"] by simp
  finally show ?thesis by simp
qed

lemma sub_ids_step: "sub_ids n = joinPath (pathArray n) # concat (map sub_ids (child_nodes a n))"
  unfolding child_nodes_ids sub_ids_def by (rule path_ids_step)

lemma in_child_nodes:
  assumes "m \<in> set (child_nodes a n)"
  obtains k v i where "(k, v) \<in> set (getChildren (node_value n))"
    "m = new_child a (pathArray n) (depth n) (length (getChildren (node_value n))) (i, k, v)"
  using assms by (auto simp: child_nodes_def in_set_enumerate_eq) (metis nth_mem)

lemma child_nodes_facts:
  assumes "m \<in> set (child_nodes a n)"
  shows "children m = []" "node_id m = joinPath (pathArray m)" "parentNode m = Some a"
    "isExpandable m = isExpandable_value (node_value m)" "size (node_value m) < size (node_value n)"
    "\<exists>k. pathArray m = pathArray n @ [k]"
proof -
  obtain k v i where kv: "(k, v) \<in> set (getChildren (node_value n))"
    and m: "m = new_child a (pathArray n) (depth n) (length (getChildren (node_value n))) (i, k, v)"
    using in_child_nodes [OF assms] .
  from m size_getChildren [OF kv]
  show "children m = []" "node_id m = joinPath (pathArray m)" "parentNode m = Some a"
    "isExpandable m = isExpandable_value (node_value m)" "size (node_value m) < size (node_value n)"
    "\<exists>k. pathArray m = pathArray n @ [k]"
    by auto
qed

lemma built_cong: "(\<And>b. b \<in> set (preorder t) \<Longrightarrow> c' b = c b) \<Longrightarrow> built c' t n \<longleftrightarrow> built c t n"
proof (induction t arbitrary: n)
  case (Rose a ts)
  have "built c' u m \<longleftrightarrow> built c u m" if "u \<in> set ts" for u m
    by (rule Rose.IH [OF that]) (use Rose.prems that in auto)
  then have "map (built c') ts = map (built c) ts" by auto
  moreover have "c' a = c a" using Rose.prems by simp
  ultimately show ?case by (simp only: built.simps)
qed

section \<open>One round of the loop\<close>

lemma create_child_effect:
  assumes "parent < next_addr (heap s)"
  shows "cell (heap (create_child parent m s)) =
      (cell (heap s))(next_addr (heap s) := m,
         parent := (cell (heap s) parent)\<lparr>children := children (cell (heap s) parent) @ [next_addr (heap s)]\<rparr>)"
    "next_addr (heap (create_child parent m s)) = Suc (next_addr (heap s))"
    "built_map (create_child parent m s) = (built_map s)(node_id m \<mapsto> next_addr (heap s))"
    "nodesToPopulate (create_child parent m s) = (nodesToPopulate s)(node_id m \<mapsto> next_addr (heap s))"
  using assms by (auto simp: create_child_def alloc_def fun_eq_iff)

lemma create_nodes:
  assumes "a < next_addr (heap s)" "distinct (map node_id ms)"
  shows "let s' = fold (create_child a) ms s; N = next_addr (heap s) in
    next_addr (heap s') = N + length ms \<and>
    cell (heap s') a = (cell (heap s) a)\<lparr>children := children (cell (heap s) a) @ [N..<N + length ms]\<rparr> \<and>
    (\<forall>b < N. b \<noteq> a \<longrightarrow> cell (heap s') b = cell (heap s) b) \<and>
    (\<forall>i < length ms. cell (heap s') (N + i) = ms ! i) \<and>
    (\<forall>i < length ms. nodesToPopulate s' (node_id (ms ! i)) = Some (N + i)) \<and>
    (\<forall>k. k \<notin> set (map node_id ms) \<longrightarrow> nodesToPopulate s' k = nodesToPopulate s k) \<and>
    (built_map s = nodesToPopulate s \<longrightarrow> built_map s' = nodesToPopulate s')"
  using assms
proof (induction ms arbitrary: s)
  case Nil
  then show ?case by simp
next
  case (Cons m ms)
  let ?s = "create_child a m s"
  let ?N = "next_addr (heap s)"
  note e = create_child_effect [OF Cons.prems(1), of m]
  have a: "a < next_addr (heap ?s)" using Cons.prems(1) e(2) by simp
  note IH = Cons.IH [OF a, unfolded Let_def]
  have d: "distinct (map node_id ms)" "node_id m \<notin> set (map node_id ms)" using Cons.prems(2) by auto
  note ih = IH [OF d(1)]
  let ?s' = "fold (create_child a) ms ?s"
  have "next_addr (heap ?s') = ?N + length (m # ms)" using ih e(2) by simp
  moreover have "cell (heap ?s') a =
      (cell (heap s) a)\<lparr>children := children (cell (heap s) a) @ [?N..<?N + length (m # ms)]\<rparr>"
    using ih e Cons.prems(1) by (simp add: upt_conv_Cons del: upt_Suc)
  moreover have "cell (heap ?s') b = cell (heap s) b" if "b < ?N" "b \<noteq> a" for b
    using ih e that by simp
  moreover have "cell (heap ?s') (?N + i) = (m # ms) ! i" if "i < length (m # ms)" for i
  proof (cases i)
    case 0
    then show ?thesis using ih e Cons.prems(1) by simp
  next
    case (Suc j)
    then show ?thesis using ih e that by simp
  qed
  moreover have "nodesToPopulate ?s' (node_id ((m # ms) ! i)) = Some (?N + i)" if "i < length (m # ms)" for i
  proof (cases i)
    case 0
    then show ?thesis using ih e d(2) by simp
  next
    case (Suc j)
    then show ?thesis using ih e that by simp
  qed
  moreover have "nodesToPopulate ?s' k = nodesToPopulate s k" if "k \<notin> set (map node_id (m # ms))" for k
    using ih e that by simp
  moreover have "built_map ?s' = nodesToPopulate ?s'" if "built_map s = nodesToPopulate s"
    using ih e that by simp
  ultimately show ?case by (simp add: Let_def)
qed

end
