(* ===== verification/Tree_Build_Loop.thy ===== *)
theory Tree_Build_Loop imports Tree_Structure begin

text \<open>
  The correctness of the stack loop of \<open>buildTreeStructureIterative\<close>: processing a pending stack
  item builds the whole tree below its node and leaves everything else as it was, as long as the
  joined paths below are distinct. The proof composes \<open>forest_done\<close> over siblings and levels.
\<close>

lemma built_ids:
  "built c t n \<Longrightarrow> node_id n = joinPath (pathArray n) \<Longrightarrow> map (node_id \<circ> c) (preorder t) = sub_ids n"
proof (induction t arbitrary: n)
  case (Rose a ts)
  have kids: "list_all2 (built c) ts (child_nodes a n)"
    using Rose.prems(1) by (simp add: list_all2_map1)
  have "list_all2 (\<lambda>u m. map (node_id \<circ> c) (preorder u) = sub_ids m) ts (child_nodes a n)"
    using kids by (rule list.rel_mono_strong)
      (use Rose.IH child_nodes_facts(2) in blast)
  then have "map (\<lambda>u. map (node_id \<circ> c) (preorder u)) ts = map sub_ids (child_nodes a n)"
    by (simp add: list_all2_conv_all_nth list_eq_iff_nth_eq)
  then have "concat (map (\<lambda>u. map (node_id \<circ> c) (preorder u)) ts) = concat (map sub_ids (child_nodes a n))"
    by (rule arg_cong)
  moreover have "node_id (c a) = joinPath (pathArray n)" using Rose.prems by simp
  ultimately show ?case by (simp add: sub_ids_step [of n a] map_concat comp_def)
qed

definition pending :: "build_state \<Rightarrow> addr \<Rightarrow> tnode \<Rightarrow> bool" where
  "pending s a n \<longleftrightarrow> a < next_addr (heap s) \<and> cell (heap s) a = n \<and> children n = [] \<and>
     node_id n = joinPath (pathArray n) \<and> isExpandable n = isExpandable_value (node_value n) \<and>
     nodesToPopulate s (node_id n) = Some a"

lemma pendingD:
  assumes "pending s a n"
  shows "a < next_addr (heap s)" "cell (heap s) a = n" "children n = []"
    "node_id n = joinPath (pathArray n)" "isExpandable n = isExpandable_value (node_value n)"
    "nodesToPopulate s (node_id n) = Some a"
  using assms unfolding pending_def by blast+

definition grown :: "build_state \<Rightarrow> build_state \<Rightarrow> addr set \<Rightarrow> string set \<Rightarrow> bool" where
  "grown s s' A I \<longleftrightarrow> next_addr (heap s) \<le> next_addr (heap s') \<and>
     (\<forall>b < next_addr (heap s). b \<notin> A \<longrightarrow> cell (heap s') b = cell (heap s) b) \<and>
     (\<forall>k. k \<notin> I \<longrightarrow> nodesToPopulate s' k = nodesToPopulate s k) \<and>
     (built_map s = nodesToPopulate s \<longrightarrow> built_map s' = nodesToPopulate s')"

definition placed :: "build_state \<Rightarrow> addr list \<Rightarrow> bool" where
  "placed s as \<longleftrightarrow> (\<forall>b \<in> set as. nodesToPopulate s (node_id (cell (heap s) b)) = Some b)"

definition below_ids :: "tnode list \<Rightarrow> string set" where
  "below_ids ms = set (concat (map (tl \<circ> sub_ids) ms))"

definition forest_done :: "build_state \<Rightarrow> build_state \<Rightarrow> addr list \<Rightarrow> tnode list \<Rightarrow> addr rose list \<Rightarrow> bool" where
  "forest_done s s' as ms ts \<longleftrightarrow> map label ts = as \<and> list_all2 (built (cell (heap s'))) ts ms \<and>
     distinct (forest_preorder ts) \<and>
     set (forest_preorder ts) \<subseteq> set as \<union> {next_addr (heap s)..<next_addr (heap s')} \<and>
     grown s s' (set as) (below_ids ms) \<and> placed s' (forest_preorder ts)"

lemma below_ids_Cons: "below_ids (m # ms) = set (tl (sub_ids m)) \<union> below_ids ms"
  by (simp add: below_ids_def)

lemma below_ids_sub: "below_ids ms \<subseteq> set (concat (map sub_ids ms))"
  by (auto simp: below_ids_def dest: list.set_sel(2) [rotated])
    (metis list.set_sel(2) list.sel(2))

lemma sub_ids_not_Nil [simp]: "sub_ids n \<noteq> []"
  by (simp add: sub_ids_step [of n 0])

lemma forest_done_Nil: "forest_done s s [] [] []"
  by (simp add: forest_done_def grown_def placed_def below_ids_def)

lemma pending_grown:
  assumes "pending s b m" "grown s s' A I" "b \<notin> A" "node_id m \<notin> I"
  shows "pending s' b m"
  using assms by (auto simp: pending_def grown_def)

lemma grown_trans:
  assumes "grown s s1 A I" "grown s1 s2 B J"
  shows "grown s s2 (A \<union> B) (I \<union> J)"
  using assms unfolding grown_def by auto

lemma grown_mono:
  "grown s s' A I \<Longrightarrow> A \<inter> {..<next_addr (heap s)} \<subseteq> B \<Longrightarrow> I \<subseteq> J \<Longrightarrow> grown s s' B J"
  unfolding grown_def by blast

lemma forest_done_Cons:
  assumes one: "forest_done s s1 [a] [m] [t]" and rest: "forest_done s1 s2 as ms ts"
    and as: "a \<notin> set as" "a < next_addr (heap s)" "\<forall>b \<in> set as. b < next_addr (heap s)"
    and ids: "distinct (concat (map sub_ids (m # ms)))" "node_id m = joinPath (pathArray m)"
  shows "forest_done s s2 (a # as) (m # ms) (t # ts)"
proof -
  let ?N = "next_addr (heap s)" and ?N1 = "next_addr (heap s1)" and ?N2 = "next_addr (heap s2)"
  from one have o: "label t = a" "built (cell (heap s1)) t m" "distinct (preorder t)"
      "set (preorder t) \<subseteq> insert a {?N..<?N1}" "grown s s1 {a} (set (tl (sub_ids m)))" "placed s1 (preorder t)"
    by (simp_all add: forest_done_def below_ids_def)
  from rest have r: "map label ts = as" "list_all2 (built (cell (heap s2))) ts ms" "distinct (forest_preorder ts)"
      "set (forest_preorder ts) \<subseteq> set as \<union> {?N1..<?N2}" "grown s1 s2 (set as) (below_ids ms)"
      "placed s2 (forest_preorder ts)"
    by (simp_all add: forest_done_def)
  have le: "?N \<le> ?N1" "?N1 \<le> ?N2" using o(5) r(5) by (auto simp: grown_def)
  have in_t: "b < ?N1" "b \<notin> set as" if "b \<in> set (preorder t)" for b
    using that o(4) as le by force+
  have same: "cell (heap s2) b = cell (heap s1) b" if "b \<in> set (preorder t)" for b
    using r(5) in_t [OF that] by (simp add: grown_def)
  have bt: "built (cell (heap s2)) t m"
    using built_cong [of t "cell (heap s2)" "cell (heap s1)" m] same o(2) by blast
  have "node_id (cell (heap s1) b) \<notin> below_ids ms" if "b \<in> set (preorder t)" for b
  proof -
    have "node_id (cell (heap s1) b) \<in> set (sub_ids m)"
      using that by (subst built_ids [OF o(2) ids(2), symmetric]) simp
    with ids(1) below_ids_sub [of ms] show ?thesis by auto
  qed
  then have "placed s2 (preorder t)"
    using o(6) r(5) same by (auto simp: placed_def grown_def)
  then have "placed s2 (forest_preorder (t # ts))" using r(6) by (auto simp: placed_def)
  moreover have "set (preorder t) \<inter> set (forest_preorder ts) = {}"
    using r(4) in_t by fastforce
  moreover have "grown s s2 (set (a # as)) (below_ids (m # ms))"
    using grown_trans [OF o(5) r(5)] by (simp add: below_ids_Cons)
  moreover have "set (forest_preorder (t # ts)) \<subseteq> set (a # as) \<union> {?N..<?N2}"
    using o(4) r(4) le by fastforce
  ultimately show ?thesis
    using bt o(1,3) r(1-3) by (simp add: forest_done_def)
qed

lemma forest_done_node:
  assumes p: "pending s a n" and id: "distinct (sub_ids n)"
    and s1: "next_addr (heap s1) = next_addr (heap s) + length (child_nodes a n)"
      "cell (heap s1) a = n\<lparr>children := [next_addr (heap s)..<next_addr (heap s1)]\<rparr>"
      "grown s s1 {a} (set (map node_id (child_nodes a n)))"
    and f: "forest_done s1 s' [next_addr (heap s)..<next_addr (heap s1)] (child_nodes a n) ts"
  shows "forest_done s s' [a] [n] [Rose a ts]"
proof -
  let ?N = "next_addr (heap s)" and ?N1 = "next_addr (heap s1)" and ?N' = "next_addr (heap s')"
  from f have r: "map label ts = [?N..<?N1]" "list_all2 (built (cell (heap s'))) ts (child_nodes a n)"
      "distinct (forest_preorder ts)" "set (forest_preorder ts) \<subseteq> {?N..<?N1} \<union> {?N1..<?N'}"
      "grown s1 s' {?N..<?N1} (below_ids (child_nodes a n))" "placed s' (forest_preorder ts)"
    by (simp_all add: forest_done_def)
  have a: "a < ?N" and nid: "node_id n = joinPath (pathArray n)" using p by (simp_all add: pending_def)
  have le: "?N \<le> ?N1" "?N1 \<le> ?N'" using s1(1) r(5) by (simp_all add: grown_def)
  have tl: "tl (sub_ids n) = concat (map sub_ids (child_nodes a n))"
    by (subst sub_ids_step [of n a]) simp
  have cids: "set (map node_id (child_nodes a n)) \<union> below_ids (child_nodes a n) \<subseteq> set (tl (sub_ids n))"
  proof -
    have "node_id m \<in> set (sub_ids m)" if "m \<in> set (child_nodes a n)" for m
      using child_nodes_facts(2) [OF that] by (subst sub_ids_step [of m 0]) simp
    then have "set (map node_id (child_nodes a n)) \<subseteq> set (tl (sub_ids n))" unfolding tl by auto
    with below_ids_sub show ?thesis unfolding tl by blast
  qed
  have "cell (heap s') a = cell (heap s1) a" using r(5) a le by (simp add: grown_def)
  then have ca: "cell (heap s') a = n\<lparr>children := map label ts\<rparr>" using s1(2) r(1) by simp
  then have b: "built (cell (heap s')) (Rose a ts) n"
    using r(2) by (simp add: list_all2_map1)
  have "node_id n \<notin> set (tl (sub_ids n))"
    using id nid by (simp add: sub_ids_step [of n a])
  then have "node_id n \<notin> set (map node_id (child_nodes a n))" "node_id n \<notin> below_ids (child_nodes a n)"
    using cids by blast+
  then have "nodesToPopulate s' (node_id n) = nodesToPopulate s (node_id n)"
    using s1(3) r(5) unfolding grown_def by metis
  then have "nodesToPopulate s' (node_id n) = Some a" using p by (metis pending_def)
  then have "placed s' (preorder (Rose a ts))"
    using r(6) ca by (simp add: placed_def)
  moreover have "grown s s' {a} (below_ids [n])"
    by (rule grown_mono [OF grown_trans [OF s1(3) r(5)]]) (use cids in \<open>auto simp: below_ids_def\<close>)
  moreover have "set (preorder (Rose a ts)) \<subseteq> {a} \<union> {?N..<?N'}" using r(4) le by fastforce
  moreover have "distinct (preorder (Rose a ts))" using r(3,4) a le by fastforce
  ultimately show ?thesis using b by (simp add: forest_done_def)
qed


section \<open>The loop\<close>

lemma distinct_heads:
  "distinct (concat (map f xs)) \<Longrightarrow> (\<And>x. x \<in> set xs \<Longrightarrow> f x = g x # h x) \<Longrightarrow> distinct (map g xs)"
proof (induction xs)
  case Nil
  then show ?case by simp
next
  case (Cons x xs)
  have "distinct (map g xs)" using Cons by auto
  moreover have "g x \<notin> g ` set xs"
  proof
    assume "g x \<in> g ` set xs"
    then obtain y where "y \<in> set xs" "g x = g y" by auto
    with Cons.prems have "g x \<in> set (f x) \<inter> set (concat (map f xs))" by fastforce
    with Cons.prems(1) show False by auto
  qed
  ultimately show ?case by simp
qed

lemma child_ids_distinct:
  assumes "distinct (sub_ids n)"
  shows "distinct (map node_id (child_nodes a n))"
proof (rule distinct_heads [where f = sub_ids])
  show "distinct (concat (map sub_ids (child_nodes a n)))"
    using assms by (simp add: sub_ids_step [of n a])
  show "sub_ids m = node_id m # concat (map sub_ids (child_nodes 0 m))" if "m \<in> set (child_nodes a n)" for m
    using child_nodes_facts(2) [OF that] sub_ids_step [of m 0] by simp
qed

lemma length_child_nodes [simp]: "length (child_nodes a n) = length (getChildren (node_value n))"
  by (simp add: child_nodes_def)

lemma fold_map: "fold f (map g xs) s = fold (\<lambda>x. f (g x)) xs s"
  by (induction xs arbitrary: s) auto

lemma created:
  assumes p: "pending s a n" and d: "distinct (sub_ids n)"
  defines "s1 \<equiv> create_children a (pathArray n) (depth n) (getChildren (node_value n)) s"
  shows "next_addr (heap s1) = next_addr (heap s) + length (child_nodes a n)"
    "cell (heap s1) a = n\<lparr>children := [next_addr (heap s)..<next_addr (heap s1)]\<rparr>"
    "grown s s1 {a} (set (map node_id (child_nodes a n)))"
    "list_all2 (pending s1) [next_addr (heap s)..<next_addr (heap s1)] (child_nodes a n)"
    "pushed_children a s1 = map item_of (child_nodes a n)"
proof -
  let ?ms = "child_nodes a n" and ?N = "next_addr (heap s)"
  have "cell (heap s) a = n" "children n = []" using p by (simp_all add: pending_def)
  then have "n\<lparr>children := []\<rparr> = n" "(cell (heap s))(a := n) = cell (heap s)" by auto
  then have "s\<lparr>heap := upd_cell a (\<lambda>n. n\<lparr>children := []\<rparr>) (heap s)\<rparr> = s"
    using \<open>cell (heap s) a = n\<close> by simp
  then have s1: "s1 = fold (create_child a) ?ms s"
    unfolding s1_def create_children_def child_nodes_def fold_map by simp
  have a: "a < ?N" using p by (simp add: pending_def)
  note e = create_nodes [OF a child_ids_distinct [OF d, of a], folded s1, unfolded Let_def]
  show nxt: "next_addr (heap s1) = ?N + length ?ms" using e by blast
  show ca: "cell (heap s1) a = n\<lparr>children := [?N..<next_addr (heap s1)]\<rparr>"
    using e nxt \<open>cell (heap s) a = n\<close> \<open>children n = []\<close> by simp
  show "grown s s1 {a} (set (map node_id ?ms))" using e unfolding grown_def by auto
  have cells: "cell (heap s1) (?N + i) = ?ms ! i" if "i < length ?ms" for i using e that by blast
  show "list_all2 (pending s1) [?N..<next_addr (heap s1)] ?ms"
    unfolding list_all2_conv_all_nth
  proof (intro conjI allI impI)
    fix i
    assume "i < length [?N..<next_addr (heap s1)]"
    then have i: "i < length ?ms" using nxt by simp
    with e have "nodesToPopulate s1 (node_id (?ms ! i)) = Some (?N + i)" by blast
    moreover have "[?N..<next_addr (heap s1)] ! i = ?N + i" using i nxt by simp
    ultimately show "pending s1 ([?N..<next_addr (heap s1)] ! i) (?ms ! i)"
      using i nxt cells [OF i] child_nodes_facts [OF nth_mem [OF i]] by (simp add: pending_def)
  qed (use nxt in simp)
  have "map (cell (heap s1)) [?N..<?N + length ?ms] = ?ms"
    using cells by (intro nth_equalityI) auto
  then have "map item_of (map (cell (heap s1)) [?N..<?N + length ?ms]) = map item_of ?ms" by simp
  with ca nxt show "pushed_children a s1 = map item_of ?ms"
    by (simp add: pushed_children_def comp_def)
qed

lemma forest_loop:
  assumes step: "\<And>s a m rest. m \<in> set ms \<Longrightarrow> pending s a m \<Longrightarrow>
      \<exists>t s'. stack_loop B s (item_of m # rest) = stack_loop B s' rest \<and> forest_done s s' [a] [m] [t]"
    and p: "list_all2 (pending s) as ms" and d: "distinct as" "distinct (concat (map sub_ids ms))"
  shows "\<exists>ts s'. stack_loop B s (map item_of ms @ rest) = stack_loop B s' rest \<and> forest_done s s' as ms ts"
  using assms
proof (induction ms arbitrary: s as)
  case Nil
  then show ?case using forest_done_Nil by auto
next
  case (Cons m ms)
  from Cons.prems(2) obtain a as' where as: "as = a # as'" "pending s a m" "list_all2 (pending s) as' ms"
    by (auto simp: list_all2_Cons2)
  have "\<exists>t s'. stack_loop B s (item_of m # map item_of ms @ rest) = stack_loop B s' (map item_of ms @ rest) \<and>
      forest_done s s' [a] [m] [t]"
    by (rule Cons.prems(1)) (use as in simp_all)
  then obtain t s1 where
    t: "stack_loop B s (item_of m # map item_of ms @ rest) = stack_loop B s1 (map item_of ms @ rest)"
      "forest_done s s1 [a] [m] [t]" by blast
  have keep: "pending s1 b m'" if bm: "pending s b m'" "b \<in> set as'" "m' \<in> set ms" for b m'
  proof (rule pending_grown [OF bm(1)])
    show "grown s s1 {a} (set (tl (sub_ids m)))"
      using t(2) by (simp add: forest_done_def below_ids_def)
    show "b \<notin> {a}" using bm(2) Cons.prems(3) as(1) by auto
    have "node_id m' \<in> set (sub_ids m')"
      using bm(1) by (simp add: pending_def sub_ids_step [of m' 0])
    then have "node_id m' \<notin> set (sub_ids m)" using Cons.prems(4) bm(3) by auto
    then show "node_id m' \<notin> set (tl (sub_ids m))" by (metis list.set_sel(2) sub_ids_not_Nil)
  qed
  have "list_all2 (pending s1) as' ms"
    using as(3) by (rule list.rel_mono_strong) (rule keep)
  moreover have "distinct as'" "distinct (concat (map sub_ids ms))" using Cons.prems(3,4) as(1) by auto
  moreover have "\<And>s a m' rest. m' \<in> set ms \<Longrightarrow> pending s a m' \<Longrightarrow>
      \<exists>t s'. stack_loop B s (item_of m' # rest) = stack_loop B s' rest \<and> forest_done s s' [a] [m'] [t]"
    by (rule Cons.prems(1)) simp_all
  ultimately obtain ts s2 where
    ts: "stack_loop B s1 (map item_of ms @ rest) = stack_loop B s2 rest" "forest_done s1 s2 as' ms ts"
    using Cons.IH [of s1 as'] by blast
  have "\<forall>b \<in> set as'. b < next_addr (heap s)"
    using as(3) by (auto simp: list_all2_conv_all_nth in_set_conv_nth pending_def)
  moreover have "a < next_addr (heap s)" "node_id m = joinPath (pathArray m)"
    using as(2) by (simp_all add: pending_def)
  moreover have "a \<notin> set as'" using Cons.prems(3) as(1) by simp
  ultimately have "forest_done s s2 (a # as') (m # ms) (t # ts)"
    using forest_done_Cons [OF t(2) ts(2)] Cons.prems(4) by blast
  with t(1) ts(1) as(1) show ?case by auto
qed


text \<open>The root's id is below no other id: a joined path is longer than its first part.\<close>

lemma joinPath_longer: "p \<noteq> [] \<Longrightarrow> joinPath (KStr r # p) \<noteq> r"
proof -
  assume "p \<noteq> []"
  then have "length (joinPath (KStr r # p)) > length r" by (cases p) (auto simp: joinPath_def)
  then show ?thesis by auto
qed

lemma body_node:
  assumes "pending s a n" "node_id n \<noteq> rk"
  shows "build_body rn rk data s (item_of n) =
    (if isExpandable_value (node_value n)
     then (let s2 = create_children a (pathArray n) (depth n) (getChildren (node_value n)) s in (s2, pushed_children a s2))
     else (s, []))"
proof -
  have "joinPath (item_path (item_of n)) = node_id n" "cell (heap s) a = n"
    "nodesToPopulate s (node_id n) = Some a" "isExpandable n = isExpandable_value (node_value n)"
    using pendingD [OF assms(1)] by (simp_all add: item_of_def)
  with assms(2) show ?thesis by (simp add: build_body_def item_of_def Let_def)
qed

lemma children_ids_distinct:
  "distinct (sub_ids n) \<Longrightarrow> distinct (concat (map sub_ids (child_nodes a n)))"
  by (simp add: sub_ids_step [of n a])

lemma node_loop:
  "pending s a n \<Longrightarrow> distinct (sub_ids n) \<Longrightarrow> \<exists>q. pathArray n = KStr rk # q \<and> q \<noteq> [] \<Longrightarrow>
   \<exists>t s'. stack_loop (build_body rn rk data) s (item_of n # rest) =
       stack_loop (build_body rn rk data) s' rest \<and> forest_done s s' [a] [n] [t]"
proof (induction "size (node_value n)" arbitrary: n s a rest rule: less_induct)
  case less
  let ?B = "build_body rn rk data"
  have nid: "node_id n \<noteq> rk"
    using pendingD(4) [OF less.prems(1)] less.prems(3) joinPath_longer by metis
  show ?case
  proof (cases "isExpandable_value (node_value n)")
    case False
    then have kids: "child_nodes a n = []" by (simp add: child_nodes_def not_expandable_children)
    have "stack_loop ?B s (item_of n # rest) = stack_loop ?B s rest"
      using body_node [OF less.prems(1) nid] False by (simp add: stack_loop_Cons)
    moreover have "forest_done s s [a] [n] [Rose a []]"
      by (rule forest_done_node [OF less.prems(1,2), of s])
        (use less.prems(1) kids forest_done_Nil in \<open>auto simp: pending_def grown_def\<close>)
    ultimately show ?thesis by blast
  next
    case True
    let ?ms = "child_nodes a n"
    let ?s1 = "create_children a (pathArray n) (depth n) (getChildren (node_value n)) s"
    note cr = created [OF less.prems(1,2)]
    have first: "stack_loop ?B s (item_of n # rest) = stack_loop ?B ?s1 (map item_of ?ms @ rest)"
      using body_node [OF less.prems(1) nid] True cr(5) by (simp add: stack_loop_Cons Let_def)
    have step: "\<exists>t s'. stack_loop ?B s (item_of m # rest) = stack_loop ?B s' rest \<and> forest_done s s' [b] [m] [t]"
      if m: "m \<in> set ?ms" "pending s b m" for s b m rest
    proof (rule less.hyps [OF _ m(2)])
      show "size (node_value m) < size (node_value n)" using child_nodes_facts(5) [OF m(1)] .
      show "distinct (sub_ids m)"
        using children_ids_distinct [OF less.prems(2), of a] m(1) by (metis distinct_concat_iff image_eqI list.set_map)
      show "\<exists>q. pathArray m = KStr rk # q \<and> q \<noteq> []"
        using child_nodes_facts(6) [OF m(1)] less.prems(3) by auto
    qed
    obtain ts s' where "stack_loop ?B ?s1 (map item_of ?ms @ rest) = stack_loop ?B s' rest"
        "forest_done ?s1 s' [next_addr (heap s)..<next_addr (heap ?s1)] ?ms ts"
      using forest_loop [OF step cr(4) distinct_upt children_ids_distinct [OF less.prems(2)], of rest] by blast
    with first forest_done_node [OF less.prems(1,2) cr(1-3)] show ?thesis by metis
  qed
qed


definition root_node :: "string \<Rightarrow> json \<Rightarrow> tnode" where
  "root_node rk data = (new_root rk data)\<lparr>childCount := getChildCount data\<rparr>"

lemma root_fields [simp]:
  "node_value (root_node rk data) = data" "pathArray (root_node rk data) = [KStr rk]"
  "node_id (root_node rk data) = rk" "depth (root_node rk data) = 0" "children (root_node rk data) = []"
  "isExpandable (root_node rk data) = isExpandable_value data" "parentNode (root_node rk data) = None"
  by (simp_all add: root_node_def new_root_def)

lemma joinPath_single [simp]: "joinPath [KStr r] = r"
  by (simp add: joinPath_def)

lemma body_root:
  "build_body rn rk data s (item_of (new_root rk data)) =
    (if isExpandable_value data
     then (let s2 = create_children rn (pathArray (root_node rk data)) (depth (root_node rk data)) (getChildren data)
                    (s\<lparr>heap := upd_cell rn (\<lambda>n. n\<lparr>childCount := length (getChildren data)\<rparr>) (heap s)\<rparr>)
           in (s2, pushed_children rn s2))
     else (s, []))"
  by (simp add: build_body_def item_of_def new_root_def Let_def)

lemma build_structure:
  assumes ids: "distinct (path_ids [KStr rk] data)"
  shows "\<exists>m h' t. buildTreeStructureIterative data rk h = Some (next_addr h, m, h') \<and>
    built (cell h') t (root_node rk data) \<and> label t = next_addr h \<and> distinct (preorder t) \<and>
    (\<forall>b < next_addr h. cell h' b = cell h b) \<and>
    (\<forall>b \<in> set (preorder t). m (node_id (cell h' b)) = Some b)"
proof -
  let ?n = "root_node rk data" and ?a = "next_addr h"
  let ?h = "snd (alloc (new_root rk data) h)"
  let ?start = "\<lparr>heap = ?h, built_map = [rk \<mapsto> ?a], nodesToPopulate = [rk \<mapsto> ?a]\<rparr>"
  let ?B = "build_body ?a rk data"
  let ?base = "?start\<lparr>heap := upd_cell ?a (\<lambda>n. n\<lparr>childCount := length (getChildren data)\<rparr>) ?h\<rparr>"
  have cell: "cell ?h ?a = new_root rk data" "next_addr ?h = Suc ?a" "\<forall>b < ?a. cell ?h b = cell h b"
    by (simp_all add: alloc_def)
  have p: "pending ?base ?a ?n"
    using cell by (simp add: pending_def root_node_def new_root_def length_getChildren)
  have d: "distinct (sub_ids ?n)" using ids by (simp add: sub_ids_def)
  have "\<exists>ts s'. stack_loop ?B ?start [item_of (new_root rk data)] = Some s' \<and>
      forest_done ?base s' [?a] [?n] [Rose ?a ts]"
  proof (cases "isExpandable_value data")
    case False
    then have "getChildren data = []" by (rule not_expandable_children)
    then have "new_root rk data = ?n"
      using length_getChildren [of data] by (simp add: root_node_def new_root_def)
    moreover have "(new_root rk data)\<lparr>childCount := length (getChildren data)\<rparr> = new_root rk data"
      using \<open>getChildren data = []\<close> by (simp add: new_root_def)
    then have "(cell ?h)(?a := (cell ?h ?a)\<lparr>childCount := length (getChildren data)\<rparr>) = cell ?h"
      using cell(1) by (metis fun_upd_triv)
    then have "?base = ?start" by simp
    moreover have "?B ?start (item_of (new_root rk data)) = (?start, [])"
      unfolding body_root using False by simp
    then have "stack_loop ?B ?start [item_of (new_root rk data)] = Some ?start"
      by (simp only: stack_loop_Cons stack_loop_Nil fst_conv snd_conv append_Nil)
    moreover have "forest_done ?base ?base [?a] [?n] [Rose ?a []]"
      by (rule forest_done_node [OF p d, of ?base])
        (use p \<open>getChildren data = []\<close> forest_done_Nil in \<open>auto simp: pending_def grown_def child_nodes_def\<close>)
    ultimately show ?thesis by metis
  next
    case True
    let ?s1 = "create_children ?a (pathArray ?n) (depth ?n) (getChildren (node_value ?n)) ?base"
    let ?ms = "child_nodes ?a ?n"
    note cr = created [OF p d]
    have first: "stack_loop ?B ?start [item_of (new_root rk data)] = stack_loop ?B ?s1 (map item_of ?ms)"
      using body_root [of ?a rk data ?start] True cr(5) by (simp add: stack_loop_Cons Let_def)
    have step: "\<exists>t s'. stack_loop ?B s (item_of m # rest) = stack_loop ?B s' rest \<and> forest_done s s' [b] [m] [t]"
      if m: "m \<in> set ?ms" "pending s b m" for s b m rest
    proof (rule node_loop [OF m(2)])
      show "distinct (sub_ids m)"
        using children_ids_distinct [OF d, of ?a] m(1) by (metis distinct_concat_iff image_eqI list.set_map)
      show "\<exists>q. pathArray m = KStr rk # q \<and> q \<noteq> []"
        using child_nodes_facts(6) [OF m(1)] by auto
    qed
    obtain ts s' where "stack_loop ?B ?s1 (map item_of ?ms @ []) = stack_loop ?B s' []"
        "forest_done ?s1 s' [next_addr (heap ?base)..<next_addr (heap ?s1)] ?ms ts"
      using forest_loop [OF step cr(4) distinct_upt children_ids_distinct [OF d], of "[]"] by blast
    with first forest_done_node [OF p d cr(1-3)] show ?thesis by (simp add: stack_loop_Nil) blast
  qed
  then obtain ts s' where l: "stack_loop ?B ?start [item_of (new_root rk data)] = Some s'"
      and f: "forest_done ?base s' [?a] [?n] [Rose ?a ts]" by blast
  from f have r: "built (cell (heap s')) (Rose ?a ts) ?n" "distinct (preorder (Rose ?a ts))"
      "grown ?base s' {?a} (below_ids [?n])" "placed s' (preorder (Rose ?a ts))"
    by (simp_all add: forest_done_def)
  have "built_map s' = nodesToPopulate s'" using r(3) by (simp add: grown_def)
  then have "\<forall>b \<in> set (preorder (Rose ?a ts)). built_map s' (node_id (cell (heap s') b)) = Some b"
    using r(4) by (simp add: placed_def)
  moreover have "\<forall>b < ?a. cell (heap s') b = cell h b"
    using r(3) cell by (simp add: grown_def)
  moreover have "buildTreeStructureIterative data rk h = Some (?a, built_map s', heap s')"
  proof -
    have "alloc (new_root rk data) h = (?a, ?h)" by (simp add: alloc_def)
    then show ?thesis
      unfolding buildTreeStructureIterative_def by (rule ssubst) (simp only: prod.case Let_def l option.case)
  qed
  ultimately show ?thesis using r(1,2) by (intro exI [of _ "Rose ?a ts"] exI) auto
qed

end
