(* ===== verification/Tree_Build.thy ===== *)
theory Tree_Build imports Tree_Build_Loop begin

text \<open>
  The remaining passes of \<^verbatim>\<open>AdvancedJsonViewer/utils/treeStructure.ts\<close> and their composition
  \<open>buildTreeFromJSON\<close>: line numbers and the pre-order array, the initial expansion flags, the
  navigation offsets and the dimensions; then the properties of the complete tree. They discharge
  the hypotheses of the navigation and expansion properties for every tree the viewer builds.
\<close>

section \<open>Line numbers\<close>

definition number_body :: "cells \<times> nat \<times> addr list \<Rightarrow> addr \<Rightarrow> (cells \<times> nat \<times> addr list) \<times> addr list" where
  "number_body st node = (case st of (c, lineNumber, nodes) \<Rightarrow>
     (let lineNumber' = lineNumber + 1;
          c' = c(node := (c node)\<lparr>absoluteLineNumber := lineNumber'\<rparr>)
      in ((c', lineNumber', nodes @ [node]), children (c' node))))"

definition assignLineNumbersAndBuildAllNodes :: "cells \<Rightarrow> addr \<Rightarrow> (addr list \<times> cells) option" where
  "assignLineNumbersAndBuildAllNodes c rn =
     (case stack_loop number_body (c, 0, []) [rn] of
        None \<Rightarrow> None
      | Some (c', _, nodes) \<Rightarrow> Some (nodes, c'))"

section \<open>Initial expansion\<close>

definition initial_expand :: "expansion_state \<Rightarrow> int option \<Rightarrow> tnode \<Rightarrow> bool" where
  "initial_expand s expandDepth n =
     (let collapsedPaths = collapsed_paths s in
      case expandDepth of
        Some d \<Rightarrow> depth n < d
      | None \<Rightarrow>
          if ''*'' \<in> set collapsedPaths then False
          else (case s of
              ExpAll b \<Rightarrow> b
            | ExpMap m \<Rightarrow> if node_id n \<in> set collapsedPaths then False else True))"

definition initial_flags :: "expansion_state \<Rightarrow> int option \<Rightarrow> tnode \<Rightarrow> tnode" where
  "initial_flags s expandDepth n =
     n\<lparr>isExpanded := initial_expand s expandDepth n \<and> isExpandable n,
       userExpand := (if isExpandable n
         then (case s of ExpAll _ \<Rightarrow> None | ExpMap m \<Rightarrow> map_of m (node_id n)) else None)\<rparr>"

definition initial_body :: "expansion_state \<Rightarrow> int option \<Rightarrow> cells \<Rightarrow> addr \<Rightarrow> cells \<times> addr list" where
  "initial_body s expandDepth c a = (c(a := initial_flags s expandDepth (c a)), rev (children (c a)))"

definition applyExpansionStateIterative :: "cells \<Rightarrow> addr \<Rightarrow> expansion_state \<Rightarrow> int option \<Rightarrow> cells option" where
  "applyExpansionStateIterative c rn s expandDepth = stack_loop (initial_body s expandDepth) c [rn]"

section \<open>Offsets\<close>

definition compute_step :: "cells \<Rightarrow> addr \<Rightarrow> cells" where
  "compute_step c a =
     (if \<not> isExpandable (c a) \<or> \<not> isExpanded (c a) then clear_offsets c a
      else (case accumulate_offsets c a of (offsets, cumulative) \<Rightarrow>
        c(a := (c a)\<lparr>childOffsets := offsets, visibleDescendantCount := cumulative\<rparr>)))"

definition computeOffsetsIterative :: "cells \<Rightarrow> addr \<Rightarrow> cells option" where
  "computeOffsetsIterative c rn =
     map_option (\<lambda>postOrder. fold (\<lambda>a c. compute_step c a) postOrder c) (collect_postorder c rn)"

section \<open>Dimensions\<close>

definition calculateNodeWidth :: "tnode \<Rightarrow> width_config \<Rightarrow> rat" where
  "calculateNodeWidth node config =
     (let indentWidth = of_int (depth node) * indentSizePx config;
          keyLength = length (key_str (node_key node));
          colonWidth = 2 * charWidthPx config;
          valueLength = getValueDisplayLength (node_value node);
          paddingWidth = 4;
          charWidth = of_nat (keyLength + valueLength) * charWidthPx config
      in indentWidth + colonWidth + charWidth + paddingWidth + extraBufferPx config)"

definition calculateTreeDimensions :: "cells \<Rightarrow> addr list \<Rightarrow> width_config \<Rightarrow> int \<times> rat" where
  "calculateTreeDimensions c nodes config =
     fold (\<lambda>a (md, mw).
         let md' = (if depth (c a) > md then depth (c a) else md);
             nodeWidth = calculateNodeWidth (c a) config
         in (md', if nodeWidth > mw then nodeWidth else mw))
       nodes (0, 0)"

section \<open>The complete build\<close>

record build_config =
  rootKey :: string
  initialExpansion :: expansion_state
  expandDepth :: "int option"
  widthEstimator :: "width_config option"

definition default_width :: width_config where
  "default_width = \<lparr>charWidthPx = 62 / 10, indentSizePx = 16, extraBufferPx = 50\<rparr>"

definition buildTreeFromJSON :: "json \<Rightarrow> build_config \<Rightarrow> store \<Rightarrow> (tree_state \<times> store) option" where
  "buildTreeFromJSON data config h =
     (case buildTreeStructureIterative data (rootKey config) h of None \<Rightarrow> None
      | Some (rn, ids, h1) \<Rightarrow>
     (case assignLineNumbersAndBuildAllNodes (cell h1) rn of None \<Rightarrow> None
      | Some (nodes, c1) \<Rightarrow>
     (case applyExpansionStateIterative c1 rn (initialExpansion config) (expandDepth config) of None \<Rightarrow> None
      | Some c2 \<Rightarrow>
     (case computeOffsetsIterative c2 rn of None \<Rightarrow> None
      | Some c3 \<Rightarrow>
        (let widthConfig = (case widthEstimator config of Some w \<Rightarrow> w | None \<Rightarrow> default_width);
             (d, w) = calculateTreeDimensions c3 nodes widthConfig
         in Some (\<lparr>rootNode = rn, nodeMap = ids, allNodes = nodes, totalNodeCount = length nodes,
                   maxDepth = d, maxContentWidth = w\<rparr>, h1\<lparr>cell := c3\<rparr>))))))"

section \<open>The passes as walks\<close>

definition number_visit :: "cells \<times> nat \<times> addr list \<Rightarrow> addr \<Rightarrow> cells \<times> nat \<times> addr list" where
  "number_visit st node = (case st of (c, k, ns) \<Rightarrow>
     (c(node := (c node)\<lparr>absoluteLineNumber := k + 1\<rparr>), k + 1, ns @ [node]))"

interpretation number_walk: stack_walk number_body number_visit "\<lambda>st t. \<exists>p. tree_at (fst st) p t"
proof unfold_locales
  fix st :: "cells \<times> nat \<times> addr list" and a ts
  assume "\<exists>p. tree_at (fst st) p (Rose a ts)"
  then show "number_body st a = (number_visit st a, map label ts)"
    by (cases st) (auto simp: number_body_def number_visit_def Let_def)
next
  fix st :: "cells \<times> nat \<times> addr list" and a t
  assume "\<exists>p. tree_at (fst st) p t"
  moreover have "same_links (fst st) (fst (number_visit st a))"
    by (cases st) (simp add: number_visit_def)
  ultimately show "\<exists>p. tree_at (fst (number_visit st a)) p t" using tree_at_links by blast
qed (auto simp: list_all_iff)

abbreviation number_all :: "addr list \<Rightarrow> cells \<times> nat \<times> addr list \<Rightarrow> cells \<times> nat \<times> addr list" where
  "number_all xs st \<equiv> fold (\<lambda>a st. number_visit st a) xs st"

lemma number_visit_eq [simp]:
  "number_visit (c, k, ns) a = (c(a := (c a)\<lparr>absoluteLineNumber := k + 1\<rparr>), k + 1, ns @ [a])"
  by (simp add: number_visit_def)

lemma number_all_snd: "snd (number_all xs (c, k, ns)) = (k + length xs, ns @ xs)"
  by (induction xs arbitrary: c k ns) simp_all

lemma number_all_other: "b \<notin> set xs \<Longrightarrow> fst (number_all xs (c, k, ns)) b = c b"
proof (induction xs arbitrary: c k ns)
  case Nil
  then show ?case by simp
next
  case (Cons x xs)
  then have "fst (number_all xs (c(x := (c x)\<lparr>absoluteLineNumber := k + 1\<rparr>), k + 1, ns @ [x])) b =
      (c(x := (c x)\<lparr>absoluteLineNumber := k + 1\<rparr>)) b" by (intro Cons.IH) simp
  with Cons.prems show ?case by simp
qed

lemma number_all_nth:
  "distinct xs \<Longrightarrow> i < length xs \<Longrightarrow>
   fst (number_all xs (c, k, ns)) (xs ! i) = (c (xs ! i))\<lparr>absoluteLineNumber := k + i + 1\<rparr>"
proof (induction xs arbitrary: c k ns i)
  case Nil
  from Nil.prems(2) have False by simp
  then show ?case ..
next
  case (Cons x xs)
  show ?case
  proof (cases i)
    case 0
    have "x \<notin> set xs" using Cons.prems(1) by simp
    then show ?thesis using 0 by (simp add: number_all_other)
  next
    case (Suc j)
    then have "xs ! j \<noteq> x" "j < length xs" using Cons.prems by auto
    with Suc Cons show ?thesis by simp
  qed
qed

lemma lines_works:
  assumes "tree_at c p t" "distinct (preorder t)"
  shows "\<exists>c'. assignLineNumbersAndBuildAllNodes c (label t) = Some (preorder t, c') \<and>
    (\<forall>i < length (preorder t). c' (preorder t ! i) = (c (preorder t ! i))\<lparr>absoluteLineNumber := i + 1\<rparr>) \<and>
    (\<forall>b. b \<notin> set (preorder t) \<longrightarrow> c' b = c b)"
proof -
  let ?f = "number_all (preorder t) (c, 0, [])"
  have "stack_loop number_body (c, 0, []) [label t] = Some ?f"
    by (rule number_walk.loop_tree) (use assms in auto)
  moreover obtain c' where f: "?f = (c', length (preorder t), preorder t)"
    using number_all_snd [of "preorder t" c 0 "[]"] by (cases ?f) auto
  ultimately have "assignLineNumbersAndBuildAllNodes c (label t) = Some (preorder t, c')"
    by (simp add: assignLineNumbersAndBuildAllNodes_def)
  moreover have "c' b = c b" if "b \<notin> set (preorder t)" for b
    using number_all_other [OF that, of c 0 "[]"] f by simp
  moreover have "c' (preorder t ! i) = (c (preorder t ! i))\<lparr>absoluteLineNumber := i + 1\<rparr>"
    if "i < length (preorder t)" for i
    using number_all_nth [OF assms(2) that, of c 0 "[]"] f by simp
  ultimately show ?thesis by blast
qed

definition mirror_of :: "cells \<Rightarrow> addr rose \<Rightarrow> bool" where
  "mirror_of c t \<longleftrightarrow> (\<exists>p. tree_at c p (mirror t))"

interpretation initial_walk: stack_walk "initial_body s d" "\<lambda>c a. c(a := initial_flags s d (c a))" mirror_of
proof unfold_locales
  fix c a ts
  assume "mirror_of c (Rose a ts)"
  then have "children (c a) = map label (rev (map mirror ts))" by (auto simp: mirror_of_def)
  then show "initial_body s d c a = (c(a := initial_flags s d (c a)), map label ts)"
    by (simp add: initial_body_def rev_map comp_def)
next
  fix c t a
  assume "mirror_of c t"
  moreover have "same_links c (c(a := initial_flags s d (c a)))" by (simp add: initial_flags_def)
  ultimately show "mirror_of (c(a := initial_flags s d (c a))) t"
    using tree_at_links unfolding mirror_of_def by blast
qed (auto simp: mirror_of_def list_all_iff)

lemma initial_expand_upd: "initial_expand s d (n\<lparr>isExpanded := x, userExpand := y\<rparr>) = initial_expand s d n"
  by (cases d; cases s) (simp_all add: initial_expand_def Let_def)

lemma initial_expand_cong:
  "node_id m = node_id n \<Longrightarrow> depth m = depth n \<Longrightarrow> initial_expand s d m = initial_expand s d n"
  by (cases d; cases s) (simp_all add: initial_expand_def Let_def)

lemma initial_flags_idem: "initial_flags s d (initial_flags s d n) = initial_flags s d n"
  by (cases s) (simp_all add: initial_flags_def initial_expand_upd)

lemma initial_works:
  assumes "tree_at c p t"
  shows "applyExpansionStateIterative c (label t) s d =
    Some (\<lambda>b. if b \<in> set (preorder t) then initial_flags s d (c b) else c b)"
proof -
  have "mirror_of c (mirror t)" using assms by (auto simp: mirror_of_def)
  from initial_walk.loop_tree [OF this, of s d] show ?thesis
    by (simp add: applyExpansionStateIterative_def fold_pointwise initial_flags_idem)
qed

lemma compute_step_eq: "isExpanded (c a) \<longrightarrow> isExpandable (c a) \<Longrightarrow>
  compute_step c a = c(a := (c a)\<lparr>childOffsets := fst (offset_values c a),
                              visibleDescendantCount := snd (offset_values c a)\<rparr>)"
  by (auto simp: compute_step_def clear_offsets_def accumulate_offsets_eq offset_values_def)

lemma compute_step_other: "b \<noteq> a \<Longrightarrow> compute_step c a b = c b"
  by (simp add: compute_step_def clear_offsets_def accumulate_offsets_eq)

interpretation compute_pass: offset_pass compute_step "\<lambda>n. n" "\<lambda>n. isExpanded n \<longrightarrow> isExpandable n"
proof unfold_locales
  show "compute_step c a b = c b" if "b \<noteq> a" for c a b
    using that by (rule compute_step_other)
  show "core (compute_step c a a) = core (c a)" for c a
    by (simp add: compute_step_def clear_offsets_def accumulate_offsets_eq core_def)
  show "node_ok (compute_step c a) a"
    if "isExpanded (c a) \<longrightarrow> isExpandable (c a)" "a \<notin> set (children (c a))" for c a
  proof -
    have "child_rows (compute_step c a) a = child_rows c a"
      by (rule child_rows_upd_other [of a]) (use that compute_step_other in \<open>auto simp: compute_step_eq\<close>)
    moreover have "isExpanded (compute_step c a a) = isExpanded (c a)"
      "childOffsets (compute_step c a a) = fst (offset_values c a)"
      "visibleDescendantCount (compute_step c a a) = snd (offset_values c a)"
      using that(1) by (simp_all add: compute_step_eq)
    ultimately show ?thesis by (simp add: node_ok_def offset_values_def)
  qed
qed (simp_all add: core_def)

lemma offsets_works:
  assumes t: "tree_at c p t" "distinct (preorder t)" "\<forall>a \<in> set (preorder t). isExpanded (c a) \<longrightarrow> isExpandable (c a)"
  shows "\<exists>c'. computeOffsetsIterative c (label t) = Some c' \<and> tree_at c' p t \<and> offsets_ok c' t \<and>
    only_offsets c c' \<and> (\<forall>b. b \<notin> set (preorder t) \<longrightarrow> c' b = c b)"
proof -
  let ?c = "compute_pass.run (postorder t) c"
  have "computeOffsetsIterative c (label t) = Some ?c"
    using collect_postorder_eq [OF t(1)] by (simp add: computeOffsetsIterative_def)
  moreover have "only_offsets c ?c" by (simp add: only_offsets_def compute_pass.run_core)
  moreover have "?c b = c b" if "b \<notin> set (preorder t)" for b
    using compute_pass.run_other [of b "postorder t" c] that by simp
  ultimately show ?thesis using compute_pass.run_tree [OF t] by blast
qed

lemma dimensions_eq:
  "calculateTreeDimensions c nodes w =
     (Max (insert 0 ((\<lambda>a. depth (c a)) ` set nodes)), Max (insert 0 ((\<lambda>a. calculateNodeWidth (c a) w) ` set nodes)))"
proof -
  have "fold (\<lambda>a (md, mw). (max md (f a), max mw (g a))) xs (m :: int, v :: rat) =
      (Max (insert m (f ` set xs)), Max (insert v (g ` set xs)))" for f g m v and xs :: "addr list"
  proof (induction xs arbitrary: m v)
    case Nil
    then show ?case by simp
  next
    case (Cons x xs)
    then show ?case by (cases "xs = []") (simp_all add: max.assoc)
  qed
  moreover have "(\<lambda>a (md, mw). let md' = (if depth (c a) > md then depth (c a) else md);
             nodeWidth = calculateNodeWidth (c a) w
         in (md', if nodeWidth > mw then nodeWidth else mw)) =
      (\<lambda>a (md, mw). (max md (depth (c a)), max mw (calculateNodeWidth (c a) w)))"
    by (auto simp: fun_eq_iff Let_def max_def)
  ultimately show ?thesis by (simp add: calculateTreeDimensions_def)
qed


section \<open>The nodes of the built tree\<close>

lemma built_kids:
  "built c (Rose a ts) n \<Longrightarrow> list_all2 (built c) ts (child_nodes a n)"
  by (simp add: list_all2_map1)

lemma list_all2_pick: "list_all2 P xs ys \<Longrightarrow> x \<in> set xs \<Longrightarrow> \<exists>y \<in> set ys. P x y"
  by (induction rule: list_all2_induct) auto

lemma built_label: "built c t n \<Longrightarrow> c (label t) = n\<lparr>children := map label (subs t)\<rparr>"
  by (cases t) simp

lemma built_tree: "built c t n \<Longrightarrow> tree_at c (parentNode n) t"
proof (induction t arbitrary: n)
  case (Rose a ts)
  have "tree_at c (Some a) u" if "u \<in> set ts" for u
  proof -
    from list_all2_pick [OF built_kids [OF Rose.prems] that]
    obtain m where "m \<in> set (child_nodes a n)" "built c u m" by blast
    with Rose.IH [OF that] child_nodes_facts(3) show ?thesis by metis
  qed
  with Rose.prems show ?case by (simp add: list_all_iff)
qed

lemma built_every:
  assumes "built c t n" "P n" "\<And>a n m. P n \<Longrightarrow> m \<in> set (child_nodes a n) \<Longrightarrow> P m"
  shows "\<forall>b \<in> set (preorder t). \<exists>m. P m \<and> (\<exists>cs. c b = m\<lparr>children := cs\<rparr>)"
  using assms(1,2)
proof (induction t arbitrary: n)
  case (Rose a ts)
  have "\<forall>b \<in> set (preorder u). \<exists>m. P m \<and> (\<exists>cs. c b = m\<lparr>children := cs\<rparr>)" if "u \<in> set ts" for u
  proof -
    from list_all2_pick [OF built_kids [OF Rose.prems(1)] that]
    obtain m where m: "m \<in> set (child_nodes a n)" "built c u m" by blast
    show ?thesis by (rule Rose.IH [OF that m(2) assms(3) [OF Rose.prems(2) m(1)]])
  qed
  moreover have "c a = n\<lparr>children := map label ts\<rparr>" using Rose.prems(1) by simp
  ultimately show ?case using Rose.prems(2) by auto
qed


definition node_shape :: "tnode \<Rightarrow> bool" where
  "node_shape n \<longleftrightarrow> node_id n = joinPath (pathArray n) \<and> node_key n = last (pathArray n) \<and>
     node_type n = getJSONType (node_value n) \<and> depth n = int (length (pathArray n)) - 1 \<and>
     childCount n = getChildCount (node_value n) \<and> isExpandable n = isExpandable_value (node_value n)"

definition untouched :: "tnode \<Rightarrow> bool" where
  "untouched n \<longleftrightarrow> \<not> isExpanded n \<and> userExpand n = None \<and> childOffsets n = [] \<and> visibleDescendantCount n = 0"

lemma not_expandable_count: "\<not> isExpandable_value v \<Longrightarrow> getChildCount v = 0"
  using length_getChildren [of v] not_expandable_children [of v] by simp

lemma new_child_shape: "node_shape n \<Longrightarrow> m \<in> set (child_nodes a n) \<Longrightarrow> node_shape m \<and> untouched m"
  by (erule in_child_nodes)
    (simp add: new_child_def Let_def node_shape_def untouched_def length_getChildren not_expandable_count)

lemma root_shape: "node_shape (root_node rk data) \<and> untouched (root_node rk data)"
  by (simp add: root_node_def new_root_def node_shape_def untouched_def)

lemma built_shape:
  assumes "built c t (root_node rk data)"
  shows "\<forall>b \<in> set (preorder t). node_shape (c b) \<and> untouched (c b)"
proof -
  have upd: "node_shape (m\<lparr>children := cs\<rparr>) = node_shape m" "untouched (m\<lparr>children := cs\<rparr>) = untouched m" for m cs
    by (simp_all add: node_shape_def untouched_def)
  have "\<forall>b \<in> set (preorder t). \<exists>m. (node_shape m \<and> untouched m) \<and> (\<exists>cs. c b = m\<lparr>children := cs\<rparr>)"
    by (rule built_every [OF assms, of "\<lambda>m. node_shape m \<and> untouched m", OF root_shape]) (use new_child_shape in blast)
  then show ?thesis using upd by metis
qed

lemma built_values:
  "built c t n \<Longrightarrow> map_rose (\<lambda>a. (pathArray (c a), node_value (c a))) t = json_rose (pathArray n) (node_value n)"
proof (induction t arbitrary: n)
  case (Rose a ts)
  let ?f = "map_rose (\<lambda>a. (pathArray (c a), node_value (c a)))"
  have "list_all2 (\<lambda>u m. ?f u = json_rose (pathArray m) (node_value m)) ts (child_nodes a n)"
    using built_kids [OF Rose.prems] by (rule list.rel_mono_strong) (use Rose.IH in blast)
  then have "map ?f ts = map (\<lambda>m. json_rose (pathArray m) (node_value m)) (child_nodes a n)"
    by (simp add: list_all2_conv_all_nth list_eq_iff_nth_eq)
  also have "\<dots> = map (\<lambda>(i, k, v). json_rose (pathArray n @ [k]) v) (enumerate 0 (getChildren (node_value n)))"
    by (auto simp: child_nodes_def)
  also have "\<dots> = map (\<lambda>(k, v). json_rose (pathArray n @ [k]) v) (getChildren (node_value n))"
    using map_enumerate_snd [of "\<lambda>(k, v). json_rose (pathArray n @ [k]) v"] by simp
  finally show ?case using Rose.prems by (subst json_rose.simps) simp
qed

definition sibling_ok :: "cells \<Rightarrow> addr \<Rightarrow> bool" where
  "sibling_ok c a \<longleftrightarrow> (\<forall>i < length (children (c a)). indexInParent (c (children (c a) ! i)) = i \<and>
     isLastChild (c (children (c a) ! i)) = (i + 1 = length (children (c a))))"

lemma built_siblings: "built c t n \<Longrightarrow> \<forall>b \<in> set (preorder t). sibling_ok c b"
proof (induction t arbitrary: n)
  case (Rose a ts)
  note kids = built_kids [OF Rose.prems]
  have "\<forall>b \<in> set (preorder u). sibling_ok c b" if "u \<in> set ts" for u
  proof -
    from list_all2_pick [OF kids that] obtain m where "built c u m" by blast
    with Rose.IH [OF that] show ?thesis by blast
  qed
  moreover have "sibling_ok c a"
    unfolding sibling_ok_def
  proof (intro allI impI)
    fix i
    assume "i < length (children (c a))"
    moreover have ch: "children (c a) = map label ts" using Rose.prems by simp
    ultimately have i: "i < length ts" by simp
    have len: "length ts = length (getChildren (node_value n))"
      using list_all2_lengthD [OF kids] by simp
    have "c (label (ts ! i)) = (child_nodes a n ! i)\<lparr>children := map label (subs (ts ! i))\<rparr>"
      using built_label list_all2_nthD [OF kids i] by blast
    moreover have "indexInParent (child_nodes a n ! i) = i" "isLastChild (child_nodes a n ! i) = (i + 1 = length ts)"
      using i len by (simp_all add: child_nodes_def nth_enumerate_eq new_child_def Let_def split: prod.split)
    ultimately show "indexInParent (c (children (c a) ! i)) = i \<and>
        isLastChild (c (children (c a) ! i)) = (i + 1 = length (children (c a)))"
      using ch i by simp
  qed
  ultimately show ?case by auto
qed

text \<open>What the later passes never change.\<close>

definition static :: "tnode \<Rightarrow> tnode" where
  "static n = n\<lparr>absoluteLineNumber := 0, isExpanded := False, userExpand := None, childOffsets := [],
     visibleDescendantCount := 0\<rparr>"

lemma static_fields:
  assumes "static m = static n"
  shows "node_id m = node_id n" "pathArray m = pathArray n" "node_value m = node_value n"
    "children m = children n" "parentNode m = parentNode n" "isExpandable m = isExpandable n"
    "depth m = depth n" "indexInParent m = indexInParent n" "isLastChild m = isLastChild n"
    "node_shape m = node_shape n"
proof -
  have e: "f (static m) = f (static n)" for f :: "tnode \<Rightarrow> 'b" using assms by simp
  show f: "node_id m = node_id n" "pathArray m = pathArray n" "node_value m = node_value n"
    "children m = children n" "parentNode m = parentNode n" "isExpandable m = isExpandable n"
    "depth m = depth n" "indexInParent m = indexInParent n" "isLastChild m = isLastChild n"
    using e [of node_id] e [of pathArray] e [of node_value] e [of children] e [of parentNode]
      e [of isExpandable] e [of depth] e [of indexInParent] e [of isLastChild]
    by (simp_all add: static_def)
  have "node_key m = node_key n" "node_type m = node_type n" "childCount m = childCount n"
    using e [of node_key] e [of node_type] e [of childCount] by (simp_all add: static_def)
  with f show "node_shape m = node_shape n" by (simp add: node_shape_def)
qed


lemma static_links: "(\<And>b. static (c' b) = static (c b)) \<Longrightarrow> same_links c c'"
  unfolding same_links_def using static_fields(4,5) by metis

lemma static_core: "core m = core n \<Longrightarrow> static m = static n"
proof -
  assume "core m = core n"
  then have "static (core m) = static (core n)" by simp
  then show ?thesis by (simp add: static_def core_def)
qed

lemma lines_static: "static (n\<lparr>absoluteLineNumber := k\<rparr>) = static n"
  by (simp add: static_def)

lemma flags_static: "static (initial_flags s d n) = static n"
  by (simp add: static_def initial_flags_def)

text \<open>
  The complete build: the tree of the value, its maps and arrays, and what the later passes set.
\<close>

lemma build_complete:
  assumes ids: "distinct (path_ids [KStr (rootKey cfg)] data)"
  shows "\<exists>T h' t c1. buildTreeFromJSON data cfg h = Some (T, h') \<and> label t = rootNode T \<and>
    distinct (preorder t) \<and> tree_at (cell h') None t \<and> allNodes T = preorder t \<and>
    totalNodeCount T = length (preorder t) \<and> built c1 t (root_node (rootKey cfg) data) \<and>
    (\<forall>b. static (cell h' b) = static (c1 b)) \<and>
    (\<forall>b \<in> set (preorder t). nodeMap T (node_id (cell h' b)) = Some b) \<and>
    (\<forall>i < length (preorder t). absoluteLineNumber (cell h' (preorder t ! i)) = i + 1) \<and>
    offsets_ok (cell h') t \<and>
    (\<forall>b \<in> set (preorder t). isExpanded (cell h' b) =
        (initial_expand (initialExpansion cfg) (expandDepth cfg) (cell h' b) \<and> isExpandable (cell h' b))) \<and>
    (maxDepth T, maxContentWidth T) = calculateTreeDimensions (cell h') (preorder t)
      (case widthEstimator cfg of Some w \<Rightarrow> w | None \<Rightarrow> default_width)"
proof -
  let ?e = "initialExpansion cfg" and ?d = "expandDepth cfg"
  obtain m h1 t where s: "buildTreeStructureIterative data (rootKey cfg) h = Some (next_addr h, m, h1)"
    "built (cell h1) t (root_node (rootKey cfg) data)" "label t = next_addr h" "distinct (preorder t)"
    "\<forall>b \<in> set (preorder t). m (node_id (cell h1 b)) = Some b"
    using build_structure [OF ids, of h] by blast
  have t1: "tree_at (cell h1) None t" using built_tree [OF s(2)] by simp
  obtain c2 where l: "assignLineNumbersAndBuildAllNodes (cell h1) (next_addr h) = Some (preorder t, c2)"
    "\<forall>i < length (preorder t). c2 (preorder t ! i) = (cell h1 (preorder t ! i))\<lparr>absoluteLineNumber := i + 1\<rparr>"
    "\<forall>b. b \<notin> set (preorder t) \<longrightarrow> c2 b = cell h1 b"
    using lines_works [OF t1 s(4)] s(3) by auto
  have st2: "static (c2 b) = static (cell h1 b)" for b
    using l(2,3) lines_static by (metis in_set_conv_nth)
  have t2: "tree_at c2 None t" using t1 tree_at_links [OF static_links [of c2 "cell h1", OF st2]] by blast
  let ?c3 = "\<lambda>b. if b \<in> set (preorder t) then initial_flags ?e ?d (c2 b) else c2 b"
  have i: "applyExpansionStateIterative c2 (next_addr h) ?e ?d = Some ?c3"
    using initial_works [OF t2] s(3) by simp
  have st3: "static (?c3 b) = static (c2 b)" for b by (simp add: flags_static)
  have t3: "tree_at ?c3 None t" using t2 tree_at_links [OF static_links [of ?c3 c2, OF st3]] by blast
  have flags: "isExpanded (initial_flags ?e ?d n) = (initial_expand ?e ?d n \<and> isExpandable n)"
    "isExpandable (initial_flags ?e ?d n) = isExpandable n" for n by (simp_all add: initial_flags_def)
  obtain c4 where o: "computeOffsetsIterative ?c3 (next_addr h) = Some c4" "tree_at c4 None t"
    "offsets_ok c4 t" "only_offsets ?c3 c4"
    using offsets_works [OF t3 s(4)] flags s(3) by auto
  have st4: "static (c4 b) = static (?c3 b)" for b
    by (rule static_core) (use o(4) in \<open>simp only: only_offsets_def\<close>)
  have st: "static (c4 b) = static (cell h1 b)" for b using st2 st3 st4 by simp
  obtain dm wm where dims: "calculateTreeDimensions c4 (preorder t)
      (case widthEstimator cfg of Some w \<Rightarrow> w | None \<Rightarrow> default_width) = (dm, wm)" by force
  let ?T = "\<lparr>rootNode = next_addr h, nodeMap = m, allNodes = preorder t, totalNodeCount = length (preorder t),
     maxDepth = dm, maxContentWidth = wm\<rparr>"
  have "buildTreeFromJSON data cfg h = Some (?T, h1\<lparr>cell := c4\<rparr>)"
    using s(1) l(1) i o(1) dims by (simp add: buildTreeFromJSON_def)
  moreover have "\<forall>b \<in> set (preorder t). m (node_id (c4 b)) = Some b"
    using s(5) static_fields(1) [OF st] by simp
  moreover have "absoluteLineNumber (c4 (preorder t ! j)) = j + 1" if "j < length (preorder t)" for j
  proof -
    have "core (c4 (preorder t ! j)) = core (?c3 (preorder t ! j))" using o(4) by (simp add: only_offsets_def)
    then have "absoluteLineNumber (core (c4 (preorder t ! j))) = absoluteLineNumber (core (?c3 (preorder t ! j)))"
      by simp
    with l(2) that show ?thesis by (simp add: core_def initial_flags_def)
  qed
  moreover have "isExpanded (c4 b) = (initial_expand ?e ?d (c4 b) \<and> isExpandable (c4 b))"
    if "b \<in> set (preorder t)" for b
  proof -
    have c: "core (c4 b) = core (initial_flags ?e ?d (c2 b))" using o(4) that by (simp add: only_offsets_def)
    have "initial_expand ?e ?d (c4 b) = initial_expand ?e ?d (c2 b)"
      by (rule initial_expand_cong)
        (use static_fields(1,7) [OF st4 [of b]] static_fields(1,7) [OF st3 [of b]] in simp_all)
    then show ?thesis using core_fields(4,5) [OF c] flags by simp
  qed
  ultimately show ?thesis
    using s(2,3,4) o(2,3) st dims by (intro exI [of _ ?T] exI [of _ "h1\<lparr>cell := c4\<rparr>"] exI [of _ t] exI [of _ "cell h1"]) simp
qed


lemma path_ids_ok: "dotless_json data \<Longrightarrow> CHR ''.'' \<notin> set rk \<Longrightarrow> distinct (path_ids [KStr rk] data)"
  by (rule path_ids_distinct) auto

section \<open>Properties\<close>

text \<open>
  C11: when the joined paths of a value are distinct, building its tree terminates; the nodes form
  a tree of pairwise distinct objects that mirrors the value (each node's path and value, in the
  order of \<open>Object.entries\<close>); \<open>allNodes\<close> is its pre-order, numbered from 1; \<open>nodeMap\<close> maps every
  id to its node; the node count is the one \<open>estimateNodeCount\<close> gives.
\<close>

theorem build_mirrors_value:
  assumes "distinct (path_ids [KStr (rootKey cfg)] data)"
  shows "\<exists>T h' t. buildTreeFromJSON data cfg h = Some (T, h') \<and>
    tree_at (cell h') None t \<and> label t = rootNode T \<and> distinct (preorder t) \<and>
    map_rose (\<lambda>a. (pathArray (cell h' a), node_value (cell h' a))) t = json_rose [KStr (rootKey cfg)] data \<and>
    allNodes T = preorder t \<and>
    map (\<lambda>a. absoluteLineNumber (cell h' a)) (allNodes T) = [1..<totalNodeCount T + 1] \<and>
    (\<forall>a \<in> set (allNodes T). nodeMap T (node_id (cell h' a)) = Some a) \<and>
    estimateNodeCount data = Some (totalNodeCount T)"
proof -
  obtain T h' t c1 where b: "buildTreeFromJSON data cfg h = Some (T, h')" "label t = rootNode T"
    "distinct (preorder t)" "tree_at (cell h') None t" "allNodes T = preorder t"
    "totalNodeCount T = length (preorder t)" "built c1 t (root_node (rootKey cfg) data)"
    "\<forall>b. static (cell h' b) = static (c1 b)"
    "\<forall>b \<in> set (preorder t). nodeMap T (node_id (cell h' b)) = Some b"
    "\<forall>i < length (preorder t). absoluteLineNumber (cell h' (preorder t ! i)) = i + 1"
    using build_complete [OF assms, of h] by blast
  have "pathArray (cell h' a) = pathArray (c1 a)" "node_value (cell h' a) = node_value (c1 a)" for a
    using static_fields(2,3) b(8) by blast+
  then have m: "map_rose (\<lambda>a. (pathArray (cell h' a), node_value (cell h' a))) t = json_rose [KStr (rootKey cfg)] data"
    using built_values [OF b(7)] by simp
  have "length (preorder t) = length (preorder (json_rose [KStr (rootKey cfg)] data))"
  proof -
    have "preorder (map_rose f u) = map f (preorder u)" for f :: "addr \<Rightarrow> key list \<times> json" and u
      by (induction u) (simp add: map_concat comp_def cong: map_cong)
    from this [of "\<lambda>a. (pathArray (cell h' a), node_value (cell h' a))" t] show ?thesis
      by (simp add: m)
  qed
  then have "estimateNodeCount data = Some (totalNodeCount T)"
    using b(6) by (simp add: estimateNodeCount_eq length_json_rose)
  moreover have "map (\<lambda>a. absoluteLineNumber (cell h' a)) (allNodes T) = [1..<totalNodeCount T + 1]"
    using b(5,6,10) by (intro nth_equalityI) (simp_all del: upt_Suc)
  ultimately show ?thesis using b m by auto
qed

definition sample_config :: build_config where
  "sample_config = \<lparr>rootKey = ''root'', initialExpansion = ExpAll True, expandDepth = None, widthEstimator = None\<rparr>"

definition sample_json :: json where
  "sample_json = JObject [(''a'', JArray [JNumber ''7'']), (''b'', JNull)]"

definition empty_store :: store where
  "empty_store = \<lparr>cell = (\<lambda>_. blank_node None [] []), next_addr = 0\<rparr>"

lemma sample_json_ids: "distinct (path_ids [KStr (rootKey sample_config)] sample_json)"
  by (rule path_ids_ok) (simp_all add: sample_config_def sample_json_def)

theorem build_mirrors_value_witness:
  "\<exists>T h'. buildTreeFromJSON sample_json sample_config empty_store = Some (T, h') \<and>
     estimateNodeCount sample_json = Some (totalNodeCount T)"
  using build_mirrors_value [OF sample_json_ids, of empty_store] by blast



text \<open>
  every node of a freshly built tree records its value faithfully: id and key are those of its
  path, depth is the length of the path, type, child count and expandability are those of the
  value, and each child knows its index and whether it is last; the dimensions are the greatest
  depth and the greatest estimated width of any node.
\<close>

theorem build_records_values:
  assumes "distinct (path_ids [KStr (rootKey cfg)] data)"
  shows "\<exists>T h'. buildTreeFromJSON data cfg h = Some (T, h') \<and>
    (\<forall>a \<in> set (allNodes T). node_shape (cell h' a) \<and> sibling_ok (cell h') a) \<and>
    maxDepth T = Max (insert 0 ((\<lambda>a. depth (cell h' a)) ` set (allNodes T))) \<and>
    maxContentWidth T = Max (insert 0 ((\<lambda>a. calculateNodeWidth (cell h' a)
      (case widthEstimator cfg of Some w \<Rightarrow> w | None \<Rightarrow> default_width)) ` set (allNodes T)))"
proof -
  obtain T h' t c1 where b: "buildTreeFromJSON data cfg h = Some (T, h')" "allNodes T = preorder t"
    "built c1 t (root_node (rootKey cfg) data)" "\<forall>b. static (cell h' b) = static (c1 b)"
    "(maxDepth T, maxContentWidth T) = calculateTreeDimensions (cell h') (preorder t)
      (case widthEstimator cfg of Some w \<Rightarrow> w | None \<Rightarrow> default_width)"
    using build_complete [OF assms, of h] by blast
  have "node_shape (cell h' a)" if "a \<in> set (preorder t)" for a
    using built_shape [OF b(3)] that static_fields(10) b(4) by metis
  moreover have "sibling_ok (cell h') a" if "a \<in> set (preorder t)" for a
  proof -
    have "sibling_ok c1 a" using built_siblings [OF b(3)] that by blast
    moreover have "children (cell h' x) = children (c1 x)" "indexInParent (cell h' x) = indexInParent (c1 x)"
      "isLastChild (cell h' x) = isLastChild (c1 x)" for x
      using static_fields(4,8,9) b(4) by blast+
    ultimately show ?thesis by (simp add: sibling_ok_def)
  qed
  ultimately show ?thesis using b(1,2,5) by (simp add: dimensions_eq)
qed

theorem build_records_values_witness:
  "\<exists>T h'. buildTreeFromJSON sample_json sample_config empty_store = Some (T, h') \<and>
     (\<forall>a \<in> set (allNodes T). node_shape (cell h' a))"
  using build_records_values [OF sample_json_ids, of empty_store] by blast


text \<open>
  Keys that contain the separator make joined paths collide. For
  \<open>{"a": {"b": {}}, "a.b": {"c": 1}}\<close> the second entry finds the first entry's inner node under
  its own id: that node, whose value is empty, receives the child \<open>c\<close>, and the node of the
  second entry stays without children.
\<close>

definition dotted_json :: json where
  "dotted_json = JObject [(''a'', JObject [(''b'', JObject [])]), (''a.b'', JObject [(''c'', JNumber ''1'')])]"

lemma isExpandable_cases [simp]:
  "isExpandable_value (JObject kvs)" "isExpandable_value (JArray xs)"
  "\<not> isExpandable_value (JNumber n)" "\<not> isExpandable_value (JString s)" "\<not> isExpandable_value (JBool b)"
  "\<not> isExpandable_value JNull" "\<not> isExpandable_value JUndefined"
  by (simp_all add: isExpandable_value_def)

text \<open>
  for the object \<open>{"a": {"b": {}}, "a.b": {"c": 1}}\<close> the built tree does not mirror the value:
  the node at the path a, b holds the empty object but has one child, and the node of the entry
  "a.b" holds an object with one entry but has none.
\<close>

theorem dotted_keys_corrupt_tree:
  "\<exists>rn m h. buildTreeStructureIterative dotted_json ''root'' empty_store = Some (rn, m, h) \<and>
     (\<exists>x y. node_value (cell h x) = JObject [] \<and> length (children (cell h x)) = 1 \<and>
        node_value (cell h y) = JObject [(''c'', JNumber ''1'')] \<and> children (cell h y) = [] \<and>
        node_id (cell h x) = node_id (cell h y))"
  by (simp add: buildTreeStructureIterative_def alloc_def empty_store_def new_root_def dotted_json_def
      walk_simps build_body_def item_of_def joinPath_def create_children_def create_child_def
      new_child_def pushed_children_def Let_def blank_node_def,
    rule exI [of _ "Suc (Suc (Suc 0))"], simp, rule exI [of _ "Suc (Suc 0)"], simp)

end
