(* ===== verification/Clickhouse_Writer.thy ===== *)
theory Clickhouse_Writer imports Json_Value "HOL-Library.Multiset" begin

text \<open>
  The batching writer of the worker, \<^verbatim>\<open>worker/src/services/ClickhouseWriter/index.ts\<close>: one
  in-memory queue per table, flushed when it is full and at an interval, with retries, batch
  splitting, truncation and re-queueing.

  The code is single-threaded and asynchronous. A state holds the queues, the records (mutable
  objects in a heap, shared between a queue item and the batch that writes it), and one \<open>job\<close>
  per flush that is waiting for the database. A step is a piece of code that runs without
  interruption: adding a record, the interval callback, shutting down, and the settling of one
  write. The database and the \<open>exponential-backoff\<close> package are not part of the repository: whether
  a write succeeds and with which error it fails is arbitrary, and \<open>continues n\<close> says whether the
  package tries again after the \<open>n\<close>-th failure when the callback asked for it.
\<close>

section \<open>State\<close>

datatype table_name = Traces | TracesNull | Scores | Observations | ObservationsBatchStaging |
  BlobStorageFileLog | DatasetRunItems | Events

record ch_record =
  rec_id :: string
  rec_project :: string
  rec_input :: "string option"
  rec_output :: "string option"
  rec_metadata :: "(string \<times> string) list option"
  rec_rest :: json

type_synonym rec_ref = nat

record queue_item =
  createdAt :: nat
  attempts :: nat
  data :: rec_ref

record write_job =
  job_table :: table_name
  job_items :: "queue_item list"
  job_records :: "rec_ref list"
  job_truncated :: bool
  job_failures :: nat
  job_interval :: bool

text \<open>The three logs record what happened to the records; the code does not read them.\<close>

record writer =
  records :: "rec_ref \<Rightarrow> ch_record"
  queue :: "table_name \<Rightarrow> queue_item list"
  jobs :: "write_job list"
  isIntervalFlushInProgress :: bool
  intervalSet :: bool
  accepted :: "table_name \<Rightarrow> rec_ref list"
  inserted :: "table_name \<Rightarrow> (rec_ref \<times> ch_record) list"
  dropped :: "table_name \<Rightarrow> queue_item list"

record writer_config =
  batchSize :: nat
  maxAttempts :: nat

definition new_writer :: "(rec_ref \<Rightarrow> ch_record) \<Rightarrow> writer" where
  "new_writer h = \<lparr>records = h, queue = (\<lambda>_. []), jobs = [], isIntervalFlushInProgress = False,
     intervalSet = True, accepted = (\<lambda>_. []), inserted = (\<lambda>_. []), dropped = (\<lambda>_. [])\<rparr>"

section \<open>Classifying errors\<close>

text \<open>A rejected promise carries an object with an optional message, or something else.\<close>

datatype thrown = Not_Object | Error_Object "string option"

fun error_message :: "thrown \<Rightarrow> string option" where
  "error_message Not_Object = None"
| "error_message (Error_Object None) = Some []"
| "error_message (Error_Object (Some m)) = Some (js_lower m)"

definition isRetryableError :: "thrown \<Rightarrow> bool" where
  "isRetryableError e = (case error_message e of None \<Rightarrow> False | Some m \<Rightarrow> js_includes m ''socket hang up'')"

definition isSizeError :: "thrown \<Rightarrow> bool" where
  "isSizeError e = (case error_message e of None \<Rightarrow> False | Some m \<Rightarrow>
     js_includes m ''size of json object'' \<and> js_includes m ''extremely large'' \<and>
     js_includes m ''expected not greater than'')"

definition isStringLengthError :: "thrown \<Rightarrow> bool" where
  "isStringLengthError e =
     (case error_message e of None \<Rightarrow> False | Some m \<Rightarrow> js_includes m ''invalid string length'')"

section \<open>Truncation\<close>

definition maxFieldSize :: nat where
  "maxFieldSize = 1024 * 1024"

definition truncationMessage :: string where
  "truncationMessage = ''[TRUNCATED: Field exceeded size limit]''"

definition truncateField :: "string option \<Rightarrow> string option" where
  "truncateField v = (case v of
       None \<Rightarrow> None
     | Some s \<Rightarrow>
         if s = [] then None
         else if length s > maxFieldSize then Some (take (500 * 1024) s @ truncationMessage)
         else Some s)"

definition truncate_text :: "string option \<Rightarrow> string option" where
  "truncate_text v = (case v of
       None \<Rightarrow> None
     | Some s \<Rightarrow> if s \<noteq> [] \<and> length s > maxFieldSize then truncateField (Some s) else Some s)"

definition truncate_entry :: "string \<Rightarrow> string" where
  "truncate_entry v =
     (if v \<noteq> [] \<and> length v > maxFieldSize
      then (case truncateField (Some v) of None \<Rightarrow> [] | Some s \<Rightarrow> s) else v)"

definition truncateOversizedRecord :: "ch_record \<Rightarrow> ch_record" where
  "truncateOversizedRecord r =
     (let r1 = r\<lparr>rec_input := truncate_text (rec_input r)\<rparr>;
          r2 = r1\<lparr>rec_output := truncate_text (rec_output r1)\<rparr>
      in r2\<lparr>rec_metadata := map_option (map (\<lambda>(k, v). (k, truncate_entry v))) (rec_metadata r2)\<rparr>)"

text \<open>The method changes the record object in place and returns it.\<close>

definition truncate_at :: "rec_ref \<Rightarrow> (rec_ref \<Rightarrow> ch_record) \<Rightarrow> (rec_ref \<Rightarrow> ch_record)" where
  "truncate_at a h = h(a := truncateOversizedRecord (h a))"

section \<open>Flushing\<close>

definition handleStringLengthError ::
    "queue_item list \<Rightarrow> (rec_ref \<Rightarrow> ch_record) \<Rightarrow> queue_item list \<times> queue_item list \<times> (rec_ref \<Rightarrow> ch_record)" where
  "handleStringLengthError queueItems h =
     (if length queueItems = 1 then ([hd queueItems], [], truncate_at (data (hd queueItems)) h)
      else (let splitPoint = length queueItems div 2
            in (take splitPoint queueItems, drop splitPoint queueItems, h)))"

text \<open>The synchronous part of \<open>flush\<close>: taking items off the queue and starting the write.\<close>

definition flush_start :: "writer_config \<Rightarrow> bool \<Rightarrow> bool \<Rightarrow> table_name \<Rightarrow> writer \<Rightarrow> writer" where
  "flush_start cfg fullQueue interval t w =
     (let entityQueue = queue w t in
      if length entityQueue = 0 then w
      else (let n = (if fullQueue then length entityQueue else batchSize cfg);
                queueItems = take n entityQueue
            in w\<lparr>queue := (queue w)(t := drop n entityQueue),
                 jobs := jobs w @ [\<lparr>job_table = t, job_items = queueItems,
                   job_records = map data queueItems, job_truncated = False, job_failures = 0,
                   job_interval = interval\<rparr>]\<rparr>))"

definition all_tables :: "table_name list" where
  "all_tables = [Traces, TracesNull, Scores, Observations, ObservationsBatchStaging,
     BlobStorageFileLog, DatasetRunItems, Events]"

definition flushAll :: "writer_config \<Rightarrow> bool \<Rightarrow> bool \<Rightarrow> writer \<Rightarrow> writer" where
  "flushAll cfg fullQueue interval w = fold (flush_start cfg fullQueue interval) all_tables w"

definition addToQueue :: "writer_config \<Rightarrow> table_name \<Rightarrow> rec_ref \<Rightarrow> nat \<Rightarrow> writer \<Rightarrow> writer" where
  "addToQueue cfg t r now w =
     (let w1 = w\<lparr>queue := (queue w)(t := queue w t @ [\<lparr>createdAt = now, attempts = 1, data = r\<rparr>]),
                accepted := (accepted w)(t := accepted w t @ [r])\<rparr>
      in if length (queue w1 t) \<ge> batchSize cfg then flush_start cfg False False t w1 else w1)"

definition shutdown :: "writer_config \<Rightarrow> writer \<Rightarrow> writer" where
  "shutdown cfg w = flushAll cfg True False (w\<lparr>intervalSet := False\<rparr>)"

text \<open>The callback of the timer; a later step resets the flag when all its flushes are done.\<close>

definition interval_tick :: "writer_config \<Rightarrow> writer \<Rightarrow> writer" where
  "interval_tick cfg w =
     (if isIntervalFlushInProgress w then w
      else flushAll cfg False True (w\<lparr>isIntervalFlushInProgress := True\<rparr>))"

section \<open>Settling a write\<close>

text \<open>The \<open>retry\<close> callback: its answer, and its effects on the batch, the queue and the records.\<close>

definition retry_callback :: "thrown \<Rightarrow> write_job \<Rightarrow> writer \<Rightarrow> bool \<times> write_job \<times> writer" where
  "retry_callback e j w =
     (if isRetryableError e then (True, j, w)
      else if isStringLengthError e then
        (case handleStringLengthError (job_items j) (records w) of (retryItems, requeueItems, h) \<Rightarrow>
           (True, j\<lparr>job_records := map data retryItems, job_items := retryItems\<rparr>,
            w\<lparr>records := h,
              queue := (if length requeueItems > 0
                        then (queue w)(job_table j := requeueItems @ queue w (job_table j)) else queue w)\<rparr>))
      else if isSizeError e \<and> \<not> job_truncated j then
        (True, j\<lparr>job_truncated := True\<rparr>, w\<lparr>records := fold truncate_at (job_records j) (records w)\<rparr>)
      else (False, j, w))"

text \<open>The \<open>catch\<close> block: every item goes back with one more attempt, or is dropped.\<close>

definition requeue_failed :: "writer_config \<Rightarrow> table_name \<Rightarrow> queue_item list \<Rightarrow> writer \<Rightarrow> writer" where
  "requeue_failed cfg t queueItems w =
     fold (\<lambda>item w.
         if attempts item < maxAttempts cfg
         then w\<lparr>queue := (queue w)(t := queue w t @ [item\<lparr>attempts := attempts item + 1\<rparr>])\<rparr>
         else w\<lparr>dropped := (dropped w)(t := dropped w t @ [item])\<rparr>)
       queueItems w"

definition remove_nth :: "nat \<Rightarrow> 'a list \<Rightarrow> 'a list" where
  "remove_nth i xs = take i xs @ drop (Suc i) xs"

definition write_succeeds :: "nat \<Rightarrow> writer \<Rightarrow> writer" where
  "write_succeeds i w =
     (let j = jobs w ! i; t = job_table j in
      w\<lparr>jobs := remove_nth i (jobs w),
        inserted := (inserted w)(t := inserted w t @ map (\<lambda>r. (r, records w r)) (job_records j))\<rparr>)"

definition write_fails :: "writer_config \<Rightarrow> (nat \<Rightarrow> bool) \<Rightarrow> nat \<Rightarrow> thrown \<Rightarrow> writer \<Rightarrow> writer" where
  "write_fails cfg continues i e w =
     (let j = jobs w ! i; n = job_failures j + 1 in
      case retry_callback e j w of (again, j', w') \<Rightarrow>
        if again \<and> continues n then w'\<lparr>jobs := (jobs w')[i := j'\<lparr>job_failures := n\<rparr>]\<rparr>
        else requeue_failed cfg (job_table j') (job_items j') (w'\<lparr>jobs := remove_nth i (jobs w')\<rparr>))"

datatype event = Ev_Add table_name rec_ref nat | Ev_Tick | Ev_Tick_Done | Ev_Shutdown |
  Ev_Written nat | Ev_Failed nat thrown

inductive writer_step :: "writer_config \<Rightarrow> (nat \<Rightarrow> bool) \<Rightarrow> writer \<Rightarrow> event \<Rightarrow> writer \<Rightarrow> bool"
  for cfg continues where
  add: "writer_step cfg continues w (Ev_Add t r now) (addToQueue cfg t r now w)"
| tick: "intervalSet w \<Longrightarrow> writer_step cfg continues w Ev_Tick (interval_tick cfg w)"
| tick_done: "isIntervalFlushInProgress w \<Longrightarrow> \<forall>j \<in> set (jobs w). \<not> job_interval j \<Longrightarrow>
    writer_step cfg continues w Ev_Tick_Done (w\<lparr>isIntervalFlushInProgress := False\<rparr>)"
| stop: "writer_step cfg continues w Ev_Shutdown (shutdown cfg w)"
| written: "i < length (jobs w) \<Longrightarrow> writer_step cfg continues w (Ev_Written i) (write_succeeds i w)"
| failed: "i < length (jobs w) \<Longrightarrow>
    writer_step cfg continues w (Ev_Failed i e) (write_fails cfg continues i e w)"

inductive_cases writer_stepE: "writer_step cfg continues w ev w'"

inductive writer_run :: "writer_config \<Rightarrow> (nat \<Rightarrow> bool) \<Rightarrow> writer \<Rightarrow> event list \<Rightarrow> writer \<Rightarrow> bool"
  for cfg continues where
  run_Nil: "writer_run cfg continues w [] w"
| run_snoc: "writer_run cfg continues w evs w' \<Longrightarrow> writer_step cfg continues w' ev w'' \<Longrightarrow>
    writer_run cfg continues w (evs @ [ev]) w''"


section \<open>Where the records are\<close>

definition job_refs :: "table_name \<Rightarrow> write_job \<Rightarrow> rec_ref multiset" where
  "job_refs t j = (if job_table j = t then mset (map data (job_items j)) else {#})"

definition held :: "writer \<Rightarrow> table_name \<Rightarrow> rec_ref multiset" where
  "held w t = mset (map data (queue w t)) + sum_list (map (job_refs t) (jobs w))"

definition settled :: "writer \<Rightarrow> table_name \<Rightarrow> rec_ref multiset" where
  "settled w t = mset (map fst (inserted w t)) + mset (map data (dropped w t))"

definition conserved :: "writer \<Rightarrow> bool" where
  "conserved w \<longleftrightarrow> (\<forall>t. mset (accepted w t) = held w t + settled w t)"

lemma sum_list_remove:
  "i < length xs \<Longrightarrow> sum_list (map f xs) = f (xs ! i) + (sum_list (map f (remove_nth i xs)) :: 'b :: comm_monoid_add)"
proof (induction xs arbitrary: i)
  case Nil
  then show ?case by simp
next
  case (Cons x xs)
  then show ?case by (cases i) (simp_all add: remove_nth_def ac_simps)
qed

lemma remove_nth_update: "remove_nth i (xs[i := y]) = remove_nth i xs"
  by (simp add: remove_nth_def)

lemma sum_list_update_job:
  assumes "i < length xs"
  shows "sum_list (map f (xs[i := y])) = f y + (sum_list (map f (remove_nth i xs)) :: 'b :: comm_monoid_add)"
  using sum_list_remove [of i "xs[i := y]" f] assms by (simp add: remove_nth_update)

lemma set_remove_nth: "set (remove_nth i xs) \<subseteq> set xs"
  by (auto simp: remove_nth_def dest: in_set_takeD in_set_dropD)

lemma mset_take_drop: "mset (map f (take n xs)) + mset (map f (drop n xs)) = mset (map f xs)"
  by (metis append_take_drop_id map_append mset_append)

lemma flush_start_held: "held (flush_start cfg b v t w) u = held w u"
proof (cases "queue w t = []")
  case True
  then show ?thesis by (simp add: flush_start_def)
next
  case False
  let ?n = "if b then length (queue w t) else batchSize cfg"
  show ?thesis
    using False mset_take_drop [of data ?n "queue w t"]
    by (cases "u = t") (simp_all add: flush_start_def Let_def held_def job_refs_def ac_simps)
qed

lemma flush_start_logs [simp]:
  "accepted (flush_start cfg b v t w) = accepted w" "inserted (flush_start cfg b v t w) = inserted w"
  "dropped (flush_start cfg b v t w) = dropped w" "records (flush_start cfg b v t w) = records w"
  "intervalSet (flush_start cfg b v t w) = intervalSet w"
  "isIntervalFlushInProgress (flush_start cfg b v t w) = isIntervalFlushInProgress w"
  by (simp_all add: flush_start_def Let_def)

lemma flushes_held:
  "held (fold (flush_start cfg b v) ts w) u = held w u"
  "accepted (fold (flush_start cfg b v) ts w) = accepted w"
  "inserted (fold (flush_start cfg b v) ts w) = inserted w"
  "dropped (fold (flush_start cfg b v) ts w) = dropped w"
  by (induction ts arbitrary: w) (simp_all add: flush_start_held)

lemma requeue_failed_facts:
  "records (requeue_failed cfg t is w) = records w" "jobs (requeue_failed cfg t is w) = jobs w"
  "accepted (requeue_failed cfg t is w) = accepted w" "inserted (requeue_failed cfg t is w) = inserted w"
  "queue (requeue_failed cfg t is w) = (queue w)(t := queue w t @
     map (\<lambda>x. x\<lparr>attempts := attempts x + 1\<rparr>) (filter (\<lambda>x. attempts x < maxAttempts cfg) is))"
  "dropped (requeue_failed cfg t is w) = (dropped w)(t := dropped w t @
     filter (\<lambda>x. \<not> attempts x < maxAttempts cfg) is)"
  unfolding requeue_failed_def by (induction "is" arbitrary: w) (simp_all add: fun_upd_idem)

lemma split_parts:
  "handleStringLengthError is h = (a, b, h') \<Longrightarrow> is \<noteq> [] \<Longrightarrow> a @ b = is \<and> a \<noteq> [] \<and> length b < length is"
  by (cases "is"; cases "tl is") (auto simp: handleStringLengthError_def Let_def split: if_splits)

text \<open>The callback moves items from the batch to the front of the queue, and changes records.\<close>

lemma retry_callback_moves:
  assumes "retry_callback e j w = (again, j', w')" "job_items j \<noteq> []"
  shows "job_table j' = job_table j" "job_items j' \<noteq> []" "jobs w' = jobs w"
    "accepted w' = accepted w" "inserted w' = inserted w" "dropped w' = dropped w"
    "\<exists>moved. job_items j = job_items j' @ moved \<and> length moved < length (job_items j) \<and>
       queue w' = (queue w)(job_table j := moved @ queue w (job_table j))"
proof -
  obtain a b h where s: "handleStringLengthError (job_items j) (records w) = (a, b, h)"
    by (cases "handleStringLengthError (job_items j) (records w)")
  have p: "job_items j = a @ b" "a \<noteq> []" "length b < length (job_items j)"
    using split_parts [OF s assms(2)] by auto
  have "job_table j' = job_table j \<and> job_items j' \<noteq> [] \<and> jobs w' = jobs w \<and>
    accepted w' = accepted w \<and> inserted w' = inserted w \<and> dropped w' = dropped w \<and>
    (\<exists>moved. job_items j = job_items j' @ moved \<and> length moved < length (job_items j) \<and>
       queue w' = (queue w)(job_table j := moved @ queue w (job_table j)))"
    using assms p unfolding retry_callback_def s by (auto split: if_splits)
  then show "job_table j' = job_table j" "job_items j' \<noteq> []" "jobs w' = jobs w"
    "accepted w' = accepted w" "inserted w' = inserted w" "dropped w' = dropped w"
    "\<exists>moved. job_items j = job_items j' @ moved \<and> length moved < length (job_items j) \<and>
       queue w' = (queue w)(job_table j := moved @ queue w (job_table j))"
    by blast+
qed


section \<open>The invariant\<close>

text \<open>
  Every batch is non-empty and holds exactly the records of its items (the code keeps the two
  lists in step through every split, and shares the record objects), and no item was tried more
  often than allowed.
\<close>

definition item_ok :: "writer_config \<Rightarrow> queue_item \<Rightarrow> bool" where
  "item_ok cfg x \<longleftrightarrow> 1 \<le> attempts x \<and> attempts x \<le> maxAttempts cfg"

definition job_ok :: "writer_config \<Rightarrow> write_job \<Rightarrow> bool" where
  "job_ok cfg j \<longleftrightarrow> job_items j \<noteq> [] \<and> job_records j = map data (job_items j) \<and>
     (\<forall>x \<in> set (job_items j). item_ok cfg x)"

definition writer_ok :: "writer_config \<Rightarrow> writer \<Rightarrow> bool" where
  "writer_ok cfg w \<longleftrightarrow> (\<forall>t. \<forall>x \<in> set (queue w t). item_ok cfg x) \<and> (\<forall>j \<in> set (jobs w). job_ok cfg j) \<and>
     (\<forall>t. \<forall>x \<in> set (dropped w t). attempts x = maxAttempts cfg)"

lemma flush_start_ok:
  assumes "writer_ok cfg w" "0 < batchSize cfg"
  shows "writer_ok cfg (flush_start cfg b v t w)"
  using assms
  by (auto simp: writer_ok_def flush_start_def Let_def job_ok_def dest: in_set_takeD in_set_dropD)

lemma flushes_ok:
  "writer_ok cfg w \<Longrightarrow> 0 < batchSize cfg \<Longrightarrow> writer_ok cfg (fold (flush_start cfg b v) ts w)"
  by (induction ts arbitrary: w) (simp_all add: flush_start_ok)

lemma retry_callback_records:
  assumes "retry_callback e j w = (again, j', w')" "job_records j = map data (job_items j)"
  shows "job_records j' = map data (job_items j')"
  using assms by (auto simp: retry_callback_def split: if_splits prod.splits)

lemma write_fails_cases:
  assumes ok: "writer_ok cfg w" "i < length (jobs w)"
  obtains j' w1 moved where "jobs w ! i \<in> set (jobs w)" "job_table j' = job_table (jobs w ! i)"
    "job_ok cfg j'" "job_items (jobs w ! i) = job_items j' @ moved" "length moved < length (job_items (jobs w ! i))"
    "jobs w1 = jobs w" "accepted w1 = accepted w" "inserted w1 = inserted w" "dropped w1 = dropped w"
    "queue w1 = (queue w)(job_table j' := moved @ queue w (job_table j'))"
    "write_fails cfg continues i e w =
       (if fst (retry_callback e (jobs w ! i) w) \<and> continues (job_failures (jobs w ! i) + 1)
        then w1\<lparr>jobs := (jobs w)[i := j'\<lparr>job_failures := job_failures (jobs w ! i) + 1\<rparr>]\<rparr>
        else requeue_failed cfg (job_table j') (job_items j') (w1\<lparr>jobs := remove_nth i (jobs w)\<rparr>))"
proof -
  let ?j = "jobs w ! i"
  obtain again j' w1 where r: "retry_callback e ?j w = (again, j', w1)"
    by (cases "retry_callback e ?j w")
  have j: "?j \<in> set (jobs w)" "job_ok cfg ?j" using ok by (auto simp: writer_ok_def)
  then have ne: "job_items ?j \<noteq> []" "job_records ?j = map data (job_items ?j)" by (auto simp: job_ok_def)
  note m = retry_callback_moves [OF r ne(1)]
  obtain moved where moved: "job_items ?j = job_items j' @ moved" "length moved < length (job_items ?j)"
      "queue w1 = (queue w)(job_table ?j := moved @ queue w (job_table ?j))" using m(7) by blast
  have "job_ok cfg j'"
    using j(2) m(2) moved(1) retry_callback_records [OF r ne(2)] by (auto simp: job_ok_def)
  with that [of j' moved w1] show ?thesis
    using j(1) m moved r by (simp add: write_fails_def Let_def)
qed

lemma update_job_held:
  assumes "i < length (jobs w)" "job_table j' = job_table (jobs w ! i)"
    "job_items (jobs w ! i) = job_items j' @ moved" "jobs w1 = jobs w"
    "queue w1 = (queue w)(job_table j' := moved @ queue w (job_table j'))"
  shows "held (w1\<lparr>jobs := (jobs w)[i := j'\<lparr>job_failures := n\<rparr>]\<rparr>) t = held w t"
    "held (w1\<lparr>jobs := remove_nth i (jobs w)\<rparr>) t + job_refs t j' = held w t"
  using assms sum_list_remove [OF assms(1), of "job_refs t"]
    sum_list_update_job [OF assms(1), of "job_refs t" "j'\<lparr>job_failures := n\<rparr>"]
  by (auto simp: held_def job_refs_def)

lemma requeue_failed_held:
  "held (requeue_failed cfg t is w) u + settled (requeue_failed cfg t is w) u =
     held w u + settled w u + (if u = t then mset (map data is) else {#})"
proof -
  have "mset (map data is) = mset (map data (filter (\<lambda>x. attempts x < maxAttempts cfg) is)) +
      mset (map data (filter (\<lambda>x. \<not> attempts x < maxAttempts cfg) is))"
    by (induction "is") auto
  then show ?thesis
    by (auto simp: held_def settled_def requeue_failed_facts image_mset.compositionality comp_def ac_simps)
qed


lemma write_succeeds_conserved:
  assumes "i < length (jobs w)" "writer_ok cfg w"
  shows "held (write_succeeds i w) t + settled (write_succeeds i w) t = held w t + settled w t"
proof -
  let ?j = "jobs w ! i"
  have "mset (map fst (map (\<lambda>r. (r, records w r)) (job_records ?j))) = mset (map data (job_items ?j))"
    using assms by (auto simp: writer_ok_def job_ok_def comp_def)
  moreover have "sum_list (map (job_refs t) (jobs w)) = job_refs t ?j + sum_list (map (job_refs t) (remove_nth i (jobs w)))"
    by (rule sum_list_remove [OF assms(1)])
  ultimately show ?thesis
    by (simp add: write_succeeds_def Let_def held_def settled_def job_refs_def image_mset.compositionality ac_simps)
qed

lemma step_conserved:
  assumes "writer_step cfg continues w ev w'" "writer_ok cfg w" "conserved w"
  shows "conserved w'"
  using assms(1)
proof cases
  case (add t r now)
  let ?w1 = "w\<lparr>queue := (queue w)(t := queue w t @ [\<lparr>createdAt = now, attempts = 1, data = r\<rparr>]),
                accepted := (accepted w)(t := accepted w t @ [r])\<rparr>"
  have "conserved ?w1" using assms(3) by (auto simp: conserved_def held_def settled_def)
  then show ?thesis
    unfolding add addToQueue_def Let_def conserved_def by (simp add: flush_start_held settled_def)
next
  case tick
  then show ?thesis
    using assms(3) unfolding tick interval_tick_def flushAll_def conserved_def settled_def
    by (simp add: flushes_held) (simp add: held_def)
next
  case tick_done
  then show ?thesis using assms(3) by (simp add: conserved_def held_def settled_def)
next
  case stop
  then show ?thesis
    using assms(3) unfolding stop shutdown_def flushAll_def conserved_def settled_def
    by (simp add: flushes_held) (simp add: held_def)
next
  case (written i)
  have "accepted (write_succeeds i w) = accepted w" by (simp add: write_succeeds_def Let_def)
  then show ?thesis
    using assms(3) write_succeeds_conserved [OF written(3) assms(2)] unfolding written conserved_def by simp
next
  case (failed i e)
  obtain j' w1 moved where f: "job_table j' = job_table (jobs w ! i)"
    "job_items (jobs w ! i) = job_items j' @ moved" "jobs w1 = jobs w" "accepted w1 = accepted w"
    "inserted w1 = inserted w" "dropped w1 = dropped w"
    "queue w1 = (queue w)(job_table j' := moved @ queue w (job_table j'))"
    and eq: "write_fails cfg continues i e w =
       (if fst (retry_callback e (jobs w ! i) w) \<and> continues (job_failures (jobs w ! i) + 1)
        then w1\<lparr>jobs := (jobs w)[i := j'\<lparr>job_failures := job_failures (jobs w ! i) + 1\<rparr>]\<rparr>
        else requeue_failed cfg (job_table j') (job_items j') (w1\<lparr>jobs := remove_nth i (jobs w)\<rparr>))"
    using write_fails_cases [OF assms(2) failed(3)] by metis
  note h = update_job_held [OF failed(3) f(1,2,3,7)]
  have st: "settled (w1\<lparr>jobs := js\<rparr>) t = settled w t" for js t using f(5,6) by (simp add: settled_def)
  have "held (write_fails cfg continues i e w) t + settled (write_fails cfg continues i e w) t = held w t + settled w t" for t
  proof (cases "fst (retry_callback e (jobs w ! i) w) \<and> continues (job_failures (jobs w ! i) + 1)")
    case True
    with eq h(1) st show ?thesis by simp
  next
    case False
    show ?thesis
      unfolding eq if_not_P [OF False] requeue_failed_held
      using h(2) [of t] st by (auto simp: job_refs_def ac_simps split: if_splits)
  qed
  moreover have "accepted (write_fails cfg continues i e w) = accepted w"
    using eq f(4) by (simp add: requeue_failed_facts)
  ultimately show ?thesis using assms(3) unfolding failed conserved_def by simp
qed

lemma step_ok:
  assumes "writer_step cfg continues w ev w'" "writer_ok cfg w" "0 < batchSize cfg" "0 < maxAttempts cfg"
  shows "writer_ok cfg w'"
  using assms(1)
proof cases
  case (add t r now)
  let ?w1 = "w\<lparr>queue := (queue w)(t := queue w t @ [\<lparr>createdAt = now, attempts = 1, data = r\<rparr>]),
                accepted := (accepted w)(t := accepted w t @ [r])\<rparr>"
  have "writer_ok cfg ?w1" using assms by (auto simp: writer_ok_def item_ok_def)
  then show ?thesis
    unfolding add addToQueue_def Let_def using flush_start_ok assms(3) by simp
next
  case tick
  have "writer_ok cfg (w\<lparr>isIntervalFlushInProgress := True\<rparr>)" using assms by (simp add: writer_ok_def)
  then show ?thesis
    using assms unfolding tick interval_tick_def flushAll_def by (simp add: flushes_ok)
next
  case tick_done
  then show ?thesis using assms(2) by (simp add: writer_ok_def)
next
  case stop
  have "writer_ok cfg (w\<lparr>intervalSet := False\<rparr>)" using assms by (simp add: writer_ok_def)
  then show ?thesis using assms unfolding stop shutdown_def flushAll_def by (simp add: flushes_ok)
next
  case (written i)
  then show ?thesis
    using assms(2) set_remove_nth [of i "jobs w"]
    by (auto simp: writer_ok_def write_succeeds_def Let_def)
next
  case (failed i e)
  obtain j' w1 moved where f: "jobs w ! i \<in> set (jobs w)" "job_ok cfg j'"
    "job_items (jobs w ! i) = job_items j' @ moved" "dropped w1 = dropped w"
    "queue w1 = (queue w)(job_table j' := moved @ queue w (job_table j'))"
    and eq: "write_fails cfg continues i e w =
       (if fst (retry_callback e (jobs w ! i) w) \<and> continues (job_failures (jobs w ! i) + 1)
        then w1\<lparr>jobs := (jobs w)[i := j'\<lparr>job_failures := job_failures (jobs w ! i) + 1\<rparr>]\<rparr>
        else requeue_failed cfg (job_table j') (job_items j') (w1\<lparr>jobs := remove_nth i (jobs w)\<rparr>))"
    using write_fails_cases [OF assms(2) failed(3)] by metis
  have q: "\<forall>t. \<forall>x \<in> set (queue w1 t). item_ok cfg x"
    using assms(2) f(1,3,5) by (auto simp: writer_ok_def job_ok_def)
  have "\<forall>j \<in> set ((jobs w)[i := j'\<lparr>job_failures := n\<rparr>]). job_ok cfg j" for n
    using assms(2) f(2) set_update_subset_insert [of "jobs w" i "j'\<lparr>job_failures := n\<rparr>"]
    by (auto simp: writer_ok_def job_ok_def)
  moreover have "\<forall>j \<in> set (remove_nth i (jobs w)). job_ok cfg j"
    using assms(2) set_remove_nth [of i "jobs w"] by (auto simp: writer_ok_def)
  moreover have "\<forall>x \<in> set (job_items j'). item_ok cfg x" using f(2) by (simp add: job_ok_def)
  moreover have "\<forall>t. \<forall>x \<in> set (dropped w t). attempts x = maxAttempts cfg"
    using assms(2) by (simp add: writer_ok_def)
  ultimately show ?thesis
    using q f(4) unfolding failed eq
    by (auto simp: writer_ok_def requeue_failed_facts item_ok_def)
qed

lemma run_invariant:
  assumes "writer_run cfg continues (new_writer h) evs w" "0 < batchSize cfg" "0 < maxAttempts cfg"
  shows "writer_ok cfg w \<and> conserved w"
  using assms(1)
proof (induction "new_writer h" evs w rule: writer_run.induct)
  case run_Nil
  then show ?case
    by (simp add: writer_ok_def conserved_def new_writer_def held_def settled_def)
next
  case (run_snoc evs w' ev w'')
  then show ?case using step_ok [OF _ _ assms(2,3)] step_conserved by blast
qed


section \<open>Draining\<close>

text \<open>
  The first measure is the number of tries the held records have left; the second decreases when
  items are taken into a batch and on every failed attempt that is repeated.
\<close>

definition tries_left :: "writer_config \<Rightarrow> queue_item list \<Rightarrow> nat" where
  "tries_left cfg xs = sum_list (map (\<lambda>x. maxAttempts cfg + 1 - attempts x) xs)"

definition work_left :: "writer_config \<Rightarrow> writer \<Rightarrow> nat" where
  "work_left cfg w = sum_list (map (\<lambda>t. tries_left cfg (queue w t)) all_tables) +
     sum_list (map (\<lambda>j. tries_left cfg (job_items j)) (jobs w))"

definition job_weight :: "writer_config \<Rightarrow> write_job \<Rightarrow> nat" where
  "job_weight cfg j = (maxAttempts cfg + 2) * length (job_items j) - 1 - job_failures j"

definition waiting :: "writer_config \<Rightarrow> writer \<Rightarrow> nat" where
  "waiting cfg w = sum_list (map (\<lambda>t. (maxAttempts cfg + 2) * length (queue w t)) all_tables) +
     sum_list (map (job_weight cfg) (jobs w))"

definition retries_ok :: "writer_config \<Rightarrow> writer \<Rightarrow> bool" where
  "retries_ok cfg w \<longleftrightarrow> (\<forall>j \<in> set (jobs w). job_failures j < maxAttempts cfg)"

definition progress_order :: "writer_config \<Rightarrow> (writer \<times> writer) set" where
  "progress_order cfg = inv_image (less_than <*lex*> less_than) (\<lambda>w. (work_left cfg w, waiting cfg w))"

lemma wf_progress: "wf (progress_order cfg)"
  by (auto simp: progress_order_def intro: wf_inv_image)

lemma sum_tables_upd:
  "sum_list (map (\<lambda>u. f ((q(t := x)) u)) all_tables) + f (q t) = sum_list (map (\<lambda>u. f (q u)) all_tables) + (f x :: nat)"
  by (cases t) (simp_all add: all_tables_def)

lemma tries_left_append [simp]: "tries_left cfg (xs @ ys) = tries_left cfg xs + tries_left cfg ys"
  by (simp add: tries_left_def)

lemma tries_left_pos: "xs \<noteq> [] \<Longrightarrow> \<forall>x \<in> set xs. item_ok cfg x \<Longrightarrow> 0 < tries_left cfg xs"
  by (cases xs) (auto simp: tries_left_def item_ok_def)

lemma flush_start_progress:
  assumes "0 < batchSize cfg"
  shows "work_left cfg (flush_start cfg b v t w) = work_left cfg w"
    "waiting cfg (flush_start cfg b v t w) \<le> waiting cfg w"
    "queue w t \<noteq> [] \<Longrightarrow> waiting cfg (flush_start cfg b v t w) < waiting cfg w"
    "queue w t = [] \<Longrightarrow> flush_start cfg b v t w = w"
proof -
  let ?n = "if b then length (queue w t) else batchSize cfg"
  let ?K = "maxAttempts cfg + 2"
  let ?items = "take ?n (queue w t)"
  let ?j = "\<lparr>job_table = t, job_items = ?items, job_records = map data ?items, job_truncated = False,
    job_failures = 0, job_interval = v\<rparr>"
  have eq: "flush_start cfg b v t w = (if queue w t = [] then w else
      w\<lparr>queue := (queue w)(t := drop ?n (queue w t)), jobs := jobs w @ [?j]\<rparr>)"
    by (simp add: flush_start_def Let_def)
  show same: "queue w t = [] \<Longrightarrow> flush_start cfg b v t w = w" by (simp add: eq)
  have work: "work_left cfg (flush_start cfg b v t w) = work_left cfg w" if ne: "queue w t \<noteq> []"
  proof -
    have "tries_left cfg (queue w t) = tries_left cfg ?items + tries_left cfg (drop ?n (queue w t))"
      using tries_left_append [of cfg "take ?n (queue w t)" "drop ?n (queue w t)"] by simp
    with sum_tables_upd [of "tries_left cfg" "queue w" t "drop ?n (queue w t)"] ne
    show ?thesis by (simp add: eq work_left_def)
  qed
  show "work_left cfg (flush_start cfg b v t w) = work_left cfg w"
    using work same by (cases "queue w t = []") simp_all
  have lt: "waiting cfg (flush_start cfg b v t w) < waiting cfg w" if ne: "queue w t \<noteq> []"
  proof -
    have "length (queue w t) = length ?items + length (drop ?n (queue w t))" by simp
    then have "?K * length (queue w t) = ?K * length ?items + ?K * length (drop ?n (queue w t))"
      by (metis add_mult_distrib2)
    moreover have "0 < length ?items" using ne assms by auto
    then have "job_weight cfg ?j < ?K * length ?items" by (simp add: job_weight_def)
    ultimately show ?thesis
      using sum_tables_upd [of "\<lambda>xs. ?K * length xs" "queue w" t "drop ?n (queue w t)"] ne
      by (simp add: eq waiting_def)
  qed
  then show "queue w t \<noteq> [] \<Longrightarrow> waiting cfg (flush_start cfg b v t w) < waiting cfg w" .
  show "waiting cfg (flush_start cfg b v t w) \<le> waiting cfg w"
    using lt same by (cases "queue w t = []") (simp_all add: less_imp_le)
qed

lemma flushes_progress:
  assumes "0 < batchSize cfg"
  shows "work_left cfg (fold (flush_start cfg b v) ts w) = work_left cfg w \<and>
    waiting cfg (fold (flush_start cfg b v) ts w) \<le> waiting cfg w \<and>
    (waiting cfg (fold (flush_start cfg b v) ts w) < waiting cfg w \<or> fold (flush_start cfg b v) ts w = w)"
proof (induction ts arbitrary: w)
  case Nil
  then show ?case by simp
next
  case (Cons t ts)
  from Cons [of "flush_start cfg b v t w"] flush_start_progress [OF assms, where b = b and v = v and t = t and w = w]
  show ?case by (cases "queue w t = []") auto
qed

lemma requeue_failed_work:
  assumes "is \<noteq> []" "\<forall>x \<in> set is. item_ok cfg x"
  shows "work_left cfg (requeue_failed cfg t is w) < work_left cfg w + tries_left cfg is"
proof -
  let ?kept = "map (\<lambda>x. x\<lparr>attempts := attempts x + 1\<rparr>) (filter (\<lambda>x. attempts x < maxAttempts cfg) is)"
  have lt: "xs \<noteq> [] \<Longrightarrow> \<forall>x \<in> set xs. item_ok cfg x \<Longrightarrow>
      tries_left cfg (map (\<lambda>x. x\<lparr>attempts := attempts x + 1\<rparr>) (filter (\<lambda>x. attempts x < maxAttempts cfg) xs)) <
      tries_left cfg xs" for xs
  proof (induction xs)
    case Nil
    then show ?case by simp
  next
    case (Cons x xs)
    then show ?case by (cases "xs = []") (auto simp: tries_left_def item_ok_def)
  qed
  have "work_left cfg (requeue_failed cfg t is w) = work_left cfg w + tries_left cfg ?kept"
    using sum_tables_upd [of "tries_left cfg" "queue w" t "queue w t @ ?kept"]
    by (simp add: work_left_def requeue_failed_facts)
  with lt [OF assms] show ?thesis by simp
qed

lemma failed_progress:
  assumes ok: "writer_ok cfg w" "retries_ok cfg w" "i < length (jobs w)"
    and lib: "\<And>n. continues n \<Longrightarrow> n < maxAttempts cfg"
  shows "(write_fails cfg continues i e w, w) \<in> progress_order cfg"
proof -
  let ?j = "jobs w ! i" and ?K = "maxAttempts cfg + 2"
  obtain j' w1 moved where f: "?j \<in> set (jobs w)" "job_table j' = job_table ?j" "job_ok cfg j'"
    "job_items ?j = job_items j' @ moved" "jobs w1 = jobs w"
    "queue w1 = (queue w)(job_table j' := moved @ queue w (job_table j'))"
    and eq: "write_fails cfg continues i e w =
       (if fst (retry_callback e ?j w) \<and> continues (job_failures ?j + 1)
        then w1\<lparr>jobs := (jobs w)[i := j'\<lparr>job_failures := job_failures ?j + 1\<rparr>]\<rparr>
        else requeue_failed cfg (job_table j') (job_items j') (w1\<lparr>jobs := remove_nth i (jobs w)\<rparr>))"
    using write_fails_cases [OF ok(1,3)] by metis
  have work: "work_left cfg (w1\<lparr>jobs := remove_nth i (jobs w)\<rparr>) + tries_left cfg (job_items j') = work_left cfg w"
    using sum_list_remove [OF ok(3), of "\<lambda>j. tries_left cfg (job_items j)"] f(4)
      sum_tables_upd [of "tries_left cfg" "queue w" "job_table j'" "moved @ queue w (job_table j')"]
    by (simp add: work_left_def f(6))
  show ?thesis
  proof (cases "fst (retry_callback e ?j w) \<and> continues (job_failures ?j + 1)")
    case True
    let ?j1 = "j'\<lparr>job_failures := job_failures ?j + 1\<rparr>"
    let ?w = "w1\<lparr>jobs := (jobs w)[i := ?j1]\<rparr>"
    have "work_left cfg ?w = work_left cfg w"
      using work sum_list_update_job [OF ok(3), of "\<lambda>j. tries_left cfg (job_items j)" ?j1]
      by (simp add: work_left_def)
    moreover have "waiting cfg ?w < waiting cfg w"
    proof -
      have n: "job_failures ?j + 1 < maxAttempts cfg" using lib True by blast
      have len: "1 \<le> length (job_items j')" using f(3) by (auto simp: job_ok_def Suc_le_eq)
      have "?K \<le> ?K * length (job_items j')" using mult_le_mono2 [OF len, of ?K] by simp
      with n have "job_weight cfg ?j1 + ?K * length moved < job_weight cfg ?j"
        by (simp add: job_weight_def f(4) add_mult_distrib2)
      then show ?thesis
        using sum_list_remove [OF ok(3), of "job_weight cfg"] sum_list_update_job [OF ok(3), of "job_weight cfg" ?j1]
          sum_tables_upd [of "\<lambda>xs. ?K * length xs" "queue w" "job_table j'" "moved @ queue w (job_table j')"]
        by (simp add: waiting_def f(6) add_mult_distrib2)
    qed
    ultimately show ?thesis unfolding eq if_P [OF True] by (simp add: progress_order_def)
  next
    case False
    have "work_left cfg (requeue_failed cfg (job_table j') (job_items j') (w1\<lparr>jobs := remove_nth i (jobs w)\<rparr>)) <
        work_left cfg (w1\<lparr>jobs := remove_nth i (jobs w)\<rparr>) + tries_left cfg (job_items j')"
      by (rule requeue_failed_work) (use f(3) in \<open>auto simp: job_ok_def\<close>)
    with work show ?thesis unfolding eq if_not_P [OF False] by (simp add: progress_order_def)
  qed
qed

lemma written_progress:
  assumes ok: "writer_ok cfg w" "i < length (jobs w)"
  shows "(write_succeeds i w, w) \<in> progress_order cfg"
proof -
  have "job_ok cfg (jobs w ! i)" using ok by (auto simp: writer_ok_def)
  then have "0 < tries_left cfg (job_items (jobs w ! i))"
    by (auto simp: job_ok_def intro: tries_left_pos)
  with sum_list_remove [OF ok(2), of "\<lambda>j. tries_left cfg (job_items j)"]
  show ?thesis by (simp add: progress_order_def work_left_def write_succeeds_def Let_def)
qed


lemma flush_start_retries:
  "retries_ok cfg w \<Longrightarrow> 0 < maxAttempts cfg \<Longrightarrow> retries_ok cfg (flush_start cfg b v t w)"
  by (auto simp: retries_ok_def flush_start_def Let_def)

lemma flushes_retries:
  "retries_ok cfg w \<Longrightarrow> 0 < maxAttempts cfg \<Longrightarrow> retries_ok cfg (fold (flush_start cfg b v) ts w)"
  by (induction ts arbitrary: w) (simp_all add: flush_start_retries)

lemma step_retries:
  assumes "writer_step cfg continues w ev w'" "writer_ok cfg w" "retries_ok cfg w" "0 < maxAttempts cfg"
    and lib: "\<And>n. continues n \<Longrightarrow> n < maxAttempts cfg"
  shows "retries_ok cfg w'"
  using assms(1)
proof cases
  case (add t r now)
  have "retries_ok cfg (w\<lparr>queue := q, accepted := a\<rparr>)" for q a using assms(3) by (simp add: retries_ok_def)
  then show ?thesis unfolding add addToQueue_def Let_def using flush_start_retries assms(4) by simp
next
  case tick
  have "retries_ok cfg (w\<lparr>isIntervalFlushInProgress := True\<rparr>)" using assms(3) by (simp add: retries_ok_def)
  then show ?thesis
    using assms unfolding tick interval_tick_def flushAll_def by (simp add: flushes_retries)
next
  case tick_done
  then show ?thesis using assms(3) by (simp add: retries_ok_def)
next
  case stop
  have "retries_ok cfg (w\<lparr>intervalSet := False\<rparr>)" using assms(3) by (simp add: retries_ok_def)
  then show ?thesis using assms unfolding stop shutdown_def flushAll_def by (simp add: flushes_retries)
next
  case (written i)
  then show ?thesis
    using assms(3) set_remove_nth [of i "jobs w"] by (auto simp: retries_ok_def write_succeeds_def Let_def)
next
  case (failed i e)
  obtain j' w1 moved where f: "jobs w1 = jobs w"
    and eq: "write_fails cfg continues i e w =
       (if fst (retry_callback e (jobs w ! i) w) \<and> continues (job_failures (jobs w ! i) + 1)
        then w1\<lparr>jobs := (jobs w)[i := j'\<lparr>job_failures := job_failures (jobs w ! i) + 1\<rparr>]\<rparr>
        else requeue_failed cfg (job_table j') (job_items j') (w1\<lparr>jobs := remove_nth i (jobs w)\<rparr>))"
    using write_fails_cases [OF assms(2) failed(3)] by metis
  show ?thesis
  proof (cases "fst (retry_callback e (jobs w ! i) w) \<and> continues (job_failures (jobs w ! i) + 1)")
    case True
    then have "job_failures (jobs w ! i) + 1 < maxAttempts cfg" using lib by blast
    then show ?thesis
      unfolding failed eq if_P [OF True]
      using assms(3) set_update_subset_insert [of "jobs w" i "j'\<lparr>job_failures := job_failures (jobs w ! i) + 1\<rparr>"]
      by (auto simp: retries_ok_def)
  next
    case False
    show ?thesis
      unfolding failed eq if_not_P [OF False]
      using assms(3) set_remove_nth [of i "jobs w"] by (auto simp: retries_ok_def requeue_failed_facts)
  qed
qed

lemma step_progress:
  assumes st: "writer_step cfg continues w ev w'" "\<forall>t r n. ev \<noteq> Ev_Add t r n"
      "(queue w', jobs w') \<noteq> (queue w, jobs w)"
    and ok: "writer_ok cfg w" "retries_ok cfg w" "0 < batchSize cfg"
    and lib: "\<And>n. continues n \<Longrightarrow> n < maxAttempts cfg"
  shows "(w', w) \<in> progress_order cfg"
proof -
  have flush: "(fold (flush_start cfg b v) all_tables w1, w) \<in> progress_order cfg"
    if "queue w1 = queue w" "jobs w1 = jobs w" "w' = fold (flush_start cfg b v) all_tables w1" for b v w1
  proof -
    have m: "work_left cfg w1 = work_left cfg w" "waiting cfg w1 = waiting cfg w"
      using that by (simp_all add: work_left_def waiting_def)
    have "w' \<noteq> w1" using that st(3) by auto
    then show ?thesis
      using flushes_progress [OF ok(3), of b v all_tables w1] m that(3) by (auto simp: progress_order_def)
  qed
  from st(1) show ?thesis
  proof cases
    case (add t r now)
    with st(2) show ?thesis by simp
  next
    case tick
    show ?thesis
    proof (cases "isIntervalFlushInProgress w")
      case True
      with st(3) tick show ?thesis by (simp add: interval_tick_def)
    next
      case False
      then have "w' = fold (flush_start cfg False True) all_tables (w\<lparr>isIntervalFlushInProgress := True\<rparr>)"
        using tick by (simp add: interval_tick_def flushAll_def)
      with flush [of "w\<lparr>isIntervalFlushInProgress := True\<rparr>" False True] show ?thesis by simp
    qed
  next
    case tick_done
    with st(3) show ?thesis by simp
  next
    case stop
    then have "w' = fold (flush_start cfg True False) all_tables (w\<lparr>intervalSet := False\<rparr>)"
      by (simp add: shutdown_def flushAll_def)
    with flush [of "w\<lparr>intervalSet := False\<rparr>" True False] show ?thesis by simp
  next
    case (written i)
    with written_progress [OF ok(1)] show ?thesis by simp
  next
    case (failed i e)
    with failed_progress [OF ok(1,2) _ lib] show ?thesis by simp
  qed
qed

lemma run_retries:
  assumes "writer_run cfg continues (new_writer h) evs w" "0 < batchSize cfg" "0 < maxAttempts cfg"
    and lib: "\<And>n. continues n \<Longrightarrow> n < maxAttempts cfg"
  shows "retries_ok cfg w"
  using assms(1)
proof (induction "new_writer h" evs w rule: writer_run.induct)
  case run_Nil
  then show ?case by (simp add: retries_ok_def new_writer_def)
next
  case (run_snoc evs w' ev w'')
  then show ?case using step_retries run_invariant [OF run_snoc(1) assms(2,3)] assms(3) lib by blast
qed

section \<open>Truncation\<close>

definition text_size :: "string option \<Rightarrow> nat" where
  "text_size v = (case v of None \<Rightarrow> 0 | Some s \<Rightarrow> length s)"

definition record_fits :: "ch_record \<Rightarrow> bool" where
  "record_fits r \<longleftrightarrow> text_size (rec_input r) \<le> maxFieldSize \<and> text_size (rec_output r) \<le> maxFieldSize \<and>
     (case rec_metadata r of None \<Rightarrow> True | Some m \<Rightarrow> \<forall>(k, v) \<in> set m. length v \<le> maxFieldSize)"

lemma truncated_length: "500 * 1024 + length truncationMessage \<le> maxFieldSize"
  by (simp add: truncationMessage_def maxFieldSize_def)

lemma truncate_text_size: "text_size (truncate_text v) \<le> maxFieldSize"
  using truncated_length
  by (auto simp: truncate_text_def truncateField_def text_size_def split: option.split)

lemma truncate_text_fits: "text_size v \<le> maxFieldSize \<Longrightarrow> truncate_text v = v"
  by (auto simp: truncate_text_def text_size_def split: option.split)

lemma truncate_entry_size: "length (truncate_entry v) \<le> maxFieldSize"
  using truncated_length by (auto simp: truncate_entry_def truncateField_def)

lemma truncate_entry_fits: "length v \<le> maxFieldSize \<Longrightarrow> truncate_entry v = v"
  by (simp add: truncate_entry_def)

lemma truncate_fields:
  "rec_input (truncateOversizedRecord r) = truncate_text (rec_input r)"
  "rec_output (truncateOversizedRecord r) = truncate_text (rec_output r)"
  "rec_metadata (truncateOversizedRecord r) = map_option (map (\<lambda>(k, v). (k, truncate_entry v))) (rec_metadata r)"
  "rec_id (truncateOversizedRecord r) = rec_id r" "rec_project (truncateOversizedRecord r) = rec_project r"
  "rec_rest (truncateOversizedRecord r) = rec_rest r"
  by (simp_all add: truncateOversizedRecord_def Let_def)

lemma truncate_record_fits: "record_fits (truncateOversizedRecord r)"
  by (cases "rec_metadata r")
    (auto simp: record_fits_def truncate_fields truncate_text_size truncate_entry_size)

lemma truncate_fits: "record_fits r \<Longrightarrow> truncateOversizedRecord r = r"
proof -
  assume r: "record_fits r"
  have "map_option (map (\<lambda>(k, v). (k, truncate_entry v))) (rec_metadata r) = rec_metadata r"
    using r by (cases "rec_metadata r") (auto simp: record_fits_def truncate_entry_fits intro!: map_idI)
  with r show ?thesis
    by (intro ch_record.equality) (simp_all add: truncate_fields truncate_text_fits record_fits_def)
qed

text \<open>What becomes of one text.\<close>

definition shortened :: "string \<Rightarrow> string" where
  "shortened s = (if length s \<le> 1024 * 1024 then s
     else take 512000 s @ ''[TRUNCATED: Field exceeded size limit]'')"

lemma truncate_shortens:
  "truncateOversizedRecord r = r\<lparr>rec_input := map_option shortened (rec_input r),
     rec_output := map_option shortened (rec_output r),
     rec_metadata := map_option (map (\<lambda>(k, v). (k, shortened v))) (rec_metadata r)\<rparr>"
proof -
  have "truncate_text v = map_option shortened v" for v
    by (auto simp: truncate_text_def truncateField_def shortened_def maxFieldSize_def truncationMessage_def
        split: option.split)
  moreover have "truncate_entry v = shortened v" for v
    by (auto simp: truncate_entry_def truncateField_def shortened_def maxFieldSize_def truncationMessage_def)
  ultimately show ?thesis unfolding truncateOversizedRecord_def Let_def by simp
qed

section \<open>Properties\<close>

text \<open>
  C2: no record is lost or duplicated: after any sequence of additions, timer ticks, shutdowns and
  write outcomes, the records accepted for a table are exactly those still queued or being
  written, those inserted, and those dropped.
\<close>

theorem records_conserved:
  assumes "writer_run cfg continues (new_writer h) evs w" "0 < batchSize cfg" "0 < maxAttempts cfg"
  shows "mset (accepted w t) = held w t + mset (map fst (inserted w t)) + mset (map data (dropped w t))"
  using run_invariant [OF assms] by (simp add: conserved_def settled_def)

definition small_config :: writer_config where
  "small_config = \<lparr>batchSize = 2, maxAttempts = 3\<rparr>"

lemma small_config_ok: "0 < batchSize small_config" "0 < maxAttempts small_config"
  by (simp_all add: small_config_def)

lemma small_run:
  "\<exists>w. writer_run small_config continues (new_writer h) [Ev_Add Traces 7 0, Ev_Tick, Ev_Written 0] w \<and>
     inserted w Traces = [(7, h 7)]"
proof -
  let ?w1 = "addToQueue small_config Traces 7 0 (new_writer h)"
  let ?w2 = "interval_tick small_config ?w1"
  have r1: "writer_run small_config continues (new_writer h) ([] @ [Ev_Add Traces 7 0]) ?w1"
    by (rule writer_run.run_snoc [OF writer_run.run_Nil writer_step.add])
  have s2: "writer_step small_config continues ?w1 Ev_Tick ?w2"
    by (rule writer_step.tick) (simp add: addToQueue_def Let_def new_writer_def small_config_def)
  have s3: "writer_step small_config continues ?w2 (Ev_Written 0) (write_succeeds 0 ?w2)"
    by (rule writer_step.written)
      (simp add: addToQueue_def Let_def new_writer_def small_config_def interval_tick_def flushAll_def
        all_tables_def flush_start_def)
  have "writer_run small_config continues (new_writer h)
      ((([] @ [Ev_Add Traces 7 0]) @ [Ev_Tick]) @ [Ev_Written 0]) (write_succeeds 0 ?w2)"
    by (rule writer_run.run_snoc [OF writer_run.run_snoc [OF r1 s2] s3])
  moreover have "inserted (write_succeeds 0 ?w2) Traces = [(7, h 7)]"
    by (simp add: addToQueue_def Let_def new_writer_def small_config_def interval_tick_def flushAll_def
        all_tables_def flush_start_def write_succeeds_def)
  ultimately show ?thesis by auto
qed

theorem records_conserved_witness:
  "\<exists>w. inserted w Traces = [(7, undefined)] \<and>
     mset (accepted w Traces) = held w Traces + mset (map fst (inserted w Traces)) + mset (map data (dropped w Traces))"
  using small_run [of "\<lambda>_. True" "\<lambda>_. undefined"] records_conserved [OF _ small_config_ok] by blast

text \<open>
  C25: in every reachable state each batch being written is non-empty and its records are exactly
  the objects of its queue items, every queued or batched item has between one and the configured
  number of attempts, and only items that used all attempts were dropped.
\<close>

theorem writer_invariant:
  assumes "writer_run cfg continues (new_writer h) evs w" "0 < batchSize cfg" "0 < maxAttempts cfg"
  shows "(\<forall>j \<in> set (jobs w). job_items j \<noteq> [] \<and> job_records j = map data (job_items j)) \<and>
    (\<forall>t. \<forall>x \<in> set (queue w t). 1 \<le> attempts x \<and> attempts x \<le> maxAttempts cfg) \<and>
    (\<forall>j \<in> set (jobs w). \<forall>x \<in> set (job_items j). 1 \<le> attempts x \<and> attempts x \<le> maxAttempts cfg) \<and>
    (\<forall>t. \<forall>x \<in> set (dropped w t). attempts x = maxAttempts cfg)"
  using run_invariant [OF assms] by (auto simp: writer_ok_def job_ok_def item_ok_def)

theorem writer_invariant_witness:
  "\<exists>w :: writer. inserted w Traces = [(7, undefined)] \<and> (\<forall>j \<in> set (jobs w). job_items j \<noteq> [])"
proof -
  obtain w where r: "writer_run small_config (\<lambda>_. True) (new_writer (\<lambda>_. undefined)) [Ev_Add Traces 7 0, Ev_Tick, Ev_Written 0] w"
    and "inserted w Traces = [(7, undefined)]" using small_run by blast
  moreover have "\<forall>j \<in> set (jobs w). job_items j \<noteq> []"
    using writer_invariant [OF r small_config_ok] by blast
  ultimately show ?thesis by blast
qed

text \<open>
  once nothing is added any more, the writer cannot work forever: if the back-off package stops
  after the configured number of attempts, there is no infinite sequence of ticks, shutdowns and
  write outcomes that keeps changing the queues or the batches.
\<close>

theorem writer_drains:
  assumes "0 < batchSize cfg" "0 < maxAttempts cfg" "\<forall>n. continues n \<longrightarrow> n < maxAttempts cfg"
  shows "wf {(w', w). (\<exists>h evs. writer_run cfg continues (new_writer h) evs w) \<and>
     (\<exists>ev. writer_step cfg continues w ev w' \<and> (\<forall>t r n. ev \<noteq> Ev_Add t r n)) \<and>
     (queue w', jobs w') \<noteq> (queue w, jobs w)}"
proof (rule wf_subset [OF wf_progress [of cfg]], rule subsetI)
  fix p
  assume "p \<in> {(w', w). (\<exists>h evs. writer_run cfg continues (new_writer h) evs w) \<and>
     (\<exists>ev. writer_step cfg continues w ev w' \<and> (\<forall>t r n. ev \<noteq> Ev_Add t r n)) \<and>
     (queue w', jobs w') \<noteq> (queue w, jobs w)}"
  then obtain w w' h evs ev where p: "p = (w', w)" and run: "writer_run cfg continues (new_writer h) evs w"
    and st: "writer_step cfg continues w ev w'" "\<forall>t r n. ev \<noteq> Ev_Add t r n"
      "(queue w', jobs w') \<noteq> (queue w, jobs w)" by auto
  show "p \<in> progress_order cfg"
    unfolding p by (rule step_progress [OF st])
      (use run_invariant [OF run assms(1,2)] run_retries [OF run assms(1,2)] assms in blast)+
qed

theorem writer_drains_witness:
  "wf {(w', w). (\<exists>h evs. writer_run small_config (\<lambda>n. n < 3) (new_writer h) evs w) \<and>
     (\<exists>ev. writer_step small_config (\<lambda>n. n < 3) w ev w' \<and> (\<forall>t r n. ev \<noteq> Ev_Add t r n)) \<and>
     (queue w', jobs w') \<noteq> (queue w, jobs w)}"
  by (rule writer_drains [OF small_config_ok]) (simp add: small_config_def)

text \<open>
  C26: truncating a record keeps every text of its input, output and metadata that is within the field limit,
  replaces a longer one by its first 512000 characters and the truncation message, and changes nothing else,
  neither the metadata keys nor any other field. So the result is within the limit, a record within it stays
  as it is, and truncating twice is truncating once.
\<close>

theorem truncation_bounds:
  "truncateOversizedRecord r = r\<lparr>rec_input := map_option shortened (rec_input r),
      rec_output := map_option shortened (rec_output r),
      rec_metadata := map_option (map (\<lambda>(k, v). (k, shortened v))) (rec_metadata r)\<rparr> \<and>
   record_fits (truncateOversizedRecord r) \<and>
   (record_fits r \<longrightarrow> truncateOversizedRecord r = r) \<and>
   truncateOversizedRecord (truncateOversizedRecord r) = truncateOversizedRecord r \<and>
   rec_id (truncateOversizedRecord r) = rec_id r \<and> rec_project (truncateOversizedRecord r) = rec_project r \<and>
   rec_rest (truncateOversizedRecord r) = rec_rest r"
  using truncate_shortens [of r] truncate_record_fits [of r] truncate_fits [of r]
    truncate_fits [OF truncate_record_fits [of r]]
  by (simp add: truncate_fields)

theorem truncation_bounds_witness:
  "truncateOversizedRecord \<lparr>rec_id = ''t'', rec_project = ''p'', rec_input = Some ''abc'', rec_output = None,
     rec_metadata = Some [(''k'', ''v'')], rec_rest = JNull\<rparr> = \<lparr>rec_id = ''t'', rec_project = ''p'', rec_input = Some ''abc'',
     rec_output = None, rec_metadata = Some [(''k'', ''v'')], rec_rest = JNull\<rparr>"
proof -
  have "record_fits \<lparr>rec_id = ''t'', rec_project = ''p'', rec_input = Some ''abc'', rec_output = None,
     rec_metadata = Some [(''k'', ''v'')], rec_rest = JNull\<rparr>"
    by (simp add: record_fits_def text_size_def maxFieldSize_def)
  then show ?thesis using truncation_bounds by blast
qed

text \<open>
  records can be left behind at shutdown: with two queued records, shutdown takes both into one
  batch; a string-length error splits it, the second half goes back to the queue, the first half is
  written, and then nothing is being written, the timer is off, and a record is still queued.
\<close>

theorem shutdown_leaves_records:
  "let w1 = addToQueue \<lparr>batchSize = 5, maxAttempts = 3\<rparr> Scores 1 0 (new_writer h);
       w2 = addToQueue \<lparr>batchSize = 5, maxAttempts = 3\<rparr> Scores 2 0 w1;
       w3 = shutdown \<lparr>batchSize = 5, maxAttempts = 3\<rparr> w2;
       w4 = write_fails \<lparr>batchSize = 5, maxAttempts = 3\<rparr> (\<lambda>n. n < 3) 0 (Error_Object (Some ''Invalid string length'')) w3;
       w5 = write_succeeds 0 w4
   in jobs w5 = [] \<and> \<not> intervalSet w5 \<and> map data (queue w5 Scores) = [2] \<and> map fst (inserted w5 Scores) = [1]"
proof -
  have lowered: "js_lower ''Invalid string length'' = ''invalid string length''"
    by (simp add: js_lower_def lower_char_def Let_def char_of_bits)
  have e: "isStringLengthError (Error_Object (Some ''Invalid string length''))"
    "\<not> isRetryableError (Error_Object (Some ''Invalid string length''))"
    using lowered by (simp_all add: isStringLengthError_def isRetryableError_def js_defs)
  let ?c = "\<lparr>batchSize = 5, maxAttempts = 3\<rparr>"
  let ?i = "\<lambda>n. \<lparr>createdAt = 0, attempts = 1, data = n\<rparr>"
  define w2 where "w2 = addToQueue ?c Scores 2 0 (addToQueue ?c Scores 1 0 (new_writer h))"
  have w2: "jobs w2 = []" "queue w2 = (\<lambda>_. [])(Scores := [?i 1, ?i 2])" "inserted w2 Scores = []"
    by (simp_all add: w2_def addToQueue_def new_writer_def Let_def)
  define w3 where "w3 = shutdown ?c w2"
  have w3: "jobs w3 = [\<lparr>job_table = Scores, job_items = [?i 1, ?i 2], job_records = [1, 2],
      job_truncated = False, job_failures = 0, job_interval = False\<rparr>]"
    "queue w3 Scores = []" "inserted w3 Scores = []" "\<not> intervalSet w3"
    using w2 by (simp_all add: w3_def shutdown_def flushAll_def all_tables_def flush_start_def)
  define w4 where "w4 = write_fails ?c (\<lambda>n. n < 3) 0 (Error_Object (Some ''Invalid string length'')) w3"
  have w4: "jobs w4 = [\<lparr>job_table = Scores, job_items = [?i 1], job_records = [1],
      job_truncated = False, job_failures = 1, job_interval = False\<rparr>]"
    "queue w4 Scores = [?i 2]" "inserted w4 Scores = []" "\<not> intervalSet w4"
    using w3 by (simp_all add: w4_def write_fails_def retry_callback_def e handleStringLengthError_def Let_def)
  have "jobs (write_succeeds 0 w4) = []" "\<not> intervalSet (write_succeeds 0 w4)"
    "map data (queue (write_succeeds 0 w4) Scores) = [2]" "map fst (inserted (write_succeeds 0 w4) Scores) = [1]"
    using w4 by (simp_all add: write_succeeds_def remove_nth_def Let_def)
  then show ?thesis unfolding Let_def w4_def w3_def w2_def by blast
qed

end
