(* ===== verification/Writer_Liveness.thy ===== *)
theory Writer_Liveness imports Clickhouse_Writer begin

text \<open>
  The writer of \<^verbatim>\<open>Clickhouse_Writer\<close> under fair scheduling: once nothing is added, the queues and the writes
  in flight become empty and stay so, and every record is written or dropped.
\<close>

section \<open>Fair behaviours\<close>

definition behaviour :: "writer_config \<Rightarrow> (nat \<Rightarrow> bool) \<Rightarrow> (rec_ref \<Rightarrow> ch_record) \<Rightarrow> (nat \<Rightarrow> writer) \<Rightarrow> (nat \<Rightarrow> event) \<Rightarrow> bool" where
  "behaviour cfg continues h w ev \<longleftrightarrow> w 0 = new_writer h \<and> (\<forall>k. writer_step cfg continues (w k) (ev k) (w (Suc k)))"

definition settles :: "event \<Rightarrow> bool" where
  "settles e \<longleftrightarrow> (case e of Ev_Written i \<Rightarrow> True | Ev_Failed i x \<Rightarrow> True | _ \<Rightarrow> False)"

text \<open>
  The timer keeps firing, a write that is waiting settles at some time, and the promise of a tick whose
  flushes are done is followed by its \<open>finally\<close>.
\<close>

definition fair :: "(nat \<Rightarrow> writer) \<Rightarrow> (nat \<Rightarrow> event) \<Rightarrow> bool" where
  "fair w ev \<longleftrightarrow> (\<forall>k. \<exists>m \<ge> k. ev m = Ev_Tick) \<and>
     (\<forall>k. jobs (w k) \<noteq> [] \<longrightarrow> (\<exists>m \<ge> k. settles (ev m))) \<and>
     (\<forall>k. isIntervalFlushInProgress (w k) \<longrightarrow> (\<forall>j \<in> set (jobs (w k)). \<not> job_interval j) \<longrightarrow> (\<exists>m \<ge> k. ev m = Ev_Tick_Done))"

lemma behaviour_run: "behaviour cfg continues h w ev \<Longrightarrow> \<exists>evs. writer_run cfg continues (new_writer h) evs (w k)"
proof (induction k)
  case 0
  then show ?case using run_Nil by (auto simp: behaviour_def)
next
  case (Suc k)
  then show ?case using run_snoc unfolding behaviour_def by blast
qed

section \<open>What a step does to the flag and to full queues\<close>

lemma requeue_failed_flag: "isIntervalFlushInProgress (requeue_failed cfg t xs w) = isIntervalFlushInProgress w"
  unfolding requeue_failed_def by (induction xs arbitrary: w) simp_all

lemma retry_callback_flag:
  "retry_callback e j w = (again, j', w') \<Longrightarrow> isIntervalFlushInProgress w' = isIntervalFlushInProgress w"
  by (auto simp: retry_callback_def split: if_splits prod.splits)

lemma flushes_flag: "isIntervalFlushInProgress (fold (flush_start cfg b v) ts w) = isIntervalFlushInProgress w"
  by (induction ts arbitrary: w) simp_all

lemma step_flag:
  assumes "writer_step cfg continues w e w'" "e \<noteq> Ev_Tick" "\<not> isIntervalFlushInProgress w"
  shows "\<not> isIntervalFlushInProgress w'"
  using assms(1)
proof cases
  case (failed i e)
  then show ?thesis
    using assms(3) retry_callback_flag
    by (auto simp: write_fails_def Let_def requeue_failed_flag split: prod.splits)
qed (use assms in \<open>auto simp: addToQueue_def shutdown_def flushAll_def flushes_flag write_succeeds_def Let_def\<close>)

lemma flush_start_jobs: "jobs w \<noteq> [] \<Longrightarrow> jobs (flush_start cfg b v t w) \<noteq> []"
  by (simp add: flush_start_def Let_def)

lemma flushes_jobs: "jobs w \<noteq> [] \<or> (\<exists>t \<in> set ts. queue w t \<noteq> []) \<Longrightarrow> jobs (fold (flush_start cfg b v) ts w) \<noteq> []"
proof (induction ts arbitrary: w)
  case (Cons t ts)
  show ?case
  proof (cases "jobs w \<noteq> [] \<or> queue w t \<noteq> []")
    case True
    then have "jobs (flush_start cfg b v t w) \<noteq> []" by (auto simp: flush_start_def Let_def)
    with Cons.IH show ?thesis by simp
  next
    case False
    then have "flush_start cfg b v t w = w" by (simp add: flush_start_def)
    with False Cons show ?thesis by simp
  qed
qed simp

lemma in_all_tables [simp]: "t \<in> set all_tables"
  by (cases t) (simp_all add: all_tables_def)

lemma tick_starts:
  assumes "\<not> isIntervalFlushInProgress w" "queue w t \<noteq> []"
  shows "jobs (interval_tick cfg w) \<noteq> []"
proof -
  have "\<exists>t \<in> set all_tables. queue (w\<lparr>isIntervalFlushInProgress := True\<rparr>) t \<noteq> []"
    by (rule bexI [of _ t]) (simp_all add: assms(2))
  then have "jobs (fold (flush_start cfg False True) all_tables (w\<lparr>isIntervalFlushInProgress := True\<rparr>)) \<noteq> []"
    by (intro flushes_jobs disjI2)
  with assms(1) show ?thesis by (simp add: interval_tick_def flushAll_def)
qed

section \<open>The queues become empty\<close>

definition work :: "writer_config \<Rightarrow> writer \<Rightarrow> nat \<times> nat" where
  "work cfg w = (work_left cfg w, waiting cfg w)"

lemma work_cong: "queue w = queue w' \<Longrightarrow> jobs w = jobs w' \<Longrightarrow> work cfg w = work cfg w'"
  by (simp add: work_def work_left_def waiting_def)

lemma work_irrefl: "queue w = queue w' \<Longrightarrow> jobs w = jobs w' \<Longrightarrow> (w', w) \<notin> progress_order cfg"
  using work_cong [of w w' cfg] by (auto simp: progress_order_def work_def)

text \<open>A fair behaviour of a writer that is configured and whose back-off package gives up, with no additions from \<open>N\<close> on.\<close>

definition finishing :: "writer_config \<Rightarrow> (nat \<Rightarrow> bool) \<Rightarrow> (rec_ref \<Rightarrow> ch_record) \<Rightarrow> (nat \<Rightarrow> writer) \<Rightarrow> (nat \<Rightarrow> event) \<Rightarrow> nat \<Rightarrow> bool" where
  "finishing cfg continues h w ev N \<longleftrightarrow> 0 < batchSize cfg \<and> 0 < maxAttempts cfg \<and> (\<forall>n. continues n \<longrightarrow> n < maxAttempts cfg) \<and>
     behaviour cfg continues h w ev \<and> fair w ev \<and> (\<forall>k \<ge> N. \<forall>t r n. ev k \<noteq> Ev_Add t r n)"

lemma finishing_step: "finishing cfg continues h w ev N \<Longrightarrow> writer_step cfg continues (w k) (ev k) (w (Suc k))"
  by (simp add: finishing_def behaviour_def)

lemma finishing_fair:
  assumes "finishing cfg continues h w ev N"
  shows "\<exists>m \<ge> k. ev m = Ev_Tick" "jobs (w k) \<noteq> [] \<Longrightarrow> \<exists>m \<ge> k. settles (ev m)"
    "isIntervalFlushInProgress (w k) \<Longrightarrow> jobs (w k) = [] \<Longrightarrow> \<exists>m \<ge> k. ev m = Ev_Tick_Done"
proof -
  have f: "fair w ev" using assms by (simp add: finishing_def)
  show "\<exists>m \<ge> k. ev m = Ev_Tick" using f unfolding fair_def by blast
  show "jobs (w k) \<noteq> [] \<Longrightarrow> \<exists>m \<ge> k. settles (ev m)" using f unfolding fair_def by blast
  show "isIntervalFlushInProgress (w k) \<Longrightarrow> jobs (w k) = [] \<Longrightarrow> \<exists>m \<ge> k. ev m = Ev_Tick_Done"
    using f [unfolded fair_def, THEN conjunct2, THEN conjunct2, THEN spec, of k] by simp
qed

lemma state_ok:
  assumes "finishing cfg continues h w ev N"
  shows "writer_ok cfg (w k)" "conserved (w k)" "retries_ok cfg (w k)"
proof -
  have a: "behaviour cfg continues h w ev" "0 < batchSize cfg" "0 < maxAttempts cfg" "\<And>n. continues n \<Longrightarrow> n < maxAttempts cfg"
    using assms by (simp_all add: finishing_def)
  obtain evs where r: "writer_run cfg continues (new_writer h) evs (w k)" using behaviour_run [OF a(1)] by blast
  show "writer_ok cfg (w k)" "conserved (w k)" using run_invariant [OF r a(2,3)] by simp_all
  show "retries_ok cfg (w k)" by (rule run_retries [OF r a(2,3,4)])
qed

lemma change_is_progress:
  assumes fin: "finishing cfg continues h w ev N" and "N \<le> k" "(queue (w (Suc k)), jobs (w (Suc k))) \<noteq> (queue (w k), jobs (w k))"
  shows "(w (Suc k), w k) \<in> progress_order cfg"
  by (rule step_progress [OF finishing_step [OF fin] _ assms(3)])
    (use assms(2) state_ok [OF fin] fin in \<open>simp_all add: finishing_def\<close>)

lemma settles_is_progress:
  assumes fin: "finishing cfg continues h w ev N" and "settles (ev k)"
  shows "(w (Suc k), w k) \<in> progress_order cfg"
  using finishing_step [OF fin, of k]
proof cases
  case (written i)
  then show ?thesis using written_progress [OF state_ok(1) [OF fin] written(3)] by simp
next
  case (failed i e)
  have "(write_fails cfg continues i e (w k), w k) \<in> progress_order cfg"
    by (rule failed_progress [OF state_ok(1) [OF fin] state_ok(3) [OF fin] failed(3)]) (use fin in \<open>simp add: finishing_def\<close>)
  with failed show ?thesis by simp
qed (use assms in \<open>simp_all add: settles_def\<close>)

lemma stable:
  assumes fin: "finishing cfg continues h w ev N"
  shows "\<exists>n \<ge> N. \<forall>k \<ge> n. queue (w k) = queue (w n) \<and> jobs (w k) = jobs (w n)"
proof -
  have "wf (inv_image (less_than <*lex*> less_than) (\<lambda>k. work cfg (w k)))" by (intro wf_inv_image wf_lex_prod wf_less_than)
  then obtain n where n: "n \<in> {N..}"
    "\<And>k. (k, n) \<in> inv_image (less_than <*lex*> less_than) (\<lambda>k. work cfg (w k)) \<Longrightarrow> k \<notin> {N..}"
    by (rule wfE_min [of _ N "{N..}"]) auto
  have least: "(work cfg (w k), work cfg (w n)) \<notin> less_than <*lex*> less_than" if "N \<le> k" for k
    using n(2) [of k] that by (auto simp: in_inv_image)
  have "queue (w k) = queue (w n) \<and> jobs (w k) = jobs (w n)" if "n \<le> k" for k
    using that
  proof (induction k rule: dec_induct)
    case (step k)
    have nk: "N \<le> k" using n(1) step(1) by simp
    have "work cfg (w k) = work cfg (w n)" by (rule work_cong) (use step(3) in simp_all)
    then have "(w (Suc k), w k) \<notin> progress_order cfg"
      using least [of "Suc k"] nk by (simp add: progress_order_def work_def)
    then have "(queue (w (Suc k)), jobs (w (Suc k))) = (queue (w k), jobs (w k))"
      using change_is_progress [OF fin nk] by blast
    with step(3) show ?case by simp
  qed simp
  with n(1) show ?thesis by auto
qed

lemma empties:
  assumes fin: "finishing cfg continues h w ev N"
  shows "\<exists>n. \<forall>k \<ge> n. jobs (w k) = [] \<and> (\<forall>t. queue (w k) t = [])"
proof -
  note step' = finishing_step [OF fin] and fair = finishing_fair [OF fin]
  obtain n where n: "N \<le> n" "\<And>k. n \<le> k \<Longrightarrow> queue (w k) = queue (w n) \<and> jobs (w k) = jobs (w n)"
    using stable [OF fin] by blast
  have same: "queue (w k) = queue (w m)" "jobs (w k) = jobs (w m)" if "n \<le> k" "n \<le> m" for k m
    using n(2) [OF that(1)] n(2) [OF that(2)] by simp_all
  have no_jobs: "jobs (w k) = []" if "n \<le> k" for k
  proof (rule ccontr)
    assume "jobs (w k) \<noteq> []"
    then obtain m where m: "k \<le> m" "settles (ev m)" using fair(2) by blast
    have "n \<le> m" "n \<le> Suc m" using m(1) that by simp_all
    from work_irrefl [OF same(1) [OF this] same(2) [OF this]] settles_is_progress [OF fin m(2)] show False by blast
  qed
  have "\<exists>k \<ge> n. \<not> isIntervalFlushInProgress (w k)"
  proof (cases "isIntervalFlushInProgress (w n)")
    case True
    then obtain m where m: "n \<le> m" "ev m = Ev_Tick_Done"
      using fair(3) [OF _ no_jobs [of n]] by auto
    have "\<not> isIntervalFlushInProgress (w (Suc m))" using step' [of m] m(2) by (auto elim: writer_stepE)
    with m(1) show ?thesis by (intro exI [of _ "Suc m"]) simp
  qed blast
  then obtain k where k: "n \<le> k" "\<not> isIntervalFlushInProgress (w k)" by blast
  define m where "m = (LEAST m. k \<le> m \<and> ev m = Ev_Tick)"
  have "\<exists>m. k \<le> m \<and> ev m = Ev_Tick" using fair(1) by blast
  then have m: "k \<le> m" "ev m = Ev_Tick" unfolding m_def by (metis (mono_tags, lifting) LeastI)+
  have first: "ev i \<noteq> Ev_Tick" if "k \<le> i" "i < m" for i using not_less_Least [OF that(2) [unfolded m_def]] that(1) by blast
  have "\<not> isIntervalFlushInProgress (w i)" if "k \<le> i" "i \<le> m" for i
    using that
  proof (induction i rule: dec_induct)
    case (step i)
    then show ?case using step_flag [OF step' first [of i]] by simp
  qed (use k in simp)
  then have flag: "\<not> isIntervalFlushInProgress (w m)" using m(1) by simp
  have tick: "w (Suc m) = interval_tick cfg (w m)" using step' [of m] m(2) by (auto elim: writer_stepE)
  have "queue (w m) t = []" for t
  proof (rule ccontr)
    assume "queue (w m) t \<noteq> []"
    from tick_starts [OF flag this, of cfg] no_jobs [of "Suc m"] m(1) k(1) tick show False by simp
  qed
  with same no_jobs m(1) k(1) show ?thesis by (metis le_trans)
qed

text \<open>
  C5: in every fair behaviour of the writer, once nothing is added any more, all queues and all writes in
  flight become empty and stay empty, and from then on every accepted record has been inserted or dropped,
  each exactly as often as it was accepted. This assumes that the timer fires again and again, that every
  write settles somehow, and that the back-off package gives up after the configured attempts.
\<close>

theorem all_records_settle:
  assumes "finishing cfg continues h w ev N"
  shows "\<exists>n. \<forall>k \<ge> n. jobs (w k) = [] \<and> (\<forall>t. queue (w k) t = [] \<and> mset (accepted (w k) t) = settled (w k) t)"
proof -
  obtain n where n: "\<And>k. n \<le> k \<Longrightarrow> jobs (w k) = [] \<and> (\<forall>t. queue (w k) t = [])" using empties [OF assms] by blast
  have "mset (accepted (w k) t) = settled (w k) t" if "n \<le> k" for k t
    using state_ok(2) [OF assms, of k] n [OF that] by (simp add: conserved_def held_def)
  with n show ?thesis by blast
qed

text \<open>One record is added, written by the first tick, and the timer fires for ever.\<close>

definition demo_event :: "nat \<Rightarrow> event" where
  "demo_event k = (case k of 0 \<Rightarrow> Ev_Add Traces 7 0 | Suc 0 \<Rightarrow> Ev_Tick | Suc (Suc 0) \<Rightarrow> Ev_Written 0
     | _ \<Rightarrow> if even k then Ev_Tick else Ev_Tick_Done)"

fun run_event :: "event \<Rightarrow> writer \<Rightarrow> writer" where
  "run_event (Ev_Add t r now) w = addToQueue small_config t r now w"
| "run_event Ev_Tick w = interval_tick small_config w"
| "run_event Ev_Tick_Done w = w\<lparr>isIntervalFlushInProgress := False\<rparr>"
| "run_event Ev_Shutdown w = shutdown small_config w"
| "run_event (Ev_Written i) w = write_succeeds i w"
| "run_event (Ev_Failed i e) w = write_fails small_config (\<lambda>n. n < 3) i e w"

primrec demo_writer :: "nat \<Rightarrow> writer" where
  "demo_writer 0 = new_writer (\<lambda>_. undefined)"
| "demo_writer (Suc k) = run_event (demo_event k) (demo_writer k)"

lemmas demo_simps = demo_event_def addToQueue_def Let_def new_writer_def small_config_def interval_tick_def flushAll_def
  all_tables_def flush_start_def write_succeeds_def remove_nth_def

lemma demo_events:
  "demo_event 0 = Ev_Add Traces 7 0" "demo_event (Suc 0) = Ev_Tick" "demo_event (Suc (Suc 0)) = Ev_Written 0"
  "3 \<le> k \<Longrightarrow> demo_event k = (if even k then Ev_Tick else Ev_Tick_Done)"
  by (simp_all add: demo_event_def split: nat.split)

definition idle :: "bool \<Rightarrow> writer \<Rightarrow> bool" where
  "idle b w \<longleftrightarrow> queue w = (\<lambda>t. []) \<and> jobs w = [] \<and> intervalSet w \<and> isIntervalFlushInProgress w = b"

lemma demo_idle: "3 \<le> k \<Longrightarrow> idle (odd k) (demo_writer k)"
proof (induction k rule: dec_induct)
  case base
  have "odd (3 :: nat)" by simp
  moreover have "idle True (demo_writer 3)"
    by (simp add: idle_def eval_nat_numeral demo_events demo_simps fun_eq_iff)
  ultimately show ?case by simp
next
  case (step k)
  then show ?case
    by (auto simp: idle_def demo_events interval_tick_def flushAll_def all_tables_def flush_start_def)
qed

lemma demo_step: "writer_step small_config (\<lambda>n. n < 3) (demo_writer k) (demo_event k) (demo_writer (Suc k))"
proof -
  consider "k = 0" | "k = 1" | "k = 2" | "3 \<le> k" by linarith
  then show ?thesis
  proof cases
    case 1
    show ?thesis unfolding 1 demo_writer.simps demo_events run_event.simps by (rule writer_step.add)
  next
    case 2
    have "writer_step small_config (\<lambda>n. n < 3) (demo_writer 1) Ev_Tick (interval_tick small_config (demo_writer 1))"
      by (rule writer_step.tick) (simp add: demo_events demo_simps)
    with 2 show ?thesis by (simp add: demo_events)
  next
    case 3
    have "writer_step small_config (\<lambda>n. n < 3) (demo_writer 2) (Ev_Written 0) (write_succeeds 0 (demo_writer 2))"
      by (rule writer_step.written) (simp add: numeral_2_eq_2 demo_events demo_simps)
    with 3 show ?thesis by (simp add: numeral_2_eq_2 demo_events)
  next
    case 4
    show ?thesis
    proof (cases "even k")
      case True
      have "writer_step small_config (\<lambda>n. n < 3) (demo_writer k) Ev_Tick (interval_tick small_config (demo_writer k))"
        by (rule writer_step.tick) (use demo_idle [OF 4] in \<open>simp add: idle_def\<close>)
      with 4 True show ?thesis by (simp add: demo_events)
    next
      case False
      have "writer_step small_config (\<lambda>n. n < 3) (demo_writer k) Ev_Tick_Done ((demo_writer k)\<lparr>isIntervalFlushInProgress := False\<rparr>)"
        by (rule writer_step.tick_done) (use demo_idle [OF 4] False in \<open>simp_all add: idle_def\<close>)
      with 4 False show ?thesis by (simp add: demo_events)
    qed
  qed
qed

lemma demo_fair: "fair demo_writer demo_event"
  unfolding fair_def
proof (intro conjI allI impI)
  fix k
  show "\<exists>m \<ge> k. demo_event m = Ev_Tick" by (rule exI [of _ "2 * k + 4"]) (simp add: demo_events)
  show "\<exists>m \<ge> k. demo_event m = Ev_Tick_Done" by (rule exI [of _ "2 * k + 3"]) (simp add: demo_events)
  assume j: "jobs (demo_writer k) \<noteq> []"
  have "\<not> 3 \<le> k" using demo_idle [of k] j by (auto simp: idle_def)
  then show "\<exists>m \<ge> k. settles (demo_event m)" by (intro exI [of _ 2]) (simp add: numeral_2_eq_2 demo_events settles_def)
qed

theorem all_records_settle_witness:
  "\<exists>n. \<forall>k. jobs (demo_writer (n + k)) = [] \<and> mset (accepted (demo_writer (n + k)) Traces) = settled (demo_writer (n + k)) Traces"
proof -
  have add: "demo_event k \<noteq> Ev_Add t r n" if "1 \<le> k" for k t r n
    using that by (cases "3 \<le> k") (auto simp: demo_events numeral_3_eq_3 not_le less_Suc_eq)
  then have "finishing small_config (\<lambda>n. n < 3) (\<lambda>_. undefined) demo_writer demo_event 1"
    using demo_step demo_fair by (simp add: finishing_def behaviour_def small_config_def)
  then obtain n where n: "\<And>k. n \<le> k \<Longrightarrow> jobs (demo_writer k) = [] \<and>
      (\<forall>t. queue (demo_writer k) t = [] \<and> mset (accepted (demo_writer k) t) = settled (demo_writer k) t)"
    using all_records_settle by blast
  have "jobs (demo_writer (n + k)) = [] \<and> mset (accepted (demo_writer (n + k)) Traces) = settled (demo_writer (n + k)) Traces" for k
    using n [of "n + k"] by simp
  then show ?thesis by blast
qed

end
