(* ===== verification/Trace_Tree.thy ===== *)
theory Trace_Tree imports Stack_Walk "HOL-Library.Multiset" begin

text \<open>
  The trace view's tree: \<^verbatim>\<open>web/src/components/trace2/lib/tree-building.ts\<close>. Observations are
  filtered by level, their parent links are cleaned, and the tree is built bottom-up with a queue:
  a node is built when its last child has been, and its cost is its own plus its children's.

  A \<open>Map\<close> is the list of its entries in insertion order. The finished nodes are trees of records
  (\<open>node_info rose\<close>): the code never changes a node after creating it. \<open>decimal.js\<close> is not part of
  the repository: its operations are the argument \<open>D\<close> (\<open>decimal_ops\<close>); no law of them is used
  except where a statement says so. Times are milliseconds.
\<close>

section \<open>Observations and nodes\<close>

datatype obs_level = LDebug | LDefault | LWarning | LError

record observation =
  ob_id :: string
  ob_type :: string
  ob_name :: "string option"
  ob_start :: int
  ob_end :: "int option"
  ob_level :: obs_level
  ob_inputUsage :: "rat option"
  ob_outputUsage :: "rat option"
  ob_totalUsage :: "rat option"
  ob_inputCost :: "rat option"
  ob_outputCost :: "rat option"
  ob_totalCost :: "rat option"
  ob_parent :: "string option"
  ob_traceId :: "string option"

record 'd node_info =
  n_id :: string
  n_type :: string
  n_name :: string
  n_start :: int
  n_end :: "int option"
  n_level :: "obs_level option"
  n_inputUsage :: "rat option"
  n_outputUsage :: "rat option"
  n_totalUsage :: "rat option"
  n_inputCost :: "rat option"
  n_outputCost :: "rat option"
  n_calculatedTotal :: "rat option"
  n_totalCost :: "'d option"
  n_latency :: "rat option"
  n_parent :: "string option"
  n_traceId :: "string option"
  n_sinceTrace :: int
  n_sinceParent :: "int option"
  n_depth :: int
  n_childrenDepth :: nat

type_synonym 'd trace_node = "'d node_info rose"

record trace =
  tr_id :: string
  tr_name :: "string option"
  tr_timestamp :: int
  tr_latency :: "rat option"
  tr_rootObservationType :: "string option"

record 'd decimal_ops =
  dec_of :: "rat \<Rightarrow> 'd"
  dec_plus :: "'d \<Rightarrow> 'd \<Rightarrow> 'd"
  dec_isZero :: "'d \<Rightarrow> bool"

record 'd processing_node =
  p_obs :: observation
  childrenIds :: "string list"
  inDegree :: int
  p_depth :: int
  treeNode :: "'d trace_node option"

type_synonym 'd registry = "(string \<times> 'd processing_node) list"

text \<open>A null or empty parent id is no parent: the tests of the code are on truthiness.\<close>

definition parent_ref :: "observation \<Rightarrow> string option" where
  "parent_ref o1 = (case ob_parent o1 of None \<Rightarrow> None | Some p \<Rightarrow> if p = [] then None else Some p)"

definition rec_upd :: "'k \<Rightarrow> ('v \<Rightarrow> 'v) \<Rightarrow> ('k \<times> 'v) list \<Rightarrow> ('k \<times> 'v) list" where
  "rec_upd k f r = map (\<lambda>(k', v). if k' = k then (k', f v) else (k', v)) r"

section \<open>Phase 1: filtering\<close>

definition ascendingLevels :: "obs_level list" where
  "ascendingLevels = [LDebug, LDefault, LWarning, LError]"

definition getObservationLevels :: "obs_level option \<Rightarrow> obs_level list" where
  "getObservationLevels minLevel = (case minLevel of
       None \<Rightarrow> ascendingLevels
     | Some l \<Rightarrow>
         (let minLevelIndex = length (takeWhile (\<lambda>x. x \<noteq> l) ascendingLevels)
          in drop minLevelIndex ascendingLevels))"

definition filterAndPrepareObservations ::
    "observation list \<Rightarrow> obs_level option \<Rightarrow> observation list \<times> nat" where
  "filterAndPrepareObservations obs minLevel =
     (if length obs = 0 then ([], 0)
      else (let mutableList = filter (\<lambda>o1. ob_level o1 \<in> set (getObservationLevels minLevel)) obs;
                hidden = length obs - length mutableList;
                observationIds = map ob_id obs;
                cleaned = map (\<lambda>o1. case parent_ref o1 of
                    Some p \<Rightarrow> if p \<notin> set observationIds then o1\<lparr>ob_parent := None\<rparr> else o1
                  | None \<Rightarrow> o1) mutableList
            in (sort_key ob_start cleaned, hidden)))"

section \<open>Phase 2: the dependency graph\<close>

definition new_processing :: "observation \<Rightarrow> 'd processing_node" where
  "new_processing o1 = \<lparr>p_obs = o1, childrenIds = [], inDegree = 0, p_depth = 0, treeNode = None\<rparr>"

definition register_all :: "observation list \<Rightarrow> 'd registry" where
  "register_all obs = fold (\<lambda>o1 r. rec_set (ob_id o1) (new_processing o1) r) obs []"

definition link_children :: "observation list \<Rightarrow> 'd registry \<Rightarrow> 'd registry" where
  "link_children obs r =
     fold (\<lambda>o1 r. case parent_ref o1 of
         None \<Rightarrow> r
       | Some p \<Rightarrow> rec_upd p (\<lambda>n. n\<lparr>childrenIds := childrenIds n @ [ob_id o1]\<rparr>) r) obs r"

definition root_entries :: "'d registry \<Rightarrow> string list" where
  "root_entries r = map fst (filter (\<lambda>(k, n). parent_ref (p_obs n) = None) r)"

definition clear_root_depths :: "'d registry \<Rightarrow> 'd registry" where
  "clear_root_depths r =
     map (\<lambda>(k, n). if parent_ref (p_obs n) = None then (k, n\<lparr>p_depth := 0\<rparr>) else (k, n)) r"

text \<open>
  The breadth-first loop; \<open>pending\<close> is the part of the queue from \<open>queueIndex\<close> on. Looking up an id
  that is not registered would throw: the result is then \<open>None\<close>, as it is when the loop does not end.
\<close>

partial_function (option) depth_loop :: "'d registry \<Rightarrow> string list \<Rightarrow> 'd registry option" where
  "depth_loop r pending = (case pending of
       [] \<Rightarrow> Some r
     | currentId # rest \<Rightarrow>
         (case map_of r currentId of
            None \<Rightarrow> None
          | Some n \<Rightarrow>
              depth_loop (fold (\<lambda>c r. rec_upd c (\<lambda>m. m\<lparr>p_depth := p_depth n + 1\<rparr>) r) (childrenIds n) r)
                (rest @ childrenIds n)))"

definition set_degrees :: "'d registry \<Rightarrow> 'd registry" where
  "set_degrees r = map (\<lambda>(k, n). (k, n\<lparr>inDegree := int (length (childrenIds n))\<rparr>)) r"

definition leaf_entries :: "'d registry \<Rightarrow> string list" where
  "leaf_entries r = map fst (filter (\<lambda>(k, n). length (childrenIds n) = 0) r)"

definition buildDependencyGraph :: "observation list \<Rightarrow> ('d registry \<times> string list) option" where
  "buildDependencyGraph obs =
     (let r2 = link_children obs (register_all obs)
      in case depth_loop (clear_root_depths r2) (root_entries r2) of
           None \<Rightarrow> None
         | Some r3 \<Rightarrow> Some (set_degrees r3, leaf_entries r3))"

section \<open>Phase 3: building bottom-up\<close>

text \<open>The sum of the children's costs; a child without cost is skipped.\<close>

definition sum_costs :: "'d decimal_ops \<Rightarrow> 'd trace_node list \<Rightarrow> 'd option" where
  "sum_costs D ts = foldl (\<lambda>acc child. case n_totalCost (label child) of
       None \<Rightarrow> acc
     | Some c \<Rightarrow> (case acc of None \<Rightarrow> Some c | Some a \<Rightarrow> Some (dec_plus D a c))) None ts"

definition own_cost :: "'d decimal_ops \<Rightarrow> observation \<Rightarrow> 'd option" where
  "own_cost D o1 = (case ob_totalCost o1 of
       Some t \<Rightarrow> (let cost = dec_of D t in if \<not> dec_isZero D cost then Some cost else None)
     | None \<Rightarrow>
         if ob_inputCost o1 \<noteq> None \<or> ob_outputCost o1 \<noteq> None then
           (let inputCost = (case ob_inputCost o1 of Some i \<Rightarrow> dec_of D i | None \<Rightarrow> dec_of D 0);
                outputCost = (case ob_outputCost o1 of Some u \<Rightarrow> dec_of D u | None \<Rightarrow> dec_of D 0);
                combinedCost = dec_plus D inputCost outputCost
            in if \<not> dec_isZero D combinedCost then Some combinedCost else None)
         else None)"

definition add_costs :: "'d decimal_ops \<Rightarrow> 'd option \<Rightarrow> 'd option \<Rightarrow> 'd option" where
  "add_costs D nodeCost childrenTotalCost = (case (nodeCost, childrenTotalCost) of
       (Some a, Some b) \<Rightarrow> Some (dec_plus D a b)
     | (Some a, None) \<Rightarrow> Some a
     | (None, b) \<Rightarrow> b)"

definition children_depth :: "'d trace_node list \<Rightarrow> nat" where
  "children_depth ts = (if length ts > 0 then foldr (\<lambda>t m. max (n_childrenDepth (label t)) m) ts 0 + 1 else 0)"

definition make_node :: "'d decimal_ops \<Rightarrow> int \<Rightarrow> observation \<Rightarrow> int \<Rightarrow> int option \<Rightarrow>
    'd trace_node list \<Rightarrow> 'd trace_node" where
  "make_node D traceStart o1 d sinceParent childTreeNodes =
     Rose \<lparr>n_id = ob_id o1, n_type = ob_type o1,
       n_name = (case ob_name o1 of None \<Rightarrow> [] | Some s \<Rightarrow> s),
       n_start = ob_start o1, n_end = ob_end o1, n_level = Some (ob_level o1),
       n_inputUsage = ob_inputUsage o1, n_outputUsage = ob_outputUsage o1, n_totalUsage = ob_totalUsage o1,
       n_inputCost = ob_inputCost o1, n_outputCost = ob_outputCost o1, n_calculatedTotal = ob_totalCost o1,
       n_totalCost = add_costs D (own_cost D o1) (sum_costs D childTreeNodes),
       n_latency = None, n_parent = ob_parent o1, n_traceId = ob_traceId o1,
       n_sinceTrace = ob_start o1 - traceStart, n_sinceParent = sinceParent,
       n_depth = d, n_childrenDepth = children_depth childTreeNodes\<rparr> childTreeNodes"

record 'd build_out =
  reg :: "'d registry"
  ui_nodes :: "(string \<times> 'd trace_node) list"
  rootIds :: "string list"

definition built_children :: "'d registry \<Rightarrow> string list \<Rightarrow> 'd trace_node list" where
  "built_children r ids = concat (map (\<lambda>c. case map_of r c of
       None \<Rightarrow> [] | Some n \<Rightarrow> (case treeNode n of None \<Rightarrow> [] | Some t \<Rightarrow> [t])) ids)"

definition build_one :: "'d decimal_ops \<Rightarrow> int \<Rightarrow> 'd registry \<Rightarrow> 'd processing_node \<Rightarrow> 'd trace_node" where
  "build_one D traceStart r n =
     (let o1 = p_obs n;
          sinceParent = (case parent_ref o1 of
              None \<Rightarrow> None
            | Some p \<Rightarrow> map_option (\<lambda>m. ob_start o1 - ob_start (p_obs m)) (map_of r p))
      in make_node D traceStart o1 (p_depth n) sinceParent (built_children r (childrenIds n)))"

text \<open>Finishing a node: its parent's degree goes down and the parent is queued at zero.\<close>

definition finish_node :: "string \<Rightarrow> observation \<Rightarrow> 'd trace_node \<Rightarrow> 'd build_out \<Rightarrow> 'd build_out \<times> string list" where
  "finish_node currentId o1 t st =
     (let r1 = rec_upd currentId (\<lambda>n. n\<lparr>treeNode := Some t\<rparr>) (reg st);
          st1 = st\<lparr>reg := r1, ui_nodes := rec_set currentId t (ui_nodes st)\<rparr>
      in case parent_ref o1 of
           None \<Rightarrow> (st1\<lparr>rootIds := rootIds st @ [currentId]\<rparr>, [])
         | Some p \<Rightarrow>
             (case map_of r1 p of
                None \<Rightarrow> (st1, [])
              | Some m \<Rightarrow> (st1\<lparr>reg := rec_upd p (\<lambda>m. m\<lparr>inDegree := inDegree m - 1\<rparr>) r1\<rparr>,
                           if inDegree m - 1 = 0 then [p] else [])))"

partial_function (option) bottom_up_loop ::
    "'d decimal_ops \<Rightarrow> int \<Rightarrow> 'd build_out \<Rightarrow> string list \<Rightarrow> 'd build_out option" where
  "bottom_up_loop D traceStart st pending = (case pending of
       [] \<Rightarrow> Some st
     | currentId # rest \<Rightarrow>
         (case map_of (reg st) currentId of
            None \<Rightarrow> None
          | Some n \<Rightarrow>
              (case finish_node currentId (p_obs n) (build_one D traceStart (reg st) n) st of
                 (st', pushed) \<Rightarrow> bottom_up_loop D traceStart st' (rest @ pushed))))"

definition buildTreeNodesBottomUp :: "'d decimal_ops \<Rightarrow> 'd registry \<Rightarrow> string list \<Rightarrow> int \<Rightarrow> 'd build_out option" where
  "buildTreeNodesBottomUp D r leafIds traceStart =
     bottom_up_loop D traceStart \<lparr>reg = r, ui_nodes = [], rootIds = []\<rparr> leafIds"

section \<open>The whole tree\<close>

record 'd trace_tree =
  roots :: "'d trace_node list"
  hiddenObservationsCount :: nat
  node_map :: "(string \<times> 'd trace_node) list"

definition trace_wrapper :: "trace \<Rightarrow> 'd option \<Rightarrow> 'd trace_node list \<Rightarrow> 'd trace_node" where
  "trace_wrapper tr cost ts = Rose \<lparr>n_id = ''trace-'' @ tr_id tr, n_type = ''TRACE'',
     n_name = (case tr_name tr of None \<Rightarrow> [] | Some s \<Rightarrow> s), n_start = tr_timestamp tr, n_end = None,
     n_level = None, n_inputUsage = None, n_outputUsage = None, n_totalUsage = None, n_inputCost = None,
     n_outputCost = None, n_calculatedTotal = None, n_totalCost = cost, n_latency = tr_latency tr,
     n_parent = None, n_traceId = None, n_sinceTrace = 0, n_sinceParent = None, n_depth = - 1,
     n_childrenDepth = children_depth ts\<rparr> ts"

definition events_based :: "trace \<Rightarrow> bool" where
  "events_based tr \<longleftrightarrow> (case tr_rootObservationType tr of None \<Rightarrow> False | Some s \<Rightarrow> s \<noteq> [])"

definition buildTraceTree :: "'d decimal_ops \<Rightarrow> trace \<Rightarrow> observation list \<Rightarrow> obs_level option \<Rightarrow> 'd trace_tree option" where
  "buildTraceTree D tr observations minLevel =
     (case filterAndPrepareObservations observations minLevel of (sortedObservations, hidden) \<Rightarrow>
      if length sortedObservations = 0 then
        (if events_based tr then Some \<lparr>roots = [], hiddenObservationsCount = hidden, node_map = []\<rparr>
         else (let emptyTree = trace_wrapper tr None []
               in Some \<lparr>roots = [emptyTree], hiddenObservationsCount = hidden,
                        node_map = [(n_id (label emptyTree), emptyTree)]\<rparr>))
      else
        (case buildDependencyGraph sortedObservations of None \<Rightarrow> None
         | Some (r, leafIds) \<Rightarrow>
        (case buildTreeNodesBottomUp D r leafIds (tr_timestamp tr) of None \<Rightarrow> None
         | Some st \<Rightarrow>
           (let rootTreeNodes = sort_key (n_start \<circ> label) (built_children (reg st) (rootIds st))
            in if events_based tr
               then Some \<lparr>roots = rootTreeNodes, hiddenObservationsCount = hidden, node_map = ui_nodes st\<rparr>
               else (let traceNode = trace_wrapper tr (sum_costs D rootTreeNodes) rootTreeNodes
                     in Some \<lparr>roots = [traceNode], hiddenObservationsCount = hidden,
                              node_map = rec_set (n_id (label traceNode)) traceNode (ui_nodes st)\<rparr>)))))"

record 'd search_item =
  item_node :: "'d trace_node"
  parentTotalCost :: "'d option"
  parentTotalDuration :: "rat option"
  observationId :: "string option"

definition node_duration :: "'d trace_node \<Rightarrow> rat" where
  "node_duration t = (case n_latency (label t) of
       Some l \<Rightarrow> if l \<noteq> 0 then l * 1000
         else (case n_end (label t) of Some e \<Rightarrow> of_int (e - n_start (label t)) | None \<Rightarrow> 0)
     | None \<Rightarrow> (case n_end (label t) of Some e \<Rightarrow> of_int (e - n_start (label t)) | None \<Rightarrow> 0))"

definition search_body :: "'d option \<Rightarrow> rat option \<Rightarrow> 'd search_item list \<Rightarrow> 'd trace_node \<Rightarrow>
    'd search_item list \<times> 'd trace_node list" where
  "search_body cost dur items node =
     (items @ [\<lparr>item_node = node, parentTotalCost = cost, parentTotalDuration = dur,
        observationId = (if n_type (label node) = ''TRACE'' then None else Some (n_id (label node)))\<rparr>],
      subs node)"

definition buildTraceUiData :: "'d decimal_ops \<Rightarrow> trace \<Rightarrow> observation list \<Rightarrow> obs_level option \<Rightarrow>
    ('d trace_tree \<times> 'd search_item list) option" where
  "buildTraceUiData D tr observations minLevel =
     (case buildTraceTree D tr observations minLevel of
        None \<Rightarrow> None
      | Some T \<Rightarrow>
          if length (roots T) = 0 then Some (T, [])
          else (let rootTotalCost = sum_costs D (roots T);
                    durations = map node_duration (roots T);
                    rootDuration = Some (fold max (tl durations) (hd durations))
                in map_option (\<lambda>items. (T, items))
                     (stack_loop (search_body rootTotalCost rootDuration) [] (roots T))))"

end
