(* ===== verification/Trace_Build.thy ===== *)
theory Trace_Build imports Trace_Tree begin

text \<open>
  Correctness of the bottom-up construction of \<^verbatim>\<open>trace2/lib/tree-building.ts\<close>. \<open>hierarchy obs fs\<close>
  says that the parent links of the observations form the forest \<open>fs\<close>; \<open>spec_node\<close> is the node the
  documentation describes, by recursion over that forest. The queue loops compute exactly it.
\<close>

section \<open>Hierarchies\<close>

definition kids :: "observation list \<Rightarrow> string \<Rightarrow> observation list" where
  "kids obs p = filter (\<lambda>c. parent_ref c = Some p) obs"

primrec kids_ok :: "observation list \<Rightarrow> observation rose \<Rightarrow> bool" where
  "kids_ok obs (Rose x ts) \<longleftrightarrow> map label ts = kids obs (ob_id x) \<and> list_all (kids_ok obs) ts"

definition hierarchy :: "observation list \<Rightarrow> observation rose list \<Rightarrow> bool" where
  "hierarchy obs fs \<longleftrightarrow> distinct (map ob_id obs) \<and> mset (forest_preorder fs) = mset obs \<and>
     map label fs = filter (\<lambda>x. parent_ref x = None) obs \<and> (\<forall>t \<in> set fs. kids_ok obs t)"

fun spec_node :: "'d decimal_ops \<Rightarrow> int \<Rightarrow> observation rose \<Rightarrow> int \<Rightarrow> int option \<Rightarrow> 'd trace_node" where
  "spec_node D s (Rose x us) d sp =
     make_node D s x d sp (map (\<lambda>u. spec_node D s u (d + 1) (Some (ob_start (label u) - ob_start x))) us)"

section \<open>The registry as a table over the observations\<close>

definition tab :: "observation list \<Rightarrow> (observation \<Rightarrow> 'd processing_node) \<Rightarrow> 'd registry" where
  "tab obs f = map (\<lambda>x. (ob_id x, f x)) obs"

lemma rec_upd_tab: "rec_upd k g (tab obs f) = tab obs (\<lambda>x. if ob_id x = k then g (f x) else f x)"
  by (simp add: rec_upd_def tab_def)

definition obs_of :: "observation list \<Rightarrow> string \<Rightarrow> observation option" where
  "obs_of obs k = map_of (map (\<lambda>x. (ob_id x, x)) obs) k"

lemma map_of_tab_obs: "map_of (tab obs f) k = map_option f (obs_of obs k)"
  by (induction obs) (auto simp: tab_def obs_of_def)

lemma obs_of_Some: "obs_of obs k = Some x \<Longrightarrow> x \<in> set obs \<and> ob_id x = k"
  by (auto simp: obs_of_def dest!: map_of_SomeD)

lemma obs_of_id: "distinct (map ob_id obs) \<Longrightarrow> x \<in> set obs \<Longrightarrow> obs_of obs (ob_id x) = Some x"
  unfolding obs_of_def by (rule map_of_is_SomeI) (simp_all add: o_def)

lemma map_of_tab:
  "distinct (map ob_id obs) \<Longrightarrow> x \<in> set obs \<Longrightarrow> map_of (tab obs f) (ob_id x) = Some (f x)"
  by (simp add: map_of_tab_obs obs_of_id)

lemma tab_cong: "(\<And>x. x \<in> set obs \<Longrightarrow> f x = g x) \<Longrightarrow> tab obs f = tab obs g"
  by (simp add: tab_def)

lemma map_tab: "map (\<lambda>(k, n). (k, h n)) (tab obs f) = tab obs (\<lambda>x. h (f x))"
  by (simp add: tab_def)

lemma rec_set_fresh: "k \<notin> fst ` set r \<Longrightarrow> rec_set k v r = r @ [(k, v)]"
  by (induction k v r rule: rec_set.induct) auto

lemma register_all_tab: "distinct (map ob_id obs) \<Longrightarrow> register_all obs = (tab obs new_processing :: 'd registry)"
proof -
  have "distinct (map ob_id (xs @ obs)) \<Longrightarrow>
      fold (\<lambda>x r. rec_set (ob_id x) (new_processing x) r) obs (tab xs new_processing :: 'd registry) = tab (xs @ obs) new_processing" for xs
  proof (induction obs arbitrary: xs)
    case Nil
    then show ?case by simp
  next
    case (Cons x obs)
    then have "ob_id x \<notin> fst ` set (tab xs new_processing :: 'd registry)" by (auto simp: tab_def)
    then have "rec_set (ob_id x) (new_processing x) (tab xs new_processing :: 'd registry) = tab (xs @ [x]) new_processing"
      using rec_set_fresh [of "ob_id x" "tab xs new_processing" "new_processing x"] by (simp add: tab_def)
    with Cons.IH [of "xs @ [x]"] Cons.prems show ?case by simp
  qed
  from this [of "[]"] show "distinct (map ob_id obs) \<Longrightarrow> ?thesis" by (simp add: register_all_def tab_def)
qed

lemma link_children_tab:
  "link_children xs (tab obs f) = tab obs (\<lambda>x. (f x)\<lparr>childrenIds := childrenIds (f x) @ map ob_id (kids xs (ob_id x))\<rparr>)"
proof -
  have "fold (\<lambda>y r. case parent_ref y of None \<Rightarrow> r
       | Some p \<Rightarrow> rec_upd p (\<lambda>n. n\<lparr>childrenIds := childrenIds n @ [ob_id y]\<rparr>) r) xs (tab obs f) =
     tab obs (\<lambda>x. (f x)\<lparr>childrenIds := childrenIds (f x) @ map ob_id (kids xs (ob_id x))\<rparr>)" for f
  proof (induction xs arbitrary: f)
    case Nil
    then show ?case by (simp add: kids_def)
  next
    case (Cons y xs)
    show ?case
    proof (cases "parent_ref y")
      case None
      with Cons show ?thesis by (simp add: kids_def)
    next
      case (Some p)
      have "(\<lambda>x. ((if ob_id x = p then (f x)\<lparr>childrenIds := childrenIds (f x) @ [ob_id y]\<rparr> else f x)
            \<lparr>childrenIds := childrenIds (if ob_id x = p then (f x)\<lparr>childrenIds := childrenIds (f x) @ [ob_id y]\<rparr> else f x)
               @ map ob_id (kids xs (ob_id x))\<rparr>)) =
          (\<lambda>x. (f x)\<lparr>childrenIds := childrenIds (f x) @ map ob_id (kids (y # xs) (ob_id x))\<rparr>)"
        using Some by (auto simp: fun_eq_iff kids_def)
      with Some Cons [of "\<lambda>x. if ob_id x = p then (f x)\<lparr>childrenIds := childrenIds (f x) @ [ob_id y]\<rparr> else f x"]
      show ?thesis by (simp add: rec_upd_tab)
    qed
  qed
  then show ?thesis by (simp add: link_children_def)
qed

section \<open>Depths\<close>

primrec depth_ok :: "(observation \<Rightarrow> int) \<Rightarrow> observation rose \<Rightarrow> bool" where
  "depth_ok d (Rose x ts) \<longleftrightarrow> (\<forall>u \<in> set (map label ts). d u = d x + 1) \<and> list_all (depth_ok d) ts"

definition below :: "observation rose list \<Rightarrow> observation set" where
  "below ts = set (concat (map (tl \<circ> preorder) ts))"

lemma depth_ok_cong: "(\<And>x. x \<in> set (preorder t) \<Longrightarrow> d' x = d x) \<Longrightarrow> depth_ok d' t = depth_ok d t"
proof (induction t)
  case (Rose x ts)
  have "depth_ok d' u = depth_ok d u" if "u \<in> set ts" for u
    by (rule Rose.IH [OF that]) (use Rose.prems that in auto)
  moreover have "d' (label u) = d (label u)" if "u \<in> set ts" for u
  proof (rule Rose.prems)
    show "label u \<in> set (preorder (Rose x ts))" using that label_in_preorder [of u] by (auto simp del: label_in_preorder)
  qed
  ultimately show ?case using Rose.prems by (auto simp: list_all_iff)
qed

lemma fold_depth_tab:
  "fold (\<lambda>c r. rec_upd c (\<lambda>m. m\<lparr>p_depth := e\<rparr>) r) cs (tab obs f) =
   tab obs (\<lambda>x. if ob_id x \<in> set cs then (f x)\<lparr>p_depth := e\<rparr> else f x)"
  by (induction cs arbitrary: f) (auto simp: rec_upd_tab intro!: tab_cong)

definition static_entry :: "observation list \<Rightarrow> (observation \<Rightarrow> 'd processing_node) \<Rightarrow> bool" where
  "static_entry obs f \<longleftrightarrow> (\<forall>x \<in> set obs. p_obs (f x) = x \<and> childrenIds (f x) = map ob_id (kids obs (ob_id x)))"

lemma depth_loop_forest:
  fixes f :: "observation \<Rightarrow> 'd processing_node"
  assumes "distinct (map ob_id obs)"
  shows "\<forall>t \<in> set ts. kids_ok obs t \<Longrightarrow> set (forest_preorder ts) \<subseteq> set obs \<Longrightarrow> distinct (forest_preorder ts) \<Longrightarrow>
    static_entry obs f \<Longrightarrow>
    \<exists>f'. depth_loop (tab obs f) (map (ob_id \<circ> label) ts) = Some (tab obs f') \<and>
      (\<forall>x. f' x = (f x)\<lparr>p_depth := p_depth (f' x)\<rparr>) \<and> (\<forall>t \<in> set ts. depth_ok (p_depth \<circ> f') t) \<and>
      (\<forall>x \<in> set obs. x \<notin> below ts \<longrightarrow> f' x = f x)"
proof (induction "size_list size ts" arbitrary: ts f rule: less_induct)
  case less
  show ?case
  proof (cases ts)
    case Nil
    then show ?thesis by (intro exI [of _ f]) (simp add: depth_loop.simps)
  next
    case (Cons t ts')
    obtain x us where t: "t = Rose x us" by (cases t)
    have x: "x \<in> set obs" using less.prems(2) Cons t by simp
    have lab: "map label us = kids obs (ob_id x)" using less.prems(1) Cons t by simp
    have ch: "childrenIds (f x) = map (ob_id \<circ> label) us"
      using less.prems(4) x lab by (simp add: static_entry_def) (metis map_map)
    define e where "e = p_depth (f x) + 1"
    define f1 where "f1 = (\<lambda>y. if ob_id y \<in> set (childrenIds (f x)) then (f y)\<lparr>p_depth := e\<rparr> else f y)"
    have step: "depth_loop (tab obs f) (map (ob_id \<circ> label) ts) = depth_loop (tab obs f1) (map (ob_id \<circ> label) (ts' @ us))"
    proof -
      have "fold (\<lambda>c r. rec_upd c (\<lambda>m. m\<lparr>p_depth := p_depth (f x) + 1\<rparr>) r) (childrenIds (f x)) (tab obs f) = tab obs f1"
        unfolding f1_def e_def by (rule fold_depth_tab)
      then show ?thesis
        using map_of_tab [OF assms x, of f] by (subst depth_loop.simps) (simp add: Cons t ch)
    qed
    have sub: "set (forest_preorder us) \<subseteq> set obs" "x \<notin> set (forest_preorder us)"
        "set (forest_preorder us) \<inter> set (forest_preorder ts') = {}" "x \<notin> set (forest_preorder ts')"
      using less.prems(2,3) Cons t by auto
    have in_us: "y \<in> set (map label us)" if cy: "ob_id y \<in> set (childrenIds (f x))" "y \<in> set obs" for y
    proof -
      obtain u where u: "u \<in> set us" "ob_id y = ob_id (label u)" using cy ch by auto
      have "label u \<in> set obs" using sub(1) u(1) label_in_preorder [of u] by fastforce
      then have "y = label u" using assms u(2) cy(2) by (auto simp: distinct_map inj_on_def)
      with u(1) show ?thesis by simp
    qed
    obtain f' where f': "depth_loop (tab obs f1) (map (ob_id \<circ> label) (ts' @ us)) = Some (tab obs f')"
      "\<forall>x. f' x = (f1 x)\<lparr>p_depth := p_depth (f' x)\<rparr>" "\<forall>t \<in> set (ts' @ us). depth_ok (p_depth \<circ> f') t"
      "\<forall>x \<in> set obs. x \<notin> below (ts' @ us) \<longrightarrow> f' x = f1 x"
    proof -
      have "\<exists>f'. depth_loop (tab obs f1) (map (ob_id \<circ> label) (ts' @ us)) = Some (tab obs f') \<and>
        (\<forall>x. f' x = (f1 x)\<lparr>p_depth := p_depth (f' x)\<rparr>) \<and> (\<forall>t \<in> set (ts' @ us). depth_ok (p_depth \<circ> f') t) \<and>
        (\<forall>x \<in> set obs. x \<notin> below (ts' @ us) \<longrightarrow> f' x = f1 x)"
      proof (rule less.hyps)
        show "size_list size (ts' @ us) < size_list size ts" by (simp add: Cons t)
        show "\<forall>t \<in> set (ts' @ us). kids_ok obs t" using less.prems(1) Cons t by (auto simp: list_all_iff)
        show "set (forest_preorder (ts' @ us)) \<subseteq> set obs" using less.prems(2) Cons t by auto
        show "distinct (forest_preorder (ts' @ us))" using less.prems(3) Cons t by auto
        show "static_entry obs f1" using less.prems(4) by (simp add: static_entry_def f1_def)
      qed
      then show ?thesis using that by blast
    qed
    have notbelow: "y \<notin> below (ts' @ us)" if yl: "y = x \<or> y \<in> set (map label us)" for y
    proof -
      have tl: "set (tl (preorder v)) \<subseteq> set (preorder v)" for v :: "observation rose"
        by (cases v) auto
      show ?thesis
      proof (cases "y = x")
        case True
        with sub tl show ?thesis unfolding below_def by fastforce
      next
        case False
        then obtain u where u: "u \<in> set us" "y = label u" using yl by auto
        have "y \<notin> set (tl (preorder v))" if v: "v \<in> set us" for v
        proof
          assume y: "y \<in> set (tl (preorder v))"
          have du: "distinct (forest_preorder us)" using less.prems(3) Cons t by auto
          have "v = u" using forest_owner_unique [OF du v u(1)] y tl u(2) label_in_preorder [of u] by blast
          moreover have "distinct (preorder u)" using forest_distinct_sub [OF du u(1)] .
          ultimately show False using y u(2) by (cases u) auto
        qed
        moreover have "y \<notin> set (tl (preorder v))" if "v \<in> set ts'" for v
        proof -
          have "y \<in> set (forest_preorder us)" using u label_in_preorder [of u] by (auto simp del: label_in_preorder)
          with sub(3) tl that show ?thesis by fastforce
        qed
        ultimately show ?thesis by (auto simp: below_def)
      qed
    qed
    have lab_obs: "y \<in> set obs" if "y = x \<or> y \<in> set (map label us)" for y
      using that x lab by (auto simp: kids_def)
    have keep: "f' y = f1 y" if "y = x \<or> y \<in> set (map label us)" for y
      using f'(4) notbelow [OF that] lab_obs [OF that] by blast
    have "f' x = f x"
    proof -
      have "ob_id x \<notin> set (childrenIds (f x))"
      proof
        assume "ob_id x \<in> set (childrenIds (f x))"
        from in_us [OF this x] obtain u where "u \<in> set us" "x = label u" by auto
        with sub(2) label_in_preorder [of u] show False by auto
      qed
      with keep [of x] show ?thesis by (simp add: f1_def)
    qed
    moreover have "p_depth (f' y) = e" if "y \<in> set (map label us)" for y
    proof -
      have "ob_id y \<in> set (childrenIds (f x))" using that ch by auto
      with keep [of y] that show ?thesis by (simp add: f1_def)
    qed
    ultimately have "depth_ok (p_depth \<circ> f') t"
      using f'(3) by (auto simp: t e_def list_all_iff)
    moreover have "f' y = (f y)\<lparr>p_depth := p_depth (f' y)\<rparr>" for y
      using f'(2) by (metis (no_types, lifting) f1_def processing_node.surjective processing_node.update_convs(4))
    moreover have "f' y = f y" if y: "y \<in> set obs" "y \<notin> below ts" for y
    proof -
      have "set (tl (preorder v)) \<subseteq> set (preorder v)" for v :: "observation rose" by (cases v) auto
      then have nb: "y \<notin> below (ts' @ us)" "y \<notin> set (map label us)"
        using y(2) label_in_preorder by (fastforce simp: below_def Cons t)+
      then have "ob_id y \<notin> set (childrenIds (f x))" using in_us [OF _ y(1)] by blast
      with f'(4) y(1) nb(1) show ?thesis by (simp add: f1_def)
    qed
    ultimately show ?thesis
      using step f'(1,3) by (intro exI [of _ f']) (auto simp: Cons)
  qed
qed

section \<open>Trees of a hierarchy\<close>

lemma hierarchy_ids: "hierarchy obs fs \<Longrightarrow> distinct (map ob_id obs)"
  by (simp add: hierarchy_def)

lemma hierarchy_set: "hierarchy obs fs \<Longrightarrow> set (forest_preorder fs) = set obs"
  by (metis hierarchy_def set_mset_mset)

lemma kids_distinct: "distinct (map ob_id obs) \<Longrightarrow> distinct (kids obs k)"
  by (simp add: kids_def distinct_map)

lemma kids_parent: "c \<in> set (kids obs k) \<longleftrightarrow> c \<in> set obs \<and> parent_ref c = Some k"
  by (auto simp: kids_def)

lemma kids_ok_subtree:
  "kids_ok obs t \<Longrightarrow> x \<in> set (preorder t) \<Longrightarrow> \<exists>u. kids_ok obs u \<and> label u = x \<and> set (preorder u) \<subseteq> set (preorder t)"
proof (induction t)
  case (Rose a ts)
  show ?case
  proof (cases "x = a")
    case True
    with Rose.prems show ?thesis by (intro exI [of _ "Rose a ts"]) simp
  next
    case False
    then obtain v where "v \<in> set ts" "x \<in> set (preorder v)" using Rose.prems by auto
    with Rose show ?thesis by (fastforce simp: list_all_iff)
  qed
qed

lemma kids_ok_unique: "kids_ok obs t \<Longrightarrow> kids_ok obs u \<Longrightarrow> label t = label u \<Longrightarrow> t = u"
proof (induction t arbitrary: u)
  case (Rose a ts)
  obtain us where u: "u = Rose a us" using Rose.prems by (cases u) auto
  have m: "map label ts = map label us" using Rose.prems u by simp
  have "ts ! i = us ! i" if "i < length ts" for i
  proof (rule Rose.IH)
    show "ts ! i \<in> set ts" using that by simp
    show "kids_ok obs (ts ! i)" "kids_ok obs (us ! i)"
      using Rose.prems u that map_eq_imp_length_eq [OF m] by (auto simp: list_all_length)
    show "label (ts ! i) = label (us ! i)"
      using m that map_eq_imp_length_eq [OF m] by (metis nth_map)
  qed
  with map_eq_imp_length_eq [OF m] show ?case by (simp add: u nth_equalityI)
qed

lemma depth_ok_sub:
  "depth_ok d t \<Longrightarrow> kids_ok obs t \<Longrightarrow> x \<in> set (preorder t) \<Longrightarrow> c \<in> set (kids obs (ob_id x)) \<Longrightarrow> d c = d x + 1"
proof (induction t)
  case (Rose a ts)
  show ?case
  proof (cases "x = a")
    case True
    then have "c \<in> label ` set ts" using Rose.prems by (metis kids_ok.simps list.set_map)
    with Rose.prems True show ?thesis by auto
  next
    case False
    then obtain v where "v \<in> set ts" "x \<in> set (preorder v)" using Rose.prems by auto
    with Rose show ?thesis by (auto simp: list_all_iff)
  qed
qed

lemma hierarchy_tree:
  assumes "hierarchy obs fs" "x \<in> set obs"
  obtains t where "kids_ok obs t" "label t = x" "set (preorder t) \<subseteq> set obs"
proof -
  obtain t0 where "t0 \<in> set fs" "x \<in> set (preorder t0)" using hierarchy_set [OF assms(1)] assms(2) by auto
  then show ?thesis
    using kids_ok_subtree [of obs t0 x] assms(1) hierarchy_set [OF assms(1)] that
    by (fastforce simp: hierarchy_def)
qed

lemma kids_ok_parent:
  "kids_ok obs t \<Longrightarrow> x \<in> set (preorder t) \<Longrightarrow> x = label t \<or> (\<exists>y \<in> set (preorder t). x \<in> set (kids obs (ob_id y)))"
proof (induction t)
  case (Rose a ts)
  show ?case
  proof (cases "x = a")
    case False
    then obtain v where v: "v \<in> set ts" "x \<in> set (preorder v)" using Rose.prems by auto
    with Rose have "x = label v \<or> (\<exists>y \<in> set (preorder v). x \<in> set (kids obs (ob_id y)))"
      by (simp add: list_all_iff)
    then show ?thesis
    proof
      assume "x = label v"
      then have "x \<in> set (map label ts)" using v by simp
      then have "x \<in> set (kids obs (ob_id a))" using Rose.prems by (metis kids_ok.simps)
      then show ?thesis by auto
    qed (use v in auto)
  qed simp
qed

lemma hierarchy_parent:
  assumes "hierarchy obs fs" "x \<in> set obs" "parent_ref x = Some p"
  obtains y where "y \<in> set obs" "ob_id y = p" "obs_of obs p = Some y"
proof -
  obtain t0 where t0: "t0 \<in> set fs" "x \<in> set (preorder t0)"
    using hierarchy_set [OF assms(1)] assms(2) by auto
  have "label t0 \<in> set (filter (\<lambda>x. parent_ref x = None) obs)"
    using assms(1) t0(1) by (metis hierarchy_def image_eqI list.set_map)
  then have "x \<noteq> label t0" using assms(3) by auto
  moreover have "kids_ok obs t0" using assms(1) t0(1) by (simp add: hierarchy_def)
  ultimately obtain y where "y \<in> set (preorder t0)" "x \<in> set (kids obs (ob_id y))"
    using kids_ok_parent t0(2) by blast
  moreover from this have "y \<in> set obs" using t0(1) hierarchy_set [OF assms(1)] by auto
  ultimately show ?thesis
    using that [of y] assms(3) obs_of_id [OF hierarchy_ids [OF assms(1)], of y] by (simp add: kids_parent)
qed

section \<open>The graph\<close>

definition since_parent :: "observation list \<Rightarrow> observation \<Rightarrow> int option" where
  "since_parent obs x = (case parent_ref x of None \<Rightarrow> None
     | Some p \<Rightarrow> map_option (\<lambda>y. ob_start x - ob_start y) (obs_of obs p))"

text \<open>The entry of an observation when the nodes of \<open>B\<close> are built, \<open>N\<close> being the finished nodes.\<close>

definition entry :: "observation list \<Rightarrow> (observation \<Rightarrow> int) \<Rightarrow> (observation \<Rightarrow> 'd trace_node) \<Rightarrow>
    observation set \<Rightarrow> observation \<Rightarrow> 'd processing_node" where
  "entry obs dep N B x = \<lparr>p_obs = x, childrenIds = map ob_id (kids obs (ob_id x)),
     inDegree = int (length (filter (\<lambda>c. c \<notin> B) (kids obs (ob_id x)))),
     p_depth = dep x, treeNode = (if x \<in> B then Some (N x) else None)\<rparr>"

definition depths_of :: "observation list \<Rightarrow> (observation \<Rightarrow> int) \<Rightarrow> bool" where
  "depths_of obs dep \<longleftrightarrow> (\<forall>x \<in> set obs. parent_ref x = None \<longrightarrow> dep x = 0) \<and>
     (\<forall>x \<in> set obs. \<forall>c \<in> set (kids obs (ob_id x)). dep c = dep x + 1)"

lemma forest_depths:
  assumes "hierarchy obs fs" "\<forall>t \<in> set fs. depth_ok dep t" "\<forall>t \<in> set fs. dep (label t) = 0"
  shows "depths_of obs dep"
proof -
  have "dep x = 0" if "x \<in> set obs" "parent_ref x = None" for x
  proof -
    have "x \<in> set (map label fs)" using that assms(1) by (simp add: hierarchy_def)
    with assms(3) show ?thesis by auto
  qed
  moreover have "dep c = dep x + 1" if x: "x \<in> set obs" "c \<in> set (kids obs (ob_id x))" for x c
  proof -
    obtain t0 where "t0 \<in> set fs" "x \<in> set (preorder t0)"
      using hierarchy_set [OF assms(1)] x(1) by auto
    with assms x(2) show ?thesis by (auto simp: hierarchy_def intro: depth_ok_sub)
  qed
  ultimately show ?thesis by (simp add: depths_of_def)
qed

lemma roots_not_below:
  assumes "hierarchy obs fs" "x \<in> set (map label fs)"
  shows "x \<notin> below fs"
proof
  assume "x \<in> below fs"
  then obtain t where t: "t \<in> set fs" "x \<in> set (tl (preorder t))" by (auto simp: below_def)
  have d: "distinct (forest_preorder fs)"
    using assms(1) by (metis hierarchy_def distinct_map mset_eq_imp_distinct_iff)
  obtain u where u: "u \<in> set fs" "x = label u" using assms(2) by auto
  have "set (tl (preorder t)) \<subseteq> set (preorder t)" by (cases t) auto
  then have "t = u" using forest_owner_unique [OF d t(1) u(1)] t(2) u(2) label_in_preorder [of u] by blast
  with forest_distinct_sub [OF d u(1)] t(2) u(2) show False by (cases u) auto
qed

lemma graph_of_hierarchy:
  assumes "hierarchy obs fs"
  shows "\<exists>dep. depths_of obs dep \<and> (\<forall>N :: observation \<Rightarrow> 'd trace_node.
    buildDependencyGraph obs =
      Some (tab obs (entry obs dep N {}), map ob_id (filter (\<lambda>x. kids obs (ob_id x) = []) obs)))"
proof -
  have ids: "distinct (map ob_id obs)" using hierarchy_ids [OF assms] .
  define f :: "observation \<Rightarrow> 'd processing_node"
    where "f = (\<lambda>x. (new_processing x)\<lparr>childrenIds := map ob_id (kids obs (ob_id x))\<rparr>)"
  have linked: "link_children obs (register_all obs) = tab obs f"
    by (simp add: register_all_tab [OF ids] link_children_tab f_def new_processing_def)
  have cleared: "clear_root_depths (tab obs f) = tab obs f"
    by (auto simp: clear_root_depths_def tab_def f_def new_processing_def)
  have starts: "root_entries (tab obs f) = map (ob_id \<circ> label) fs"
  proof -
    have "root_entries (tab obs f) = map ob_id (filter (\<lambda>x. parent_ref x = None) obs)"
      by (simp add: root_entries_def tab_def f_def new_processing_def filter_map o_def)
    also have "\<dots> = map ob_id (map label fs)" using assms by (simp add: hierarchy_def)
    finally show ?thesis by simp
  qed
  have "\<exists>f'. depth_loop (tab obs f) (map (ob_id \<circ> label) fs) = Some (tab obs f') \<and>
      (\<forall>x. f' x = (f x)\<lparr>p_depth := p_depth (f' x)\<rparr>) \<and> (\<forall>t \<in> set fs. depth_ok (p_depth \<circ> f') t) \<and>
      (\<forall>x \<in> set obs. x \<notin> below fs \<longrightarrow> f' x = f x)"
  proof (rule depth_loop_forest [OF ids])
    show "\<forall>t \<in> set fs. kids_ok obs t" using assms by (simp add: hierarchy_def)
    show "set (forest_preorder fs) \<subseteq> set obs" using hierarchy_set [OF assms] by simp
    show "distinct (forest_preorder fs)"
      using assms by (metis hierarchy_def distinct_map mset_eq_imp_distinct_iff)
    show "static_entry obs f" by (simp add: static_entry_def f_def new_processing_def)
  qed
  then obtain f' where f': "depth_loop (tab obs f) (map (ob_id \<circ> label) fs) = Some (tab obs f')"
    "\<forall>x. f' x = (f x)\<lparr>p_depth := p_depth (f' x)\<rparr>" "\<forall>t \<in> set fs. depth_ok (p_depth \<circ> f') t"
    "\<forall>x \<in> set obs. x \<notin> below fs \<longrightarrow> f' x = f x" by blast
  have "depths_of obs (p_depth \<circ> f')"
  proof (rule forest_depths [OF assms f'(3)], rule ballI)
    fix t assume t: "t \<in> set fs"
    then have "label t \<in> set obs" using hierarchy_set [OF assms] label_in_preorder [of t] by (auto simp del: label_in_preorder)
    with f'(4) roots_not_below [OF assms] t have "f' (label t) = f (label t)" by simp
    then show "(p_depth \<circ> f') (label t) = 0" by (simp add: f_def new_processing_def)
  qed
  moreover have "buildDependencyGraph obs =
      Some (tab obs (entry obs (p_depth \<circ> f') N {}), map ob_id (filter (\<lambda>x. kids obs (ob_id x) = []) obs))"
    for N :: "observation \<Rightarrow> 'd trace_node"
  proof -
    have c: "childrenIds (f' x) = map ob_id (kids obs (ob_id x))" for x
      using arg_cong [OF spec [OF f'(2), of x], of childrenIds] by (simp add: f_def)
    moreover have "p_obs (f' x) = x" "treeNode (f' x) = None" for x
      using arg_cong [OF spec [OF f'(2), of x], of p_obs] arg_cong [OF spec [OF f'(2), of x], of treeNode]
      by (simp_all add: f_def new_processing_def)
    ultimately have e: "(f' x)\<lparr>inDegree := int (length (childrenIds (f' x)))\<rparr> = entry obs (p_depth \<circ> f') N {} x" for x
      by (intro processing_node.equality) (simp_all add: entry_def)
    have "leaf_entries (tab obs f') = map ob_id (filter (\<lambda>x. kids obs (ob_id x) = []) obs)"
      by (simp add: leaf_entries_def tab_def c filter_map o_def)
    then show ?thesis
      by (simp add: buildDependencyGraph_def linked cleared starts f'(1) set_degrees_def map_tab e)
  qed
  ultimately show ?thesis by blast
qed

section \<open>The bottom-up loop\<close>

text \<open>\<open>N x\<close> is the node of \<open>x\<close>, given the nodes of its children.\<close>

definition nodes_of :: "'d decimal_ops \<Rightarrow> int \<Rightarrow> observation list \<Rightarrow> (observation \<Rightarrow> int) \<Rightarrow>
    (observation \<Rightarrow> 'd trace_node) \<Rightarrow> bool" where
  "nodes_of D s obs dep N \<longleftrightarrow> (\<forall>x \<in> set obs.
     N x = make_node D s x (dep x) (since_parent obs x) (map N (kids obs (ob_id x))))"

definition ready :: "observation list \<Rightarrow> observation set \<Rightarrow> observation set" where
  "ready obs B = {x \<in> set obs. x \<notin> B \<and> set (kids obs (ob_id x)) \<subseteq> B}"

definition kahn_inv :: "observation list \<Rightarrow> (observation \<Rightarrow> int) \<Rightarrow> (observation \<Rightarrow> 'd trace_node) \<Rightarrow>
    observation set \<Rightarrow> 'd build_out \<Rightarrow> string list \<Rightarrow> bool" where
  "kahn_inv obs dep N B st q \<longleftrightarrow> B \<subseteq> set obs \<and> reg st = tab obs (entry obs dep N B) \<and>
     (\<forall>x \<in> B. set (kids obs (ob_id x)) \<subseteq> B) \<and>
     distinct q \<and> set q = ob_id ` ready obs B \<and>
     (\<forall>x \<in> set obs. map_of (ui_nodes st) (ob_id x) = (if x \<in> B then Some (N x) else None)) \<and>
     fst ` set (ui_nodes st) \<subseteq> ob_id ` set obs \<and>
     distinct (rootIds st) \<and> set (rootIds st) = ob_id ` {x \<in> B. parent_ref x = None}"

lemma ob_id_inj: "distinct (map ob_id obs) \<Longrightarrow> x \<in> set obs \<Longrightarrow> y \<in> set obs \<Longrightarrow> ob_id x = ob_id y \<Longrightarrow> x = y"
  by (auto simp: distinct_map inj_on_def)

lemma ob_id_image: "distinct (map ob_id obs) \<Longrightarrow> x \<in> set obs \<Longrightarrow> A \<subseteq> set obs \<Longrightarrow> ob_id x \<in> ob_id ` A \<longleftrightarrow> x \<in> A"
  by (auto dest: ob_id_inj)

lemma concat_some: "(\<And>x. x \<in> set xs \<Longrightarrow> f x = [g x]) \<Longrightarrow> concat (map f xs) = map g xs"
  by (induction xs) auto

lemma built_children_built:
  assumes "distinct (map ob_id obs)" "set xs \<subseteq> set obs" "set xs \<subseteq> B"
  shows "built_children (tab obs (entry obs dep N B)) (map ob_id xs) = map N xs"
proof -
  have "(case map_of (tab obs (entry obs dep N B)) (ob_id x) of None \<Rightarrow> []
      | Some n \<Rightarrow> (case treeNode n of None \<Rightarrow> [] | Some t \<Rightarrow> [t])) = [N x]" if "x \<in> set xs" for x
  proof -
    have "x \<in> set obs" "x \<in> B" using assms that by auto
    then show ?thesis using map_of_tab [OF assms(1), of x "entry obs dep N B"] by (simp add: entry_def)
  qed
  then show ?thesis using assms by (simp add: built_children_def o_def concat_some)
qed

lemma build_one_ready:
  assumes "distinct (map ob_id obs)" "nodes_of D s obs dep N" "x \<in> ready obs B"
  shows "build_one D s (tab obs (entry obs dep N B)) (entry obs dep N B x) = N x"
proof -
  have x: "x \<in> set obs" "set (kids obs (ob_id x)) \<subseteq> B" using assms(3) by (auto simp: ready_def)
  have "built_children (tab obs (entry obs dep N B)) (map ob_id (kids obs (ob_id x))) = map N (kids obs (ob_id x))"
    by (rule built_children_built [OF assms(1)]) (use x in \<open>auto simp: kids_def\<close>)
  moreover have "(case parent_ref x of None \<Rightarrow> None
      | Some p \<Rightarrow> map_option (\<lambda>m. ob_start x - ob_start (p_obs m)) (map_of (tab obs (entry obs dep N B)) p)) =
      since_parent obs x"
    by (simp add: since_parent_def map_of_tab_obs option.map_comp o_def entry_def split: option.split)
  ultimately show ?thesis
    using assms(2) x(1) by (simp add: build_one_def entry_def Let_def nodes_of_def)
qed

lemma rec_set_map_of: "map_of (rec_set k v r) k' = (if k' = k then Some v else map_of r k')"
  by (induction k v r rule: rec_set.induct) auto

lemma rec_set_keys: "fst ` set (rec_set k v r) = insert k (fst ` set r)"
  by (induction k v r rule: rec_set.induct) auto

text \<open>Marking one node as built lowers its parent's degree only.\<close>

lemma unbuilt_kids:
  assumes "distinct (map ob_id obs)" "x \<in> set obs" "x \<notin> B"
  shows "int (length (filter (\<lambda>c. c \<notin> insert x B) (kids obs k))) =
    int (length (filter (\<lambda>c. c \<notin> B) (kids obs k))) - (if parent_ref x = Some k then 1 else 0)"
proof -
  have d: "distinct (filter (\<lambda>c. c \<notin> B) (kids obs k))" using kids_distinct [OF assms(1)] by simp
  have e: "filter (\<lambda>c. c \<notin> insert x B) (kids obs k) = remove1 x (filter (\<lambda>c. c \<notin> B) (kids obs k))"
    unfolding distinct_remove1_removeAll [OF d] removeAll_filter_not_eq filter_filter by (rule filter_cong) auto
  have m: "x \<in> set (filter (\<lambda>c. c \<notin> B) (kids obs k)) \<longleftrightarrow> parent_ref x = Some k"
    using assms by (simp add: kids_parent)
  show ?thesis
  proof (cases "parent_ref x = Some k")
    case True
    then have i: "x \<in> set (filter (\<lambda>c. c \<notin> B) (kids obs k))" using m by blast
    then have "0 < length (filter (\<lambda>c. c \<notin> B) (kids obs k))" by (rule length_pos_if_in_set)
    moreover have "length (remove1 x (filter (\<lambda>c. c \<notin> B) (kids obs k))) = length (filter (\<lambda>c. c \<notin> B) (kids obs k)) - 1"
      by (rule length_remove1 [THEN trans]) (simp only: i if_True)
    ultimately show ?thesis unfolding e if_P [OF True] by linarith
  next
    case False
    with m show ?thesis unfolding e by (simp add: remove1_idem)
  qed
qed

lemma entry_insert:
  assumes "distinct (map ob_id obs)" "x \<in> set obs" "x \<notin> B"
  shows "tab obs (\<lambda>y. if ob_id y = ob_id x then (entry obs dep N B y)\<lparr>treeNode := Some (N x)\<rparr> else entry obs dep N B y) =
      tab obs (\<lambda>y. (entry obs dep N (insert x B) y)\<lparr>inDegree := inDegree (entry obs dep N B y)\<rparr>)"
  using assms by (intro tab_cong) (auto simp: entry_def dest: ob_id_inj)

lemma entry_degree:
  assumes "distinct (map ob_id obs)" "x \<in> set obs" "x \<notin> B"
  shows "tab obs (\<lambda>y. if parent_ref x = Some (ob_id y)
        then (entry obs dep N (insert x B) y)\<lparr>inDegree := inDegree (entry obs dep N B y) - 1\<rparr>
        else (entry obs dep N (insert x B) y)\<lparr>inDegree := inDegree (entry obs dep N B y)\<rparr>) =
      tab obs (entry obs dep N (insert x B))"
  by (intro tab_cong) (simp add: entry_def unbuilt_kids [OF assms, simplified])

lemma ready_insert:
  assumes "hierarchy obs fs" "x \<in> ready obs B" "\<forall>y \<in> B. set (kids obs (ob_id y)) \<subseteq> B"
  shows "ready obs (insert x B) = (ready obs B - {x}) \<union>
    {y \<in> set obs. parent_ref x = Some (ob_id y) \<and> filter (\<lambda>c. c \<notin> insert x B) (kids obs (ob_id y)) = []}"
proof -
  have x: "x \<in> set obs" "x \<notin> B" "x \<notin> set (kids obs (ob_id x))" using assms(2) by (auto simp: ready_def)
  have "y \<notin> insert x B" if "y \<in> set obs" "parent_ref x = Some (ob_id y)" for y
  proof -
    have "x \<in> set (kids obs (ob_id y))" using x(1) that by (simp add: kids_parent)
    with assms(3) x show ?thesis by auto
  qed
  moreover have "set (kids obs (ob_id y)) \<subseteq> insert x B \<longleftrightarrow> set (kids obs (ob_id y)) \<subseteq> B"
    if "y \<in> set obs" "parent_ref x \<noteq> Some (ob_id y)" for y
    using that by (auto simp: kids_parent)
  ultimately show ?thesis by (auto simp: ready_def filter_empty_conv)
qed

lemma kahn_step:
  assumes h: "hierarchy obs fs" and N: "nodes_of D s obs dep N" and inv: "kahn_inv obs dep N B st (k # rest)"
  obtains x st' pushed where "x \<in> ready obs B" "map_of (reg st) k = Some (entry obs dep N B x)"
    "finish_node k (p_obs (entry obs dep N B x)) (build_one D s (reg st) (entry obs dep N B x)) st = (st', pushed)"
    "kahn_inv obs dep N (insert x B) st' (rest @ pushed)"
proof -
  have ids: "distinct (map ob_id obs)" using hierarchy_ids [OF h] .
  have r: "reg st = tab obs (entry obs dep N B)" and q: "distinct (k # rest)" "set (k # rest) = ob_id ` ready obs B"
    and closed: "\<forall>x \<in> B. set (kids obs (ob_id x)) \<subseteq> B" using inv by (simp_all add: kahn_inv_def)
  obtain x where x: "x \<in> ready obs B" "k = ob_id x" using q(2) by auto
  have xo: "x \<in> set obs" "x \<notin> B" "set (kids obs (ob_id x)) \<subseteq> B" using x(1) by (auto simp: ready_def)
  have rest: "set rest = ob_id ` (ready obs B - {x})"
  proof -
    have "set rest = ob_id ` ready obs B - {ob_id x}" using q x(2) by auto
    also have "\<dots> = ob_id ` (ready obs B - {x})"
      using ids xo(1) by (auto simp: ready_def dest: ob_id_inj)
    finally show ?thesis .
  qed
  let ?B = "insert x B"
  let ?mid = "tab obs (\<lambda>y. (entry obs dep N ?B y)\<lparr>inDegree := inDegree (entry obs dep N B y)\<rparr>)"
  have mid: "rec_upd k (\<lambda>n. n\<lparr>treeNode := Some (N x)\<rparr>) (reg st) = ?mid"
    unfolding r x(2) rec_upd_tab by (rule entry_insert [OF ids xo(1,2)])
  define up where "up = (case parent_ref x of None \<Rightarrow> [] | Some p \<Rightarrow>
      (if filter (\<lambda>c. c \<notin> ?B) (kids obs p) = [] then [p] else []))"
  define st' where "st' = \<lparr>reg = tab obs (entry obs dep N ?B), ui_nodes = rec_set k (N x) (ui_nodes st),
      rootIds = rootIds st @ (if parent_ref x = None then [k] else [])\<rparr>"
  have fin: "finish_node k x (N x) st = (st', up)"
  proof (cases "parent_ref x")
    case None
    with entry_degree [OF ids xo(1,2), of dep N] show ?thesis
      by (simp add: finish_node_def Let_def mid st'_def up_def)
  next
    case (Some p)
    obtain y where y: "y \<in> set obs" "ob_id y = p" using hierarchy_parent [OF h xo(1) Some] by blast
    have look: "map_of ?mid p = Some ((entry obs dep N ?B y)\<lparr>inDegree := inDegree (entry obs dep N B y)\<rparr>)"
      unfolding y(2) [symmetric] by (rule map_of_tab [OF ids y(1)])
    have deg: "inDegree (entry obs dep N B y) - 1 = int (length (filter (\<lambda>c. c \<notin> ?B) (kids obs p)))"
      using unbuilt_kids [OF ids xo(1,2), of p] Some by (simp add: entry_def y(2))
    have "rec_upd p (\<lambda>m. m\<lparr>inDegree := inDegree m - 1\<rparr>) ?mid = tab obs (entry obs dep N ?B)"
      unfolding rec_upd_tab entry_degree [OF ids xo(1,2), of dep N, symmetric]
      by (rule tab_cong) (auto simp: Some)
    then show ?thesis
      using Some look deg by (simp add: finish_node_def Let_def mid st'_def up_def)
  qed
  have up: "set up = ob_id ` {y \<in> set obs. parent_ref x = Some (ob_id y) \<and> filter (\<lambda>c. c \<notin> ?B) (kids obs (ob_id y)) = []}"
    "distinct up"
  proof -
    show "set up = ob_id ` {y \<in> set obs. parent_ref x = Some (ob_id y) \<and> filter (\<lambda>c. c \<notin> ?B) (kids obs (ob_id y)) = []}"
    proof (cases "parent_ref x")
      case (Some p)
      obtain y where y: "y \<in> set obs" "ob_id y = p" using hierarchy_parent [OF h xo(1) Some] by blast
      have "{z \<in> set obs. parent_ref x = Some (ob_id z) \<and> filter (\<lambda>c. c \<notin> ?B) (kids obs (ob_id z)) = []} =
          (if filter (\<lambda>c. c \<notin> ?B) (kids obs p) = [] then {y} else {})"
        using y Some ob_id_inj [OF ids] by (cases "filter (\<lambda>c. c \<notin> ?B) (kids obs p) = []") fastforce+
      then show ?thesis using Some y(2) by (simp add: up_def)
    qed (simp add: up_def)
    show "distinct up" by (simp add: up_def split: option.split)
  qed
  have "kahn_inv obs dep N ?B st' (rest @ up)"
    unfolding kahn_inv_def
  proof (intro conjI)
    show "?B \<subseteq> set obs" using inv xo(1) by (simp add: kahn_inv_def)
    show "reg st' = tab obs (entry obs dep N ?B)" by (simp add: st'_def)
    show "\<forall>x \<in> ?B. set (kids obs (ob_id x)) \<subseteq> ?B" using closed xo(3) by auto
    show "set (rest @ up) = ob_id ` ready obs ?B"
      by (simp add: ready_insert [OF h x(1) closed] rest up(1) image_Un)
    show "distinct (rest @ up)"
    proof -
      have "b \<noteq> c" if bc: "b \<in> set rest" "c \<in> set up" for b c
      proof -
        obtain y where y: "y \<in> set obs" "parent_ref x = Some (ob_id y)" "c = ob_id y" using bc(2) up(1) by auto
        obtain z where z: "z \<in> ready obs B" "b = ob_id z" using bc(1) rest by auto
        have "x \<in> set (kids obs (ob_id y))" using xo(1) y(2) by (simp add: kids_parent)
        with xo(2) have "y \<notin> ready obs B" by (auto simp: ready_def)
        with z y ids show ?thesis by (auto simp: ready_def dest: ob_id_inj)
      qed
      with q(1) up(2) show ?thesis by auto
    qed
    show "\<forall>y \<in> set obs. map_of (ui_nodes st') (ob_id y) = (if y \<in> ?B then Some (N y) else None)"
      using inv xo(1) ids by (auto simp: kahn_inv_def st'_def rec_set_map_of x(2) dest: ob_id_inj)
    show "fst ` set (ui_nodes st') \<subseteq> ob_id ` set obs"
      using inv xo(1) by (simp add: kahn_inv_def st'_def rec_set_keys x(2))
    have ri: "distinct (rootIds st)" "set (rootIds st) = ob_id ` {x \<in> B. parent_ref x = None}" "B \<subseteq> set obs"
      using inv by (simp_all add: kahn_inv_def)
    then have "k \<notin> set (rootIds st)" using xo(1,2) x(2) ids by (auto dest: ob_id_inj)
    with ri(1) show "distinct (rootIds st')" by (auto simp: st'_def)
    show "set (rootIds st') = ob_id ` {x \<in> ?B. parent_ref x = None}"
      using ri(2) by (auto simp: st'_def x(2))
  qed
  moreover have "finish_node k (p_obs (entry obs dep N B x)) (build_one D s (reg st) (entry obs dep N B x)) st = (st', up)"
    using fin build_one_ready [OF ids N x(1)] by (simp add: r entry_def)
  moreover have "map_of (reg st) k = Some (entry obs dep N B x)"
    unfolding r x(2) by (rule map_of_tab [OF ids xo(1)])
  ultimately show ?thesis using that [OF x(1)] by blast
qed

lemma kahn_loop:
  assumes h: "hierarchy obs fs" and N: "nodes_of D s obs dep N"
  shows "kahn_inv obs dep N B st q \<Longrightarrow> \<exists>B' st'. bottom_up_loop D s st q = Some st' \<and> kahn_inv obs dep N B' st' []"
proof (induction "card (set obs - B)" arbitrary: B st q rule: less_induct)
  case less
  show ?case
  proof (cases q)
    case Nil
    with less.prems show ?thesis by (auto simp: bottom_up_loop.simps)
  next
    case (Cons k rest)
    from kahn_step [OF h N less.prems [unfolded Cons]] obtain x st' pushed where
      x: "x \<in> ready obs B" "map_of (reg st) k = Some (entry obs dep N B x)"
      "finish_node k (p_obs (entry obs dep N B x)) (build_one D s (reg st) (entry obs dep N B x)) st = (st', pushed)"
      "kahn_inv obs dep N (insert x B) st' (rest @ pushed)" by blast
    have "card (set obs - insert x B) < card (set obs - B)"
      using x(1) by (intro psubset_card_mono) (auto simp: ready_def)
    from less.hyps [OF this x(4)] show ?thesis
      using x(2,3) by (subst bottom_up_loop.simps) (simp add: Cons)
  qed
qed

lemma kahn_done:
  assumes h: "hierarchy obs fs" and inv: "kahn_inv obs dep N B st []"
  shows "B = set obs"
proof -
  have "x \<in> B" if "x \<in> set obs" for x
  proof -
    obtain t where t: "kids_ok obs t" "label t = x" "set (preorder t) \<subseteq> set obs" by (rule hierarchy_tree [OF h \<open>x \<in> set obs\<close>])
    have "kids_ok obs t \<Longrightarrow> set (preorder t) \<subseteq> set obs \<Longrightarrow> label t \<in> B"
    proof (induction t)
      case (Rose a ts)
      have "label v \<in> B" if v: "v \<in> set ts" for v
        by (rule Rose.IH [OF v]) (use Rose.prems v in \<open>auto simp: list_all_iff\<close>)
      then have "set (map label ts) \<subseteq> B" by auto
      then have "set (kids obs (ob_id a)) \<subseteq> B" using Rose.prems(1) by (metis kids_ok.simps)
      moreover have "ready obs B = {}" using inv by (simp add: kahn_inv_def)
      ultimately show ?case using Rose.prems by (auto simp: ready_def)
    qed
    with t show ?thesis by simp
  qed
  with inv show ?thesis by (auto simp: kahn_inv_def)
qed

section \<open>The nodes\<close>

definition tree_of :: "observation list \<Rightarrow> observation \<Rightarrow> observation rose" where
  "tree_of obs x = (THE t. kids_ok obs t \<and> label t = x)"

lemma tree_of_eq: "kids_ok obs t \<Longrightarrow> tree_of obs (label t) = t"
  unfolding tree_of_def by (rule the_equality) (auto intro: kids_ok_unique)

definition node_for :: "'d decimal_ops \<Rightarrow> int \<Rightarrow> observation list \<Rightarrow> (observation \<Rightarrow> int) \<Rightarrow> observation \<Rightarrow> 'd trace_node" where
  "node_for D s obs dep x = spec_node D s (tree_of obs x) (dep x) (since_parent obs x)"

lemma node_for_nodes:
  assumes h: "hierarchy obs fs" and dep: "depths_of obs dep"
  shows "nodes_of D s obs dep (node_for D s obs dep)"
  unfolding nodes_of_def
proof
  fix x assume x: "x \<in> set obs"
  obtain t where t: "kids_ok obs t" "label t = x" by (rule hierarchy_tree [OF h x])
  then obtain us where us: "t = Rose x us" by (cases t) auto
  have lab: "map label us = kids obs (ob_id x)" and ok: "\<forall>u \<in> set us. kids_ok obs u"
    using t(1) us by (auto simp: list_all_iff)
  have "spec_node D s u (dep x + 1) (Some (ob_start (label u) - ob_start x)) = node_for D s obs dep (label u)"
    if u: "u \<in> set us" for u
  proof -
    have k: "label u \<in> set (kids obs (ob_id x))" using u lab by (metis image_eqI list.set_map)
    then have "since_parent obs (label u) = Some (ob_start (label u) - ob_start x)"
      by (simp add: kids_parent since_parent_def obs_of_id [OF hierarchy_ids [OF h] x])
    moreover have "dep (label u) = dep x + 1" using dep x k by (simp add: depths_of_def)
    ultimately show ?thesis using tree_of_eq [of obs u] ok u by (simp add: node_for_def)
  qed
  then have "map (\<lambda>u. spec_node D s u (dep x + 1) (Some (ob_start (label u) - ob_start x))) us =
      map (node_for D s obs dep) (kids obs (ob_id x))"
    unfolding lab [symmetric] by simp
  moreover have "tree_of obs x = Rose x us" using tree_of_eq [OF t(1)] t(2) us by simp
  ultimately show "node_for D s obs dep x =
      make_node D s x (dep x) (since_parent obs x) (map (node_for D s obs dep) (kids obs (ob_id x)))"
    by (simp add: node_for_def [of D s obs dep x])
qed

text \<open>Every node of a finished tree, with its subtree, in pre-order.\<close>

primrec nodes_in :: "'a rose \<Rightarrow> 'a rose list" where
  "nodes_in (Rose a ts) = Rose a ts # concat (map nodes_in ts)"

lemma nodes_in_nodes:
  assumes "nodes_of D s obs dep N"
  shows "kids_ok obs t \<Longrightarrow> set (preorder t) \<subseteq> set obs \<Longrightarrow> nodes_in (N (label t)) = map N (preorder t)"
proof (induction t)
  case (Rose x us)
  have "nodes_in (N (label u)) = map N (preorder u)" if u: "u \<in> set us" for u
    by (rule Rose.IH [OF u]) (use Rose.prems u in \<open>auto simp: list_all_iff\<close>)
  then have "concat (map (nodes_in \<circ> (N \<circ> label)) us) = map N (concat (map preorder us))"
    by (simp add: map_concat o_def cong: map_cong)
  moreover have "N x = make_node D s x (dep x) (since_parent obs x) (map N (map label us))"
    using assms Rose.prems by (auto simp: nodes_of_def)
  ultimately show ?case
    using Rose.prems by (simp add: make_node_def comp_assoc)
qed

lemma build_forest:
  assumes h: "hierarchy obs fs"
  obtains st N r leafs where "buildDependencyGraph obs = Some (r, leafs)" "buildTreeNodesBottomUp D r leafs s = Some st"
    "mset (built_children (reg st) (rootIds st)) = mset (map (\<lambda>t. spec_node D s t 0 None) fs)"
    "map (\<lambda>t. spec_node D s t 0 None) fs = map (N \<circ> label) fs"
    "\<forall>x \<in> set obs. n_id (label (N x)) = ob_id x \<and> map_of (ui_nodes st) (ob_id x) = Some (N x)"
    "fst ` set (ui_nodes st) = ob_id ` set obs"
    "\<forall>t \<in> set fs. nodes_in (N (label t)) = map N (preorder t)"
proof -
  have ids: "distinct (map ob_id obs)" using hierarchy_ids [OF h] .
  obtain dep where dep: "depths_of obs dep" and g: "\<And>N :: observation \<Rightarrow> 'a trace_node. buildDependencyGraph obs =
      Some (tab obs (entry obs dep N {}), map ob_id (filter (\<lambda>x. kids obs (ob_id x) = []) obs))"
    using graph_of_hierarchy [OF h] by blast
  let ?N = "node_for D s obs dep"
  let ?st = "\<lparr>reg = tab obs (entry obs dep ?N {}), ui_nodes = [], rootIds = []\<rparr>"
  let ?q = "map ob_id (filter (\<lambda>x. kids obs (ob_id x) = []) obs)"
  have N: "nodes_of D s obs dep ?N" by (rule node_for_nodes [OF h dep])
  have "kahn_inv obs dep ?N {} ?st ?q"
    using ids by (auto simp: kahn_inv_def ready_def distinct_map intro: inj_on_subset)
  from kahn_loop [OF h N this] obtain B st where st: "bottom_up_loop D s ?st ?q = Some st" "kahn_inv obs dep ?N B st []"
    by blast
  then have B: "B = set obs" using kahn_done [OF h] by blast
  have rs: "map label fs = filter (\<lambda>x. parent_ref x = None) obs" using h by (simp add: hierarchy_def)
  have "mset (rootIds st) = mset (map (ob_id \<circ> label) fs)"
  proof (rule set_eq_iff_mset_eq_distinct [THEN iffD1])
    show "distinct (rootIds st)" using st(2) by (simp add: kahn_inv_def)
    have "distinct (map ob_id (map label fs))" unfolding rs using ids by (simp add: distinct_map_filter)
    then show "distinct (map (ob_id \<circ> label) fs)" by simp
    have "set (map (ob_id \<circ> label) fs) = ob_id ` set (map label fs)" by auto
    then show "set (rootIds st) = set (map (ob_id \<circ> label) fs)"
      using st(2) unfolding rs by (simp add: kahn_inv_def B) 
  qed
  moreover have bc: "built_children (reg st) (map (ob_id \<circ> label) fs) = map (?N \<circ> label) fs"
  proof -
    have "set (map label fs) \<subseteq> set obs" unfolding rs by auto
    from built_children_built [OF ids this this, of dep ?N] show ?thesis
      using st(2) by (simp only: kahn_inv_def B map_map)
  qed
  moreover have "mset (built_children (reg st) xs) = mset (built_children (reg st) ys)" if "mset xs = mset ys" for xs ys
    using that unfolding built_children_def mset_concat by (simp flip: sum_mset_sum_list)
  ultimately have roots: "mset (built_children (reg st) (rootIds st)) = mset (map (?N \<circ> label) fs)"
    by metis
  have N0: "spec_node D s t 0 None = ?N (label t)" if t: "t \<in> set fs" for t
  proof -
    have "label t \<in> set (filter (\<lambda>x. parent_ref x = None) obs)" using t rs by (metis image_eqI list.set_map)
    moreover have "kids_ok obs t" using h t by (simp add: hierarchy_def)
    ultimately show ?thesis using dep tree_of_eq [of obs t] by (simp add: node_for_def depths_of_def since_parent_def)
  qed
  show ?thesis
  proof (rule that [of _ _ st ?N])
    show "buildDependencyGraph obs = Some (tab obs (entry obs dep ?N {}), ?q)" by (rule g)
    show "buildTreeNodesBottomUp D (tab obs (entry obs dep ?N {})) ?q s = Some st"
      using st(1) by (simp add: buildTreeNodesBottomUp_def)
    show me: "map (\<lambda>t. spec_node D s t 0 None) fs = map (?N \<circ> label) fs" using N0 by simp
    show "mset (built_children (reg st) (rootIds st)) = mset (map (\<lambda>t. spec_node D s t 0 None) fs)"
      unfolding me by (rule roots)
    show "\<forall>x \<in> set obs. n_id (label (?N x)) = ob_id x \<and> map_of (ui_nodes st) (ob_id x) = Some (?N x)"
      using st(2) N by (simp add: kahn_inv_def B nodes_of_def make_node_def)
    show "fst ` set (ui_nodes st) = ob_id ` set obs"
    proof
      show "fst ` set (ui_nodes st) \<subseteq> ob_id ` set obs" using st(2) by (simp add: kahn_inv_def)
      have "map_of (ui_nodes st) (ob_id x) \<noteq> None" if "x \<in> set obs" for x
        using that st(2) by (simp add: kahn_inv_def B)
      then show "ob_id ` set obs \<subseteq> fst ` set (ui_nodes st)" by (auto simp: map_of_eq_None_iff)
    qed
    show "\<forall>t \<in> set fs. nodes_in (?N (label t)) = map ?N (preorder t)"
      using nodes_in_nodes [OF N] h hierarchy_set [OF h] by (fastforce simp: hierarchy_def)
  qed
qed

end
