(* ===== verification/Trace_Ui.thy ===== *)
theory Trace_Ui imports Trace_Build begin

text \<open>
  The properties of the trace tree of \<^verbatim>\<open>trace2/lib/tree-building.ts\<close> as a whole: when the
  parent links form a hierarchy, what \<open>buildTraceTree\<close> returns, the filtering phase, the list of
  search items, and what happens to a subtree whose parent the level filter removed.
\<close>

section \<open>Acyclic parent links form a hierarchy\<close>

definition par :: "observation list \<Rightarrow> (observation \<times> observation) set" where
  "par obs = {(c, x). x \<in> set obs \<and> c \<in> set (kids obs (ob_id x))}"

definition acyclic_parents :: "observation list \<Rightarrow> (observation \<Rightarrow> nat) \<Rightarrow> bool" where
  "acyclic_parents obs rank \<longleftrightarrow> (\<forall>x \<in> set obs. \<forall>p. parent_ref x = Some p \<longrightarrow>
     (\<exists>y \<in> set obs. ob_id y = p \<and> rank y < rank x))"

lemma par_functional: "distinct (map ob_id obs) \<Longrightarrow> single_valued (par obs)"
  by (auto simp: single_valued_def par_def kids_parent dest: ob_id_inj)

lemma par_rank:
  assumes "distinct (map ob_id obs)" "acyclic_parents obs rank" "(c, x) \<in> par obs"
  shows "rank x < rank c"
proof -
  have c: "c \<in> set obs" "x \<in> set obs" "parent_ref c = Some (ob_id x)"
    using assms(3) by (auto simp: par_def kids_parent)
  then obtain y where "y \<in> set obs" "ob_id y = ob_id x" "rank y < rank c"
    using assms(2) by (auto simp: acyclic_parents_def)
  with ob_id_inj [OF assms(1) this(1) c(2)] show ?thesis by simp
qed

lemma par_rank_star:
  assumes "distinct (map ob_id obs)" "acyclic_parents obs rank" "(c, x) \<in> (par obs)\<^sup>*"
  shows "rank x \<le> rank c"
  using assms(3) by induction (auto dest: par_rank [OF assms(1,2)])

lemma kids_ok_path:
  "kids_ok obs t \<Longrightarrow> label t \<in> set obs \<Longrightarrow> y \<in> set (preorder t) \<Longrightarrow> y \<in> set obs \<and> (y, label t) \<in> (par obs)\<^sup>*"
proof (induction t)
  case (Rose a ts)
  show ?case
  proof (cases "y = a")
    case True
    with Rose.prems show ?thesis by simp
  next
    case False
    then obtain v where v: "v \<in> set ts" "y \<in> set (preorder v)" using Rose.prems by auto
    have "label v \<in> set (kids obs (ob_id a))" using Rose.prems(1) v(1) by (metis image_eqI kids_ok.simps list.set_map)
    then have e: "(label v, a) \<in> par obs" "label v \<in> set obs" using Rose.prems(2) by (auto simp: par_def kids_parent)
    have "y \<in> set obs \<and> (y, label v) \<in> (par obs)\<^sup>*"
      using Rose.IH [OF v(1)] Rose.prems(1) v e(2) by (simp add: list_all_iff)
    with e(1) show ?thesis by (auto intro: rtrancl_into_rtrancl)
  qed
qed

lemma distinct_forest:
  assumes "distinct (map ob_id obs)" "\<forall>t \<in> set ts. kids_ok obs t \<and> label t \<in> set obs \<and> distinct (preorder t)"
    "distinct (map label ts)"
    "\<And>t u. t \<in> set ts \<Longrightarrow> u \<in> set ts \<Longrightarrow> label t \<noteq> label u \<Longrightarrow> (label t, label u) \<notin> (par obs)\<^sup>*"
  shows "distinct (forest_preorder ts)"
  using assms(2-)
proof (induction ts)
  case (Cons t ts)
  have "set (preorder t) \<inter> set (preorder u) = {}" if u: "u \<in> set ts" for u
  proof (rule ccontr)
    assume "set (preorder t) \<inter> set (preorder u) \<noteq> {}"
    then obtain y where y: "y \<in> set (preorder t)" "y \<in> set (preorder u)" by auto
    have "(y, label t) \<in> (par obs)\<^sup>*" "(y, label u) \<in> (par obs)\<^sup>*"
      using kids_ok_path y u Cons.prems(1) by auto
    then have "(label t, label u) \<in> (par obs)\<^sup>* \<or> (label u, label t) \<in> (par obs)\<^sup>*"
      by (rule single_valued_confluent [OF par_functional [OF assms(1)]])
    moreover have "label t \<noteq> label u" using Cons.prems(2) u by auto
    ultimately show False using Cons.prems(3) [of t u] Cons.prems(3) [of u t] u by auto
  qed
  moreover have "distinct (forest_preorder ts)"
    by (rule Cons.IH) (use Cons.prems in auto)
  ultimately show ?case using Cons.prems(1) by auto
qed simp

lemma tree_exists:
  assumes ids: "distinct (map ob_id obs)" and acyc: "acyclic_parents obs rank"
  shows "x \<in> set obs \<Longrightarrow> \<exists>t. kids_ok obs t \<and> label t = x \<and> distinct (preorder t)"
proof (induction "Max (rank ` set obs) - rank x" arbitrary: x rule: less_induct)
  case less
  let ?ks = "kids obs (ob_id x)"
  have ks: "(c, x) \<in> par obs" if "c \<in> set ?ks" for c using that less.prems by (simp add: par_def)
  have "\<exists>t. kids_ok obs t \<and> label t = c \<and> distinct (preorder t)" if c: "c \<in> set ?ks" for c
  proof (rule less.hyps)
    show co: "c \<in> set obs" using c by (simp add: kids_parent)
    then have "rank c \<le> Max (rank ` set obs)" by simp
    with par_rank [OF ids acyc ks [OF c]]
    show "Max (rank ` set obs) - rank c < Max (rank ` set obs) - rank x" by linarith
  qed
  then obtain T where T: "\<And>c. c \<in> set ?ks \<Longrightarrow> kids_ok obs (T c) \<and> label (T c) = c \<and> distinct (preorder (T c))"
    by metis
  have lab: "map label (map T ?ks) = ?ks" using T by (simp add: map_idI)
  have ok: "kids_ok obs (Rose x (map T ?ks))"
    using lab T by (simp add: list_all_iff)
  have "distinct (forest_preorder (map T ?ks))"
  proof (rule distinct_forest [OF ids])
    show "\<forall>t \<in> set (map T ?ks). kids_ok obs t \<and> label t \<in> set obs \<and> distinct (preorder t)"
      using T by (auto simp: kids_parent)
    show "distinct (map label (map T ?ks))" unfolding lab by (rule kids_distinct [OF ids])
    fix t u assume tu: "t \<in> set (map T ?ks)" "u \<in> set (map T ?ks)" "label t \<noteq> label u"
    show "(label t, label u) \<notin> (par obs)\<^sup>*"
    proof
      assume "(label t, label u) \<in> (par obs)\<^sup>*"
      then obtain z where z: "(label t, z) \<in> par obs" "(z, label u) \<in> (par obs)\<^sup>*"
        using tu(3) by (auto elim: converse_rtranclE)
      have k: "label t \<in> set ?ks" "label u \<in> set ?ks" using tu T by auto
      have "z = x" using par_functional [OF ids] z(1) ks [OF k(1)] by (auto simp: single_valued_def)
      with par_rank_star [OF ids acyc z(2)] par_rank [OF ids acyc ks [OF k(2)]] show False by simp
    qed
  qed
  moreover have "x \<notin> set (forest_preorder (map T ?ks))"
  proof
    assume "x \<in> set (forest_preorder (map T ?ks))"
    then obtain c where c: "c \<in> set ?ks" "x \<in> set (preorder (T c))" by auto
    have "(x, c) \<in> (par obs)\<^sup>*" using kids_ok_path [of obs "T c" x] T [OF c(1)] c by (simp add: kids_parent)
    with par_rank_star [OF ids acyc this] par_rank [OF ids acyc ks [OF c(1)]] show False by simp
  qed
  ultimately show ?case using ok by (intro exI [of _ "Rose x (map T ?ks)"]) simp
qed

lemma hierarchy_exists:
  assumes ids: "distinct (map ob_id obs)" and acyc: "acyclic_parents obs rank"
  shows "\<exists>fs. hierarchy obs fs"
proof -
  obtain T where T: "\<And>x. x \<in> set obs \<Longrightarrow> kids_ok obs (T x) \<and> label (T x) = x \<and> distinct (preorder (T x))"
    using tree_exists [OF assms] by metis
  let ?rs = "filter (\<lambda>x. parent_ref x = None) obs"
  let ?fs = "map T ?rs"
  have lab: "map label ?fs = ?rs" unfolding map_map by (rule map_idI) (use T in auto)
  have dist: "distinct (forest_preorder ?fs)"
  proof (rule distinct_forest [OF ids])
    show "\<forall>t \<in> set ?fs. kids_ok obs t \<and> label t \<in> set obs \<and> distinct (preorder t)" using T by auto
    show "distinct (map label ?fs)" unfolding lab using ids by (simp add: distinct_map)
    fix t u assume tu: "t \<in> set ?fs" "u \<in> set ?fs" "label t \<noteq> label u"
    show "(label t, label u) \<notin> (par obs)\<^sup>*"
    proof
      assume "(label t, label u) \<in> (par obs)\<^sup>*"
      then obtain z where "(label t, z) \<in> par obs" using tu(3) by (auto elim: converse_rtranclE)
      moreover have "parent_ref (label t) = None" using tu(1) T by auto
      ultimately show False by (simp add: par_def kids_parent)
    qed
  qed
  have "set (forest_preorder ?fs) = set obs"
  proof
    show "set (forest_preorder ?fs) \<subseteq> set obs" using T kids_ok_path by fastforce
    have "x \<in> set obs \<Longrightarrow> \<exists>r \<in> set ?rs. x \<in> set (preorder (T r))" for x
    proof (induction "rank x" arbitrary: x rule: less_induct)
      case less
      show ?case
      proof (cases "parent_ref x")
        case None
        with less.prems T [of x] label_in_preorder [of "T x"] show ?thesis by (intro bexI [of _ x]) auto
      next
        case (Some p)
        then obtain y where y: "y \<in> set obs" "ob_id y = p" "rank y < rank x"
          using acyc less.prems by (auto simp: acyclic_parents_def)
        then obtain r where r: "r \<in> set ?rs" "y \<in> set (preorder (T r))" using less.hyps by blast
        obtain u where u: "kids_ok obs u" "label u = y" "set (preorder u) \<subseteq> set (preorder (T r))"
          using kids_ok_subtree [of obs "T r" y] T r by auto
        have "x \<in> set (kids obs (ob_id y))" using less.prems Some y(2) by (simp add: kids_parent)
        then have "x \<in> label ` set (subs u)" using u(1,2) by (cases u) (metis kids_ok.simps list.set_map rose.sel)
        then have "x \<in> set (preorder u)" by (cases u) force
        with r u(3) show ?thesis by blast
      qed
    qed
    then show "set obs \<subseteq> set (forest_preorder ?fs)" by force
  qed
  moreover have "distinct obs" using ids by (simp add: distinct_map)
  ultimately have "mset (forest_preorder ?fs) = mset obs"
    using dist by (metis set_eq_iff_mset_eq_distinct)
  then have "hierarchy obs ?fs" unfolding hierarchy_def using ids lab T by auto
  then show ?thesis ..
qed

section \<open>The filtering phase\<close>

lemma levels_from:
  "set (getObservationLevels minLevel) = (case minLevel of None \<Rightarrow> UNIV | Some LDebug \<Rightarrow> UNIV
     | Some LDefault \<Rightarrow> {LDefault, LWarning, LError} | Some LWarning \<Rightarrow> {LWarning, LError} | Some LError \<Rightarrow> {LError})"
proof -
  have "l \<in> {LDebug, LDefault, LWarning, LError}" for l by (cases l) auto
  then have "{LDebug, LDefault, LWarning, LError} = UNIV" by blast
  then show ?thesis
    by (auto simp: getObservationLevels_def ascendingLevels_def split: option.split obs_level.split)
qed

definition clean_parent :: "string set \<Rightarrow> observation \<Rightarrow> observation" where
  "clean_parent ids x = (case parent_ref x of
     Some p \<Rightarrow> if p \<notin> ids then x\<lparr>ob_parent := None\<rparr> else x | None \<Rightarrow> x)"

lemma filter_phase:
  "fst (filterAndPrepareObservations obs l) =
     sort_key ob_start (map (clean_parent (ob_id ` set obs)) (filter (\<lambda>x. ob_level x \<in> set (getObservationLevels l)) obs))"
  "snd (filterAndPrepareObservations obs l) =
     length (filter (\<lambda>x. ob_level x \<notin> set (getObservationLevels l)) obs)"
proof -
  show "fst (filterAndPrepareObservations obs l) =
     sort_key ob_start (map (clean_parent (ob_id ` set obs)) (filter (\<lambda>x. ob_level x \<in> set (getObservationLevels l)) obs))"
    by (simp add: filterAndPrepareObservations_def Let_def clean_parent_def [abs_def] cong: option.case_cong)
  have "length obs - length (filter (\<lambda>x. ob_level x \<in> set (getObservationLevels l)) obs) =
      length (filter (\<lambda>x. ob_level x \<notin> set (getObservationLevels l)) obs)"
    using sum_length_filter_compl [of "\<lambda>x. ob_level x \<in> set (getObservationLevels l)" obs] by simp
  then show "snd (filterAndPrepareObservations obs l) =
     length (filter (\<lambda>x. ob_level x \<notin> set (getObservationLevels l)) obs)"
    by (simp add: filterAndPrepareObservations_def Let_def)
qed

lemma clean_parent_simps [simp]:
  "ob_id (clean_parent ids x) = ob_id x" "ob_start (clean_parent ids x) = ob_start x"
  "ob_level (clean_parent ids x) = ob_level x"
  by (simp_all add: clean_parent_def split: option.split)

lemma clean_parent_ref:
  "parent_ref (clean_parent ids x) = (case parent_ref x of Some p \<Rightarrow> if p \<in> ids then Some p else None | None \<Rightarrow> None)"
  by (auto simp: clean_parent_def parent_ref_def split: option.split)

text \<open>The prepared list is a hierarchy when no parent is filtered out and no link goes round.\<close>

definition well_parented :: "observation list \<Rightarrow> obs_level option \<Rightarrow> (string \<Rightarrow> nat) \<Rightarrow> bool" where
  "well_parented obs l rank \<longleftrightarrow> distinct (map ob_id obs) \<and>
     (\<forall>x \<in> set obs. \<forall>y \<in> set obs. parent_ref x = Some (ob_id y) \<longrightarrow> rank (ob_id y) < rank (ob_id x) \<and>
        (ob_level x \<in> set (getObservationLevels l) \<longrightarrow> ob_level y \<in> set (getObservationLevels l)))"

lemma prepared_hierarchy:
  assumes "well_parented obs l rank"
  shows "\<exists>fs. hierarchy (fst (filterAndPrepareObservations obs l)) fs"
proof (rule hierarchy_exists)
  let ?ids = "ob_id ` set obs"
  let ?ys = "filter (\<lambda>x. ob_level x \<in> set (getObservationLevels l)) obs"
  let ?os = "fst (filterAndPrepareObservations obs l)"
  have os: "set ?os = clean_parent ?ids ` set ?ys" by (simp add: filter_phase)
  have "mset (map ob_id ?os) = mset (map ob_id ?ys)"
    by (simp add: filter_phase image_mset.compositionality o_def)
  moreover have "distinct (map ob_id ?ys)" using assms by (simp add: well_parented_def distinct_map_filter)
  ultimately show "distinct (map ob_id ?os)" by (metis mset_eq_imp_distinct_iff)
  show "acyclic_parents ?os (rank \<circ> ob_id)"
    unfolding acyclic_parents_def
  proof (intro ballI allI impI)
    fix x p assume x: "x \<in> set ?os" "parent_ref x = Some p"
    obtain x0 where x0: "x0 \<in> set ?ys" "x = clean_parent ?ids x0" using x(1) os by auto
    then have p: "parent_ref x0 = Some p" "p \<in> ?ids"
      using x(2) by (auto simp: clean_parent_ref split: option.splits if_splits)
    then obtain y where y: "y \<in> set obs" "p = ob_id y" by auto
    then have "rank (ob_id y) < rank (ob_id x0)" "y \<in> set ?ys"
      using assms p(1) x0(1) by (auto simp: well_parented_def)
    then show "\<exists>y \<in> set ?os. ob_id y = p \<and> (rank \<circ> ob_id) y < (rank \<circ> ob_id) x"
      using os y(2) x0(2) by (intro bexI [of _ "clean_parent ?ids y"]) auto
  qed
qed

section \<open>The tree\<close>

lemma mset_concat_map: "mset (concat (map f xs)) = (\<Sum>x \<in># mset xs. mset (f x))"
  by (induction xs) auto

lemma build_result:
  assumes os: "os = fst (filterAndPrepareObservations observations minLevel)" "os \<noteq> []" and h: "hierarchy os fs"
  obtains T top where "buildTraceTree D tr observations minLevel = Some T"
    "mset top = mset (map (\<lambda>t. spec_node D (tr_timestamp tr) t 0 None) fs)"
    "sorted (map (n_start \<circ> label) top)"
    "roots T = (if events_based tr then top else [trace_wrapper tr (sum_costs D top) top])"
    "hiddenObservationsCount T = snd (filterAndPrepareObservations observations minLevel)"
    "mset (map (n_id \<circ> label) (concat (map nodes_in top))) = mset (map ob_id os)"
    "\<forall>t \<in> set (concat (map nodes_in top)). events_based tr \<or> n_id (label t) \<noteq> ''trace-'' @ tr_id tr \<longrightarrow>
       map_of (node_map T) (n_id (label t)) = Some t"
proof -
  obtain st N r leafs where b: "buildDependencyGraph os = Some (r, leafs)"
    "buildTreeNodesBottomUp D r leafs (tr_timestamp tr) = Some st"
    "mset (built_children (reg st) (rootIds st)) = mset (map (\<lambda>t. spec_node D (tr_timestamp tr) t 0 None) fs)"
    "map (\<lambda>t. spec_node D (tr_timestamp tr) t 0 None) fs = map (N \<circ> label) fs"
    "\<forall>x \<in> set os. n_id (label (N x)) = ob_id x \<and> map_of (ui_nodes st) (ob_id x) = Some (N x)"
    "\<forall>t \<in> set fs. nodes_in (N (label t)) = map N (preorder t)"
    by (rule build_forest [OF h])
  define top where "top = sort_key (n_start \<circ> label) (built_children (reg st) (rootIds st))"
  have top: "mset top = mset (map (N \<circ> label) fs)" using b(3) unfolding b(4) by (simp add: top_def)
  have "mset (concat (map nodes_in top)) = mset (concat (map (nodes_in \<circ> (N \<circ> label)) fs))"
    by (simp add: mset_concat_map top image_mset.compositionality o_def)
  also have "map (nodes_in \<circ> (N \<circ> label)) fs = map (map N \<circ> preorder) fs" using b(6) by simp
  also have "mset (concat (map (map N \<circ> preorder) fs)) = image_mset N (mset (forest_preorder fs))"
    by (simp add: map_concat [symmetric] flip: map_map)
  finally have all: "mset (concat (map nodes_in top)) = image_mset N (mset os)"
    using h by (simp add: hierarchy_def)
  define T where "T = (if events_based tr
      then \<lparr>roots = top, hiddenObservationsCount = snd (filterAndPrepareObservations observations minLevel), node_map = ui_nodes st\<rparr>
      else \<lparr>roots = [trace_wrapper tr (sum_costs D top) top],
        hiddenObservationsCount = snd (filterAndPrepareObservations observations minLevel),
        node_map = rec_set (''trace-'' @ tr_id tr) (trace_wrapper tr (sum_costs D top) top) (ui_nodes st)\<rparr>)"
  have run: "buildTraceTree D tr observations minLevel = Some T"
    using os b(1,2) by (simp add: buildTraceTree_def case_prod_beta Let_def top_def T_def trace_wrapper_def)
  have "mset (map (n_id \<circ> label) (concat (map nodes_in top))) = mset (map ob_id os)"
  proof -
    have "mset (map (n_id \<circ> label) (concat (map nodes_in top))) = image_mset (n_id \<circ> label) (image_mset N (mset os))"
      by (simp add: all [symmetric])
    also have "\<dots> = mset (map ob_id os)"
      using b(5) by (auto simp: image_mset.compositionality intro: image_mset_cong)
    finally show ?thesis .
  qed
  moreover have "map_of (node_map T) (n_id (label t)) = Some t"
    if t: "t \<in> set (concat (map nodes_in top))" "events_based tr \<or> n_id (label t) \<noteq> ''trace-'' @ tr_id tr" for t
  proof -
    have "t \<in># image_mset N (mset os)" using t(1) unfolding all [symmetric] by simp
    then obtain x where "x \<in> set os" "t = N x" by auto
    with b(5) t(2) show ?thesis by (auto simp: T_def rec_set_map_of)
  qed
  ultimately show ?thesis
    using that [of T top] run top b(4) by (simp add: T_def top_def)
qed

section \<open>Costs\<close>


definition cost_value :: "('d \<Rightarrow> rat) \<Rightarrow> 'd option \<Rightarrow> rat" where
  "cost_value val c = (case c of None \<Rightarrow> 0 | Some a \<Rightarrow> val a)"


lemma cost_value_simps [simp]: "cost_value val None = 0" "cost_value val (Some a) = val a"
  by (simp_all add: cost_value_def)







section \<open>Search items\<close>

primrec self_rose :: "'a rose \<Rightarrow> 'a rose rose" where
  "self_rose (Rose a ts) = Rose (Rose a ts) (map self_rose ts)"

lemma label_self_rose [simp]: "label (self_rose t) = t"
  by (cases t) simp

lemma preorder_self_rose: "preorder (self_rose t) = nodes_in t"
  by (induction t) (simp add: o_def cong: map_cong)

definition item_of_node :: "'d option \<Rightarrow> rat option \<Rightarrow> 'd trace_node \<Rightarrow> 'd search_item" where
  "item_of_node cost dur t = \<lparr>item_node = t, parentTotalCost = cost, parentTotalDuration = dur,
     observationId = (if n_type (label t) = ''TRACE'' then None else Some (n_id (label t)))\<rparr>"

interpretation search_walk: stack_walk "search_body cost dur" "\<lambda>items t. items @ [item_of_node cost dur t]"
    "\<lambda>_ r. r = self_rose (label r)" for cost :: "'d option" and dur
proof
  fix s :: "'d search_item list" and a :: "'d trace_node" and ts
  assume "Rose a ts = self_rose (label (Rose a ts))"
  then show "search_body cost dur s a = (s @ [item_of_node cost dur a], map label ts)"
    by (cases a) (simp add: search_body_def item_of_node_def map_idI)
next
  fix s :: "'d search_item list" and a :: "'d trace_node" and ts t
  assume e: "Rose a ts = self_rose (label (Rose a ts))" and t: "t \<in> set ts"
  obtain b us where a: "a = Rose b us" by (cases a)
  with e have "ts = map self_rose us" by simp
  with t show "t = self_rose (label t)" by auto
qed simp

lemma fold_snoc: "fold (\<lambda>x acc. acc @ [f x]) xs acc = acc @ map f xs"
  by (induction xs arbitrary: acc) simp_all

lemma search_items_loop:
  "stack_loop (search_body cost dur) [] ts = Some (map (item_of_node cost dur) (concat (map nodes_in ts)))"
proof -
  have "stack_loop (search_body cost dur) [] (map label (map self_rose ts)) =
      Some (fold (\<lambda>t items. items @ [item_of_node cost dur t]) (forest_preorder (map self_rose ts)) [])"
    by (rule search_walk.loop_forest_all) simp
  moreover have "map label (map self_rose ts) = ts" by (simp add: map_idI)
  moreover have "forest_preorder (map self_rose ts) = concat (map nodes_in ts)" by (simp add: preorder_self_rose o_def)
  ultimately show ?thesis by (simp add: fold_snoc)
qed

section \<open>Properties\<close>

text \<open>
  C8: the queue-based construction implements the recursive description: when the prepared
  observations form the hierarchy \<open>fs\<close>, the result's top nodes are the recursively built nodes of the
  root observations, sorted by start time, alone or under the TRACE node; the tree holds every
  prepared observation exactly once, and the node map finds every node by its id.
\<close>

theorem trace_tree_refines:
  assumes "os = fst (filterAndPrepareObservations observations minLevel)" "os \<noteq> []" "hierarchy os fs"
  shows "\<exists>T top. buildTraceTree D tr observations minLevel = Some T \<and>
    mset top = mset (map (\<lambda>t. spec_node D (tr_timestamp tr) t 0 None) fs) \<and>
    sorted (map (n_start \<circ> label) top) \<and>
    roots T = (if events_based tr then top else [trace_wrapper tr (sum_costs D top) top]) \<and>
    mset (map (n_id \<circ> label) (concat (map nodes_in top))) = mset (map ob_id os) \<and>
    (\<forall>t \<in> set (concat (map nodes_in top)). events_based tr \<or> n_id (label t) \<noteq> ''trace-'' @ tr_id tr \<longrightarrow>
       map_of (node_map T) (n_id (label t)) = Some t)"
  by (rule build_result [OF assms, of D tr]) blast

definition sample_observation :: "string \<Rightarrow> int \<Rightarrow> obs_level \<Rightarrow> string option \<Rightarrow> observation" where
  "sample_observation i start l p = \<lparr>ob_id = i, ob_type = ''SPAN'', ob_name = None, ob_start = start, ob_end = None,
     ob_level = l, ob_inputUsage = None, ob_outputUsage = None, ob_totalUsage = None, ob_inputCost = None,
     ob_outputCost = None, ob_totalCost = Some 1, ob_parent = p, ob_traceId = None\<rparr>"

definition rat_decimals :: "rat decimal_ops" where
  "rat_decimals = \<lparr>dec_of = id, dec_plus = (+), dec_isZero = (\<lambda>a. a = 0)\<rparr>"

definition sample_trace :: trace where
  "sample_trace = \<lparr>tr_id = ''t'', tr_name = None, tr_timestamp = 0, tr_latency = None, tr_rootObservationType = None\<rparr>"

definition sample_list :: "observation list" where
  "sample_list = [sample_observation ''c'' 5 LDefault (Some ''p''), sample_observation ''p'' 1 LDefault None]"

lemma sample_prepared:
  "fst (filterAndPrepareObservations sample_list None) =
     [sample_observation ''p'' 1 LDefault None, sample_observation ''c'' 5 LDefault (Some ''p'')]"
  by (simp add: filter_phase sample_list_def sample_observation_def levels_from clean_parent_def parent_ref_def)

lemma sample_hierarchy:
  "hierarchy (fst (filterAndPrepareObservations sample_list None))
     [Rose (sample_observation ''p'' 1 LDefault None) [Rose (sample_observation ''c'' 5 LDefault (Some ''p'')) []]]"
  unfolding sample_prepared by (simp add: hierarchy_def kids_def sample_observation_def parent_ref_def)

theorem trace_tree_refines_witness:
  "\<exists>T top. buildTraceTree rat_decimals sample_trace sample_list None = Some T \<and> length top = 1 \<and>
     roots T = [trace_wrapper sample_trace (sum_costs rat_decimals top) top] \<and>
     mset (map (n_id \<circ> label) (concat (map nodes_in top))) = {#''p'', ''c''#}"
proof -
  have "fst (filterAndPrepareObservations sample_list None) \<noteq> []" by (simp add: sample_prepared)
  from trace_tree_refines [OF refl this sample_hierarchy, of rat_decimals sample_trace] obtain T top where
    T: "buildTraceTree rat_decimals sample_trace sample_list None = Some T"
    "roots T = [trace_wrapper sample_trace (sum_costs rat_decimals top) top]"
    "mset top = {#spec_node rat_decimals 0 (Rose (sample_observation ''p'' 1 LDefault None)
        [Rose (sample_observation ''c'' 5 LDefault (Some ''p'')) []]) 0 None#}"
    "mset (map (n_id \<circ> label) (concat (map nodes_in top))) = mset (map ob_id (fst (filterAndPrepareObservations sample_list None)))"
    by (auto simp: sample_trace_def events_based_def simp del: spec_node.simps)
  have "length top = 1" using arg_cong [OF T(3), of size] by simp
  moreover have "mset (map (n_id \<circ> label) (concat (map nodes_in top))) = {#''p'', ''c''#}"
    unfolding T(4) sample_prepared by (simp add: sample_observation_def)
  ultimately show ?thesis using T(1,2) by (intro exI [of _ T] exI [of _ top] conjI)
qed

text \<open>
  C18: building a trace's tree always ends when ids are distinct, parent links are acyclic and no
  visible observation has a hidden parent: every observation at or above the level appears exactly
  once in the tree, and the hidden count is the number of the others.
\<close>

theorem trace_tree_total:
  assumes "well_parented observations minLevel rank"
  shows "\<exists>T top. buildTraceTree D tr observations minLevel = Some T \<and>
    roots T = (if events_based tr then top else [trace_wrapper tr (sum_costs D top) top]) \<and>
    mset (map (n_id \<circ> label) (concat (map nodes_in top))) =
      mset (map ob_id (filter (\<lambda>x. ob_level x \<in> set (getObservationLevels minLevel)) observations)) \<and>
    hiddenObservationsCount T =
      length (filter (\<lambda>x. ob_level x \<notin> set (getObservationLevels minLevel)) observations)"
proof (cases "fst (filterAndPrepareObservations observations minLevel) = []")
  case True
  have none: "filter (\<lambda>x. ob_level x \<in> set (getObservationLevels minLevel)) observations = []"
    using arg_cong [OF True, of length] unfolding filter_phase(1) length_sort length_map by simp
  have "buildTraceTree D tr observations minLevel =
    Some \<lparr>roots = (if events_based tr then [] else [trace_wrapper tr (sum_costs D []) []]),
      hiddenObservationsCount = snd (filterAndPrepareObservations observations minLevel),
      node_map = (if events_based tr then [] else [(n_id (label (trace_wrapper tr None [] :: 'a trace_node)), trace_wrapper tr None [])])\<rparr>"
    using True by (simp add: buildTraceTree_def case_prod_beta Let_def sum_costs_def)
  then show ?thesis
    unfolding none filter_phase(2) by (intro exI [of _ "[] :: 'a trace_node list"] exI conjI) (assumption, simp_all)
next
  case False
  obtain fs where h: "hierarchy (fst (filterAndPrepareObservations observations minLevel)) fs"
    using prepared_hierarchy [OF assms] by blast
  have "mset (map ob_id (fst (filterAndPrepareObservations observations minLevel))) =
      mset (map ob_id (filter (\<lambda>x. ob_level x \<in> set (getObservationLevels minLevel)) observations))"
    by (simp add: filter_phase(1) image_mset.compositionality o_def)
  moreover obtain T top where "buildTraceTree D tr observations minLevel = Some T"
    "roots T = (if events_based tr then top else [trace_wrapper tr (sum_costs D top) top])"
    "hiddenObservationsCount T = snd (filterAndPrepareObservations observations minLevel)"
    "mset (map (n_id \<circ> label) (concat (map nodes_in top))) =
       mset (map ob_id (fst (filterAndPrepareObservations observations minLevel)))"
    by (rule build_result [OF refl False h, of D tr]) blast
  ultimately show ?thesis
    unfolding filter_phase(2) [symmetric] by (intro exI [of _ T] exI [of _ top] conjI) simp_all
qed

theorem trace_tree_total_witness:
  "\<exists>T. buildTraceTree rat_decimals sample_trace sample_list None = Some T \<and> hiddenObservationsCount T = 0"
proof -
  have "well_parented sample_list None (\<lambda>i. if i = ''p'' then 0 else 1)"
    by (auto simp: well_parented_def sample_list_def sample_observation_def parent_ref_def)
  from trace_tree_total [OF this, of rat_decimals sample_trace] show ?thesis
    by (auto simp: levels_from)
qed



text \<open>
  whatever tree was built, the flattening loop ends and lists every node of every root exactly
  in pre-order, with the same totals for all.
\<close>

theorem search_items_preorder:
  assumes "buildTraceTree D tr observations minLevel = Some T"
  shows "\<exists>cost dur. buildTraceUiData D tr observations minLevel =
    Some (T, map (item_of_node cost dur) (concat (map nodes_in (roots T))))"
proof (cases "roots T = []")
  case True
  with assms show ?thesis by (simp add: buildTraceUiData_def)
next
  case False
  with assms show ?thesis by (simp add: buildTraceUiData_def Let_def search_items_loop) blast
qed

theorem search_items_preorder_witness:
  "\<exists>T cost dur. buildTraceUiData rat_decimals sample_trace [] None = Some (T, map (item_of_node cost dur) (roots T)) \<and>
     map (n_id \<circ> label) (roots T) = [''trace-t'']"
proof -
  have "buildTraceTree rat_decimals sample_trace [] None = Some \<lparr>roots = [trace_wrapper sample_trace None []],
      hiddenObservationsCount = 0, node_map = [(''trace-t'', trace_wrapper sample_trace None [])]\<rparr>"
    by (simp add: buildTraceTree_def filterAndPrepareObservations_def events_based_def sample_trace_def trace_wrapper_def Let_def)
  from search_items_preorder [OF this] obtain cost dur where
    "buildTraceUiData rat_decimals sample_trace [] None = Some (\<lparr>roots = [trace_wrapper sample_trace None []],
       hiddenObservationsCount = 0, node_map = [(''trace-t'', trace_wrapper sample_trace None [])]\<rparr>,
       [item_of_node cost dur (trace_wrapper sample_trace None [])])"
    by (auto simp: trace_wrapper_def)
  moreover have "n_id (label (trace_wrapper sample_trace None [])) = ''trace-t''"
    by (simp add: trace_wrapper_def sample_trace_def)
  ultimately show ?thesis by fastforce
qed

text \<open>
  an observation at a visible level can be lost: with minimum level DEFAULT, an ERROR
  observation whose DEBUG parent is filtered out keeps its parent link, so it is in no root's
  subtree, although it is in the node map and is not counted as hidden.
\<close>

theorem hidden_parent_drops_subtree:
  "let obs = [sample_observation ''p'' 0 LDebug None, sample_observation ''c'' 1 LError (Some ''p'')];
       T = the (buildTraceTree D sample_trace obs (Some LDefault))
   in buildTraceTree D sample_trace obs (Some LDefault) = Some T \<and>
      map (n_id \<circ> label) (concat (map nodes_in (roots T))) = [''trace-t''] \<and>
      hiddenObservationsCount T = 1 \<and> map_of (node_map T) ''c'' \<noteq> None"
proof -
  let ?c = "sample_observation ''c'' 1 LError (Some ''p'')"
  let ?obs = "[sample_observation ''p'' 0 LDebug None, ?c]"
  have c: "ob_id ?c = ''c''" "parent_ref ?c = Some ''p''" "ob_level ?c = LError"
    by (simp_all add: sample_observation_def parent_ref_def)
  have prep: "filterAndPrepareObservations ?obs (Some LDefault) = ([?c], 1)"
    by (rule prod_eqI) (simp_all add: filter_phase levels_from clean_parent_def c,
        simp_all add: sample_observation_def)
  have dep: "buildDependencyGraph [?c] = Some ([(''c'', new_processing ?c)], [''c''])"
    by (simp add: buildDependencyGraph_def register_all_def link_children_def rec_upd_def root_entries_def
        clear_root_depths_def set_degrees_def leaf_entries_def depth_loop.simps c Let_def, simp add: new_processing_def c)
  obtain st where st: "buildTreeNodesBottomUp D [(''c'', new_processing ?c)] [''c''] 0 = Some st" "rootIds st = []"
      "map_of (ui_nodes st) ''c'' \<noteq> None"
    by (simp add: buildTreeNodesBottomUp_def bottom_up_loop.simps finish_node_def rec_upd_def c Let_def new_processing_def)
  have "buildTraceTree D sample_trace ?obs (Some LDefault) = Some \<lparr>roots = [trace_wrapper sample_trace None []],
      hiddenObservationsCount = 1, node_map = rec_set ''trace-t'' (trace_wrapper sample_trace None []) (ui_nodes st)\<rparr>"
    using st by (simp add: buildTraceTree_def prep dep events_based_def sample_trace_def Let_def built_children_def
        sum_costs_def trace_wrapper_def)
  with st(3) show ?thesis by (auto simp: Let_def rec_set_map_of trace_wrapper_def sample_trace_def)
qed

end
