(* ===== verification/Trace_Flatten.thy ===== *)
theory Trace_Flatten imports Trace_Ui begin

text \<open>
  The flat lists the trace view renders: \<^verbatim>\<open>trace2/components/_shared/tree-flattening.ts\<close>,
  \<^verbatim>\<open>TraceTimeline/timeline-flattening.ts\<close> with \<^verbatim>\<open>timeline-calculations.ts\<close>,
  \<^verbatim>\<open>TraceLogView/log-view-flattening.ts\<close>, and \<^verbatim>\<open>lib/trace-aggregation.ts\<close>. Each loop over an
  explicit stack is a \<open>stack_loop\<close>; its result is compared with a recursive listing of the tree.
  Numbers are rationals: rounding is not modelled, and a division by zero is the value \<open>None\<close>.
\<close>

section \<open>The shared flattening\<close>

record 'a flat_node =
  fn_node :: "'a rose"
  fn_depth :: nat
  fn_lines :: "bool list"
  fn_last :: bool

text \<open>The entries pushed for a list of siblings; the first is the top of the stack.\<close>

definition sibling_entries :: "nat \<Rightarrow> (bool \<Rightarrow> bool list) \<Rightarrow> 'a rose list \<Rightarrow> 'a flat_node list" where
  "sibling_entries d lines ts = map (\<lambda>i. let isLast = (i = length ts - 1) in
     \<lparr>fn_node = ts ! i, fn_depth = d, fn_lines = lines isLast, fn_last = isLast\<rparr>) [0..<length ts]"

definition start_or_zero :: "('a \<Rightarrow> int option) \<Rightarrow> 'a rose \<Rightarrow> int" where
  "start_or_zero startTime t = (case startTime (label t) of None \<Rightarrow> 0 | Some s \<Rightarrow> s)"

definition flatten_body :: "('a \<Rightarrow> string) \<Rightarrow> ('a \<Rightarrow> int option) \<Rightarrow> string set \<Rightarrow>
    'a flat_node list \<Rightarrow> 'a flat_node \<Rightarrow> 'a flat_node list \<times> 'a flat_node list" where
  "flatten_body ident startTime collapsedNodes flatList current =
     (flatList @ [current],
      if length (subs (fn_node current)) > 0 \<and> ident (label (fn_node current)) \<notin> collapsedNodes
      then sibling_entries (fn_depth current + 1) (\<lambda>isLast. fn_lines current @ [\<not> isLast])
             (sort_key (start_or_zero startTime) (subs (fn_node current)))
      else [])"

definition flattenTree :: "('a \<Rightarrow> string) \<Rightarrow> ('a \<Rightarrow> int option) \<Rightarrow> 'a rose list \<Rightarrow> string set \<Rightarrow>
    'a flat_node list option" where
  "flattenTree ident startTime rs collapsedNodes =
     (if length rs = 0 then Some []
      else (let sortedRoots = sort_key (start_or_zero startTime) rs
            in stack_loop (flatten_body ident startTime collapsedNodes) []
                 (sibling_entries 0 (\<lambda>_. []) sortedRoots)))"

section \<open>Timeline\<close>

definition SCALE_WIDTH :: rat where "SCALE_WIDTH = 900"

definition STEP_SIZE :: rat where "STEP_SIZE = 100"

definition PREDEFINED_STEP_SIZES :: "rat list" where
  "PREDEFINED_STEP_SIZES = [1/4, 1/2, 3/4, 1, 5/4, 3/2, 2, 5/2, 3, 4, 5, 6, 7, 8, 9, 10, 15, 20, 25,
     35, 40, 45, 50, 100, 150, 200, 250, 300, 350, 400, 450, 500]"

definition js_div :: "rat \<Rightarrow> rat \<Rightarrow> rat option" where
  "js_div a b = (if b = 0 then None else Some (a / b))"

definition calculateTimelineOffset :: "int \<Rightarrow> int \<Rightarrow> rat \<Rightarrow> rat \<Rightarrow> rat option" where
  "calculateTimelineOffset nodeStartTime traceStartTime totalScaleSpan scaleWidth =
     (let timeFromStart = of_int (nodeStartTime - traceStartTime) / 1000
      in map_option (\<lambda>q. q * scaleWidth) (js_div timeFromStart totalScaleSpan))"

definition calculateTimelineWidth :: "rat \<Rightarrow> rat \<Rightarrow> rat \<Rightarrow> rat option" where
  "calculateTimelineWidth duration totalScaleSpan scaleWidth =
     map_option (\<lambda>q. q * scaleWidth) (js_div duration totalScaleSpan)"

text \<open>
  With a zero width the computed step is an infinity or not a number: nothing is found, except
  that every step is at least minus infinity.
\<close>

definition calculateStepSize :: "rat \<Rightarrow> rat \<Rightarrow> rat" where
  "calculateStepSize traceDuration scaleWidth =
     (let found = (case js_div traceDuration (scaleWidth / STEP_SIZE) of
                     Some calculated \<Rightarrow> find (\<lambda>step. step \<ge> calculated) PREDEFINED_STEP_SIZES
                   | None \<Rightarrow> if traceDuration < 0 then Some (hd PREDEFINED_STEP_SIZES) else None)
      in case found of Some step \<Rightarrow> step | None \<Rightarrow> PREDEFINED_STEP_SIZES ! (length PREDEFINED_STEP_SIZES - 1))"

record timeline_metrics =
  startOffset :: "rat option"
  itemWidth :: "rat option"
  tm_latency :: "rat option"

record 'd timeline_item =
  ti_node :: "'d trace_node"
  ti_depth :: nat
  ti_lines :: "bool list"
  ti_last :: bool
  metrics :: timeline_metrics

text \<open>
  Nodes built by \<open>buildTraceTree\<close> have no \<open>completionStartTime\<close>, so the first-token offset stays
  undefined; \<open>endTime\<close> is a date or absent.
\<close>

definition timeline_metrics_of :: "int \<Rightarrow> rat \<Rightarrow> rat \<Rightarrow> 'd node_info \<Rightarrow> timeline_metrics" where
  "timeline_metrics_of traceStartTime totalScaleSpan scaleWidth n =
     (let latency = map_option (\<lambda>e. of_int (e - n_start n) / 1000) (n_end n)
      in \<lparr>startOffset = calculateTimelineOffset (n_start n) traceStartTime totalScaleSpan scaleWidth,
          itemWidth = calculateTimelineWidth (case latency of None \<Rightarrow> 0 | Some l \<Rightarrow> l) totalScaleSpan scaleWidth,
          tm_latency = latency\<rparr>)"

definition timeline_body :: "string set \<Rightarrow> int \<Rightarrow> rat \<Rightarrow> rat \<Rightarrow>
    'd timeline_item list \<Rightarrow> 'd node_info flat_node \<Rightarrow> 'd timeline_item list \<times> 'd node_info flat_node list" where
  "timeline_body collapsedNodes traceStartTime totalScaleSpan scaleWidth flatList current =
     (flatList @ [\<lparr>ti_node = fn_node current, ti_depth = fn_depth current, ti_lines = fn_lines current,
        ti_last = fn_last current,
        metrics = timeline_metrics_of traceStartTime totalScaleSpan scaleWidth (label (fn_node current))\<rparr>],
      if length (subs (fn_node current)) > 0 \<and> n_id (label (fn_node current)) \<notin> collapsedNodes
      then sibling_entries (fn_depth current + 1) (\<lambda>isLast. fn_lines current @ [\<not> isLast])
             (sort_key (n_start \<circ> label) (subs (fn_node current)))
      else [])"

definition flattenTreeWithTimelineMetrics :: "'d trace_node list \<Rightarrow> string set \<Rightarrow> int \<Rightarrow> rat \<Rightarrow> rat \<Rightarrow>
    'd timeline_item list option" where
  "flattenTreeWithTimelineMetrics rs collapsedNodes traceStartTime totalScaleSpan scaleWidth =
     (if length rs = 0 then Some []
      else stack_loop (timeline_body collapsedNodes traceStartTime totalScaleSpan scaleWidth) []
             (sibling_entries 0 (\<lambda>_. []) (sort_key (n_start \<circ> label) rs)))"

section \<open>Log view\<close>

record 'd log_item =
  li_node :: "'d trace_node"
  li_lines :: "bool list"
  li_last :: bool

text \<open>The roots are pushed in order, so the last root is the top of the stack.\<close>

definition collect_body :: "'d trace_node list \<Rightarrow> 'd trace_node \<Rightarrow> 'd trace_node list \<times> 'd trace_node list" where
  "collect_body observations node =
     (if n_type (label node) \<noteq> ''TRACE'' then observations @ [node] else observations, subs node)"

definition collectObservations :: "'d trace_node list \<Rightarrow> 'd trace_node list option" where
  "collectObservations rs = (if length rs = 0 then Some [] else stack_loop collect_body [] (rev rs))"

definition flattenChronological :: "'d trace_node list \<Rightarrow> 'd log_item list option" where
  "flattenChronological rs = (case collectObservations rs of
       None \<Rightarrow> None
     | Some os \<Rightarrow>
         (let observations = sort_key (n_start \<circ> label) os
          in Some (map (\<lambda>i. \<lparr>li_node = observations ! i, li_lines = [], li_last = (i = length observations - 1)\<rparr>)
                     [0..<length observations])))"

definition tree_order_body :: "'d log_item list \<Rightarrow> 'd node_info flat_node \<Rightarrow> 'd log_item list \<times> 'd node_info flat_node list" where
  "tree_order_body flatList current =
     (flatList @ [\<lparr>li_node = fn_node current, li_lines = fn_lines current, li_last = fn_last current\<rparr>],
      if length (subs (fn_node current)) > 0
      then sibling_entries (fn_depth current + 1) (\<lambda>isLast. fn_lines current @ [\<not> isLast])
             (sort_key (n_start \<circ> label) (subs (fn_node current)))
      else [])"

definition flattenTreeOrder :: "'d trace_node list \<Rightarrow> 'd log_item list option" where
  "flattenTreeOrder rs =
     (if length rs = 0 then Some []
      else (let isTraceRooted = (length rs = 1 \<and> n_type (label (rs ! 0)) = ''TRACE'');
                sorted0 = (if isTraceRooted then sort_key (n_start \<circ> label) (subs (rs ! 0))
                           else sort_key (n_start \<circ> label) rs)
            in stack_loop tree_order_body [] (sibling_entries 0 (\<lambda>_. []) sorted0)))"

text \<open>A name is a string here: \<open>TreeNode.name\<close> is always set.\<close>

definition filterBySearch :: "'d log_item list \<Rightarrow> string \<Rightarrow> 'd log_item list" where
  "filterBySearch items query =
     (if js_trim query = [] then items
      else (let lowerQuery = js_trim (js_lower query)
            in filter (\<lambda>item. js_includes (js_lower (n_name (label (li_node item)))) lowerQuery \<or>
                 js_includes (js_lower (n_type (label (li_node item)))) lowerQuery \<or>
                 js_includes (js_lower (n_id (label (li_node item)))) lowerQuery) items))"

section \<open>Aggregation\<close>

definition GenerationLikeObservationTypes :: "string list" where
  "GenerationLikeObservationTypes = [''GENERATION'', ''AGENT'', ''TOOL'', ''CHAIN'', ''RETRIEVER'',
     ''EVALUATOR'', ''EMBEDDING'', ''GUARDRAIL'']"

definition isGenerationLike :: "string \<Rightarrow> bool" where
  "isGenerationLike t \<longleftrightarrow> t \<in> set GenerationLikeObservationTypes"

record metric_observation = observation +
  mo_costDetails :: "(string \<times> rat) list option"
  mo_usageDetails :: "(string \<times> rat) list option"

record aggregated =
  ag_totalCost :: "rat option"
  ag_costDetails :: "(string \<times> rat) list"
  ag_totalUsage :: rat
  ag_inputUsage :: rat
  ag_outputUsage :: rat
  ag_usageDetails :: "(string \<times> rat) list"
  ag_hasGenerationLike :: bool

definition merge_details :: "(string \<times> rat) list option \<Rightarrow> (string \<times> rat) list \<Rightarrow> (string \<times> rat) list" where
  "merge_details details acc = (case details of
       None \<Rightarrow> acc
     | Some ds \<Rightarrow> fold (\<lambda>(key, v) acc.
         rec_set key ((case map_of acc key of None \<Rightarrow> 0 | Some x \<Rightarrow> x) + v) acc) ds acc)"

definition or_zero :: "rat option \<Rightarrow> rat" where
  "or_zero v = (case v of None \<Rightarrow> 0 | Some x \<Rightarrow> x)"

definition aggregate_step :: "metric_observation \<Rightarrow> aggregated \<Rightarrow> aggregated" where
  "aggregate_step o1 a =
     (let a1 = (case ob_totalCost o1 of None \<Rightarrow> a
                | Some c \<Rightarrow> a\<lparr>ag_totalCost := Some (or_zero (ag_totalCost a) + c)\<rparr>);
          a2 = a1\<lparr>ag_costDetails := merge_details (mo_costDetails o1) (ag_costDetails a1)\<rparr>
      in if isGenerationLike (ob_type o1)
         then a2\<lparr>ag_hasGenerationLike := True,
                 ag_totalUsage := ag_totalUsage a2 + or_zero (ob_totalUsage o1),
                 ag_inputUsage := ag_inputUsage a2 + or_zero (ob_inputUsage o1),
                 ag_outputUsage := ag_outputUsage a2 + or_zero (ob_outputUsage o1),
                 ag_usageDetails := merge_details (mo_usageDetails o1) (ag_usageDetails a2)\<rparr>
         else a2)"

text \<open>The code returns undefined in place of empty details.\<close>

definition aggregateTraceMetrics :: "metric_observation list \<Rightarrow>
    aggregated \<times> (string \<times> rat) list option \<times> (string \<times> rat) list option" where
  "aggregateTraceMetrics obs =
     (let a = fold aggregate_step obs \<lparr>ag_totalCost = None, ag_costDetails = [], ag_totalUsage = 0,
                ag_inputUsage = 0, ag_outputUsage = 0, ag_usageDetails = [], ag_hasGenerationLike = False\<rparr>
      in (a, if length (ag_costDetails a) > 0 then Some (ag_costDetails a) else None,
          if length (ag_usageDetails a) > 0 then Some (ag_usageDetails a) else None))"

definition descendant_body :: "string list \<Rightarrow> 'd trace_node \<Rightarrow> string list \<times> 'd trace_node list" where
  "descendant_body ids current = (ids @ [n_id (label current)], rev (subs current))"

definition getDescendantIds :: "'d trace_node \<Rightarrow> string list option" where
  "getDescendantIds node = stack_loop descendant_body [] (rev (subs node))"

section \<open>The listing the loops compute\<close>

text \<open>The visible part of a tree, siblings sorted, every node kept with its own subtree.\<close>

primrec shown :: "('a \<Rightarrow> int) \<Rightarrow> ('a \<Rightarrow> bool) \<Rightarrow> 'a rose \<Rightarrow> 'a rose rose" where
  "shown key keep (Rose a ts) =
     Rose (Rose a ts) (if keep a then sort_key (key \<circ> label \<circ> label) (map (shown key keep) ts) else [])"

definition last_flags :: "nat \<Rightarrow> bool list" where
  "last_flags n = map (\<lambda>i. i = n - 1) [0..<n]"

definition spread :: "nat \<Rightarrow> (bool \<Rightarrow> bool list) \<Rightarrow> (nat \<Rightarrow> bool list \<Rightarrow> bool \<Rightarrow> 'r) list \<Rightarrow> 'r list" where
  "spread d lines fs = map2 (\<lambda>f l. f d (lines l) l) fs (last_flags (length fs))"

primrec annotate :: "'a rose rose \<Rightarrow> nat \<Rightarrow> bool list \<Rightarrow> bool \<Rightarrow> 'a flat_node rose" where
  "annotate (Rose b us) = (\<lambda>d lines l. Rose \<lparr>fn_node = b, fn_depth = d, fn_lines = lines, fn_last = l\<rparr>
     (spread (d + 1) (\<lambda>isLast. lines @ [\<not> isLast]) (map annotate us)))"

definition flat_listing :: "('a \<Rightarrow> int) \<Rightarrow> ('a \<Rightarrow> bool) \<Rightarrow> 'a rose list \<Rightarrow> 'a flat_node list" where
  "flat_listing key keep rs = forest_preorder
     (spread 0 (\<lambda>_. []) (map annotate (sort_key (key \<circ> label \<circ> label) (map (shown key keep) rs))))"

lemma insort_key_map: "map f (insort_key (g \<circ> f) x xs) = insort_key g (f x) (map f xs)"
  by (induction xs) auto

lemma sort_key_map: "map f (sort_key (g \<circ> f) xs) = sort_key g (map f xs)"
  by (induction xs) (simp_all add: insort_key_map [unfolded o_def] o_def)

lemma label_shown [simp]: "label (shown key keep t) = t"
  by (cases t) simp

lemma length_spread [simp]: "length (spread d lines fs) = length fs"
  by (simp add: spread_def last_flags_def)

lemma nth_spread: "i < length fs \<Longrightarrow>
    spread d lines fs ! i = (fs ! i) d (lines (i = length fs - 1)) (i = length fs - 1)"
  by (simp add: spread_def last_flags_def)

lemma label_annotate [simp]:
  "label (annotate u d lines l) = \<lparr>fn_node = label u, fn_depth = d, fn_lines = lines, fn_last = l\<rparr>"
  by (cases u) simp

lemma spread_labels: "map label (spread d lines (map annotate us)) = sibling_entries d lines (map label us)"
  by (rule nth_equalityI) (simp_all add: sibling_entries_def nth_spread Let_def)

lemma shown_labels:
  "map label (sort_key (key \<circ> label \<circ> label) (map (shown key keep) ts)) = sort_key (key \<circ> label) ts"
  unfolding sort_key_map by (simp add: o_def)

definition flat_body :: "('a flat_node \<Rightarrow> 'i) \<Rightarrow> ('a \<Rightarrow> int) \<Rightarrow> ('a \<Rightarrow> bool) \<Rightarrow>
    'i list \<Rightarrow> 'a flat_node \<Rightarrow> 'i list \<times> 'a flat_node list" where
  "flat_body g key keep acc cur = (acc @ [g cur],
     if keep (label (fn_node cur))
     then sibling_entries (fn_depth cur + 1) (\<lambda>isLast. fn_lines cur @ [\<not> isLast])
            (sort_key (key \<circ> label) (subs (fn_node cur)))
     else [])"

interpretation flat_walk: stack_walk "flat_body g key keep" "\<lambda>acc cur. acc @ [g cur]"
    "\<lambda>_ r. \<exists>t d lines l. r = annotate (shown key keep t) d lines l"
  for g :: "'a flat_node \<Rightarrow> 'i" and key :: "'a \<Rightarrow> int" and keep :: "'a \<Rightarrow> bool"
proof
  fix s :: "'i list" and x :: "'a flat_node" and rs
  assume "\<exists>t d lines l. Rose x rs = annotate (shown key keep t) d lines l"
  then obtain a ts d lines l where e: "Rose x rs = annotate (shown key keep (Rose a ts)) d lines l"
    by (metis rose.exhaust)
  let ?us = "if keep a then sort_key (key \<circ> label \<circ> label) (map (shown key keep) ts) else []"
  have x: "x = \<lparr>fn_node = Rose a ts, fn_depth = d, fn_lines = lines, fn_last = l\<rparr>"
    and rs: "rs = spread (d + 1) (\<lambda>isLast. lines @ [\<not> isLast]) (map annotate ?us)" using e by simp_all
  have "map label ?us = (if keep a then sort_key (key \<circ> label) ts else [])"
    by (simp add: shown_labels)
  then have "map label rs = (if keep a then sibling_entries (d + 1) (\<lambda>isLast. lines @ [\<not> isLast]) (sort_key (key \<circ> label) ts) else [])"
    unfolding rs spread_labels by (simp add: sibling_entries_def)
  then show "flat_body g key keep s x = (s @ [g x], map label rs)"
    unfolding flat_body_def x by simp
next
  fix s :: "'i list" and x :: "'a flat_node" and rs r
  assume "\<exists>t d lines l. Rose x rs = annotate (shown key keep t) d lines l" and r: "r \<in> set rs"
  then obtain a ts d lines l where e: "Rose x rs = annotate (shown key keep (Rose a ts)) d lines l"
    by (metis rose.exhaust)
  let ?us = "if keep a then sort_key (key \<circ> label \<circ> label) (map (shown key keep) ts) else []"
  have rs: "rs = spread (d + 1) (\<lambda>isLast. lines @ [\<not> isLast]) (map annotate ?us)" using e by simp
  obtain i where i: "i < length rs" "r = rs ! i" using r by (auto simp: in_set_conv_nth)
  then have "i < length ?us" using rs by simp
  then have "?us ! i \<in> set ?us" by (rule nth_mem)
  then obtain u where "?us ! i = shown key keep u" by (auto split: if_splits)
  with i \<open>i < length ?us\<close> rs show "\<exists>t d lines l. r = annotate (shown key keep t) d lines l"
    by (auto simp: nth_spread)
qed simp

lemma flat_loop:
  "stack_loop (flat_body g key keep) [] (sibling_entries 0 (\<lambda>_. []) (sort_key (key \<circ> label) rs)) =
     Some (map g (flat_listing key keep rs))"
proof -
  let ?us = "sort_key (key \<circ> label \<circ> label) (map (shown key keep) rs)"
  let ?fs = "spread 0 (\<lambda>_. []) (map annotate ?us)"
  have "\<exists>t d lines l. r = annotate (shown key keep t) d lines l" if r: "r \<in> set ?fs" for r
  proof -
    obtain i where i: "i < length ?fs" "r = ?fs ! i" using r by (metis in_set_conv_nth)
    then have "?us ! i \<in> set ?us" by (intro nth_mem) simp
    then obtain u where "?us ! i = shown key keep u" by auto
    with i show ?thesis by (auto simp: nth_spread)
  qed
  then have "stack_loop (flat_body g key keep) [] (map label ?fs) =
      Some (fold (\<lambda>cur acc. acc @ [g cur]) (forest_preorder ?fs) [])"
    by (intro flat_walk.loop_forest_all) blast
  then show ?thesis
    by (simp add: spread_labels shown_labels fold_snoc flat_listing_def)
qed

lemma preorder_annotate:
  "map fn_node (preorder (annotate u d lines l)) = preorder u"
proof (induction u arbitrary: d lines l)
  case (Rose b us)
  have "map (map fn_node \<circ> preorder) (spread (d + 1) (\<lambda>isLast. lines @ [\<not> isLast]) (map annotate us)) = map preorder us"
    by (rule nth_equalityI) (simp_all add: nth_spread Rose.IH)
  then show ?case by (simp add: map_concat o_def)
qed

lemma flat_listing_nodes:
  "map fn_node (flat_listing key keep rs) = forest_preorder (sort_key (key \<circ> label \<circ> label) (map (shown key keep) rs))"
proof -
  have "map (map fn_node \<circ> preorder) (spread d lines (map annotate us)) = map preorder us" for d lines and us :: "'a rose rose list"
    by (rule nth_equalityI) (simp_all add: nth_spread preorder_annotate)
  then show ?thesis by (simp add: flat_listing_def map_concat o_def)
qed

text \<open>The lines of an entry: one per ancestor, the last one for the entry's own later siblings.\<close>

definition lines_ok :: "'a flat_node \<Rightarrow> bool" where
  "lines_ok x \<longleftrightarrow> length (fn_lines x) = fn_depth x \<and> (fn_depth x > 0 \<longrightarrow> last (fn_lines x) = (\<not> fn_last x))"

lemma annotate_lines:
  "length lines = d \<Longrightarrow> d > 0 \<longrightarrow> last lines = (\<not> l) \<Longrightarrow> x \<in> set (preorder (annotate u d lines l)) \<Longrightarrow> lines_ok x"
proof (induction u arbitrary: d lines l)
  case (Rose b us)
  let ?fs = "spread (d + 1) (\<lambda>isLast. lines @ [\<not> isLast]) (map annotate us)"
  from Rose.prems(3) consider "x = \<lparr>fn_node = b, fn_depth = d, fn_lines = lines, fn_last = l\<rparr>"
    | r where "r \<in> set ?fs" "x \<in> set (preorder r)" by auto
  then show ?case
  proof cases
    case 1
    with Rose.prems show ?thesis by (simp add: lines_ok_def)
  next
    case 2
    then obtain i where i: "i < length us" "r = ?fs ! i" by (auto simp: in_set_conv_nth)
    show ?thesis
      by (rule Rose.IH [of "us ! i" "lines @ [\<not> (i = length us - 1)]" "d + 1" "i = length us - 1"])
        (use i 2 Rose.prems in \<open>auto simp: nth_spread\<close>)
  qed
qed

lemma flat_listing_lines: "x \<in> set (flat_listing key keep rs) \<Longrightarrow> lines_ok x"
proof -
  assume "x \<in> set (flat_listing key keep rs)"
  then obtain r where r: "r \<in> set (spread 0 (\<lambda>_. []) (map annotate (sort_key (key \<circ> label \<circ> label) (map (shown key keep) rs))))"
    "x \<in> set (preorder r)" by (auto simp: flat_listing_def)
  then obtain u l where "r = annotate u 0 [] l"
    by (auto simp: in_set_conv_nth nth_spread)
  with r(2) show ?thesis by (intro annotate_lines [of "[]" 0 l x u]) simp_all
qed

text \<open>
  Where a node stands in a forest: for every level from the root down to the node, its place among the
  siblings there and how many there are. A visible row is determined by its node and the place of the node.
\<close>

primrec placed :: "'b rose \<Rightarrow> (nat \<times> nat) list \<Rightarrow> ('b \<times> (nat \<times> nat) list) list" where
  "placed (Rose b us) = (\<lambda>p. (b, p) #
     concat (map2 (\<lambda>i f. f (p @ [(i, length us)])) [0..<length us] (map placed us)))"

definition places :: "'b rose list \<Rightarrow> ('b \<times> (nat \<times> nat) list) list" where
  "places us = concat (map2 (\<lambda>i u. placed u [(i, length us)]) [0..<length us] us)"

definition sibling_below :: "nat \<times> nat \<Rightarrow> bool" where
  "sibling_below q \<longleftrightarrow> fst q + 1 < snd q"

definition row_at :: "'a rose \<times> (nat \<times> nat) list \<Rightarrow> 'a flat_node" where
  "row_at x = \<lparr>fn_node = fst x, fn_depth = length (snd x) - 1, fn_lines = map sibling_below (tl (snd x)),
     fn_last = (\<not> sibling_below (last (snd x)))\<rparr>"

definition visible_forest :: "('a \<Rightarrow> string) \<Rightarrow> ('a \<Rightarrow> int option) \<Rightarrow> string set \<Rightarrow> 'a rose list \<Rightarrow> 'a rose rose list" where
  "visible_forest ident startTime collapsedNodes rs = sort_key (start_or_zero startTime \<circ> label)
     (map (shown (\<lambda>a. case startTime a of None \<Rightarrow> 0 | Some s \<Rightarrow> s) (\<lambda>a. ident a \<notin> collapsedNodes)) rs)"

lemma map2_places: "map2 f [0..<length xs] xs = map (\<lambda>i. f i (xs ! i)) [0..<length xs]"
  by (rule nth_equalityI) simp_all

lemma last_iff_none_below: "i < n \<Longrightarrow> (i = n - 1) = (\<not> sibling_below (i, n))"
  by (auto simp: sibling_below_def)

lemma annotate_places:
  "p \<noteq> [] \<Longrightarrow> preorder (annotate u (length p - 1) (map sibling_below (tl p)) (\<not> sibling_below (last p))) =
     map row_at (placed u p)"
proof (induction u arbitrary: p)
  case (Rose b us)
  let ?fs = "spread (length p - 1 + 1) (\<lambda>isLast. map sibling_below (tl p) @ [\<not> isLast]) (map annotate us)"
  have "preorder (?fs ! i) = map row_at (placed (us ! i) (p @ [(i, length us)]))" if i: "i < length us" for i
  proof -
    have "?fs ! i = annotate (us ! i) (length (p @ [(i, length us)]) - 1)
        (map sibling_below (tl (p @ [(i, length us)]))) (\<not> sibling_below (last (p @ [(i, length us)])))"
      using Rose.prems i last_iff_none_below [OF i] by (simp add: nth_spread)
    then show ?thesis using Rose.IH [OF nth_mem [OF i], of "p @ [(i, length us)]"] by simp
  qed
  then have "map preorder ?fs = map (\<lambda>i. map row_at (placed (us ! i) (p @ [(i, length us)]))) [0..<length us]"
    by (intro nth_equalityI) simp_all
  moreover have "map2 (\<lambda>i f. f (p @ [(i, length us)])) [0..<length us] (map placed us) =
      map (\<lambda>i. placed (us ! i) (p @ [(i, length us)])) [0..<length us]"
    by (rule nth_equalityI) simp_all
  moreover have "row_at (b, p) = \<lparr>fn_node = b, fn_depth = length p - 1,
      fn_lines = map sibling_below (tl p), fn_last = (\<not> sibling_below (last p))\<rparr>"
    by (simp add: row_at_def)
  ultimately show ?case by (simp add: map_concat o_def)
qed

lemma flat_listing_places:
  "flat_listing key keep rs = map row_at (places (sort_key (key \<circ> label \<circ> label) (map (shown key keep) rs)))"
proof -
  let ?us = "sort_key (key \<circ> label \<circ> label) (map (shown key keep) rs)"
  let ?fs = "spread 0 (\<lambda>_. []) (map annotate ?us)"
  have "preorder (?fs ! i) = map row_at (placed (?us ! i) [(i, length ?us)])" if i: "i < length ?us" for i
    using annotate_places [of "[(i, length ?us)]" "?us ! i"] i last_iff_none_below [OF i] by (simp add: nth_spread)
  then have "map preorder ?fs = map (\<lambda>i. map row_at (placed (?us ! i) [(i, length ?us)])) [0..<length ?us]"
    by (intro nth_equalityI) simp_all
  then show ?thesis unfolding flat_listing_def places_def map2_places by (simp add: map_concat o_def)
qed

lemma flattenTree_listing:
  "flattenTree ident startTime rs collapsedNodes =
     Some (flat_listing (\<lambda>a. case startTime a of None \<Rightarrow> 0 | Some s \<Rightarrow> s) (\<lambda>a. ident a \<notin> collapsedNodes) rs)"
proof -
  let ?key = "\<lambda>a. case startTime a of None \<Rightarrow> 0 | Some s \<Rightarrow> s"
  have key: "start_or_zero startTime = ?key \<circ> label" by (simp add: fun_eq_iff start_or_zero_def)
  have "flatten_body ident startTime collapsedNodes = flat_body id ?key (\<lambda>a. ident a \<notin> collapsedNodes)"
    by (auto simp: fun_eq_iff flatten_body_def flat_body_def key sibling_entries_def)
  then show ?thesis
    using flat_loop [of id ?key "\<lambda>a. ident a \<notin> collapsedNodes" rs]
    by (auto simp: flattenTree_def Let_def key flat_listing_def spread_def)
qed

definition timeline_item_of :: "int \<Rightarrow> rat \<Rightarrow> rat \<Rightarrow> 'd node_info flat_node \<Rightarrow> 'd timeline_item" where
  "timeline_item_of s sp w x = \<lparr>ti_node = fn_node x, ti_depth = fn_depth x, ti_lines = fn_lines x,
     ti_last = fn_last x, metrics = timeline_metrics_of s sp w (label (fn_node x))\<rparr>"

lemma timeline_listing:
  fixes rs :: "'d trace_node list"
  shows "flattenTreeWithTimelineMetrics rs C s sp w =
     Some (map (timeline_item_of s sp w) (flat_listing n_start (\<lambda>a. n_id a \<notin> C) rs))"
proof -
  have "timeline_body C s sp w = (flat_body (timeline_item_of s sp w) n_start (\<lambda>a. n_id a \<notin> C) ::
      'd timeline_item list \<Rightarrow> _)"
    by (auto simp: fun_eq_iff timeline_body_def flat_body_def timeline_item_of_def sibling_entries_def)
  then show ?thesis
    using flat_loop [of "timeline_item_of s sp w" n_start "\<lambda>a. n_id a \<notin> C" rs]
    by (auto simp: flattenTreeWithTimelineMetrics_def flat_listing_def spread_def)
qed

definition log_item_of :: "'d node_info flat_node \<Rightarrow> 'd log_item" where
  "log_item_of x = \<lparr>li_node = fn_node x, li_lines = fn_lines x, li_last = fn_last x\<rparr>"

definition below_trace_root :: "'d trace_node list \<Rightarrow> 'd trace_node list" where
  "below_trace_root rs = (if length rs = 1 \<and> n_type (label (rs ! 0)) = ''TRACE'' then subs (rs ! 0) else rs)"

lemma tree_order_listing:
  fixes rs :: "'d trace_node list"
  shows "flattenTreeOrder rs = Some (map log_item_of (flat_listing n_start (\<lambda>_. True) (below_trace_root rs)))"
proof -
  have "tree_order_body = (flat_body log_item_of n_start (\<lambda>_. True) :: 'd log_item list \<Rightarrow> _)"
    by (auto simp: fun_eq_iff tree_order_body_def flat_body_def log_item_of_def sibling_entries_def)
  then show ?thesis
    using flat_loop [of log_item_of n_start "\<lambda>_. True" "below_trace_root rs"]
    by (auto simp: flattenTreeOrder_def below_trace_root_def flat_listing_def spread_def Let_def)
qed

lemma mset_concat_cong: "mset xs = mset ys \<Longrightarrow> mset (concat (map f xs)) = mset (concat (map f ys))"
  by (simp add: mset_concat_map)

lemma shown_all: "mset (preorder (shown key (\<lambda>_. True) t)) = mset (nodes_in t)"
proof (induction t)
  case (Rose a ts)
  have "mset (forest_preorder (sort_key (key \<circ> label \<circ> label) (map (shown key (\<lambda>_. True)) ts))) =
      mset (forest_preorder (map (shown key (\<lambda>_. True)) ts))" by (rule mset_concat_cong) simp
  also have "\<dots> = mset (concat (map nodes_in ts))"
    unfolding mset_concat_map by (rule arg_cong [where f = sum_mset])
      (auto simp: image_mset.compositionality intro!: image_mset_cong Rose.IH)
  finally show ?case by simp
qed

lemma flat_listing_all: "mset (map fn_node (flat_listing key (\<lambda>_. True) rs)) = mset (concat (map nodes_in rs))"
proof -
  have "mset (forest_preorder (sort_key (key \<circ> label \<circ> label) (map (shown key (\<lambda>_. True)) rs))) =
      mset (forest_preorder (map (shown key (\<lambda>_. True)) rs))" by (rule mset_concat_cong) simp
  also have "\<dots> = mset (concat (map nodes_in rs))"
    by (simp add: mset_concat_map image_mset.compositionality o_def shown_all)
  finally show ?thesis by (simp only: flat_listing_nodes)
qed

interpretation collect_walk: stack_walk collect_body
    "\<lambda>os t. if n_type (label t) \<noteq> ''TRACE'' then os @ [t] else os" "\<lambda>_ r. r = self_rose (label r)"
proof
  fix s :: "'d trace_node list" and a :: "'d trace_node" and ts
  assume "Rose a ts = self_rose (label (Rose a ts))"
  then show "collect_body s a = (if n_type (label a) \<noteq> ''TRACE'' then s @ [a] else s, map label ts)"
    by (cases a) (simp add: collect_body_def map_idI)
next
  fix s :: "'d trace_node list" and a :: "'d trace_node" and ts t
  assume e: "Rose a ts = self_rose (label (Rose a ts))" and t: "t \<in> set ts"
  obtain b us where "a = Rose b us" by (cases a)
  with e t show "t = self_rose (label t)" by auto
qed simp

lemma collect_listing:
  "collectObservations rs = Some (filter (\<lambda>t. n_type (label t) \<noteq> ''TRACE'') (concat (map nodes_in (rev rs))))"
proof -
  have f: "fold (\<lambda>t os. if n_type (label t) \<noteq> ''TRACE'' then os @ [t] else os) xs os =
      os @ filter (\<lambda>t. n_type (label t) \<noteq> ''TRACE'') xs" for xs os :: "'a trace_node list"
    by (induction xs arbitrary: os) auto
  have "stack_loop collect_body [] (map label (map self_rose (rev rs))) =
      Some (fold (\<lambda>t os. if n_type (label t) \<noteq> ''TRACE'' then os @ [t] else os) (forest_preorder (map self_rose (rev rs))) [])"
    by (rule collect_walk.loop_forest_all) simp
  moreover have "map label (map self_rose (rev rs)) = rev rs" by (simp add: map_idI)
  moreover have "forest_preorder (map self_rose (rev rs)) = concat (map nodes_in (rev rs))"
    by (simp add: preorder_self_rose o_def)
  ultimately show ?thesis by (auto simp: collectObservations_def f)
qed

interpretation descendant_walk: stack_walk descendant_body "\<lambda>ids t. ids @ [n_id (label t)]"
    "\<lambda>_ r. r = mirror (self_rose (label r))"
proof
  fix s and a :: "'d trace_node" and ts
  assume "Rose a ts = mirror (self_rose (label (Rose a ts)))"
  then show "descendant_body s a = (s @ [n_id (label a)], map label ts)"
    by (cases a) (simp add: descendant_body_def rev_map [symmetric] map_idI)
next
  fix s :: "string list" and a :: "'d trace_node" and ts t
  assume e: "Rose a ts = mirror (self_rose (label (Rose a ts)))" and t: "t \<in> set ts"
  obtain b us where "a = Rose b us" by (cases a)
  with e have "ts = rev (map mirror (map self_rose us))" by simp
  with t show "t = mirror (self_rose (label t))" by auto
qed simp

lemma mset_preorder_mirror: "mset (preorder (mirror t)) = mset (preorder t)"
proof (induction t)
  case (Rose a ts)
  have "mset (concat (map preorder (rev (map mirror ts)))) = mset (concat (map preorder (map mirror ts)))"
    by (rule mset_concat_cong) simp
  also have "\<dots> = mset (concat (map preorder ts))"
    unfolding mset_concat_map by (rule arg_cong [where f = sum_mset])
      (auto simp: image_mset.compositionality intro!: image_mset_cong Rose.IH)
  finally show ?case by simp
qed

lemma descendant_listing:
  "\<exists>ids. getDescendantIds t = Some ids \<and> mset ids = mset (map (n_id \<circ> label) (tl (nodes_in t)))"
proof -
  obtain a ts where t: "t = Rose a ts" by (cases t)
  let ?rs = "rev (map (mirror \<circ> self_rose) ts)"
  have "stack_loop descendant_body [] (map label ?rs) =
      Some (fold (\<lambda>t ids. ids @ [n_id (label t)]) (forest_preorder ?rs) [])"
    by (rule descendant_walk.loop_forest_all) auto
  moreover have "map label ?rs = rev ts" by (simp add: rev_map [symmetric] map_idI)
  moreover have "mset (forest_preorder ?rs) = mset (concat (map nodes_in ts))"
  proof -
    have "mset (forest_preorder ?rs) = mset (forest_preorder (map (mirror \<circ> self_rose) ts))"
      by (rule mset_concat_cong) simp
    also have "\<dots> = mset (concat (map nodes_in ts))"
      by (simp add: mset_concat_map image_mset.compositionality o_def mset_preorder_mirror preorder_self_rose)
    finally show ?thesis .
  qed
  ultimately show ?thesis by (simp add: getDescendantIds_def t fold_snoc o_def)
qed

section \<open>Aggregates\<close>

definition detail_sum :: "string \<Rightarrow> (string \<times> rat) list option \<Rightarrow> rat" where
  "detail_sum key ds = (case ds of None \<Rightarrow> 0 | Some xs \<Rightarrow> sum_list (map snd (filter (\<lambda>(k, _). k = key) xs)))"

definition detail :: "string \<Rightarrow> (string \<times> rat) list \<Rightarrow> rat" where
  "detail key acc = (case map_of acc key of None \<Rightarrow> 0 | Some x \<Rightarrow> x)"

lemma merge_detail: "detail key (merge_details ds acc) = detail key acc + detail_sum key ds"
proof -
  have "detail key (fold (\<lambda>(key, v) acc. rec_set key ((case map_of acc key of None \<Rightarrow> 0 | Some x \<Rightarrow> x) + v) acc) xs acc) =
      detail key acc + sum_list (map snd (filter (\<lambda>(k, _). k = key) xs))" for xs
  proof (induction xs arbitrary: acc)
    case (Cons x xs)
    obtain k v where "x = (k, v)" by (cases x)
    with Cons show ?case by (simp add: detail_def)
  qed simp
  then show ?thesis by (simp add: merge_details_def detail_sum_def split: option.split)
qed

lemma no_costs: "\<forall>x \<in> set obs. ob_totalCost x = None \<Longrightarrow> sum_list (map (or_zero \<circ> ob_totalCost) obs) = 0"
  by (induction obs) (simp_all add: or_zero_def)

lemma aggregate_fold:
  "ag_totalCost (fold aggregate_step obs a) =
     (if \<exists>x \<in> set obs. ob_totalCost x \<noteq> None
      then Some (or_zero (ag_totalCost a) + sum_list (map (or_zero \<circ> ob_totalCost) obs)) else ag_totalCost a)"
  "detail key (ag_costDetails (fold aggregate_step obs a)) =
     detail key (ag_costDetails a) + sum_list (map (detail_sum key \<circ> mo_costDetails) obs)"
  "ag_totalUsage (fold aggregate_step obs a) =
     ag_totalUsage a + sum_list (map (or_zero \<circ> ob_totalUsage) (filter (isGenerationLike \<circ> ob_type) obs))"
  "ag_inputUsage (fold aggregate_step obs a) =
     ag_inputUsage a + sum_list (map (or_zero \<circ> ob_inputUsage) (filter (isGenerationLike \<circ> ob_type) obs))"
  "ag_outputUsage (fold aggregate_step obs a) =
     ag_outputUsage a + sum_list (map (or_zero \<circ> ob_outputUsage) (filter (isGenerationLike \<circ> ob_type) obs))"
  "detail key (ag_usageDetails (fold aggregate_step obs a)) =
     detail key (ag_usageDetails a) + sum_list (map (detail_sum key \<circ> mo_usageDetails) (filter (isGenerationLike \<circ> ob_type) obs))"
  "ag_hasGenerationLike (fold aggregate_step obs a) \<longleftrightarrow>
     ag_hasGenerationLike a \<or> (\<exists>x \<in> set obs. isGenerationLike (ob_type x))"
  by (induction obs arbitrary: a)
    (auto simp: aggregate_step_def Let_def merge_detail or_zero_def o_def
      dest!: no_costs [unfolded o_def or_zero_def] split: option.split)

section \<open>Properties\<close>

text \<open>
  C28: flattening a tree ends and lists exactly the visible nodes, in pre-order with siblings sorted by start
  time. Every row is the one its node and the place of the node determine: its depth is the number of
  ancestors, it is a last sibling exactly when no sibling stands below it, and there is one tree line per
  level under the root's, drawn exactly when the ancestor on that level (on the last one the node itself) has
  a sibling below it. With nothing collapsed every node of the tree is listed once.
\<close>

theorem flattenTree_lists_visible:
  "\<exists>L. flattenTree ident startTime rs collapsedNodes = Some L \<and>
     L = map row_at (places (visible_forest ident startTime collapsedNodes rs)) \<and>
     map fn_node L = forest_preorder (visible_forest ident startTime collapsedNodes rs) \<and>
     (\<forall>x \<in> set L. length (fn_lines x) = fn_depth x \<and> (fn_depth x > 0 \<longrightarrow> last (fn_lines x) = (\<not> fn_last x))) \<and>
     (collapsedNodes = {} \<longrightarrow> mset (map fn_node L) = mset (concat (map nodes_in rs)))"
proof -
  let ?key = "\<lambda>a. case startTime a of None \<Rightarrow> 0 | Some s \<Rightarrow> s"
  let ?L = "flat_listing ?key (\<lambda>a. ident a \<notin> collapsedNodes) rs"
  have key: "start_or_zero startTime \<circ> label = ?key \<circ> label \<circ> label" by (simp add: fun_eq_iff start_or_zero_def)
  have "?L = map row_at (places (visible_forest ident startTime collapsedNodes rs))"
    unfolding visible_forest_def key by (rule flat_listing_places)
  moreover have "map fn_node ?L = forest_preorder (visible_forest ident startTime collapsedNodes rs)"
    unfolding visible_forest_def key by (rule flat_listing_nodes)
  moreover have "length (fn_lines x) = fn_depth x \<and> (fn_depth x > 0 \<longrightarrow> last (fn_lines x) = (\<not> fn_last x))"
    if "x \<in> set ?L" for x using flat_listing_lines [OF that] by (simp add: lines_ok_def)
  moreover have "mset (map fn_node ?L) = mset (concat (map nodes_in rs))" if "collapsedNodes = {}"
    using flat_listing_all [of ?key rs] that by simp
  ultimately show ?thesis using flattenTree_listing by blast
qed

theorem flattenTree_lists_visible_witness:
  "\<exists>L. flattenTree id (\<lambda>_. None) [Rose ''a'' [Rose ''b'' []]] {} = Some L \<and> length L = 2 \<and>
     (\<forall>x \<in> set L. length (fn_lines x) = fn_depth x)"
proof -
  obtain L where L: "flattenTree id (\<lambda>_. None) [Rose ''a'' [Rose ''b'' []]] {} = Some L"
    "\<forall>x \<in> set L. length (fn_lines x) = fn_depth x"
    "mset (map fn_node L) = mset (concat (map nodes_in [Rose ''a'' [Rose ''b'' []]]))"
    using flattenTree_lists_visible [of id "\<lambda>_. None" "[Rose ''a'' [Rose ''b'' []]]" "{}"] by blast
  have "length L = 2" using arg_cong [OF L(3), of size] by simp
  with L(1,2) show ?thesis by blast
qed

text \<open>
  the three renderings agree: the timeline lists the entries of \<open>flattenTree\<close> with their
  metrics, and the log view's tree order lists those of \<open>flattenTree\<close> with nothing collapsed,
  starting below the TRACE node when there is one.
\<close>

theorem flattenings_agree:
  "flattenTreeWithTimelineMetrics rs C s sp w =
     map_option (map (timeline_item_of s sp w)) (flattenTree n_id (Some \<circ> n_start) rs C) \<and>
   flattenTreeOrder rs2 = map_option (map log_item_of) (flattenTree n_id (Some \<circ> n_start) (below_trace_root rs2) {})"
  by (simp_all add: timeline_listing tree_order_listing flattenTree_listing)

text \<open>
  the chronological log lists every observation of the tree exactly once and never the TRACE
  node, sorted by start time, without lines, and marks exactly the last row as last.
\<close>

theorem chronological_log:
  "\<exists>L. flattenChronological rs = Some L \<and>
     mset (map li_node L) = mset (filter (\<lambda>t. n_type (label t) \<noteq> ''TRACE'') (concat (map nodes_in rs))) \<and>
     sorted (map (n_start \<circ> label \<circ> li_node) L) \<and>
     map li_lines L = replicate (length L) [] \<and> map li_last L = last_flags (length L)"
proof -
  let ?P = "\<lambda>t. n_type (label t) \<noteq> ''TRACE''"
  define os where "os = sort_key (n_start \<circ> label) (filter ?P (concat (map nodes_in (rev rs))))"
  let ?L = "map (\<lambda>i. \<lparr>li_node = os ! i, li_lines = [], li_last = (i = length os - 1)\<rparr>) [0..<length os]"
  have nodes: "map li_node ?L = os" by (rule nth_equalityI) simp_all
  have "mset (concat (map nodes_in (rev rs))) = mset (concat (map nodes_in rs))" by (rule mset_concat_cong) simp
  then have m: "mset os = mset (filter ?P (concat (map nodes_in rs)))" by (simp only: os_def mset_sort mset_filter)
  have "map (n_start \<circ> label \<circ> li_node) ?L = map (n_start \<circ> label) (map li_node ?L)" by simp
  then have srt: "sorted (map (n_start \<circ> label \<circ> li_node) ?L)" unfolding nodes by (simp only: os_def sorted_sort_key)
  have "flattenChronological rs = Some ?L" by (simp add: flattenChronological_def collect_listing os_def Let_def)
  moreover have "map li_lines ?L = replicate (length ?L) []" by (rule nth_equalityI) simp_all
  moreover have "map li_last ?L = last_flags (length ?L)" by (simp add: last_flags_def o_def)
  moreover have "mset (map li_node ?L) = mset (filter ?P (concat (map nodes_in rs)))" unfolding nodes by (rule m)
  ultimately show ?thesis using srt by (intro exI [of _ ?L] conjI)
qed

text \<open>
  a search of the log keeps exactly the rows whose name, type or id contains the trimmed query
  whatever the case, keeps their order, and a blank query keeps everything.
\<close>

theorem log_search:
  "filterBySearch items query = filter (\<lambda>item. js_trim query = [] \<or>
     (\<exists>s \<in> {n_name (label (li_node item)), n_type (label (li_node item)), n_id (label (li_node item))}.
        \<exists>a b. js_lower s = a @ js_trim (js_lower query) @ b)) items"
  by (auto simp: filterBySearch_def Let_def js_includes_iff intro!: filter_cong)

text \<open>
  the time axis step is one of the predefined steps and, for a positive width and a trace that
  the largest step can cover, is the smallest predefined one whose markers are at least
  \<open>STEP_SIZE\<close> pixels apart.
\<close>

theorem step_size_bounds:
  assumes "0 < scaleWidth" "traceDuration * STEP_SIZE \<le> 500 * scaleWidth"
  shows "calculateStepSize traceDuration scaleWidth \<in> set PREDEFINED_STEP_SIZES \<and>
    traceDuration * STEP_SIZE \<le> calculateStepSize traceDuration scaleWidth * scaleWidth \<and>
    (\<forall>step \<in> set PREDEFINED_STEP_SIZES. traceDuration * STEP_SIZE \<le> step * scaleWidth \<longrightarrow>
       calculateStepSize traceDuration scaleWidth \<le> step)"
proof -
  let ?c = "traceDuration / (scaleWidth / STEP_SIZE)"
  have iff: "?c \<le> step \<longleftrightarrow> traceDuration * STEP_SIZE \<le> step * scaleWidth" for step
    using assms(1) by (simp add: STEP_SIZE_def field_simps)
  have srt: "sorted PREDEFINED_STEP_SIZES" by (simp add: PREDEFINED_STEP_SIZES_def)
  have "500 \<in> set PREDEFINED_STEP_SIZES" "?c \<le> 500" using assms(2) iff by (simp_all add: PREDEFINED_STEP_SIZES_def)
  then obtain step where step: "find (\<lambda>step. ?c \<le> step) PREDEFINED_STEP_SIZES = Some step"
    by (metis find_None_iff not_Some_eq)
  have least: "\<lbrakk>find (\<lambda>s. c \<le> s) xs = Some x; sorted xs\<rbrakk> \<Longrightarrow> x \<in> set xs \<and> c \<le> x \<and> (\<forall>y \<in> set xs. c \<le> y \<longrightarrow> x \<le> y)"
    for c x :: rat and xs
    by (induction xs) (auto split: if_splits)
  have "calculateStepSize traceDuration scaleWidth = step"
    using step assms(1) by (simp add: calculateStepSize_def js_div_def STEP_SIZE_def)
  with least [OF step srt, unfolded iff] show ?thesis by simp
qed

theorem step_size_bounds_witness:
  "calculateStepSize 10 900 = 5/4 \<and> 5/4 \<in> set PREDEFINED_STEP_SIZES \<and> 10 * STEP_SIZE \<le> 5/4 * 900"
proof -
  have e: "calculateStepSize 10 900 = 5/4"
    by (simp add: calculateStepSize_def js_div_def STEP_SIZE_def PREDEFINED_STEP_SIZES_def)
  have "0 < (900 :: rat)" "10 * STEP_SIZE \<le> 500 * 900" by (simp_all add: STEP_SIZE_def)
  from step_size_bounds [OF this] show ?thesis unfolding e by blast
qed

text \<open>
  the metrics of a trace are sums over its observations: the total cost over those that have
  one (none if none has), every cost detail over all, usage and every usage detail over the
  generation-like ones only.
\<close>

theorem aggregate_metrics_sums:
  "case aggregateTraceMetrics obs of (a, costDetails, usageDetails) \<Rightarrow>
     ag_totalCost a = (if \<exists>x \<in> set obs. ob_totalCost x \<noteq> None
       then Some (sum_list (map (or_zero \<circ> ob_totalCost) obs)) else None) \<and>
     detail key (case costDetails of None \<Rightarrow> [] | Some ds \<Rightarrow> ds) = sum_list (map (detail_sum key \<circ> mo_costDetails) obs) \<and>
     ag_totalUsage a = sum_list (map (or_zero \<circ> ob_totalUsage) (filter (isGenerationLike \<circ> ob_type) obs)) \<and>
     ag_inputUsage a = sum_list (map (or_zero \<circ> ob_inputUsage) (filter (isGenerationLike \<circ> ob_type) obs)) \<and>
     ag_outputUsage a = sum_list (map (or_zero \<circ> ob_outputUsage) (filter (isGenerationLike \<circ> ob_type) obs)) \<and>
     detail key (case usageDetails of None \<Rightarrow> [] | Some ds \<Rightarrow> ds) =
       sum_list (map (detail_sum key \<circ> mo_usageDetails) (filter (isGenerationLike \<circ> ob_type) obs)) \<and>
     (ag_hasGenerationLike a \<longleftrightarrow> (\<exists>x \<in> set obs. isGenerationLike (ob_type x)))"
proof -
  let ?a = "fold aggregate_step obs \<lparr>ag_totalCost = None, ag_costDetails = [], ag_totalUsage = 0,
      ag_inputUsage = 0, ag_outputUsage = 0, ag_usageDetails = [], ag_hasGenerationLike = False\<rparr>"
  have e: "(case if length ds > 0 then Some ds else None of None \<Rightarrow> [] | Some ds \<Rightarrow> ds) = ds" for ds :: "(string \<times> rat) list"
    by simp
  have z: "detail key [] = 0" "or_zero None = 0" by (simp_all add: detail_def or_zero_def)
  show ?thesis
    unfolding aggregateTraceMetrics_def Let_def prod.case e aggregate_fold [where obs = obs] by (simp add: z)
qed

text \<open>
  the descendants of a node are found by a loop that ends, each exactly once, without the node
  itself.
\<close>

theorem descendants_complete:
  "\<exists>ids. getDescendantIds t = Some ids \<and> mset ids + {#n_id (label t)#} = mset (map (n_id \<circ> label) (nodes_in t))"
proof -
  have "nodes_in t = t # tl (nodes_in t)" by (cases t) simp
  then have "mset (map (n_id \<circ> label) (nodes_in t)) = mset (map (n_id \<circ> label) (tl (nodes_in t))) + {#n_id (label t)#}"
    by (metis add_mset_add_single comp_apply list.simps(9) mset.simps(2))
  then show ?thesis using descendant_listing [of t] by auto
qed

end
