(* ===== verification/Expansion_Keys.thy ===== *)
theory Expansion_Keys imports Prelude begin

text \<open>
  The keys under which the JSON expansion state of the trace view is stored,
  \<^verbatim>\<open>trace2/contexts/json-expansion-utils.ts\<close>. An object is the list of its entries in insertion
  order, a \<open>Map\<close> likewise; an actual or stored state is \<open>Inl\<close> of a boolean for everything or \<open>Inr\<close>
  of one flag per key.
\<close>

type_synonym expansion = "bool + (string \<times> bool) list"

section \<open>Normalising a key\<close>

definition hyphens_to_dots :: "string \<Rightarrow> string" where
  "hyphens_to_dots key = map (\<lambda>c. if c = CHR ''-'' then CHR ''.'' else c) key"

definition hex_char :: "char \<Rightarrow> bool" where
  "hex_char c \<longleftrightarrow> (let n = (of_char c :: nat) in 97 \<le> n \<and> n \<le> 102 \<or> 48 \<le> n \<and> n \<le> 57)"

text \<open>What follows a match of \<open>\s*\([a-f0-9]{8}\)\<close> at the start of the string.\<close>

definition after_id :: "string \<Rightarrow> string option" where
  "after_id s = (let r = dropWhile js_space s in
     if length r \<ge> 10 \<and> r ! 0 = CHR ''('' \<and> list_all hex_char (take 8 (drop 1 r)) \<and> r ! 9 = CHR '')''
     then Some (drop 10 r) else None)"

text \<open>Replacing with the empty string at the leftmost match; the expression has no \<open>g\<close> flag.\<close>

fun remove_id :: "string \<Rightarrow> string" where
  "remove_id [] = []"
| "remove_id (c # cs) = (case after_id (c # cs) of Some rest \<Rightarrow> rest | None \<Rightarrow> c # remove_id cs)"

definition normalizeKey :: "string \<Rightarrow> string" where
  "normalizeKey key = remove_id (hyphens_to_dots key)"

section \<open>Storing and restoring a state\<close>

definition normalizeExpansionState :: "expansion \<Rightarrow> expansion" where
  "normalizeExpansionState actualState = (case actualState of
       Inl b \<Rightarrow> Inl b
     | Inr entries \<Rightarrow> Inr (fold (\<lambda>(key, v) normalized. rec_set (normalizeKey key) v normalized) entries []))"

definition normalized_to_actual :: "string list \<Rightarrow> (string \<times> string list) list" where
  "normalized_to_actual observationKeys =
     fold (\<lambda>actualKey m.
         (let normalized = normalizeKey actualKey;
              m1 = (if map_of m normalized = None then rec_set normalized [] m else m)
          in rec_set normalized (the (map_of m1 normalized) @ [hyphens_to_dots actualKey]) m1))
       observationKeys []"

definition denormalize_entry :: "(string \<times> string list) list \<Rightarrow> string \<times> bool \<Rightarrow> (string \<times> bool) list \<Rightarrow> (string \<times> bool) list" where
  "denormalize_entry m e denormalized = (case e of (normalizedKey, v) \<Rightarrow>
     (case map_of m normalizedKey of
        Some actualKeys \<Rightarrow> fold (\<lambda>actualKey d. rec_set actualKey v d) actualKeys denormalized
      | None \<Rightarrow>
          (let parts = js_split (CHR ''.'') normalizedKey;
               topLevelNormalized = parts ! 0;
               restOfPath = js_join ''.'' (drop 1 parts);
               actualTopLevelKeys = (case map_of m topLevelNormalized of None \<Rightarrow> [] | Some ks \<Rightarrow> ks)
           in fold (\<lambda>actualTopLevel d.
                rec_set (if restOfPath \<noteq> [] then actualTopLevel @ ''.'' @ restOfPath else actualTopLevel) v d)
                actualTopLevelKeys denormalized)))"

definition denormalizeExpansionState :: "expansion \<Rightarrow> string list \<Rightarrow> expansion" where
  "denormalizeExpansionState normalizedState observationKeys = (case normalizedState of
       Inl b \<Rightarrow> Inl b
     | Inr entries \<Rightarrow> Inr (fold (denormalize_entry (normalized_to_actual observationKeys)) entries []))"

section \<open>Lemmas\<close>

lemma hyphens_idem [simp]: "hyphens_to_dots (hyphens_to_dots k) = hyphens_to_dots k"
  by (simp add: hyphens_to_dots_def)

lemma normalize_dotted [simp]: "normalizeKey (hyphens_to_dots k) = normalizeKey k"
  by (simp add: normalizeKey_def)

lemma fold_rec_set_map_of:
  "map_of (fold (\<lambda>(k, v) r. rec_set (f k) v r) es r0) =
     map_of r0 ++ map_of (rev (map (\<lambda>(k, v). (f k, v)) es))"
  by (induction es arbitrary: r0) (auto simp: map_add_def fun_eq_iff split: option.split)

lemma map_of_rev: "distinct (map fst xs) \<Longrightarrow> map_of (rev xs) = map_of xs"
  by (subst map_of_inject_set) (simp_all flip: rev_map)

text \<open>The actual keys of a normal form, in order.\<close>

lemma normalized_to_actual_lookup:
  "map_of (normalized_to_actual ks) n =
     (let xs = map hyphens_to_dots (filter (\<lambda>k. normalizeKey k = n) ks)
      in if xs = [] then None else Some xs)"
proof -
  let ?add = "\<lambda>actualKey m. (let normalized = normalizeKey actualKey;
              m1 = (if map_of m normalized = None then rec_set normalized [] m else m)
          in rec_set normalized (the (map_of m1 normalized) @ [hyphens_to_dots actualKey]) m1)"
  have step: "map_of (?add k m) n = (if normalizeKey k = n
      then Some ((case map_of m n of None \<Rightarrow> [] | Some xs \<Rightarrow> xs) @ [hyphens_to_dots k]) else map_of m n)" for k m
    by (auto simp: Let_def split: option.split)
  have "map_of (fold ?add ks m) n =
      (let xs = map hyphens_to_dots (filter (\<lambda>k. normalizeKey k = n) ks)
       in if xs = [] then map_of m n else Some ((case map_of m n of None \<Rightarrow> [] | Some ys \<Rightarrow> ys) @ xs))" for m
  proof (induction ks arbitrary: m)
    case (Cons k ks)
    show ?case unfolding fold.simps comp_apply Cons.IH step by (auto simp: Let_def split: option.split)
  qed simp
  from this [of "[]"] show ?thesis by (simp add: normalized_to_actual_def)
qed

lemma fold_rec_set_const:
  "map_of (fold (\<lambda>k d. rec_set k v d) ks d0) = (\<lambda>k. if k \<in> set ks then Some v else map_of d0 k)"
  by (induction ks arbitrary: d0) (auto simp: fun_eq_iff)

text \<open>Restoring a stored state whose keys are all normal forms of observations.\<close>

lemma restore_lookup:
  assumes "\<forall>(n, v) \<in> set es. \<exists>k \<in> set ks. normalizeKey k = n"
  shows "map_of (fold (denormalize_entry (normalized_to_actual ks)) es d0) a =
    (case map_of (rev es) (normalizeKey a) of
       Some v \<Rightarrow> if a \<in> hyphens_to_dots ` set ks then Some v else map_of d0 a
     | None \<Rightarrow> map_of d0 a)"
  using assms
proof (induction es arbitrary: d0)
  case Nil
  then show ?case by simp
next
  case (Cons e es)
  obtain n v where e: "e = (n, v)" by (cases e)
  let ?xs = "map hyphens_to_dots (filter (\<lambda>k. normalizeKey k = n) ks)"
  have "?xs \<noteq> []" using Cons.prems e by (auto simp: filter_empty_conv)
  then have look: "map_of (normalized_to_actual ks) n = Some ?xs"
    unfolding normalized_to_actual_lookup Let_def by simp
  have "a \<in> set ?xs \<longleftrightarrow> normalizeKey a = n \<and> a \<in> hyphens_to_dots ` set ks"
    by (auto simp: image_iff)
  then have d: "map_of (denormalize_entry (normalized_to_actual ks) e d0) a =
      (if normalizeKey a = n \<and> a \<in> hyphens_to_dots ` set ks then Some v else map_of d0 a)"
    by (simp only: denormalize_entry_def e look fold_rec_set_const prod.case option.case)
  have "\<forall>(n, v) \<in> set es. \<exists>k \<in> set ks. normalizeKey k = n" using Cons.prems by simp
  note IH = Cons.IH [OF this, of "denormalize_entry (normalized_to_actual ks) e d0"]
  show ?case unfolding fold.simps comp_apply IH d
    by (auto simp: e map_add_def split: option.split)
qed

section \<open>Properties\<close>

text \<open>
  storing the expansion state of a trace's observations and restoring it for the same
  observations gives every observation its flag back, when no two of them share a normal form;
  the state for everything is returned unchanged.
\<close>

theorem expansion_roundtrip:
  assumes "distinct (map normalizeKey ks)" "distinct (map fst entries)"
    "fst ` set entries \<subseteq> hyphens_to_dots ` set ks"
  shows "\<exists>restored. denormalizeExpansionState (normalizeExpansionState (Inr entries)) ks = Inr restored \<and>
    map_of restored = map_of entries"
proof -
  define stored where "stored = fold (\<lambda>(key, v) normalized. rec_set (normalizeKey key) v normalized) entries []"
  define restored where "restored = fold (denormalize_entry (normalized_to_actual ks)) stored []"
  have inj: "a = b" if ab: "a \<in> hyphens_to_dots ` set ks" "b \<in> hyphens_to_dots ` set ks" "normalizeKey a = normalizeKey b" for a b
  proof -
    obtain x y where xy: "x \<in> set ks" "a = hyphens_to_dots x" "y \<in> set ks" "b = hyphens_to_dots y" using ab(1,2) by blast
    then have "normalizeKey x = normalizeKey y" using ab(3) by simp
    moreover have "inj_on normalizeKey (set ks)" using assms(1) by (simp add: distinct_map)
    ultimately have "x = y" using xy by (simp add: inj_on_def)
    with xy show ?thesis by simp
  qed
  have stored_map: "map_of stored = map_of (rev (map (\<lambda>(k, v). (normalizeKey k, v)) entries))"
    unfolding stored_def fold_rec_set_map_of by simp
  have dist: "distinct (map fst stored)"
    unfolding stored_def
    by (rule fold_invariant [where P = "\<lambda>r. distinct (map fst r)" and Q = "\<lambda>_. True"])
      (auto intro: distinct_rec_set)
  have keys: "fst ` set stored = normalizeKey ` fst ` set entries"
    using arg_cong [OF stored_map, of dom] by (simp add: dom_map_of_conv_image_fst image_image case_prod_beta)
  have dnorm: "distinct (map fst (map (\<lambda>(k, v). (normalizeKey k, v)) entries))"
  proof -
    have "inj_on normalizeKey (fst ` set entries)"
      by (rule inj_onI, rule inj) (use assms(3) in blast)+
    then have "distinct (map normalizeKey (map fst entries))" using assms(2) by (simp only: distinct_map [of normalizeKey] set_map)
    then show ?thesis by (simp add: o_def case_prod_beta)
  qed
  have look: "map_of stored (normalizeKey a) = map_of entries a" if a: "a \<in> hyphens_to_dots ` set ks" for a
  proof -
    have "map_of stored = map_of (map (\<lambda>(k, v). (normalizeKey k, v)) entries)"
      unfolding stored_map by (rule map_of_rev [OF dnorm])
    moreover have "map_of (map (\<lambda>(k, v). (normalizeKey k, v)) entries) (normalizeKey a) = map_of entries a"
      using assms(3)
    proof (induction entries)
      case (Cons e es)
      obtain k v where "e = (k, v)" by (cases e)
      with Cons a inj [of k a] show ?case by auto
    qed simp
    ultimately show ?thesis by simp
  qed
  have "map_of restored a = map_of entries a" for a
  proof -
    have "\<forall>(n, v) \<in> set stored. \<exists>k \<in> set ks. normalizeKey k = n"
    proof
      fix e assume "e \<in> set stored"
      then have "fst e \<in> normalizeKey ` fst ` set entries" unfolding keys [symmetric] by simp
      with assms(3) show "case e of (n, v) \<Rightarrow> \<exists>k \<in> set ks. normalizeKey k = n" by (cases e) fastforce
    qed
    then have "map_of restored a = (case map_of (rev stored) (normalizeKey a) of
         Some v \<Rightarrow> if a \<in> hyphens_to_dots ` set ks then Some v else None | None \<Rightarrow> None)"
      unfolding restored_def by (subst restore_lookup) (simp_all split: option.split)
    also have "\<dots> = (if a \<in> hyphens_to_dots ` set ks then map_of entries a else None)"
      unfolding map_of_rev [OF dist] using look by (auto split: option.split)
    also have "\<dots> = map_of entries a"
      using assms(3) by (metis (no_types, lifting) dom_map_of_conv_image_fst domIff subsetD)
    finally show ?thesis .
  qed
  then have "map_of restored = map_of entries" by (rule ext)
  moreover have "denormalizeExpansionState (normalizeExpansionState (Inr entries)) ks = Inr restored"
    by (simp add: denormalizeExpansionState_def normalizeExpansionState_def restored_def stored_def)
  ultimately show ?thesis by blast
qed

lemma sample_key_forms:
  "normalizeKey ''my-span (abc12345)'' = ''my.span''" "hyphens_to_dots ''my-span (abc12345)'' = ''my.span (abc12345)''"
  "normalizeKey ''my.span (abc12345)'' = ''my.span''" "normalizeKey ''llm'' = ''llm''" "hyphens_to_dots ''llm'' = ''llm''"
  by (simp_all add: normalizeKey_def hyphens_to_dots_def after_id_def js_space_def hex_char_def Let_def)

theorem expansion_roundtrip_witness:
  "\<exists>restored. denormalizeExpansionState (normalizeExpansionState (Inr [(''my.span (abc12345)'', True), (''llm'', False)]))
      [''my-span (abc12345)'', ''llm''] = Inr restored \<and>
    map_of restored = map_of [(''my.span (abc12345)'', True), (''llm'', False)]"
  by (rule expansion_roundtrip) (simp_all add: sample_key_forms)

text \<open>
  a flag below a hyphenated observation is lost: the stored key of \<open>my-span\<close>'s \<open>output\<close> splits at
  its first dot, which is inside the name, so restoring it finds no observation.
\<close>

theorem hyphenated_nested_flag_lost:
  "normalizeExpansionState (Inr [(''my.span (abc12345).output'', True)]) = Inr [(''my.span.output'', True)] \<and>
   denormalizeExpansionState (Inr [(''my.span.output'', True)]) [''my-span (abc12345)''] = Inr []"
proof -
  have n: "normalizeKey ''my.span (abc12345).output'' = ''my.span.output''"
    by (simp add: normalizeKey_def hyphens_to_dots_def after_id_def js_space_def hex_char_def Let_def)
  have m: "normalized_to_actual [''my-span (abc12345)''] = [(''my.span'', [''my.span (abc12345)''])]"
    by (simp add: normalized_to_actual_def sample_key_forms Let_def)
  show ?thesis
    by (simp add: normalizeExpansionState_def denormalizeExpansionState_def denormalize_entry_def n m)
qed

end
