(* ===== verification/Periodic_Runner.thy ===== *)
theory Periodic_Runner imports Prelude begin

text \<open>
  The self-scheduling task loop of the worker, \<^verbatim>\<open>worker/src/utils/PeriodicRunner.ts\<close>, as a
  transition system: calls of \<open>start\<close> and \<open>stop\<close>, a timer firing, and an execution ending. The
  state has the two fields of the object, the timers the event loop still holds (each with its
  delay), and the number of executions under way. What \<open>execute\<close> does is arbitrary: it ends with a
  number, with nothing, or with an error.
\<close>

section \<open>The runner\<close>

record runner =
  isRunning :: bool
  timeoutId :: "nat option"
  timers :: "(nat \<times> int) list"
  executing :: nat
  fresh_timer :: nat

datatype outcome = Returned_Delay int | Returned_Nothing | Threw

definition new_runner :: runner where
  "new_runner = \<lparr>isRunning = False, timeoutId = None, timers = [], executing = 0, fresh_timer = 0\<rparr>"

text \<open>Up to its first wait \<open>runAndScheduleNext\<close> only starts an execution.\<close>

definition runAndScheduleNext :: "runner \<Rightarrow> runner" where
  "runAndScheduleNext s = s\<lparr>executing := executing s + 1\<rparr>"

definition scheduleNext :: "int \<Rightarrow> runner \<Rightarrow> runner" where
  "scheduleNext delayMs s =
     (if \<not> isRunning s then s
      else s\<lparr>timeoutId := Some (fresh_timer s), timers := timers s @ [(fresh_timer s, delayMs)],
             fresh_timer := fresh_timer s + 1\<rparr>)"

definition start :: "runner \<Rightarrow> runner" where
  "start s = (if isRunning s then s else runAndScheduleNext (s\<lparr>isRunning := True\<rparr>))"

definition clear_timeout :: "nat \<Rightarrow> runner \<Rightarrow> runner" where
  "clear_timeout t s = s\<lparr>timers := filter (\<lambda>(u, _). u \<noteq> t) (timers s)\<rparr>"

definition stop :: "runner \<Rightarrow> runner" where
  "stop s =
     (let s1 = s\<lparr>isRunning := False\<rparr> in
      case timeoutId s1 of None \<Rightarrow> s1
      | Some t \<Rightarrow> (clear_timeout t s1)\<lparr>timeoutId := None\<rparr>)"

definition execution_ends :: "int \<Rightarrow> outcome \<Rightarrow> runner \<Rightarrow> runner" where
  "execution_ends defaultIntervalMs out s =
     (let nextDelayMs = (case out of Returned_Delay d \<Rightarrow> d | Returned_Nothing \<Rightarrow> defaultIntervalMs | Threw \<Rightarrow> defaultIntervalMs)
      in scheduleNext nextDelayMs (s\<lparr>executing := executing s - 1\<rparr>))"

definition timer_fires :: "nat \<Rightarrow> runner \<Rightarrow> runner" where
  "timer_fires t s = runAndScheduleNext (clear_timeout t s)"

datatype runner_event = Ev_Start | Ev_Stop | Ev_Fire nat | Ev_End outcome

text \<open>
  With \<open>careful\<close> a stopped runner is started again only after its last execution has ended.
\<close>

inductive runner_step :: "bool \<Rightarrow> int \<Rightarrow> runner \<Rightarrow> runner_event \<Rightarrow> runner \<Rightarrow> bool"
  for careful interval where
  started: "\<not> careful \<or> isRunning s \<or> executing s = 0 \<Longrightarrow> runner_step careful interval s Ev_Start (start s)"
| stopped: "runner_step careful interval s Ev_Stop (stop s)"
| fired: "t \<in> fst ` set (timers s) \<Longrightarrow> runner_step careful interval s (Ev_Fire t) (timer_fires t s)"
| ended: "executing s > 0 \<Longrightarrow> runner_step careful interval s (Ev_End out) (execution_ends interval out s)"

inductive runner_run :: "bool \<Rightarrow> int \<Rightarrow> runner_event list \<Rightarrow> runner \<Rightarrow> bool" for careful interval where
  runner_run_Nil: "runner_run careful interval [] new_runner"
| runner_run_snoc: "runner_run careful interval evs s \<Longrightarrow> runner_step careful interval s ev s' \<Longrightarrow>
    runner_run careful interval (evs @ [ev]) s'"

section \<open>One chain\<close>

text \<open>
  A runner used carefully has one chain of executions: either one execution is under way, or one
  timer is pending and it is the one the object knows, or, when it is stopped, neither.
\<close>

definition one_chain :: "runner \<Rightarrow> bool" where
  "one_chain s \<longleftrightarrow>
     (isRunning s \<longrightarrow> length (timers s) + executing s = 1) \<and>
     (\<not> isRunning s \<longrightarrow> timers s = [] \<and> executing s \<le> 1) \<and>
     (\<forall>x \<in> set (timers s). timeoutId s = Some (fst x))"

lemma one_chain_step:
  assumes "runner_step True interval s ev s'" "one_chain s"
  shows "one_chain s'"
  using assms(1)
proof (cases rule: runner_step.cases)
  case started
  with assms(2) show ?thesis
    by (auto simp: one_chain_def start_def runAndScheduleNext_def)
next
  case stopped
  have "filter (\<lambda>(u, _). u \<noteq> t) (timers s) = []" if "timeoutId s = Some t" for t
    using assms(2) that by (auto simp: one_chain_def filter_empty_conv)
  moreover have "timers s = []" if "timeoutId s = None"
    using assms(2) that by (cases "timers s") (auto simp: one_chain_def)
  moreover have "executing s \<le> 1" using assms(2) by (cases "isRunning s") (auto simp: one_chain_def)
  ultimately show ?thesis
    by (simp add: stopped one_chain_def stop_def clear_timeout_def Let_def split: option.split)
next
  case (fired t)
  then have r: "isRunning s" "executing s = 0" "length (timers s) = 1"
    using assms(2) by (cases "isRunning s"; cases "timers s"; auto simp: one_chain_def)+
  then obtain x where x: "timers s = [x]" by (cases "timers s") auto
  with fired r show ?thesis
    by (auto simp: one_chain_def timer_fires_def clear_timeout_def runAndScheduleNext_def)
next
  case (ended out)
  then have "timers s = []" using assms(2) by (cases "timers s") (auto simp: one_chain_def)
  with ended show ?thesis
    using assms(2) by (auto simp: one_chain_def execution_ends_def scheduleNext_def Let_def)
qed

lemma one_chain_run: "runner_run True interval evs s \<Longrightarrow> one_chain s"
proof (induction rule: runner_run.induct)
  case runner_run_Nil
  then show ?case by (simp add: one_chain_def new_runner_def)
next
  case (runner_run_snoc evs s ev s')
  then show ?case using one_chain_step by blast
qed

section \<open>Properties\<close>

text \<open>
  C29: a runner that is never restarted while an execution is still under way never overlaps its
  executions, while running always has its next execution under way or scheduled, and once stopped
  has no timer left.
\<close>

theorem runner_single_chain:
  assumes "runner_run True interval evs s"
  shows "executing s \<le> 1 \<and> (isRunning s \<longrightarrow> length (timers s) + executing s = 1) \<and>
    (\<not> isRunning s \<longrightarrow> timers s = [])"
  using one_chain_run [OF assms] by (auto simp: one_chain_def)

lemma sample_run:
  "runner_run True 10 [Ev_Start, Ev_End (Returned_Delay 3)]
     \<lparr>isRunning = True, timeoutId = Some 0, timers = [(0, 3)], executing = 0, fresh_timer = 1\<rparr>"
proof -
  have "runner_run True 10 ([] @ [Ev_Start]) (start new_runner)"
    by (rule runner_run.runner_run_snoc [OF runner_run.runner_run_Nil runner_step.started]) (simp add: new_runner_def)
  moreover have "runner_step True 10 (start new_runner) (Ev_End (Returned_Delay 3))
      (execution_ends 10 (Returned_Delay 3) (start new_runner))"
    by (rule runner_step.ended) (simp add: start_def new_runner_def runAndScheduleNext_def)
  ultimately have "runner_run True 10 (([] @ [Ev_Start]) @ [Ev_End (Returned_Delay 3)])
      (execution_ends 10 (Returned_Delay 3) (start new_runner))" by (rule runner_run.runner_run_snoc)
  then show ?thesis
    by (simp add: start_def new_runner_def runAndScheduleNext_def execution_ends_def scheduleNext_def)
qed

theorem runner_single_chain_witness:
  "\<exists>s. runner_run True 10 [Ev_Start, Ev_End (Returned_Delay 3)] s \<and> timers s = [(0, 3)] \<and> executing s \<le> 1"
  using sample_run runner_single_chain [OF sample_run] by force

text \<open>
  restarting while an execution is under way leaves two chains: after start, stop, start and the
  end of both executions two timers are pending; stopping clears one of them, and the other fires
  and executes although the runner is stopped.
\<close>

theorem restart_doubles_runner:
  "let s1 = start (stop (start new_runner));
       s2 = execution_ends 10 Returned_Nothing (execution_ends 10 Returned_Nothing s1);
       s3 = stop s2;
       s4 = timer_fires 0 s3
   in executing s1 = 2 \<and> length (timers s2) = 2 \<and> \<not> isRunning s3 \<and> timers s3 = [(0, 10)] \<and>
      \<not> isRunning s4 \<and> executing s4 = 1"
  by (simp add: Let_def start_def stop_def new_runner_def runAndScheduleNext_def execution_ends_def
      scheduleNext_def clear_timeout_def timer_fires_def)

end
