(* ===== verification/Redis_Lock.thy ===== *)
theory Redis_Lock imports Prelude begin

text \<open>
  The distributed lock of the worker, \<^verbatim>\<open>worker/src/utils/RedisLock.ts\<close>, and the error handling
  around it in \<^verbatim>\<open>worker/src/utils/PeriodicExclusiveRunner.ts\<close>.

  Redis is not part of the repository: its two commands are the argument \<open>R\<close> (\<open>redis_ops\<close>), over a
  state \<open>'r\<close> of the server, and \<open>redis_laws\<close> states what its documentation promises of them
  (\<open>SET ... NX\<close> writes only an absent key; a script runs atomically; a failed command may or may
  not have been executed). \<open>holder r k\<close> is the value stored under \<open>k\<close>, if any.

  A system has any number of invocations of \<open>withLock\<close>; their steps interleave: taking the lock
  (the one command between the two waits), and finishing the callback and releasing.
\<close>

section \<open>The lock\<close>

datatype lock_result = Acquired | Held_By_Other | Skipped

datatype unavailable = Proceed | Fail

record lock =
  lockKey :: string
  lockValue :: string
  ttlSeconds :: nat
  onUnavailable :: unavailable

text \<open>A command fails (\<open>None\<close>) or replies; the reply to \<open>SET\<close> is whether it is \<open>OK\<close>.\<close>

record 'r redis_ops =
  redis_set_nx :: "'r \<Rightarrow> string \<Rightarrow> string \<Rightarrow> nat \<Rightarrow> bool option \<times> 'r"
  redis_release_script :: "'r \<Rightarrow> string \<Rightarrow> string \<Rightarrow> int option \<times> 'r"

definition new_lock :: "string \<Rightarrow> string \<Rightarrow> nat \<Rightarrow> unavailable option \<Rightarrow> lock" where
  "new_lock key uuid ttl behavior = \<lparr>lockKey = key, lockValue = uuid, ttlSeconds = ttl,
     onUnavailable = (case behavior of None \<Rightarrow> Proceed | Some b \<Rightarrow> b)\<rparr>"

text \<open>\<open>available\<close> says whether the module has a Redis client at all.\<close>

definition acquire :: "'r redis_ops \<Rightarrow> bool \<Rightarrow> lock \<Rightarrow> 'r \<Rightarrow> lock_result \<times> 'r" where
  "acquire R available l r =
     (if \<not> available then (Skipped, r)
      else (case redis_set_nx R r (lockKey l) (lockValue l) (ttlSeconds l) of
              (Some ok, r') \<Rightarrow> (if ok then Acquired else Held_By_Other, r')
            | (None, r') \<Rightarrow> (Skipped, r')))"

definition release :: "'r redis_ops \<Rightarrow> bool \<Rightarrow> lock \<Rightarrow> 'r \<Rightarrow> bool \<times> 'r" where
  "release R available l r =
     (if \<not> available then (False, r)
      else (case redis_release_script R r (lockKey l) (lockValue l) of
              (Some n, r') \<Rightarrow> (n = 1, r')
            | (None, r') \<Rightarrow> (False, r')))"

definition shouldProceed :: "lock \<Rightarrow> lock_result \<Rightarrow> bool" where
  "shouldProceed l res \<longleftrightarrow> res = Acquired \<or> res = Skipped \<and> onUnavailable l = Proceed"

text \<open>A callback ends with an error or a value; \<open>Inr None\<close> is the null of a lock not taken.\<close>

definition withLock :: "'r redis_ops \<Rightarrow> bool \<Rightarrow> lock \<Rightarrow> ('r \<Rightarrow> ('e + 'a) \<times> 'r) \<Rightarrow> 'r \<Rightarrow> ('e + 'a option) \<times> 'r" where
  "withLock R available l fn r =
     (case acquire R available l r of (lockResult, r1) \<Rightarrow>
        if \<not> shouldProceed l lockResult then (Inr None, r1)
        else (case fn r1 of (res, r2) \<Rightarrow>
          (map_sum id Some res, if lockResult = Acquired then snd (release R available l r2) else r2)))"

text \<open>
  The runner's \<open>withLock\<close>: an error of the operation goes to \<open>onFailure\<close>, whose own error is
  thrown on; the result is undefined when the lock was not taken or the failure handler gave none.
\<close>

definition runner_withLock :: "'r redis_ops \<Rightarrow> bool \<Rightarrow> lock \<Rightarrow> ('r \<Rightarrow> ('e + 'a) \<times> 'r) \<Rightarrow>
    ('e \<Rightarrow> 'r \<Rightarrow> ('e + 'a option) \<times> 'r) \<Rightarrow> 'r \<Rightarrow> ('e + 'a option) \<times> 'r" where
  "runner_withLock R available l operation onFailure r =
     (case withLock R available l (\<lambda>r1. case operation r1 of
          (Inr a, r2) \<Rightarrow> (Inr (Some a), r2)
        | (Inl e, r2) \<Rightarrow> onFailure e r2) r of
        (Inl e, r') \<Rightarrow> (Inl e, r')
      | (Inr None, r') \<Rightarrow> (Inr None, r')
      | (Inr (Some result), r') \<Rightarrow> (Inr result, r'))"

section \<open>What Redis promises\<close>

definition redis_laws :: "'r redis_ops \<Rightarrow> ('r \<Rightarrow> string \<Rightarrow> string option) \<Rightarrow> bool" where
  "redis_laws R holder \<longleftrightarrow> (\<forall>r k v ttl r'.
     (redis_set_nx R r k v ttl = (Some True, r') \<longrightarrow> holder r k = None \<and> holder r' = (holder r)(k \<mapsto> v)) \<and>
     (redis_set_nx R r k v ttl = (Some False, r') \<longrightarrow> holder r k \<noteq> None \<and> holder r' = holder r) \<and>
     (redis_set_nx R r k v ttl = (None, r') \<longrightarrow>
        holder r' = holder r \<or> holder r k = None \<and> holder r' = (holder r)(k \<mapsto> v))) \<and>
   (\<forall>r k v r' n.
     (redis_release_script R r k v = (Some n, r') \<longrightarrow>
        (if holder r k = Some v then n = 1 \<and> holder r' = (holder r)(k := None) else n = 0 \<and> holder r' = holder r)) \<and>
     (redis_release_script R r k v = (None, r') \<longrightarrow>
        holder r' = holder r \<or> holder r k = Some v \<and> holder r' = (holder r)(k := None)))"

lemma set_replies:
  assumes "redis_laws R holder"
  shows "redis_set_nx R r k v ttl = (Some True, r') \<Longrightarrow> holder r k = None \<and> holder r' = (holder r)(k \<mapsto> v)"
    "redis_set_nx R r k v ttl = (Some False, r') \<Longrightarrow> holder r k \<noteq> None \<and> holder r' = holder r"
    "redis_set_nx R r k v ttl = (None, r') \<Longrightarrow>
       holder r' = holder r \<or> holder r k = None \<and> holder r' = (holder r)(k \<mapsto> v)"
  using assms unfolding redis_laws_def by blast+

lemma script_replies:
  assumes "redis_laws R holder"
  shows "redis_release_script R r k v = (Some n, r') \<Longrightarrow>
      if holder r k = Some v then n = 1 \<and> holder r' = (holder r)(k := None) else n = 0 \<and> holder r' = holder r"
    "redis_release_script R r k v = (None, r') \<Longrightarrow>
       holder r' = holder r \<or> holder r k = Some v \<and> holder r' = (holder r)(k := None)"
  using assms unfolding redis_laws_def by blast+

lemma acquire_holder:
  assumes "redis_laws R holder" "acquire R available l r = (res, r')"
  shows "res = Acquired \<Longrightarrow> holder r (lockKey l) = None \<and> holder r' = (holder r)(lockKey l \<mapsto> lockValue l)"
    "res = Held_By_Other \<Longrightarrow> holder r (lockKey l) \<noteq> None \<and> holder r' = holder r"
    "holder r' = holder r \<or> holder r (lockKey l) = None \<and> holder r' = (holder r)(lockKey l \<mapsto> lockValue l)"
proof -
  obtain reply r1 where s: "redis_set_nx R r (lockKey l) (lockValue l) (ttlSeconds l) = (reply, r1)"
    by (cases "redis_set_nx R r (lockKey l) (lockValue l) (ttlSeconds l)")
  consider "\<not> available" | "available" "reply = None" | "available" "reply = Some True" | "available" "reply = Some False"
    by (cases reply) auto
  then have "(res = Acquired \<longrightarrow> holder r (lockKey l) = None \<and> holder r' = (holder r)(lockKey l \<mapsto> lockValue l)) \<and>
    (res = Held_By_Other \<longrightarrow> holder r (lockKey l) \<noteq> None \<and> holder r' = holder r) \<and>
    (holder r' = holder r \<or> holder r (lockKey l) = None \<and> holder r' = (holder r)(lockKey l \<mapsto> lockValue l))"
  proof cases
    case 1
    with assms(2) show ?thesis by (auto simp: acquire_def)
  next
    case 2
    with assms(2) s set_replies(3) [OF assms(1), of r "lockKey l" "lockValue l" "ttlSeconds l" r1]
    show ?thesis by (auto simp: acquire_def)
  next
    case 3
    with assms(2) s set_replies(1) [OF assms(1), of r "lockKey l" "lockValue l" "ttlSeconds l" r1]
    show ?thesis by (auto simp: acquire_def)
  next
    case 4
    with assms(2) s set_replies(2) [OF assms(1), of r "lockKey l" "lockValue l" "ttlSeconds l" r1]
    show ?thesis by (auto simp: acquire_def)
  qed
  then show "res = Acquired \<Longrightarrow> holder r (lockKey l) = None \<and> holder r' = (holder r)(lockKey l \<mapsto> lockValue l)"
    "res = Held_By_Other \<Longrightarrow> holder r (lockKey l) \<noteq> None \<and> holder r' = holder r"
    "holder r' = holder r \<or> holder r (lockKey l) = None \<and> holder r' = (holder r)(lockKey l \<mapsto> lockValue l)"
    by blast+
qed

lemma release_holder:
  assumes "redis_laws R holder" "release R available l r = (b, r')"
  shows "holder r' = holder r \<or> holder r (lockKey l) = Some (lockValue l) \<and> holder r' = (holder r)(lockKey l := None)"
    "b \<Longrightarrow> holder r (lockKey l) = Some (lockValue l) \<and> holder r' = (holder r)(lockKey l := None)"
proof -
  obtain reply r1 where s: "redis_release_script R r (lockKey l) (lockValue l) = (reply, r1)"
    by (cases "redis_release_script R r (lockKey l) (lockValue l)")
  consider "\<not> available" | "available" "reply = None" | n where "available" "reply = Some n"
    by (cases reply) auto
  then have "(holder r' = holder r \<or> holder r (lockKey l) = Some (lockValue l) \<and> holder r' = (holder r)(lockKey l := None)) \<and>
    (b \<longrightarrow> holder r (lockKey l) = Some (lockValue l) \<and> holder r' = (holder r)(lockKey l := None))"
  proof cases
    case 1
    with assms(2) show ?thesis by (auto simp: release_def)
  next
    case 2
    with assms(2) s script_replies(2) [OF assms(1), of r "lockKey l" "lockValue l" r1]
    show ?thesis by (auto simp: release_def)
  next
    case 3
    with assms(2) s script_replies(1) [OF assms(1), of r "lockKey l" "lockValue l" n r1]
    show ?thesis by (auto simp: release_def split: if_splits)
  qed
  then show "holder r' = holder r \<or> holder r (lockKey l) = Some (lockValue l) \<and> holder r' = (holder r)(lockKey l := None)"
    "b \<Longrightarrow> holder r (lockKey l) = Some (lockValue l) \<and> holder r' = (holder r)(lockKey l := None)"
    by blast+
qed

section \<open>Interleaved invocations\<close>

datatype lock_phase = Idle | Working lock_result

record 'r lock_system =
  server :: 'r
  phase :: "nat \<Rightarrow> lock_phase"

datatype lock_event = Begin nat | Finish nat | Elsewhere | Expire string

text \<open>
  \<open>locks i\<close> is the lock object invocation \<open>i\<close> uses. \<open>Elsewhere\<close> is any use of the server, by a
  callback or by others, that leaves the lock keys alone; with \<open>long_ttl\<close> a key does not expire
  while a callback that took it is working.
\<close>

inductive lock_step :: "'r redis_ops \<Rightarrow> ('r \<Rightarrow> string \<Rightarrow> string option) \<Rightarrow> (nat \<Rightarrow> lock) \<Rightarrow> bool \<Rightarrow> bool \<Rightarrow>
    'r lock_system \<Rightarrow> lock_event \<Rightarrow> 'r lock_system \<Rightarrow> bool"
  for R holder locks available long_ttl where
  begin_held: "phase s i = Idle \<Longrightarrow> acquire R available (locks i) (server s) = (res, r') \<Longrightarrow>
    shouldProceed (locks i) res \<Longrightarrow>
    lock_step R holder locks available long_ttl s (Begin i) \<lparr>server = r', phase = (phase s)(i := Working res)\<rparr>"
| begin_refused: "phase s i = Idle \<Longrightarrow> acquire R available (locks i) (server s) = (res, r') \<Longrightarrow>
    \<not> shouldProceed (locks i) res \<Longrightarrow>
    lock_step R holder locks available long_ttl s (Begin i) \<lparr>server = r', phase = phase s\<rparr>"
| finish_release: "phase s i = Working Acquired \<Longrightarrow> release R available (locks i) (server s) = (b, r') \<Longrightarrow>
    lock_step R holder locks available long_ttl s (Finish i) \<lparr>server = r', phase = (phase s)(i := Idle)\<rparr>"
| finish_plain: "phase s i = Working res \<Longrightarrow> res \<noteq> Acquired \<Longrightarrow>
    lock_step R holder locks available long_ttl s (Finish i) (s\<lparr>phase := (phase s)(i := Idle)\<rparr>)"
| elsewhere: "\<forall>i. holder r' (lockKey (locks i)) = holder (server s) (lockKey (locks i)) \<Longrightarrow>
    lock_step R holder locks available long_ttl s Elsewhere \<lparr>server = r', phase = phase s\<rparr>"
| expire: "\<not> long_ttl \<or> (\<forall>i. phase s i = Working Acquired \<longrightarrow> lockKey (locks i) \<noteq> k) \<Longrightarrow>
    holder r' = (holder (server s))(k := None) \<Longrightarrow>
    lock_step R holder locks available long_ttl s (Expire k) \<lparr>server = r', phase = phase s\<rparr>"

inductive_cases lock_stepE: "lock_step R holder locks available long_ttl s ev s'"

inductive lock_run :: "'r redis_ops \<Rightarrow> ('r \<Rightarrow> string \<Rightarrow> string option) \<Rightarrow> (nat \<Rightarrow> lock) \<Rightarrow> bool \<Rightarrow> bool \<Rightarrow>
    'r lock_system \<Rightarrow> lock_event list \<Rightarrow> 'r lock_system \<Rightarrow> bool"
  for R holder locks available long_ttl s0 where
  lock_run_Nil: "lock_run R holder locks available long_ttl s0 [] s0"
| lock_run_snoc: "lock_run R holder locks available long_ttl s0 evs s \<Longrightarrow>
    lock_step R holder locks available long_ttl s ev s' \<Longrightarrow>
    lock_run R holder locks available long_ttl s0 (evs @ [ev]) s'"

definition all_idle :: "'r \<Rightarrow> 'r lock_system" where
  "all_idle r = \<lparr>server = r, phase = (\<lambda>_. Idle)\<rparr>"

text \<open>Who took a lock holds its key, and nobody else took the same key.\<close>

definition exclusive :: "('r \<Rightarrow> string \<Rightarrow> string option) \<Rightarrow> (nat \<Rightarrow> lock) \<Rightarrow> 'r lock_system \<Rightarrow> bool" where
  "exclusive holder locks s \<longleftrightarrow>
     (\<forall>i. phase s i = Working Acquired \<longrightarrow> holder (server s) (lockKey (locks i)) = Some (lockValue (locks i))) \<and>
     (\<forall>i j. phase s i = Working Acquired \<and> phase s j = Working Acquired \<and> lockKey (locks i) = lockKey (locks j) \<longrightarrow> i = j)"

lemma exclusive_step:
  assumes laws: "redis_laws R holder" and st: "lock_step R holder locks available True s ev s'"
    and ex: "exclusive holder locks s"
  shows "exclusive holder locks s'"
  using st
proof (cases rule: lock_step.cases)
  case (begin_held i res r')
  show ?thesis
  proof (cases "res = Acquired")
    case True
    with acquire_holder(1) [OF laws begin_held(4)] have h: "holder (server s) (lockKey (locks i)) = None"
      "holder r' = (holder (server s))(lockKey (locks i) \<mapsto> lockValue (locks i))" by simp_all
    have ne: "lockKey (locks j) \<noteq> lockKey (locks i)" if "phase s j = Working Acquired" for j
      using ex h(1) that by (auto simp: exclusive_def)
    show ?thesis using ex h(2) by (auto simp: exclusive_def begin_held dest: ne)
  next
    case False
    have "holder r' k = Some v" if "holder (server s) k = Some v" for k v
      using acquire_holder(3) [OF laws begin_held(4)] that by auto
    with False ex show ?thesis by (auto simp: exclusive_def begin_held)
  qed
next
  case (begin_refused i res r')
  have "holder r' k = Some v" if "holder (server s) k = Some v" for k v
    using acquire_holder(3) [OF laws begin_refused(4)] that by auto
  with ex show ?thesis by (auto simp: exclusive_def begin_refused)
next
  case (finish_release i b r')
  have "holder r' (lockKey (locks j)) = Some v"
    if "phase s j = Working Acquired" "j \<noteq> i" "holder (server s) (lockKey (locks j)) = Some v" for j v
    using release_holder(1) [OF laws finish_release(4)] that ex finish_release(3) by (auto simp: exclusive_def)
  with ex show ?thesis by (auto simp: exclusive_def finish_release)
next
  case (finish_plain i res)
  with ex show ?thesis by (auto simp: exclusive_def)
next
  case (elsewhere r')
  with ex show ?thesis by (auto simp: exclusive_def)
next
  case (expire k r')
  with ex show ?thesis by (auto simp: exclusive_def)
qed

lemma exclusive_run:
  assumes "redis_laws R holder"
  shows "lock_run R holder locks available True (all_idle r) evs s \<Longrightarrow> exclusive holder locks s"
proof (induction rule: lock_run.induct)
  case lock_run_Nil
  then show ?case by (simp add: exclusive_def all_idle_def)
next
  case (lock_run_snoc evs s ev s')
  then show ?case using exclusive_step [OF assms] by blast
qed

text \<open>An invocation works only if its lock allows what its result was.\<close>

lemma working_allowed:
  "lock_run R holder locks available long_ttl (all_idle r) evs s \<Longrightarrow> phase s i = Working res \<Longrightarrow>
   shouldProceed (locks i) res"
proof (induction arbitrary: i res rule: lock_run.induct)
  case lock_run_Nil
  then show ?case by (simp add: all_idle_def)
next
  case (lock_run_snoc evs s ev s')
  from lock_run_snoc.hyps(2) show ?case
    by (cases rule: lock_step.cases) (use lock_run_snoc in \<open>auto split: if_splits\<close>)
qed

section \<open>Properties\<close>

text \<open>
  C14: for any locks, with either behaviour when Redis is not available: if the key of a lock does not
  expire under a working callback, then of two invocations whose callbacks work under one key at a time, one did not
  get the lock but went on without it, because Redis was not available or failed and its lock says
  \<open>onUnavailable: "proceed"\<close>. So locks with \<open>"fail"\<close>, and all locks while no \<open>SET\<close> fails, exclude each other,
  however the invocations, failures of Redis commands and expirations interleave.
\<close>

theorem critical_section_exclusive:
  assumes "redis_laws R holder" "lock_run R holder locks available True (all_idle r) evs s"
    "phase s i = Working a" "phase s j = Working b" "lockKey (locks i) = lockKey (locks j)" "i \<noteq> j"
  shows "a = Skipped \<and> onUnavailable (locks i) = Proceed \<or> b = Skipped \<and> onUnavailable (locks j) = Proceed"
proof -
  have "a \<noteq> Acquired \<or> b \<noteq> Acquired"
    using exclusive_run [OF assms(1,2)] assms(3-6) by (auto simp: exclusive_def)
  then show ?thesis
    using working_allowed [OF assms(2) assms(3)] working_allowed [OF assms(2) assms(4)]
    by (auto simp: shouldProceed_def)
qed

text \<open>A server that never fails, as an instance of the laws.\<close>

definition map_redis :: "(string \<rightharpoonup> string) redis_ops" where
  "map_redis = \<lparr>redis_set_nx = (\<lambda>r k v _. case r k of None \<Rightarrow> (Some True, r(k \<mapsto> v)) | Some _ \<Rightarrow> (Some False, r)),
     redis_release_script = (\<lambda>r k v. if r k = Some v then (Some 1, r(k := None)) else (Some 0, r))\<rparr>"

lemma map_redis_laws: "redis_laws map_redis (\<lambda>r. r)"
  by (auto simp: redis_laws_def map_redis_def split: option.splits if_splits)

definition two_locks :: "nat \<Rightarrow> lock" where
  "two_locks i = new_lock ''job'' (if i = 1 then ''a'' else ''b'') 60 (Some Fail)"

lemma two_locks_fields:
  "lockKey (two_locks i) = ''job''" "lockValue (two_locks i) = (if i = 1 then ''a'' else ''b'')"
  "ttlSeconds (two_locks i) = 60" "onUnavailable (two_locks i) = Fail"
  by (simp_all add: two_locks_def new_lock_def)

lemma two_invocations:
  "lock_run map_redis (\<lambda>r. r) two_locks True True (all_idle (\<lambda>_. None)) [Begin 1, Begin 2]
     \<lparr>server = [''job'' \<mapsto> ''a''], phase = (\<lambda>_. Idle)(1 := Working Acquired)\<rparr>"
proof -
  have a: "acquire map_redis True (two_locks i) r = (if r ''job'' = None then (Acquired, r(''job'' \<mapsto> (if i = 1 then ''a'' else ''b''))) else (Held_By_Other, r))" for i r
    by (auto simp: acquire_def map_redis_def two_locks_fields split: option.split)
  have p: "shouldProceed (two_locks i) res \<longleftrightarrow> res = Acquired" for i res
    by (auto simp: shouldProceed_def two_locks_fields)
  let ?s = "\<lparr>server = [''job'' \<mapsto> ''a''], phase = (\<lambda>_. Idle)(1 := Working Acquired)\<rparr>"
  have "lock_step map_redis (\<lambda>r. r) two_locks True True (all_idle (\<lambda>_. None)) (Begin 1) ?s"
    using lock_step.begin_held [of "all_idle (\<lambda>_. None)" 1 map_redis True two_locks Acquired "[''job'' \<mapsto> ''a'']" "\<lambda>r. r" True]
    by (simp add: a p all_idle_def)
  moreover have "lock_step map_redis (\<lambda>r. r) two_locks True True ?s (Begin 2) ?s"
    using lock_step.begin_refused [of ?s 2 map_redis True two_locks Held_By_Other "[''job'' \<mapsto> ''a'']" "\<lambda>r. r" True]
    by (simp add: a p)
  ultimately have "lock_run map_redis (\<lambda>r. r) two_locks True True (all_idle (\<lambda>_. None)) (([] @ [Begin 1]) @ [Begin 2]) ?s"
    by (intro lock_run.lock_run_snoc [OF lock_run.lock_run_snoc [OF lock_run.lock_run_Nil]])
  then show ?thesis by simp
qed

theorem critical_section_exclusive_witness:
  "\<exists>s. lock_run map_redis (\<lambda>r. r) two_locks True True (all_idle (\<lambda>_. None)) [Begin 1, Begin 2] s \<and>
     {i. \<exists>a. phase s i = Working a} = {1}"
proof -
  let ?s = "\<lparr>server = [''job'' \<mapsto> ''a''], phase = (\<lambda>_. Idle)(1 := Working Acquired)\<rparr>"
  have w: "phase ?s 1 = Working Acquired" by simp
  have "i = 1" if "phase ?s i = Working a" for i a
    using critical_section_exclusive [OF map_redis_laws two_invocations that w] by (auto simp: two_locks_fields)
  with w have "{i. \<exists>a. phase ?s i = Working a} = {1}" by blast
  with two_invocations show ?thesis by blast
qed

text \<open>
  whatever expires or fails, finishing an invocation never removes a key another lock object
  wrote: the release deletes the key only when it still holds this lock's value.
\<close>

theorem release_only_own:
  assumes "redis_laws R holder" "lock_step R holder locks available long_ttl s (Finish i) s'"
    "holder (server s) k = Some v" "k \<noteq> lockKey (locks i) \<or> v \<noteq> lockValue (locks i)"
  shows "holder (server s') k = Some v"
  using assms(2)
proof (cases rule: lock_step.cases)
  case (finish_release b r')
  with release_holder(1) [OF assms(1) finish_release(3)] assms(3,4) show ?thesis by auto
qed (use assms in auto)

theorem release_only_own_witness:
  "\<exists>s'. lock_step map_redis (\<lambda>r. r) two_locks True False
      \<lparr>server = [''job'' \<mapsto> ''b''], phase = (\<lambda>_. Idle)(1 := Working Acquired)\<rparr> (Finish 1) s' \<and>
     server s' ''job'' = Some (''b'')"
proof -
  let ?s = "\<lparr>server = [''job'' \<mapsto> ''b''], phase = (\<lambda>_. Idle)(1 := Working Acquired)\<rparr>"
  have ne: "''b'' \<noteq> ''a''" by simp
  then have "release map_redis True (two_locks 1) [''job'' \<mapsto> ''b''] = (False, [''job'' \<mapsto> ''b''])"
    by (simp add: release_def map_redis_def two_locks_fields)
  then have st: "lock_step map_redis (\<lambda>r. r) two_locks True False ?s (Finish 1)
      \<lparr>server = [''job'' \<mapsto> ''b''], phase = (\<lambda>_. Idle)(1 := Working Acquired, 1 := Idle)\<rparr>"
    using lock_step.finish_release [of ?s 1 map_redis True two_locks False "[''job'' \<mapsto> ''b'']" "\<lambda>r. r" False] by simp
  have "server \<lparr>server = [''job'' \<mapsto> ''b''], phase = (\<lambda>_. Idle)(1 := Working Acquired, 1 := Idle)\<rparr> ''job'' = Some (''b'')"
    by (rule release_only_own [OF map_redis_laws st]) (simp_all add: two_locks_fields ne)
  with st show ?thesis by blast
qed

text \<open>
  the result of \<open>withLock\<close>: when the lock is held elsewhere, or unavailable for a critical
  lock, the callback is not run and the result is null; otherwise it is the callback's result or
  error, and in both cases a lock that was taken is free again if its key was not taken over and
  Redis answered.
\<close>

theorem withLock_result:
  assumes "redis_laws R holder" "acquire R available l r = (res, r1)" "fn r1 = (out, r2)"
  shows "fst (withLock R available l fn r) = (if shouldProceed l res then map_sum id Some out else Inr None) \<and>
    (\<not> shouldProceed l res \<longrightarrow> snd (withLock R available l fn r) = r1) \<and>
    (shouldProceed l res \<and> res \<noteq> Acquired \<longrightarrow> snd (withLock R available l fn r) = r2) \<and>
    (res = Acquired \<and> fst (release R available l r2) \<longrightarrow> holder (snd (withLock R available l fn r)) (lockKey l) = None)"
proof -
  obtain b r3 where rel: "release R available l r2 = (b, r3)" by (cases "release R available l r2")
  have "holder r3 (lockKey l) = None" if b using release_holder(2) [OF assms(1) rel that] by simp
  with assms(2,3) rel show ?thesis by (auto simp: withLock_def shouldProceed_def)
qed

theorem withLock_result_witness:
  "fst (withLock map_redis True (two_locks 1) (\<lambda>r. (Inr (7 :: nat), r)) (\<lambda>_. None)) = (Inr (Some 7) :: string + nat option) \<and>
   fst (withLock map_redis True (two_locks 1) (\<lambda>r. (Inr (7 :: nat), r)) [''job'' \<mapsto> ''x'']) = (Inr None :: string + nat option)"
proof -
  have a: "acquire map_redis True (two_locks 1) (\<lambda>_. None) = (Acquired, [''job'' \<mapsto> ''a''])"
    "acquire map_redis True (two_locks 1) [''job'' \<mapsto> ''x''] = (Held_By_Other, [''job'' \<mapsto> ''x''])"
    by (simp_all add: acquire_def map_redis_def two_locks_fields)
  show ?thesis
    using withLock_result [OF map_redis_laws a(1), of "\<lambda>r. (Inr 7, r)" "Inr 7 :: string + nat"]
      withLock_result [OF map_redis_laws a(2), of "\<lambda>r. (Inr 7, r)" "Inr 7 :: string + nat"]
    by (simp add: shouldProceed_def two_locks_fields)
qed

end
