(* ===== verification/Batch_Cleaners.thy ===== *)
theory Batch_Cleaners imports Redis_Lock begin

text \<open>
  Two periodic deletion jobs of the worker that run their deletions under the distributed lock:
  \<^verbatim>\<open>worker/src/features/batch-project-cleaner/index.ts\<close> (data of deleted projects) and
  \<^verbatim>\<open>worker/src/features/batch-data-retention-cleaner/index.ts\<close> (rows older than a project's
  retention).

  Postgres, ClickHouse and Redis are not part of the repository: their queries are arguments that
  read and change a state \<open>'s\<close> of the world, and may fail with an error. Metrics and logs are left
  out. Times are milliseconds. The configured numbers are positive, as the environment's schema
  demands.
\<close>

section \<open>Projects that were deleted\<close>

record 's project_world =
  find_deleted_projects :: "nat \<Rightarrow> 's \<Rightarrow> (string + string list) \<times> 's"
  count_query :: "string list \<Rightarrow> 's \<Rightarrow> (string + (string \<times> nat) list) \<times> 's"
  delete_command :: "string list \<Rightarrow> 's \<Rightarrow> (string + unit) \<times> 's"

record cleaner_config =
  projectLimit :: nat
  checkInterval :: nat
  sleepOnEmpty :: nat

definition getProjectCounts :: "'s project_world \<Rightarrow> string list \<Rightarrow> 's \<Rightarrow> (string + (string \<times> nat) list) \<times> 's" where
  "getProjectCounts W projectIds s =
     (if length projectIds = 0 then (Inr [], s)
      else (case count_query W projectIds s of
          (Inl e, s') \<Rightarrow> (Inl e, s')
        | (Inr results, s') \<Rightarrow> (Inr (fold (\<lambda>(p, c) counts. rec_set p c counts) results []), s')))"

definition executeDelete :: "'s project_world \<Rightarrow> string list \<Rightarrow> 's \<Rightarrow> (string + unit) \<times> 's" where
  "executeDelete W projectIds s = (if length projectIds = 0 then (Inr (), s) else delete_command W projectIds s)"

definition incomplete_projects :: "string list \<Rightarrow> (string + (string \<times> nat) list) \<Rightarrow> string list" where
  "incomplete_projects projectIdsWithData finalCounts = (case finalCounts of
       Inr counts \<Rightarrow> filter (\<lambda>p. (case map_of counts p of None \<Rightarrow> 0 | Some c \<Rightarrow> c) > 0) projectIdsWithData
     | Inl _ \<Rightarrow> projectIdsWithData)"

text \<open>The failure handler counts again (for the metrics) and gives the check interval.\<close>

definition project_failure :: "'s project_world \<Rightarrow> cleaner_config \<Rightarrow> string list \<Rightarrow> string \<Rightarrow> 's \<Rightarrow> (string + nat option) \<times> 's" where
  "project_failure W cfg projectIdsWithData e s =
     (case getProjectCounts W projectIdsWithData s of (_, s') \<Rightarrow> (Inr (Some (checkInterval cfg)), s'))"

definition project_delete :: "'s project_world \<Rightarrow> cleaner_config \<Rightarrow> string list \<Rightarrow> 's \<Rightarrow> (string + nat) \<times> 's" where
  "project_delete W cfg projectIdsWithData s =
     (case executeDelete W projectIdsWithData s of
        (Inl e, s') \<Rightarrow> (Inl e, s')
      | (Inr _, s') \<Rightarrow> (Inr (checkInterval cfg), s'))"

definition execute_project_cleaner :: "'s project_world \<Rightarrow> cleaner_config \<Rightarrow> 's redis_ops \<Rightarrow> bool \<Rightarrow> lock \<Rightarrow> 's \<Rightarrow>
    (string + nat) \<times> 's" where
  "execute_project_cleaner W cfg R available l s =
     (case find_deleted_projects W (projectLimit cfg) s of
        (Inl e, s1) \<Rightarrow> (Inr (sleepOnEmpty cfg), s1)
      | (Inr deletedProjects, s1) \<Rightarrow>
     (case getProjectCounts W deletedProjects s1 of
        (Inl e, s2) \<Rightarrow> (Inr (sleepOnEmpty cfg), s2)
      | (Inr initialCounts, s2) \<Rightarrow>
          (let projectIdsWithData = map fst (filter (\<lambda>(_, count). count > 0) initialCounts)
           in if length projectIdsWithData = 0 then (Inr (sleepOnEmpty cfg), s2)
              else (case runner_withLock R available l (project_delete W cfg projectIdsWithData)
                           (project_failure W cfg projectIdsWithData) s2 of
                      (Inl e, s3) \<Rightarrow> (Inl e, s3)
                    | (Inr None, s3) \<Rightarrow> (Inr (sleepOnEmpty cfg), s3)
                    | (Inr (Some delay), s3) \<Rightarrow> (Inr delay, s3)))))"

section \<open>Retention\<close>

record workload =
  projectId :: string
  retentionDays :: nat
  cutoffDate :: int
  expiredRowCount :: nat
  oldestAgeSeconds :: "int option"

datatype param = P_String string | P_DateTime int

definition MS_PER_DAY :: int where "MS_PER_DAY = 24 * 60 * 60 * 1000"

definition getRetentionCutoffDate :: "nat \<Rightarrow> int \<Rightarrow> int" where
  "getRetentionCutoffDate days referenceDate = referenceDate - int days * MS_PER_DAY"

text \<open>
  \<open>toParamKey\<close> is the start of an MD5 digest; \<open>hash\<close> stands for it. An empty id counts as no entry,
  as the test of the code is on truthiness.
\<close>

fun check_collisions :: "(string \<Rightarrow> string) \<Rightarrow> workload list \<Rightarrow> (string \<times> string) list \<Rightarrow> bool" where
  "check_collisions hash [] keyToProject = True"
| "check_collisions hash (p # ps) keyToProject =
     (case map_of keyToProject (hash (projectId p)) of
        Some existing \<Rightarrow> if existing \<noteq> [] \<and> existing \<noteq> projectId p then False
          else check_collisions hash ps (rec_set (hash (projectId p)) (projectId p) keyToProject)
      | None \<Rightarrow> check_collisions hash ps (rec_set (hash (projectId p)) (projectId p) keyToProject))"

text \<open>
  A condition is its two parameter names; \<open>render_conditions\<close> is the text the code builds of them.
\<close>

definition pid_name :: "string \<Rightarrow> string" where "pid_name k = ''pid_'' @ k"

definition cutoff_name :: "string \<Rightarrow> string" where "cutoff_name k = ''cutoff_'' @ k"

definition condition_names :: "(string \<Rightarrow> string) \<Rightarrow> workload \<Rightarrow> string \<times> string" where
  "condition_names hash p = (pid_name (hash (projectId p)), cutoff_name (hash (projectId p)))"

definition render_conditions :: "string \<Rightarrow> (string \<times> string) list \<Rightarrow> string" where
  "render_conditions timestampColumn cs = js_join '' OR '' (map (\<lambda>(a, b).
     ''(project_id = {'' @ a @ '': String} AND '' @ timestampColumn @ '' < {'' @ b @ '': DateTime64(3)})'') cs)"

definition buildRetentionConditions :: "(string \<Rightarrow> string) \<Rightarrow> workload list \<Rightarrow>
    string + (string \<times> string) list \<times> (string \<times> param) list" where
  "buildRetentionConditions hash projects =
     (if \<not> check_collisions hash projects [] then Inl ''Hash collision detected''
      else Inr (map (condition_names hash) projects,
                fold (\<lambda>p params.
                    rec_set (cutoff_name (hash (projectId p))) (P_DateTime (cutoffDate p))
                      (rec_set (pid_name (hash (projectId p))) (P_String (projectId p)) params))
                  projects []))"

text \<open>What the condition means for a row of a project with a time.\<close>

definition selects :: "(string \<times> string) list \<times> (string \<times> param) list \<Rightarrow> string \<Rightarrow> int \<Rightarrow> bool" where
  "selects q proj tm = (case q of (cs, params) \<Rightarrow> list_ex (\<lambda>(a, b).
     map_of params a = Some (P_String proj) \<and>
     (case map_of params b of Some (P_DateTime c) \<Rightarrow> tm < c | _ \<Rightarrow> False)) cs)"

type_synonym retention_query = "(string \<times> string) list \<times> (string \<times> param) list"

record 's retention_world =
  find_projects :: "'s \<Rightarrow> (string + (string \<times> nat) list) \<times> 's"
  current_time :: "'s \<Rightarrow> int"
  count_expired :: "retention_query \<Rightarrow> 's \<Rightarrow> (string + (string \<times> nat \<times> int) list) \<times> 's"
  delete_selected :: "retention_query \<Rightarrow> 's \<Rightarrow> (string + unit) \<times> 's"

definition countExpiredRowsInChunk :: "(string \<Rightarrow> string) \<Rightarrow> 's retention_world \<Rightarrow> workload list \<Rightarrow> 's \<Rightarrow>
    (string + workload list) \<times> 's" where
  "countExpiredRowsInChunk hash W projects s =
     (if length projects = 0 then (Inr [], s)
      else (case buildRetentionConditions hash projects of
          Inl e \<Rightarrow> (Inl e, s)
        | Inr q \<Rightarrow> (case count_expired W q s of
              (Inl e, s') \<Rightarrow> (Inl e, s')
            | (Inr result, s') \<Rightarrow>
                (let resultMap = fold (\<lambda>(p, d) m. rec_set p d m) result []
                 in (Inr (map (\<lambda>p. case map_of resultMap (projectId p) of
                       Some (n, age) \<Rightarrow> p\<lparr>expiredRowCount := n, oldestAgeSeconds := Some age\<rparr>
                     | None \<Rightarrow> p\<lparr>expiredRowCount := 0, oldestAgeSeconds := None\<rparr>) projects), s')))))"

partial_function (option) chunk_loop :: "nat \<Rightarrow> 'a list \<Rightarrow> nat \<Rightarrow> 'a list list \<Rightarrow> 'a list list option" where
  "chunk_loop chunkSize xs i chunks =
     (if i < length xs then chunk_loop chunkSize xs (i + chunkSize) (chunks @ [take chunkSize (drop i xs)])
      else Some chunks)"

text \<open>\<open>Promise.all\<close>: every chunk is queried; one failure makes the whole fail.\<close>

fun query_chunks :: "('a \<Rightarrow> 's \<Rightarrow> (string + 'b) \<times> 's) \<Rightarrow> 'a list \<Rightarrow> 's \<Rightarrow> (string + 'b list) \<times> 's" where
  "query_chunks f [] s = (Inr [], s)"
| "query_chunks f (c # cs) s =
     (case f c s of (r, s1) \<Rightarrow>
      case query_chunks f cs s1 of (rs, s2) \<Rightarrow>
        (case r of Inl e \<Rightarrow> Inl e | Inr b \<Rightarrow> map_sum id (\<lambda>bs. b # bs) rs, s2))"

definition getProjectWorkloads :: "(string \<Rightarrow> string) \<Rightarrow> 's retention_world \<Rightarrow> nat \<Rightarrow> nat \<Rightarrow> 's \<Rightarrow>
    ((string + workload list) \<times> 's) option" where
  "getProjectWorkloads hash W chunkSize limit s =
     (case find_projects W s of
        (Inl e, s1) \<Rightarrow> Some (Inl e, s1)
      | (Inr projectsWithRetention, s1) \<Rightarrow>
          if length projectsWithRetention = 0 then Some (Inr [], s1)
          else (let now = current_time W s1;
                    allProjectRetentions = map (\<lambda>(p, days). \<lparr>projectId = p, retentionDays = days,
                      cutoffDate = getRetentionCutoffDate days now, expiredRowCount = 0, oldestAgeSeconds = None\<rparr>)
                      projectsWithRetention
                in case chunk_loop chunkSize allProjectRetentions 0 [] of
                     None \<Rightarrow> None
                   | Some chunks \<Rightarrow>
                       Some (case query_chunks (countExpiredRowsInChunk hash W) chunks s1 of
                           (Inl e, s2) \<Rightarrow> (Inl e, s2)
                         | (Inr chunkResults, s2) \<Rightarrow>
                             (let allCounts = sort_key (\<lambda>p. - int (expiredRowCount p)) (concat chunkResults);
                                  withExpiredRows = filter (\<lambda>p. expiredRowCount p > 0) allCounts
                              in (Inr (take limit withExpiredRows), s2)))))"

definition executeBatchDelete :: "(string \<Rightarrow> string) \<Rightarrow> 's retention_world \<Rightarrow> workload list \<Rightarrow> 's \<Rightarrow> (string + unit) \<times> 's" where
  "executeBatchDelete hash W workloads s =
     (if length workloads = 0 then (Inr (), s)
      else (case buildRetentionConditions hash workloads of
          Inl e \<Rightarrow> (Inl e, s)
        | Inr q \<Rightarrow> delete_selected W q s))"

text \<open>
  The body run under the lock. The loop that cuts the chunks ends for a positive chunk size; were it
  not to end, the model gives an error of its own.
\<close>

definition retention_operation :: "(string \<Rightarrow> string) \<Rightarrow> 's retention_world \<Rightarrow> nat \<Rightarrow> nat \<Rightarrow> 's \<Rightarrow> (string + unit) \<times> 's" where
  "retention_operation hash W chunkSize limit s =
     (case getProjectWorkloads hash W chunkSize limit s of
        None \<Rightarrow> (Inl ''no answer'', s)
      | Some (Inl e, s1) \<Rightarrow> (Inl e, s1)
      | Some (Inr workloads, s1) \<Rightarrow> executeBatchDelete hash W workloads s1)"

definition execute_retention_cleaner :: "(string \<Rightarrow> string) \<Rightarrow> 's retention_world \<Rightarrow> nat \<Rightarrow> nat \<Rightarrow>
    's redis_ops \<Rightarrow> bool \<Rightarrow> lock \<Rightarrow> 's \<Rightarrow> (string + unit) \<times> 's" where
  "execute_retention_cleaner hash W chunkSize limit R available l s =
     (case runner_withLock R available l (retention_operation hash W chunkSize limit) (\<lambda>e s. (Inr None, s)) s of
        (Inl e, s') \<Rightarrow> (Inl e, s')
      | (Inr _, s') \<Rightarrow> (Inr (), s'))"

definition percentile :: "rat list \<Rightarrow> rat \<Rightarrow> rat" where
  "percentile values p =
     (if length values = 0 then 0
      else (let sorted0 = sort values;
                index = \<lceil>p * of_nat (length sorted0)\<rceil> - 1
            in sorted0 ! nat (max 0 index)))"

section \<open>What runs under the lock preserves\<close>

definition redis_preserves :: "'s redis_ops \<Rightarrow> ('s \<Rightarrow> bool) \<Rightarrow> bool" where
  "redis_preserves R P \<longleftrightarrow> (\<forall>s k v ttl. P s \<longrightarrow> P (snd (redis_set_nx R s k v ttl))) \<and>
     (\<forall>s k v. P s \<longrightarrow> P (snd (redis_release_script R s k v)))"

lemma withLock_preserves:
  assumes "redis_preserves R P" "\<And>s. P s \<Longrightarrow> P (snd (fn s))" "P s"
  shows "P (snd (withLock R available l fn s))"
proof -
  have acq: "P (snd (acquire R available l s))"
    using assms(1,3) by (auto simp: acquire_def redis_preserves_def split: prod.splits option.splits) (metis snd_conv)+
  obtain res s1 where a: "acquire R available l s = (res, s1)" by (cases "acquire R available l s")
  obtain out s2 where f: "fn s1 = (out, s2)" by (cases "fn s1")
  have s2: "P s2" using assms(2) [of s1] acq a f by simp
  have "P (snd (release R available l s2))"
    using assms(1) s2 by (auto simp: release_def redis_preserves_def split: prod.splits option.splits) (metis snd_conv)+
  with acq a f s2 show ?thesis by (simp add: withLock_def)
qed

lemma runner_withLock_preserves:
  assumes "redis_preserves R P" "\<And>s. P s \<Longrightarrow> P (snd (operation s))" "\<And>e s. P s \<Longrightarrow> P (snd (onFailure e s))" "P s"
  shows "P (snd (runner_withLock R available l operation onFailure s))"
proof -
  have "P (snd (withLock R available l (\<lambda>r1. case operation r1 of
      (Inr a, r2) \<Rightarrow> (Inr (Some a), r2) | (Inl e, r2) \<Rightarrow> onFailure e r2) s))"
  proof (rule withLock_preserves [OF assms(1)])
    fix s1 assume "P s1"
    then have "P (snd (operation s1))" by (rule assms(2))
    then show "P (snd (case operation s1 of (Inr a, r2) \<Rightarrow> (Inr (Some a), r2) | (Inl e, r2) \<Rightarrow> onFailure e r2))"
      by (cases "operation s1") (auto intro: assms(3) split: sum.split)
  qed (rule assms(4))
  then show ?thesis
    by (simp add: runner_withLock_def case_prod_beta split: sum.split option.split)
qed

lemma runner_withLock_no_error:
  assumes "\<And>e s. \<exists>b s'. onFailure e s = (Inr b, s')"
  shows "\<exists>out s'. runner_withLock R available l operation onFailure s = (Inr out, s')"
proof -
  have "\<exists>out s'. withLock R available l (\<lambda>r1. case operation r1 of
      (Inr a, r2) \<Rightarrow> (Inr (Some a), r2) | (Inl e, r2) \<Rightarrow> onFailure e r2) s = (Inr out, s')"
  proof -
    obtain res s1 where a: "acquire R available l s = (res, s1)" by (cases "acquire R available l s")
    obtain r s2 where o1: "operation s1 = (r, s2)" by (cases "operation s1")
    show ?thesis
    proof (cases r)
      case (Inl e)
      obtain b s3 where "onFailure e s2 = (Inr b, s3)" using assms by blast
      with a o1 Inl show ?thesis by (simp add: withLock_def)
    next
      case (Inr x)
      with a o1 show ?thesis by (simp add: withLock_def)
    qed
  qed
  then show ?thesis by (auto simp: runner_withLock_def split: option.split)
qed

section \<open>The retention condition\<close>

lemma param_names [simp]:
  "pid_name a = pid_name b \<longleftrightarrow> a = b" "cutoff_name a = cutoff_name b \<longleftrightarrow> a = b"
  "pid_name a \<noteq> cutoff_name b" "cutoff_name b \<noteq> pid_name a"
  by (simp_all add: pid_name_def cutoff_name_def)

definition add_params :: "(string \<Rightarrow> string) \<Rightarrow> workload \<Rightarrow> (string \<times> param) list \<Rightarrow> (string \<times> param) list" where
  "add_params hash p params = rec_set (cutoff_name (hash (projectId p))) (P_DateTime (cutoffDate p))
     (rec_set (pid_name (hash (projectId p))) (P_String (projectId p)) params)"

lemma add_params_lookup:
  "map_of (add_params hash p params) (pid_name h) =
     (if h = hash (projectId p) then Some (P_String (projectId p)) else map_of params (pid_name h))"
  "map_of (add_params hash p params) (cutoff_name h) =
     (if h = hash (projectId p) then Some (P_DateTime (cutoffDate p)) else map_of params (cutoff_name h))"
  by (simp_all add: add_params_def)

text \<open>Both parameters of a key come from one workload.\<close>

lemma params_pair:
  assumes "map_of params0 (pid_name h) = None" "map_of params0 (cutoff_name h) = None"
  shows "(map_of (fold (add_params hash) ps params0) (pid_name h) = None \<and>
      map_of (fold (add_params hash) ps params0) (cutoff_name h) = None \<and> h \<notin> (hash \<circ> projectId) ` set ps) \<or>
    (\<exists>p \<in> set ps. hash (projectId p) = h \<and>
      map_of (fold (add_params hash) ps params0) (pid_name h) = Some (P_String (projectId p)) \<and>
      map_of (fold (add_params hash) ps params0) (cutoff_name h) = Some (P_DateTime (cutoffDate p)))"
proof (induction ps rule: rev_induct)
  case Nil
  then show ?case using assms by simp
next
  case (snoc p ps)
  then show ?case by (cases "h = hash (projectId p)") (auto simp: add_params_lookup)
qed

lemma conditions_Inr:
  "buildRetentionConditions hash ps = Inr q \<longleftrightarrow>
     check_collisions hash ps [] \<and> q = (map (condition_names hash) ps, fold (add_params hash) ps [])"
  by (auto simp: buildRetentionConditions_def add_params_def [abs_def])

lemma selects_iff:
  "selects (map (condition_names hash) ps, fold (add_params hash) ps []) proj tm \<longleftrightarrow>
     (\<exists>p \<in> set ps. map_of (fold (add_params hash) ps []) (pid_name (hash (projectId p))) = Some (P_String proj) \<and>
       (\<exists>c. map_of (fold (add_params hash) ps []) (cutoff_name (hash (projectId p))) = Some (P_DateTime c) \<and> tm < c))"
proof -
  have "(case m of Some (P_DateTime c) \<Rightarrow> tm < c | _ \<Rightarrow> False) \<longleftrightarrow> (\<exists>c. m = Some (P_DateTime c) \<and> tm < c)" for m
    by (auto split: option.split param.split)
  then show ?thesis by (simp add: selects_def list_ex_iff condition_names_def)
qed

lemma selects_sound:
  assumes "buildRetentionConditions hash ps = Inr q" "selects q proj tm"
  shows "\<exists>p \<in> set ps. projectId p = proj \<and> tm < cutoffDate p"
proof -
  have q: "q = (map (condition_names hash) ps, fold (add_params hash) ps [])" using assms(1) by (simp add: conditions_Inr)
  obtain p c where p: "p \<in> set ps" "map_of (fold (add_params hash) ps []) (pid_name (hash (projectId p))) = Some (P_String proj)"
    "map_of (fold (add_params hash) ps []) (cutoff_name (hash (projectId p))) = Some (P_DateTime c)" "tm < c"
    using assms(2) unfolding q selects_iff by blast
  with params_pair [of "[]" "hash (projectId p)" hash ps] show ?thesis by auto
qed

lemma collisions_distinct:
  assumes "check_collisions hash ps m" "distinct (map projectId ps)" "\<forall>p \<in> set ps. projectId p \<noteq> []"
    "\<forall>v \<in> ran (map_of m). v \<noteq> [] \<and> v \<notin> projectId ` set ps"
  shows "distinct (map (hash \<circ> projectId) ps) \<and> (\<forall>p \<in> set ps. map_of m (hash (projectId p)) = None)"
  using assms
proof (induction ps arbitrary: m)
  case Nil
  then show ?case by simp
next
  case (Cons p ps)
  have none: "map_of m (hash (projectId p)) = None"
  proof (cases "map_of m (hash (projectId p))")
    case (Some v)
    then have "v \<in> ran (map_of m)" by (auto simp: ran_def)
    with Cons.prems(1,4) Some show ?thesis by auto
  qed simp
  let ?m = "rec_set (hash (projectId p)) (projectId p) m"
  have "distinct (map (hash \<circ> projectId) ps) \<and> (\<forall>q \<in> set ps. map_of ?m (hash (projectId q)) = None)"
  proof (rule Cons.IH)
    show "check_collisions hash ps ?m" using Cons.prems(1) none by simp
    show "distinct (map projectId ps)" "\<forall>p \<in> set ps. projectId p \<noteq> []" using Cons.prems by auto
    show "\<forall>v \<in> ran (map_of ?m). v \<noteq> [] \<and> v \<notin> projectId ` set ps"
      using Cons.prems(2,3,4) by (auto simp: ran_def split: if_splits)
  qed
  then show ?case using none by (auto simp: o_def split: if_splits)
qed

lemma no_collisions:
  assumes "distinct (map (hash \<circ> projectId) ps)" "\<forall>p \<in> set ps. map_of m (hash (projectId p)) = None"
  shows "check_collisions hash ps m"
  using assms
proof (induction ps arbitrary: m)
  case (Cons p ps)
  have "check_collisions hash ps (rec_set (hash (projectId p)) (projectId p) m)"
    by (rule Cons.IH) (use Cons.prems in \<open>auto simp: image_iff\<close>)
  with Cons.prems show ?case by simp
qed simp

section \<open>Chunks\<close>

lemma chunk_loop_result:
  assumes "0 < n"
  shows "\<exists>cs. chunk_loop n xs i acc = Some (acc @ cs) \<and> concat cs = drop i xs \<and> (\<forall>c \<in> set cs. c \<noteq> [] \<and> length c \<le> n)"
proof (induction "length xs - i" arbitrary: i acc rule: less_induct)
  case less
  show ?case
  proof (cases "i < length xs")
    case False
    then show ?thesis by (subst chunk_loop.simps) auto
  next
    case True
    have "length xs - (i + n) < length xs - i" using True assms by simp
    from less [OF this, of "acc @ [take n (drop i xs)]"] obtain cs where cs:
      "chunk_loop n xs (i + n) (acc @ [take n (drop i xs)]) = Some (acc @ (take n (drop i xs) # cs))"
      "concat cs = drop (i + n) xs" "\<forall>c \<in> set cs. c \<noteq> [] \<and> length c \<le> n" by auto
    have "concat (take n (drop i xs) # cs) = drop i xs"
      unfolding concat.simps cs(2) by (metis append_take_drop_id drop_drop add.commute)
    then show ?thesis
      using cs True assms by (intro exI [of _ "take n (drop i xs) # cs"]) (subst chunk_loop.simps, auto)
  qed
qed

lemma query_chunks_preserves:
  assumes "\<And>c s. P s \<Longrightarrow> P (snd (f c s))" "P s"
  shows "P (snd (query_chunks f cs s))"
  using assms(2)
proof (induction cs arbitrary: s)
  case Nil
  then show ?case by simp
next
  case (Cons c cs)
  obtain r s1 where f: "f c s = (r, s1)" by (cases "f c s")
  obtain rs s2 where q: "query_chunks f cs s1 = (rs, s2)" by (cases "query_chunks f cs s1")
  have "P s1" using assms(1) [OF Cons.prems, of c] f by simp
  from Cons.IH [OF this] q have "P s2" by simp
  then show ?case by (simp add: f q)
qed

lemma query_chunks_results:
  "query_chunks f cs s = (Inr bs, s') \<Longrightarrow> b \<in> set bs \<Longrightarrow> \<exists>c \<in> set cs. \<exists>s1 s2. f c s1 = (Inr b, s2)"
proof (induction cs arbitrary: s bs)
  case Nil
  then show ?case by simp
next
  case (Cons c cs)
  obtain r s1 where f: "f c s = (r, s1)" by (cases "f c s")
  obtain rs s2 where q: "query_chunks f cs s1 = (rs, s2)" by (cases "query_chunks f cs s1")
  from Cons.prems obtain b1 bs1 where "r = Inr b1" "rs = Inr bs1" "bs = b1 # bs1"
    by (cases r; cases rs) (auto simp: f q)
  with Cons.prems(2) Cons.IH [of s1 bs1] f q Cons.prems(1) show ?case by auto
qed

section \<open>Workloads\<close>

text \<open>
  What the queries promise: \<open>retention p\<close> is the retention of a live project that has one,
  \<open>rows s\<close> the rows of the table with project and time, and \<open>T\<close> a bound on the clock.
\<close>

definition retention_laws :: "'s retention_world \<Rightarrow> ('s \<Rightarrow> (string \<times> int) set) \<Rightarrow> (string \<Rightarrow> nat option) \<Rightarrow> int \<Rightarrow> bool" where
  "retention_laws W rows retention T \<longleftrightarrow>
     (\<forall>s r s'. find_projects W s = (r, s') \<longrightarrow> rows s' = rows s) \<and>
     (\<forall>s ps s' p d. find_projects W s = (Inr ps, s') \<longrightarrow> (p, d) \<in> set ps \<longrightarrow> retention p = Some d) \<and>
     (\<forall>q s r s'. count_expired W q s = (r, s') \<longrightarrow> rows s' = rows s) \<and>
     (\<forall>q s r s'. delete_selected W q s = (r, s') \<longrightarrow> rows s' \<subseteq> rows s \<and>
        (\<forall>p t. (p, t) \<in> rows s \<and> \<not> selects q p t \<longrightarrow> (p, t) \<in> rows s')) \<and>
     (\<forall>s. current_time W s \<le> T)"

lemma retention_lawsD:
  assumes "retention_laws W rows retention T"
  shows "find_projects W s = (r, s') \<Longrightarrow> rows s' = rows s"
    "find_projects W s = (Inr ps, s') \<Longrightarrow> (p, d) \<in> set ps \<Longrightarrow> retention p = Some d"
    "count_expired W q s = (rc, s') \<Longrightarrow> rows s' = rows s"
    "delete_selected W q s = (rd, s') \<Longrightarrow> (p, t) \<in> rows s \<Longrightarrow> \<not> selects q p t \<Longrightarrow> (p, t) \<in> rows s'"
    "current_time W s \<le> T"
  using assms unfolding retention_laws_def by blast+

lemma count_chunk_same:
  "countExpiredRowsInChunk hash W c s = (Inr ws, s') \<Longrightarrow> w \<in> set ws \<Longrightarrow>
   \<exists>w0 \<in> set c. projectId w = projectId w0 \<and> cutoffDate w = cutoffDate w0"
  by (auto simp: countExpiredRowsInChunk_def Let_def split: if_splits sum.splits prod.splits option.splits) blast+

lemma workloads_sound:
  assumes "retention_laws W rows retention T" "0 < chunkSize"
    "getProjectWorkloads hash W chunkSize limit s = Some (Inr ws, s')" "w \<in> set ws"
  shows "\<exists>d. retention (projectId w) = Some d \<and> cutoffDate w \<le> T - int d * MS_PER_DAY"
proof -
  obtain r s1 where f: "find_projects W s = (r, s1)" by (cases "find_projects W s")
  with assms(3,4) obtain ps where ps: "r = Inr ps" "ps \<noteq> []"
    by (auto simp: getProjectWorkloads_def split: sum.splits if_splits)
  define alls where "alls = map (\<lambda>(p, days). \<lparr>projectId = p, retentionDays = days,
      cutoffDate = getRetentionCutoffDate days (current_time W s1), expiredRowCount = 0, oldestAgeSeconds = None\<rparr>) ps"
  obtain cs where cs: "chunk_loop chunkSize alls 0 [] = Some cs" "concat cs = alls"
    using chunk_loop_result [OF assms(2), of alls 0 "[]"] by auto
  obtain qr s2 where q: "query_chunks (countExpiredRowsInChunk hash W) cs s1 = (qr, s2)"
    by (cases "query_chunks (countExpiredRowsInChunk hash W) cs s1")
  have "getProjectWorkloads hash W chunkSize limit s = Some (case qr of Inl e \<Rightarrow> (Inl e, s2)
      | Inr rs \<Rightarrow> (Inr (take limit (filter (\<lambda>p. expiredRowCount p > 0) (sort_key (\<lambda>p. - int (expiredRowCount p)) (concat rs)))), s2))"
    using f ps cs(1) q by (simp add: getProjectWorkloads_def Let_def alls_def split: sum.split)
  with assms(3) obtain rs where rs: "qr = Inr rs"
    "ws = take limit (filter (\<lambda>p. expiredRowCount p > 0) (sort_key (\<lambda>p. - int (expiredRowCount p)) (concat rs)))"
    by (cases qr) auto
  have "w \<in> set (filter (\<lambda>p. expiredRowCount p > 0) (sort_key (\<lambda>p. - int (expiredRowCount p)) (concat rs)))"
    using assms(4) unfolding rs(2) by (rule in_set_takeD)
  then obtain b where b: "b \<in> set rs" "w \<in> set b" by auto
  obtain c sa sb where c: "c \<in> set cs" "countExpiredRowsInChunk hash W c sa = (Inr b, sb)"
    using query_chunks_results [of "countExpiredRowsInChunk hash W" cs s1 rs s2 b] q rs(1) b(1) by auto
  obtain w0 where w0: "w0 \<in> set c" "projectId w = projectId w0" "cutoffDate w = cutoffDate w0"
    using count_chunk_same [OF c(2) b(2)] by blast
  then have "w0 \<in> set alls" using c(1) cs(2) by (metis UN_I set_concat)
  then obtain p d where pd: "(p, d) \<in> set ps" "projectId w0 = p" "cutoffDate w0 = getRetentionCutoffDate d (current_time W s1)"
    by (auto simp: alls_def)
  have "retention p = Some d" using retention_lawsD(2) [OF assms(1) _ pd(1)] f ps(1) by blast
  moreover have "current_time W s1 \<le> T" by (rule retention_lawsD(5) [OF assms(1)])
  ultimately show ?thesis using pd w0 by (simp add: getRetentionCutoffDate_def)
qed

lemma workloads_preserve:
  assumes "retention_laws W rows retention T" "getProjectWorkloads hash W chunkSize limit s = Some (r, s')" "x \<in> rows s"
  shows "x \<in> rows s'"
proof -
  obtain r1 s1 where f: "find_projects W s = (r1, s1)" by (cases "find_projects W s")
  then have x1: "x \<in> rows s1" using retention_lawsD(1) [OF assms(1) f] assms(3) by simp
  have keep: "x \<in> rows (snd (countExpiredRowsInChunk hash W c s))" if "x \<in> rows s" for c s
  proof -
    note retention_lawsD(3) [OF assms(1)]
    then show ?thesis using that
      by (auto simp: countExpiredRowsInChunk_def Let_def split: sum.split prod.split)
  qed
  have "x \<in> rows (snd (query_chunks (countExpiredRowsInChunk hash W) cs s1))" for cs
    by (rule query_chunks_preserves [where P = "\<lambda>s. x \<in> rows s", OF keep x1])
  then show ?thesis
    using assms(2) f x1
    by (auto simp: getProjectWorkloads_def Let_def split: sum.splits if_splits option.splits prod.splits)
      (metis snd_conv)+
qed

lemma delete_preserves:
  assumes laws: "retention_laws W rows retention T" and row: "(p, t) \<in> rows s"
    and keep: "\<And>w. w \<in> set ws \<Longrightarrow> projectId w = p \<Longrightarrow> cutoffDate w \<le> t"
  shows "(p, t) \<in> rows (snd (executeBatchDelete hash W ws s))"
proof (cases "buildRetentionConditions hash ws")
  case (Inl e)
  with row show ?thesis by (simp add: executeBatchDelete_def)
next
  case (Inr q)
  have "\<not> selects q p t" using selects_sound [OF Inr] keep by fastforce
  moreover obtain r s' where d: "delete_selected W q s = (r, s')" by (cases "delete_selected W q s")
  ultimately have "(p, t) \<in> rows s'" using retention_lawsD(4) [OF laws d row] by blast
  with row Inr d show ?thesis by (simp add: executeBatchDelete_def)
qed

section \<open>Properties\<close>

text \<open>
  C30: the retention query is exact: for distinct projects it is refused exactly when two of them
  share a parameter key, and otherwise a row is selected if and only if it belongs to one of the
  projects and is older than that project's own cutoff.
\<close>

theorem retention_query_exact:
  assumes "distinct (map projectId ps)" "\<forall>p \<in> set ps. projectId p \<noteq> []"
  shows "case buildRetentionConditions hash ps of
      Inl e \<Rightarrow> \<not> distinct (map (hash \<circ> projectId) ps)
    | Inr q \<Rightarrow> distinct (map (hash \<circ> projectId) ps) \<and>
        (\<forall>proj tm. selects q proj tm = (\<exists>p \<in> set ps. projectId p = proj \<and> tm < cutoffDate p))"
proof -
  have iff: "check_collisions hash ps [] \<longleftrightarrow> distinct (map (hash \<circ> projectId) ps)"
    using collisions_distinct [of hash ps "[]"] no_collisions [of hash ps "[]"] assms by auto
  show ?thesis
  proof (cases "buildRetentionConditions hash ps")
    case (Inl e)
    then have "\<not> check_collisions hash ps []" by (auto simp: buildRetentionConditions_def split: if_splits)
    with Inl iff show ?thesis by simp
  next
    case (Inr q)
    then have d: "check_collisions hash ps []" "q = (map (condition_names hash) ps, fold (add_params hash) ps [])"
      by (simp_all add: conditions_Inr)
    have "selects q proj tm" if p: "p \<in> set ps" "projectId p = proj" "tm < cutoffDate p" for p proj tm
    proof -
      obtain p' where p': "p' \<in> set ps" "hash (projectId p') = hash (projectId p)"
        "map_of (fold (add_params hash) ps []) (pid_name (hash (projectId p))) = Some (P_String (projectId p'))"
        "map_of (fold (add_params hash) ps []) (cutoff_name (hash (projectId p))) = Some (P_DateTime (cutoffDate p'))"
        using params_pair [of "[]" "hash (projectId p)" hash ps] p(1) by auto
      have "p' = p" using iff d(1) p(1) p'(1,2) by (auto simp: distinct_map inj_on_def)
      with p p' show ?thesis unfolding d(2) selects_iff by auto
    qed
    with selects_sound [OF Inr] have "selects q proj tm = (\<exists>p \<in> set ps. projectId p = proj \<and> tm < cutoffDate p)" for proj tm
      by blast
    with Inr iff d(1) show ?thesis by simp
  qed
qed

definition sample_workload :: workload where
  "sample_workload = \<lparr>projectId = ''p'', retentionDays = 3, cutoffDate = 100, expiredRowCount = 0, oldestAgeSeconds = None\<rparr>"

theorem retention_query_exact_witness:
  "case buildRetentionConditions id [sample_workload, sample_workload\<lparr>projectId := ''q'', cutoffDate := 7\<rparr>] of
      Inl e \<Rightarrow> False
    | Inr q \<Rightarrow> selects q ''p'' 50 \<and> \<not> selects q ''q'' 50"
proof -
  let ?ps = "[sample_workload, sample_workload\<lparr>projectId := ''q'', cutoffDate := 7\<rparr>]"
  have "case buildRetentionConditions id ?ps of
      Inl e \<Rightarrow> \<not> distinct (map (id \<circ> projectId) ?ps)
    | Inr q \<Rightarrow> distinct (map (id \<circ> projectId) ?ps) \<and>
        (\<forall>proj tm. selects q proj tm = (\<exists>p \<in> set ?ps. projectId p = proj \<and> tm < cutoffDate p))"
    by (rule retention_query_exact) (simp_all add: sample_workload_def)
  then show ?thesis
    by (cases "buildRetentionConditions id ?ps") (simp_all add: sample_workload_def)
qed

text \<open>
  C19: the retention job never deletes a row that is not expired: whatever fails and whatever the
  lock's answer, a row of a project without retention, or not older than its project's retention
  at the latest time the clock can show, is still there afterwards.
\<close>

theorem retention_cleaner_safe:
  assumes "retention_laws W rows retention T" "redis_preserves R (\<lambda>s. (p, t) \<in> rows s)" "0 < chunkSize"
    "(p, t) \<in> rows s" "\<forall>d. retention p = Some d \<longrightarrow> T - int d * MS_PER_DAY \<le> t"
  shows "(p, t) \<in> rows (snd (execute_retention_cleaner hash W chunkSize limit R available l s))"
proof -
  have op: "(p, t) \<in> rows (snd (retention_operation hash W chunkSize limit s))" if row: "(p, t) \<in> rows s" for s
  proof (cases "getProjectWorkloads hash W chunkSize limit s")
    case None
    with row show ?thesis by (simp add: retention_operation_def)
  next
    case (Some rs)
    obtain r s1 where rs: "rs = (r, s1)" by (cases rs)
    have row1: "(p, t) \<in> rows s1" using workloads_preserve [OF assms(1) _ row] Some rs by blast
    show ?thesis
    proof (cases r)
      case (Inl e)
      with Some rs row1 show ?thesis by (simp add: retention_operation_def)
    next
      case (Inr ws)
      have "(p, t) \<in> rows (snd (executeBatchDelete hash W ws s1))"
      proof (rule delete_preserves [OF assms(1) row1])
        fix w assume w: "w \<in> set ws" "projectId w = p"
        have "getProjectWorkloads hash W chunkSize limit s = Some (Inr ws, s1)" using Some rs Inr by simp
        from workloads_sound [OF assms(1,3) this w(1)] assms(5) w(2) show "cutoffDate w \<le> t" by force
      qed
      with Some rs Inr show ?thesis by (simp add: retention_operation_def)
    qed
  qed
  have "(p, t) \<in> rows (snd (runner_withLock R available l (retention_operation hash W chunkSize limit) (\<lambda>e s. (Inr None, s)) s))"
    by (rule runner_withLock_preserves [where P = "\<lambda>s. (p, t) \<in> rows s", OF assms(2) op]) (simp_all add: assms(4))
  then show ?thesis
    by (simp add: execute_retention_cleaner_def case_prod_beta split: sum.split)
qed

text \<open>A world with one table and a key-value store, as an instance of the laws.\<close>

record sample_world =
  table_rows :: "(string \<times> int) list"
  keys :: "string \<rightharpoonup> string"

definition sample_redis :: "sample_world redis_ops" where
  "sample_redis = \<lparr>redis_set_nx = (\<lambda>s k v _. if keys s k = None then (Some True, s\<lparr>keys := (keys s)(k \<mapsto> v)\<rparr>) else (Some False, s)),
     redis_release_script = (\<lambda>s k v. if keys s k = Some v then (Some 1, s\<lparr>keys := (keys s)(k := None)\<rparr>) else (Some 0, s))\<rparr>"

definition sample_retention_world :: "sample_world retention_world" where
  "sample_retention_world = \<lparr>find_projects = (\<lambda>s. (Inr [(''p'', 1)], s)), current_time = (\<lambda>_. 90000000),
     count_expired = (\<lambda>q s. (Inr [(''p'', length (filter (\<lambda>(p, t). selects q p t) (table_rows s)), 5)], s)),
     delete_selected = (\<lambda>q s. (Inr (), s\<lparr>table_rows := filter (\<lambda>(p, t). \<not> selects q p t) (table_rows s)\<rparr>))\<rparr>"

lemma sample_redis_preserves: "redis_preserves sample_redis (\<lambda>s. x \<in> set (table_rows s))"
  by (auto simp: redis_preserves_def sample_redis_def)

lemma sample_retention_laws:
  "retention_laws sample_retention_world (\<lambda>s. set (table_rows s)) [''p'' \<mapsto> 1] 90000000"
  by (auto simp: retention_laws_def sample_retention_world_def)

theorem retention_cleaner_safe_witness:
  "(''q'', 0) \<in> set (table_rows (snd (execute_retention_cleaner id sample_retention_world 10 10 sample_redis True
     (new_lock ''k'' ''u'' 60 None) \<lparr>table_rows = [(''p'', 0), (''q'', 0)], keys = (\<lambda>_. None)\<rparr>)))"
  by (rule retention_cleaner_safe [OF sample_retention_laws sample_redis_preserves]) simp_all

text \<open>What the queries of the project cleaner promise, and its counting.\<close>

definition project_laws :: "'s project_world \<Rightarrow> ('s \<Rightarrow> 'row set) \<Rightarrow> ('row \<Rightarrow> string) \<Rightarrow> string set \<Rightarrow> bool" where
  "project_laws W rows project_of deleted \<longleftrightarrow>
     (\<forall>n s r s'. find_deleted_projects W n s = (r, s') \<longrightarrow> rows s' = rows s \<and> (\<forall>ids. r = Inr ids \<longrightarrow> set ids \<subseteq> deleted)) \<and>
     (\<forall>ids s r s'. count_query W ids s = (r, s') \<longrightarrow> rows s' = rows s \<and> (\<forall>cs. r = Inr cs \<longrightarrow> fst ` set cs \<subseteq> set ids)) \<and>
     (\<forall>ids s r s'. delete_command W ids s = (r, s') \<longrightarrow> (\<forall>x \<in> rows s. project_of x \<notin> set ids \<longrightarrow> x \<in> rows s'))"

lemma project_lawsD:
  assumes "project_laws W rows project_of deleted"
  shows "find_deleted_projects W n s = (r, s') \<Longrightarrow> rows s' = rows s"
    "find_deleted_projects W n s = (Inr ids, s') \<Longrightarrow> set ids \<subseteq> deleted"
    "count_query W ids s = (rc, s') \<Longrightarrow> rows s' = rows s"
    "count_query W ids s = (Inr cs, s') \<Longrightarrow> fst ` set cs \<subseteq> set ids"
    "delete_command W ids s = (rd, s') \<Longrightarrow> x \<in> rows s \<Longrightarrow> project_of x \<notin> set ids \<Longrightarrow> x \<in> rows s'"
  using assms unfolding project_laws_def by metis+

lemma counts_keys: "fst ` set (fold (\<lambda>(p, c) counts. rec_set p c counts) xs acc) = fst ` set acc \<union> fst ` set xs"
  by (induction xs arbitrary: acc) (simp_all add: case_prod_beta)

lemma getProjectCounts_facts:
  assumes "project_laws W rows project_of deleted" "getProjectCounts W ids s = (r, s')"
  shows "rows s' = rows s" "r = Inr cs \<Longrightarrow> fst ` set cs \<subseteq> set ids"
proof -
  have "rows s' = rows s \<and> (\<forall>cs. r = Inr cs \<longrightarrow> fst ` set cs \<subseteq> set ids)"
  proof (cases "ids = []")
    case True
    with assms(2) show ?thesis by (auto simp: getProjectCounts_def)
  next
    case False
    obtain q s1 where c: "count_query W ids s = (q, s1)" by (cases "count_query W ids s")
    show ?thesis
    proof (cases q)
      case (Inl e)
      with c False assms(2) project_lawsD(3) [OF assms(1) c] show ?thesis by (auto simp: getProjectCounts_def)
    next
      case (Inr cs)
      have "fst ` set (fold (\<lambda>(p, c) counts. rec_set p c counts) cs []) \<subseteq> set ids"
        using project_lawsD(4) [OF assms(1), of ids s cs s1] c Inr by (simp add: counts_keys)
      with c False assms(2) Inr project_lawsD(3) [OF assms(1) c] show ?thesis by (auto simp: getProjectCounts_def)
    qed
  qed
  then show "rows s' = rows s" "r = Inr cs \<Longrightarrow> fst ` set cs \<subseteq> set ids" by blast+
qed

text \<open>
  C31: the project cleaner touches the data of deleted projects only and never fails: whatever the
  queries, the deletion and the lock answer, it returns one of its two delays, and a row of a
  project that is not deleted is still there afterwards.
\<close>

theorem project_cleaner_safe:
  assumes laws: "project_laws W rows project_of deleted" and redis: "redis_preserves R (\<lambda>s. x \<in> rows s)"
    and row: "x \<in> rows s" "project_of x \<notin> deleted"
  shows "\<exists>delay s'. execute_project_cleaner W cfg R available l s = (Inr delay, s') \<and>
    delay \<in> {checkInterval cfg, sleepOnEmpty cfg} \<and> x \<in> rows s'"
proof -
  obtain r1 s1 where f: "find_deleted_projects W (projectLimit cfg) s = (r1, s1)"
    by (cases "find_deleted_projects W (projectLimit cfg) s")
  have row1: "x \<in> rows s1" using project_lawsD(1) [OF laws f] row(1) by simp
  show ?thesis
  proof (cases r1)
    case (Inl e)
    with f row1 show ?thesis by (simp add: execute_project_cleaner_def)
  next
    case (Inr ids)
    have "find_deleted_projects W (projectLimit cfg) s = (Inr ids, s1)" using f Inr by simp
    from project_lawsD(2) [OF laws this] have sub: "set ids \<subseteq> deleted" .
    obtain r2 s2 where c: "getProjectCounts W ids s1 = (r2, s2)" by (cases "getProjectCounts W ids s1")
    have row2: "x \<in> rows s2" using getProjectCounts_facts(1) [OF laws c] row1 by simp
    show ?thesis
    proof (cases r2)
      case (Inl e)
      with f c Inr row2 show ?thesis by (simp add: execute_project_cleaner_def)
    next
      case r2: (Inr counts)
      define P where "P = map fst (filter (\<lambda>(_, count). count > 0) counts)"
      have "set P \<subseteq> fst ` set counts" by (auto simp: P_def)
      with getProjectCounts_facts(2) [OF laws c r2] sub row(2) have out: "project_of x \<notin> set P" by blast
      show ?thesis
      proof (cases "P = []")
        case True
        with f c Inr r2 row2 show ?thesis by (simp add: execute_project_cleaner_def P_def)
      next
        case False
        have fail: "\<exists>b s'. project_failure W cfg P e s = (Inr b, s')" for e s
          by (simp add: project_failure_def case_prod_beta)
        obtain out s3 where w: "runner_withLock R available l (project_delete W cfg P) (project_failure W cfg P) s2 = (Inr out, s3)"
          using runner_withLock_no_error [of "project_failure W cfg P", OF fail] by blast
        have "x \<in> rows (snd (runner_withLock R available l (project_delete W cfg P) (project_failure W cfg P) s2))"
        proof (rule runner_withLock_preserves [where P = "\<lambda>s. x \<in> rows s", OF redis])
          show "x \<in> rows (snd (project_delete W cfg P s))" if "x \<in> rows s" for s
          proof -
            obtain rd sd where d: "delete_command W P s = (rd, sd)" by (cases "delete_command W P s")
            from project_lawsD(5) [OF laws this that out] have "x \<in> rows sd" .
            with d False show ?thesis by (cases rd) (simp_all add: project_delete_def executeDelete_def)
          qed
          show "x \<in> rows (snd (project_failure W cfg P e s))" if "x \<in> rows s" for e s
          proof -
            obtain rc sc where c: "getProjectCounts W P s = (rc, sc)" by (cases "getProjectCounts W P s")
            with getProjectCounts_facts(1) [OF laws c] that show ?thesis by (simp add: project_failure_def)
          qed
        qed (rule row2)
        then have row3: "x \<in> rows s3" by (simp add: w)
        have "out \<in> {None, Some (checkInterval cfg)}"
          using w by (auto simp: runner_withLock_def withLock_def project_delete_def project_failure_def case_prod_beta
              split: if_splits sum.splits option.splits)
        with f c Inr r2 w row3 False show ?thesis
          by (auto simp: execute_project_cleaner_def P_def Let_def)
      qed
    qed
  qed
qed

definition sample_project_world :: "sample_world project_world" where
  "sample_project_world = \<lparr>find_deleted_projects = (\<lambda>_ s. (Inr [''p''], s)),
     count_query = (\<lambda>ids s. (Inr (filter (\<lambda>(_, n). 0 < n) (map (\<lambda>i. (i, length (filter (\<lambda>(p, _). p = i) (table_rows s)))) ids)), s)),
     delete_command = (\<lambda>ids s. (Inl ''timeout'', s\<lparr>table_rows := filter (\<lambda>(p, _). p \<notin> set ids) (table_rows s)\<rparr>))\<rparr>"

lemma sample_project_laws: "project_laws sample_project_world (\<lambda>s. set (table_rows s)) fst {''p''}"
  by (auto simp: project_laws_def sample_project_world_def)

theorem project_cleaner_safe_witness:
  "\<exists>delay s'. execute_project_cleaner sample_project_world \<lparr>projectLimit = 5, checkInterval = 10, sleepOnEmpty = 60\<rparr>
      sample_redis True (new_lock ''k'' ''u'' 60 None) \<lparr>table_rows = [(''p'', 0), (''q'', 0)], keys = (\<lambda>_. None)\<rparr> = (Inr delay, s') \<and>
    delay \<in> {10, 60} \<and> (''q'', 0) \<in> set (table_rows s')"
  using project_cleaner_safe [OF sample_project_laws sample_redis_preserves, of "(''q'', 0)"
      "\<lparr>table_rows = [(''p'', 0), (''q'', 0)], keys = (\<lambda>_. None)\<rparr>" "\<lparr>projectLimit = 5, checkInterval = 10, sleepOnEmpty = 60\<rparr>"
      True "new_lock ''k'' ''u'' 60 None"] by simp

text \<open>
  the percentile of a non-empty list is one of its values, and at least the fraction \<open>p\<close> of the
  values is not above it.
\<close>

theorem percentile_rank:
  assumes "values \<noteq> []" "0 \<le> p" "p \<le> 1"
  shows "percentile values p \<in> set values \<and>
    p * of_nat (length values) \<le> of_nat (length (filter (\<lambda>v. v \<le> percentile values p) values))"
proof -
  let ?s = "sort values" let ?n = "length values"
  let ?i = "nat (max 0 (\<lceil>p * of_nat ?n\<rceil> - 1))"
  have n: "0 < ?n" using assms(1) by simp
  have "p * of_nat ?n \<le> of_nat ?n" using mult_right_mono [OF assms(3), of "of_nat ?n"] by simp
  then have "\<lceil>p * of_nat ?n\<rceil> \<le> int ?n" by (simp add: ceiling_le_iff)
  with n have "max 0 (\<lceil>p * of_nat ?n\<rceil> - 1) < int ?n" by linarith
  then have i: "?i < length ?s" by (simp add: nat_less_iff)
  have val: "percentile values p = ?s ! ?i" using assms(1) by (simp add: percentile_def Let_def)
  have "?s ! j \<le> ?s ! ?i" if "j \<le> ?i" for j using i that by (intro sorted_nth_mono) simp_all
  then have low: "filter (\<lambda>v. v \<le> ?s ! ?i) (take (Suc ?i) ?s) = take (Suc ?i) ?s"
    using i by (intro filter_True) (auto simp: in_set_conv_nth)
  have "filter (\<lambda>v. v \<le> ?s ! ?i) ?s =
      filter (\<lambda>v. v \<le> ?s ! ?i) (take (Suc ?i) ?s) @ filter (\<lambda>v. v \<le> ?s ! ?i) (drop (Suc ?i) ?s)"
    unfolding filter_append [symmetric] append_take_drop_id ..
  then have "length (filter (\<lambda>v. v \<le> ?s ! ?i) ?s) = length (take (Suc ?i) ?s) + length (filter (\<lambda>v. v \<le> ?s ! ?i) (drop (Suc ?i) ?s))"
    unfolding low by (simp only: length_append)
  moreover have "length (take (Suc ?i) ?s) = Suc ?i" using i by (simp only: length_take)
  ultimately have "Suc ?i \<le> length (filter (\<lambda>v. v \<le> ?s ! ?i) ?s)" by linarith
  also have "length (filter (\<lambda>v. v \<le> ?s ! ?i) ?s) = length (filter (\<lambda>v. v \<le> ?s ! ?i) values)"
    by (simp add: filter_sort [of "\<lambda>v. v \<le> ?s ! ?i" "\<lambda>x. x", simplified])
  finally have len: "Suc ?i \<le> length (filter (\<lambda>v. v \<le> percentile values p) values)" unfolding val .
  have "\<lceil>p * of_nat ?n\<rceil> \<le> int (Suc ?i)" by simp
  then have "p * of_nat ?n \<le> of_nat (Suc ?i)" by (simp add: ceiling_le_iff del: of_nat_Suc)
  also have "\<dots> \<le> of_nat (length (filter (\<lambda>v. v \<le> percentile values p) values))"
    using len by (simp only: of_nat_le_iff)
  finally have "p * of_nat ?n \<le> of_nat (length (filter (\<lambda>v. v \<le> percentile values p) values))" .
  moreover have "percentile values p \<in> set values" using i nth_mem [OF i] by (simp add: val)
  ultimately show ?thesis by blast
qed

end
