(* ===== verification/Address_Blocking.thy ===== *)
theory Address_Blocking imports Prelude begin

text \<open>
  Which addresses and host names a webhook may not reach,
  \<^verbatim>\<open>packages/shared/src/server/webhooks/ipBlocking.ts\<close>. The package \<open>ipaddr.js\<close> is an argument:
  \<open>'ip\<close> stands for its address objects, and \<open>ip_laws\<close> states what its documentation promises of
  parsing the listed networks and of matching an address against a prefix.
\<close>

section \<open>The library of addresses\<close>

datatype ip_kind = IPv4 | IPv6

record 'ip ip_lib =
  ip_parse :: "string \<Rightarrow> 'ip option"
  ip_kind_of :: "'ip \<Rightarrow> ip_kind"
  ip_match :: "'ip \<Rightarrow> 'ip \<Rightarrow> int option \<Rightarrow> bool"

fun ip_width :: "ip_kind \<Rightarrow> nat" where
  "ip_width IPv4 = 32"
| "ip_width IPv6 = 128"

section \<open>The blocked networks\<close>

definition BLOCKED_CIDRS :: "string list" where
  "BLOCKED_CIDRS = [
    ''0.0.0.0/8'', ''10.0.0.0/8'', ''100.64.0.0/10'', ''127.0.0.0/8'', ''169.254.0.0/16'',
    ''172.16.0.0/12'', ''192.0.0.0/29'', ''192.0.2.0/24'', ''192.168.0.0/16'', ''198.18.0.0/15'',
    ''198.51.100.0/24'', ''203.0.113.0/24'', ''224.0.0.0/4'', ''240.0.0.0/4'', ''255.255.255.255/32'',
    ''::/128'', ''::1/128'', ''::ffff:0:0/96'', ''fc00::/7'', ''fe80::/10'', ''ff00::/8'', ''100::/64'',
    ''2001::/32'', ''2001:db8::/32'']"

text \<open>\<open>parseInt(s, 10)\<close>: white space, a sign, then the longest run of digits; \<open>None\<close> is NaN.\<close>

definition digit_value :: "char \<Rightarrow> nat" where
  "digit_value c = of_char c - 48"

definition is_digit :: "char \<Rightarrow> bool" where
  "is_digit c \<longleftrightarrow> (let n = (of_char c :: nat) in 48 \<le> n \<and> n \<le> 57)"

definition parse_digits :: "string \<Rightarrow> int option" where
  "parse_digits s = (case takeWhile is_digit s of [] \<Rightarrow> None
     | ds \<Rightarrow> Some (int (foldl (\<lambda>n c. 10 * n + digit_value c) 0 ds)))"

definition parseInt10 :: "string \<Rightarrow> int option" where
  "parseInt10 s = (case dropWhile js_space s of [] \<Rightarrow> None
     | c # r \<Rightarrow> if c = CHR ''-'' then map_option uminus (parse_digits r)
         else if c = CHR ''+'' then parse_digits r else parse_digits (c # r))"

type_synonym 'ip ip_network = "'ip \<times> ip_kind \<times> int option"

definition parse_cidr :: "'ip ip_lib \<Rightarrow> string \<Rightarrow> 'ip ip_network option" where
  "parse_cidr L cidr =
     (let parts = js_split (CHR ''/'') cidr in
      case ip_parse L (parts ! 0) of None \<Rightarrow> None
      | Some parsed \<Rightarrow> Some (parsed, ip_kind_of L parsed,
          if 1 < length parts then parseInt10 (parts ! 1) else None))"

text \<open>Computed once when the module is loaded; \<open>None\<close> would be an exception there.\<close>

definition blockedNetworks :: "'ip ip_lib \<Rightarrow> 'ip ip_network list option" where
  "blockedNetworks L = those (map (parse_cidr L) BLOCKED_CIDRS)"

fun some_network_matches :: "'ip ip_lib \<Rightarrow> 'ip \<Rightarrow> 'ip ip_network list \<Rightarrow> bool" where
  "some_network_matches L ip [] = False"
| "some_network_matches L ip ((network, kind, bits) # nets) =
     (if ip_kind_of L ip \<noteq> kind then some_network_matches L ip nets
      else if ip_match L ip network bits then True else some_network_matches L ip nets)"

definition isIPBlocked :: "'ip ip_lib \<Rightarrow> 'ip ip_network list \<Rightarrow> string \<Rightarrow> string list \<Rightarrow> string list \<Rightarrow> bool" where
  "isIPBlocked L blocked ipString whitelistedIPs whiteListedIpSegments =
     (if js_trim (js_lower ipString) \<in> set whitelistedIPs then False
      else (case ip_parse L ipString of None \<Rightarrow> True
        | Some ip \<Rightarrow> (case those (map (parse_cidr L) whiteListedIpSegments) of None \<Rightarrow> True
            | Some whitelistedSegments \<Rightarrow>
                if some_network_matches L ip whitelistedSegments then False
                else some_network_matches L ip blocked)))"

section \<open>Literals and host names\<close>

definition strip_brackets :: "string \<Rightarrow> string" where
  "strip_brackets s =
     (let s1 = (case s of [] \<Rightarrow> [] | c # r \<Rightarrow> if c = CHR ''['' then r else s)
      in if s1 \<noteq> [] \<and> last s1 = CHR '']'' then butlast s1 else s1)"

definition isIPAddress :: "'ip ip_lib \<Rightarrow> string \<Rightarrow> bool" where
  "isIPAddress L hostname = (ip_parse L (strip_brackets hostname) \<noteq> None)"

definition js_ends_with :: "string \<Rightarrow> string \<Rightarrow> bool" where
  "js_ends_with s p \<longleftrightarrow> length p \<le> length s \<and> drop (length s - length p) s = p"

definition blockedPatterns :: "string list" where
  "blockedPatterns = [''localhost'', ''*.localhost'', ''internal'', ''*.internal'', ''intranet'', ''*.intranet'',
     ''metadata.google.internal'', ''169.254.169.254'', ''host.docker.internal'', ''gateway.docker.internal'']"

fun pattern_loop :: "string \<Rightarrow> string list \<Rightarrow> bool" where
  "pattern_loop hostname [] = False"
| "pattern_loop hostname (pattern # ps) =
     (if js_starts_with pattern ''*.'' then
        (let suffix = drop 2 pattern in
         if hostname = suffix \<or> js_ends_with hostname (CHR ''.'' # suffix) then True
         else pattern_loop hostname ps)
      else if hostname = pattern then True
      else pattern_loop hostname ps)"

definition isHostnameBlocked :: "string \<Rightarrow> bool" where
  "isHostnameBlocked hostname = pattern_loop hostname blockedPatterns"

section \<open>What the library of addresses promises\<close>

text \<open>The listed networks: kind, value of the address, and length of the prefix.\<close>

definition octets :: "nat \<Rightarrow> nat \<Rightarrow> nat \<Rightarrow> nat \<Rightarrow> nat" where
  "octets a b c d = ((a * 256 + b) * 256 + c) * 256 + d"

definition listed_networks :: "(string \<times> ip_kind \<times> nat \<times> nat) list" where
  "listed_networks = [
    (''0.0.0.0'', IPv4, octets 0 0 0 0, 8), (''10.0.0.0'', IPv4, octets 10 0 0 0, 8),
    (''100.64.0.0'', IPv4, octets 100 64 0 0, 10), (''127.0.0.0'', IPv4, octets 127 0 0 0, 8),
    (''169.254.0.0'', IPv4, octets 169 254 0 0, 16), (''172.16.0.0'', IPv4, octets 172 16 0 0, 12),
    (''192.0.0.0'', IPv4, octets 192 0 0 0, 29), (''192.0.2.0'', IPv4, octets 192 0 2 0, 24),
    (''192.168.0.0'', IPv4, octets 192 168 0 0, 16), (''198.18.0.0'', IPv4, octets 198 18 0 0, 15),
    (''198.51.100.0'', IPv4, octets 198 51 100 0, 24), (''203.0.113.0'', IPv4, octets 203 0 113 0, 24),
    (''224.0.0.0'', IPv4, octets 224 0 0 0, 4), (''240.0.0.0'', IPv4, octets 240 0 0 0, 4),
    (''255.255.255.255'', IPv4, octets 255 255 255 255, 32),
    (''::'', IPv6, 0, 128), (''::1'', IPv6, 1, 128), (''::ffff:0:0'', IPv6, 0xffff * 2 ^ 32, 96),
    (''fc00::'', IPv6, 0xfc00 * 2 ^ 112, 7), (''fe80::'', IPv6, 0xfe80 * 2 ^ 112, 10),
    (''ff00::'', IPv6, 0xff00 * 2 ^ 112, 8), (''100::'', IPv6, 0x100 * 2 ^ 112, 64),
    (''2001::'', IPv6, 0x2001 * 2 ^ 112, 32), (''2001:db8::'', IPv6, 0x2001 * 2 ^ 112 + 0xdb8 * 2 ^ 96, 32)]"

definition ip_laws :: "'ip ip_lib \<Rightarrow> ('ip \<Rightarrow> nat) \<Rightarrow> bool" where
  "ip_laws L val \<longleftrightarrow>
     (\<forall>(s, k, n, m) \<in> set listed_networks. \<exists>ip. ip_parse L s = Some ip \<and> ip_kind_of L ip = k \<and> val ip = n) \<and>
     (\<forall>ip. val ip < 2 ^ ip_width (ip_kind_of L ip)) \<and>
     (\<forall>ip net m. ip_kind_of L ip = ip_kind_of L net \<longrightarrow> m \<le> ip_width (ip_kind_of L net) \<longrightarrow>
        ip_match L ip net (Some (int m)) =
          (val ip div 2 ^ (ip_width (ip_kind_of L net) - m) = val net div 2 ^ (ip_width (ip_kind_of L net) - m)))"

section \<open>Lemmas\<close>

lemma div_range:
  assumes "0 < p"
  shows "x div p = q \<longleftrightarrow> q * p \<le> x \<and> x \<le> q * p + (p - 1 :: nat)"
proof
  assume "x div p = q"
  then have "x = q * p + x mod p" by (metis div_mult_mod_eq)
  with mod_less_divisor [OF assms, of x] show "q * p \<le> x \<and> x \<le> q * p + (p - 1)" by linarith
next
  assume "q * p \<le> x \<and> x \<le> q * p + (p - 1)"
  with assms have "p * q \<le> x" "x < p * Suc q" by (simp_all add: mult.commute) linarith
  then show "x div p = q" by (rule div_nat_eqI)
qed

lemma blocked_cidrs_listed: "BLOCKED_CIDRS = map (\<lambda>(s, k, n, m). s @ ''/'' @ nat_str m) listed_networks"
  by (simp add: BLOCKED_CIDRS_def listed_networks_def nat_str.simps digit_char_def char_of_bits)

lemma digit_char_value: "d < 10 \<Longrightarrow> is_digit (digit_char d) \<and> digit_value (digit_char d) = d"
  by (simp add: is_digit_def digit_value_def digit_char_def Let_def)

lemma nat_str_digits:
  "list_all is_digit (nat_str n) \<and> nat_str n \<noteq> [] \<and> foldl (\<lambda>n c. 10 * n + digit_value c) 0 (nat_str n) = n"
proof (induction n rule: nat_str.induct)
  case (1 n)
  then show ?case
    by (subst (1 2 3) nat_str.simps) (auto simp: digit_char_value)
qed

lemma digits_no_sign: "is_digit c \<Longrightarrow> \<not> js_space c \<and> c \<noteq> CHR ''-'' \<and> c \<noteq> CHR ''+'' \<and> c \<noteq> CHR ''/''"
  by (auto simp: is_digit_def js_space_def Let_def)

lemma parseInt10_nat_str: "parseInt10 (nat_str n) = Some (int n)"
proof -
  obtain c r where c: "nat_str n = c # r" using nat_str_digits [of n] by (cases "nat_str n") auto
  then have "is_digit c" using nat_str_digits [of n] by simp
  then have d: "\<not> js_space c" "c \<noteq> CHR ''-''" "c \<noteq> CHR ''+''" using digits_no_sign by simp_all
  have tw: "takeWhile is_digit (c # r) = c # r" unfolding takeWhile_eq_all_conv
    using nat_str_digits [of n] unfolding c list_all_iff by simp
  have "parse_digits (c # r) = Some (int n)"
    using nat_str_digits [of n] unfolding c parse_digits_def tw by (simp only: list.case)
  with d show ?thesis by (simp add: parseInt10_def c)
qed

lemma ip_lawsD:
  assumes "ip_laws L val" "ip_kind_of L ip = ip_kind_of L net" "m \<le> ip_width (ip_kind_of L net)"
  shows "ip_match L ip net (Some (int m)) =
    (val ip div 2 ^ (ip_width (ip_kind_of L net) - m) = val net div 2 ^ (ip_width (ip_kind_of L net) - m))"
  using assms unfolding ip_laws_def by blast

lemma listed_prefixes: "list_all (\<lambda>(s, k, n, m). m \<le> ip_width k \<and> CHR ''/'' \<notin> set s) listed_networks"
  by (simp add: listed_networks_def)

lemma parse_listed:
  assumes "ip_laws L val" "e \<in> set listed_networks" "e = (s, k, n, m)"
  shows "\<exists>net. parse_cidr L (s @ ''/'' @ nat_str m) = Some (net, k, Some (int m)) \<and> ip_kind_of L net = k \<and> val net = n"
proof -
  obtain net where net: "ip_parse L s = Some net" "ip_kind_of L net = k" "val net = n"
    using assms unfolding ip_laws_def by blast
  have "CHR ''/'' \<notin> set s" using listed_prefixes assms(2,3) by (auto simp: list_all_iff)
  moreover have "CHR ''/'' \<notin> set (nat_str m)"
    using nat_str_digits [of m] digits_no_sign by (auto simp: list_all_iff)
  ultimately have "js_split (CHR ''/'') (s @ ''/'' @ nat_str m) = [s, nat_str m]"
    by (simp add: js_split_append js_split_dotless)
  with net show ?thesis by (simp add: parse_cidr_def parseInt10_nat_str)
qed

text \<open>Matching the listed networks is a comparison of prefixes.\<close>

definition listed_match :: "ip_kind \<Rightarrow> nat \<Rightarrow> (string \<times> ip_kind \<times> nat \<times> nat) list \<Rightarrow> bool" where
  "listed_match kind x nets \<longleftrightarrow> list_ex (\<lambda>(s, k, n, m). kind = k \<and> x div 2 ^ (ip_width k - m) = n div 2 ^ (ip_width k - m)) nets"

lemma matches_listed:
  assumes "ip_laws L val" "set nets \<subseteq> set listed_networks"
  shows "\<exists>bs. those (map (parse_cidr L) (map (\<lambda>(s, k, n, m). s @ ''/'' @ nat_str m) nets)) = Some bs \<and>
    some_network_matches L ip bs = listed_match (ip_kind_of L ip) (val ip) nets"
  using assms(2)
proof (induction nets)
  case Nil
  then show ?case by (simp add: listed_match_def)
next
  case (Cons e nets)
  obtain s k n m where e: "e = (s, k, n, m)" by (cases e) auto
  obtain bs where bs: "those (map (parse_cidr L) (map (\<lambda>(s, k, n, m). s @ ''/'' @ nat_str m) nets)) = Some bs"
    "some_network_matches L ip bs = listed_match (ip_kind_of L ip) (val ip) nets" using Cons by auto
  obtain net where net: "parse_cidr L (s @ ''/'' @ nat_str m) = Some (net, k, Some (int m))" "ip_kind_of L net = k" "val net = n"
    using parse_listed [OF assms(1) _ e] Cons.prems by auto
  have m: "m \<le> ip_width k" using listed_prefixes Cons.prems e by (auto simp: list_all_iff)
  have "ip_match L ip net (Some (int m)) = (val ip div 2 ^ (ip_width k - m) = n div 2 ^ (ip_width k - m))"
    if "ip_kind_of L ip = k"
  proof -
    have "ip_kind_of L ip = ip_kind_of L net" "m \<le> ip_width (ip_kind_of L net)" using that net(2) m by simp_all
    from ip_lawsD [OF assms(1) this] show ?thesis by (simp only: net(2,3))
  qed
  then show ?case using bs net by (auto simp: e listed_match_def)
qed

lemma blockedNetworks_listed:
  assumes "ip_laws L val"
  shows "\<exists>bs. blockedNetworks L = Some bs \<and>
    (\<forall>ip. some_network_matches L ip bs = listed_match (ip_kind_of L ip) (val ip) listed_networks)"
proof -
  have all: "\<exists>bs. blockedNetworks L = Some bs \<and>
      some_network_matches L ip bs = listed_match (ip_kind_of L ip) (val ip) listed_networks" for ip
    using matches_listed [OF assms order_refl, of ip] unfolding blockedNetworks_def blocked_cidrs_listed .
  then obtain bs where "blockedNetworks L = Some bs" by blast
  with all show ?thesis by (metis option.inject)
qed

text \<open>The same networks as ranges of addresses.\<close>

definition blocked_ranges :: "ip_kind \<Rightarrow> (nat \<times> nat) list" where
  "blocked_ranges kind = (case kind of
     IPv4 \<Rightarrow> [(octets 0 0 0 0, octets 0 255 255 255), (octets 10 0 0 0, octets 10 255 255 255),
       (octets 100 64 0 0, octets 100 127 255 255), (octets 127 0 0 0, octets 127 255 255 255),
       (octets 169 254 0 0, octets 169 254 255 255), (octets 172 16 0 0, octets 172 31 255 255),
       (octets 192 0 0 0, octets 192 0 0 7), (octets 192 0 2 0, octets 192 0 2 255),
       (octets 192 168 0 0, octets 192 168 255 255), (octets 198 18 0 0, octets 198 19 255 255),
       (octets 198 51 100 0, octets 198 51 100 255), (octets 203 0 113 0, octets 203 0 113 255),
       (octets 224 0 0 0, octets 239 255 255 255), (octets 240 0 0 0, octets 255 255 255 255),
       (octets 255 255 255 255, octets 255 255 255 255)]
   | IPv6 \<Rightarrow> [(0, 0), (1, 1), (0xffff * 2 ^ 32, 0x10000 * 2 ^ 32 - 1),
       (0xfc00 * 2 ^ 112, 0xfe00 * 2 ^ 112 - 1), (0xfe80 * 2 ^ 112, 0xfec0 * 2 ^ 112 - 1),
       (0xff00 * 2 ^ 112, 2 ^ 128 - 1), (0x100 * 2 ^ 112, 0x100 * 2 ^ 112 + 2 ^ 64 - 1),
       (0x2001 * 2 ^ 112, 0x2001 * 2 ^ 112 + 2 ^ 96 - 1),
       (0x2001 * 2 ^ 112 + 0xdb8 * 2 ^ 96, 0x2001 * 2 ^ 112 + 0xdb9 * 2 ^ 96 - 1)])"

definition blocked_address :: "ip_kind \<Rightarrow> nat \<Rightarrow> bool" where
  "blocked_address kind x \<longleftrightarrow> list_ex (\<lambda>(lo, hi). lo \<le> x \<and> x \<le> hi) (blocked_ranges kind)"

definition prefix_range :: "nat \<Rightarrow> nat \<Rightarrow> nat \<times> nat" where
  "prefix_range n p = (n div p * p, n div p * p + (p - 1))"

lemma listed_match_prefixes:
  "listed_match kind x nets \<longleftrightarrow> list_ex (\<lambda>(lo, hi). lo \<le> x \<and> x \<le> hi)
     (map (\<lambda>(s, k, n, m). prefix_range n (2 ^ (ip_width k - m))) (filter (\<lambda>(s, k, n, m). k = kind) nets))"
  by (induction nets) (auto simp: listed_match_def prefix_range_def div_range)

lemma listed_match_ranges: "listed_match kind x listed_networks \<longleftrightarrow> blocked_address kind x"
  unfolding listed_match_prefixes blocked_address_def
  by (cases kind) (simp_all add: listed_networks_def blocked_ranges_def prefix_range_def octets_def)

lemma ends_with_iff: "js_ends_with s p \<longleftrightarrow> (\<exists>r. s = r @ p)"
proof
  assume "js_ends_with s p"
  then have "s = take (length s - length p) s @ p" by (metis append_take_drop_id js_ends_with_def)
  then show "\<exists>r. s = r @ p" by blast
qed (auto simp: js_ends_with_def)

lemma blocked_network_address:
  assumes "ip_laws L val" "blockedNetworks L = Some blocked"
  shows "some_network_matches L ip blocked = blocked_address (ip_kind_of L ip) (val ip)"
  using blockedNetworks_listed [OF assms(1)] assms(2) listed_match_ranges by auto

lemma some_network_matches_iff:
  "some_network_matches L ip nets \<longleftrightarrow>
     (\<exists>(network, kind, bits) \<in> set nets. ip_kind_of L ip = kind \<and> ip_match L ip network bits)"
  by (induction L ip nets rule: some_network_matches.induct) auto

section \<open>Properties\<close>

text \<open>
  C33: an address that is exempted by itself (after trimming and lower-casing it) is never blocked, even within
  a listed range. Any other is blocked exactly when it cannot be parsed, or one of the exempted networks cannot
  be (then everything is), or it lies in one of the listed ranges of its kind and in no exempted network.
\<close>

theorem ip_blocking_exact:
  assumes "ip_laws L val" "blockedNetworks L = Some blocked"
  shows "isIPBlocked L blocked s ips segments \<longleftrightarrow> js_trim (js_lower s) \<notin> set ips \<and>
    (case ip_parse L s of None \<Rightarrow> True
     | Some ip \<Rightarrow> (case those (map (parse_cidr L) segments) of None \<Rightarrow> True
        | Some ws \<Rightarrow> blocked_address (ip_kind_of L ip) (val ip) \<and>
            \<not> (\<exists>(network, kind, bits) \<in> set ws. ip_kind_of L ip = kind \<and> ip_match L ip network bits)))"
  unfolding isIPBlocked_def blocked_network_address [OF assms] some_network_matches_iff [symmetric]
  by (auto split: option.split)

text \<open>A library that knows the listed networks and two public addresses.\<close>

definition sample_ips :: "(string \<times> ip_kind \<times> nat) list" where
  "sample_ips = (''93.184.216.34'', IPv4, octets 93 184 216 34) # (''169.254.169.254'', IPv4, octets 169 254 169 254) #
     map (\<lambda>(s, k, n, m). (s, k, n)) listed_networks"

definition sample_value :: "ip_kind \<times> nat \<Rightarrow> nat" where
  "sample_value ip = snd ip mod 2 ^ ip_width (fst ip)"

definition sample_lib :: "(ip_kind \<times> nat) ip_lib" where
  "sample_lib = \<lparr>ip_parse = map_of sample_ips, ip_kind_of = fst,
     ip_match = (\<lambda>ip net bits. case bits of None \<Rightarrow> True
       | Some m \<Rightarrow> sample_value ip div 2 ^ (ip_width (fst net) - nat m) = sample_value net div 2 ^ (ip_width (fst net) - nat m))\<rparr>"

lemma sample_lib_laws: "ip_laws sample_lib sample_value"
proof -
  have "list_all (\<lambda>(s, k, n, m). map_of sample_ips s = Some (k, n) \<and> n < 2 ^ ip_width k) listed_networks"
    by (simp add: listed_networks_def sample_ips_def octets_def)
  then have "\<exists>ip. ip_parse sample_lib s = Some ip \<and> ip_kind_of sample_lib ip = k \<and> sample_value ip = n"
    if "(s, k, n, m) \<in> set listed_networks" for s k n m
    using that by (auto simp: list_all_iff sample_lib_def sample_value_def)
  then have "\<forall>(s, k, n, m) \<in> set listed_networks. \<exists>ip. ip_parse sample_lib s = Some ip \<and>
      ip_kind_of sample_lib ip = k \<and> sample_value ip = n" by blast
  moreover have "sample_value ip < 2 ^ ip_width (ip_kind_of sample_lib ip)" for ip
    by (simp add: sample_value_def sample_lib_def)
  moreover have "ip_match sample_lib ip net (Some (int m)) =
      (sample_value ip div 2 ^ (ip_width (ip_kind_of sample_lib net) - m) =
       sample_value net div 2 ^ (ip_width (ip_kind_of sample_lib net) - m))" for ip net m
    by (simp add: sample_lib_def)
  ultimately show ?thesis unfolding ip_laws_def by blast
qed

theorem ip_blocking_exact_witness:
  "\<exists>blocked. blockedNetworks sample_lib = Some blocked \<and>
     isIPBlocked sample_lib blocked ''169.254.169.254'' [] [] \<and> \<not> isIPBlocked sample_lib blocked ''93.184.216.34'' [] [] \<and>
     \<not> isIPBlocked sample_lib blocked ''169.254.169.254'' [''169.254.169.254''] [] \<and>
     isIPBlocked sample_lib blocked ''93.184.216.34'' [] [''unknown/8'']"
proof -
  obtain blocked where b: "blockedNetworks sample_lib = Some blocked"
    using blockedNetworks_listed [OF sample_lib_laws] by blast
  have p: "ip_parse sample_lib ''169.254.169.254'' = Some (IPv4, octets 169 254 169 254)"
    "ip_parse sample_lib ''93.184.216.34'' = Some (IPv4, octets 93 184 216 34)"
    by (simp_all add: sample_lib_def sample_ips_def)
  have lower: "js_trim (js_lower ''169.254.169.254'') = ''169.254.169.254''" by code_simp
  have "js_split (CHR ''/'') ''unknown/8'' ! 0 = ''unknown''" by code_simp
  moreover have "map_of sample_ips ''unknown'' = None" by (simp add: sample_ips_def listed_networks_def)
  ultimately have bad: "parse_cidr sample_lib ''unknown/8'' = None"
    by (simp add: parse_cidr_def sample_lib_def del: map_of.simps)
  have a: "blocked_address (ip_kind_of sample_lib (IPv4, octets 169 254 169 254)) (sample_value (IPv4, octets 169 254 169 254))"
    "\<not> blocked_address (ip_kind_of sample_lib (IPv4, octets 93 184 216 34)) (sample_value (IPv4, octets 93 184 216 34))"
    by (simp_all add: sample_lib_def sample_value_def blocked_address_def blocked_ranges_def octets_def)
  note exact = ip_blocking_exact [OF sample_lib_laws b]
  have "isIPBlocked sample_lib blocked ''169.254.169.254'' [] []" "\<not> isIPBlocked sample_lib blocked ''93.184.216.34'' [] []"
    unfolding exact p using a by simp_all
  moreover have "\<not> isIPBlocked sample_lib blocked ''169.254.169.254'' [''169.254.169.254''] []"
    unfolding exact lower by simp
  moreover have "isIPBlocked sample_lib blocked ''93.184.216.34'' [] [''unknown/8'']"
    unfolding exact p by (simp add: bad)
  ultimately show ?thesis using b by blast
qed

text \<open>
  a host name is blocked exactly when it is one of the listed names, or ends with one of the
  three internal suffixes.
\<close>

theorem hostname_blocking_exact:
  "isHostnameBlocked h \<longleftrightarrow>
     h \<in> {''localhost'', ''internal'', ''intranet'', ''169.254.169.254''} \<or>
     (\<exists>r. h = r @ ''.localhost'') \<or> (\<exists>r. h = r @ ''.internal'') \<or> (\<exists>r. h = r @ ''.intranet'')"
proof -
  have absorb: "(a \<Longrightarrow> i) \<Longrightarrow> (b \<Longrightarrow> i) \<Longrightarrow> (c \<Longrightarrow> i) \<Longrightarrow>
      (p \<or> q \<or> r \<or> s \<or> a \<or> b \<or> c \<or> l \<or> i \<or> t) = ((p \<or> q \<or> r \<or> s) \<or> l \<or> i \<or> t)" for a b c i l p q r s t
    by blast
  have "isHostnameBlocked h \<longleftrightarrow>
      h = ''localhost'' \<or> h = ''internal'' \<or> h = ''intranet'' \<or> h = ''169.254.169.254'' \<or>
      h = ''metadata.google.internal'' \<or> h = ''host.docker.internal'' \<or> h = ''gateway.docker.internal'' \<or>
      js_ends_with h ''.localhost'' \<or> js_ends_with h ''.internal'' \<or> js_ends_with h ''.intranet''"
    unfolding isHostnameBlocked_def blockedPatterns_def pattern_loop.simps js_starts_with_def Let_def
    by simp
  also have "\<dots> \<longleftrightarrow> (h = ''localhost'' \<or> h = ''internal'' \<or> h = ''intranet'' \<or> h = ''169.254.169.254'') \<or>
      js_ends_with h ''.localhost'' \<or> js_ends_with h ''.internal'' \<or> js_ends_with h ''.intranet''"
    by (rule absorb) (simp_all add: js_ends_with_def)
  finally show ?thesis by (simp only: ends_with_iff insert_iff empty_iff simp_thms)
qed

end
