(* ===== verification/Webhook_Guard.thy ===== *)
theory Webhook_Guard imports Address_Blocking begin

text \<open>
  The check of a webhook URL and the fetch that follows redirects under it,
  \<^verbatim>\<open>packages/shared/src/server/webhooks/validation.ts\<close> and \<^verbatim>\<open>redirectHandler.ts\<close>.
  The platform is an argument: parsing URLs, decoding, Unicode normalisation, name resolution and
  the HTTP request itself. Requests and resolutions read and change a state \<open>'s\<close> of the network, so
  two resolutions of a name may differ.
\<close>

section \<open>The platform\<close>

record url_parts =
  u_protocol :: string
  u_port :: string
  u_hostname :: string

text \<open>Reading the body of a response may fail.\<close>

record response =
  status_code :: nat
  location_header :: "string option"
  response_body :: "string option"

record 's net =
  new_URL :: "string \<Rightarrow> url_parts option"
  resolve_URL :: "string \<Rightarrow> string \<Rightarrow> string option"
  decode_URI :: "string \<Rightarrow> string option"
  normalize_NFC :: "string \<Rightarrow> string option"
  dns_resolve4 :: "string \<Rightarrow> 's \<Rightarrow> string list option \<times> 's"
  dns_resolve6 :: "string \<Rightarrow> 's \<Rightarrow> string list option \<times> 's"
  http_fetch :: "string \<Rightarrow> 's \<Rightarrow> response option \<times> 's"

record whitelist =
  wl_hosts :: "string list"
  wl_ips :: "string list"
  wl_ip_ranges :: "string list"

section \<open>Checking a URL\<close>

definition resolveHost :: "'s net \<Rightarrow> string \<Rightarrow> 's \<Rightarrow> (string + string list) \<times> 's" where
  "resolveHost N hostname s =
     (case dns_resolve4 N hostname s of (v4, s1) \<Rightarrow>
      case dns_resolve6 N hostname s1 of (v6, s2) \<Rightarrow>
        (let ips = (case v4 of None \<Rightarrow> [] | Some xs \<Rightarrow> filter (\<lambda>ip. ip \<noteq> []) xs) @
                   (case v6 of None \<Rightarrow> [] | Some xs \<Rightarrow> filter (\<lambda>ip. ip \<noteq> []) xs)
         in (if length ips = 0 then Inl (''DNS lookup failed for '' @ hostname) else Inr ips, s2)))"

definition normalizeURL :: "'s net \<Rightarrow> string \<Rightarrow> string option" where
  "normalizeURL N urlString = (case decode_URI N (js_trim urlString) of None \<Rightarrow> None
     | Some normalized \<Rightarrow> normalize_NFC N normalized)"

definition normalizeHostname :: "'s net \<Rightarrow> string \<Rightarrow> string" where
  "normalizeHostname N hostname =
     (let normalized = js_lower hostname in
      case new_URL N (''http://'' @ normalized) of None \<Rightarrow> normalized | Some u \<Rightarrow> u_hostname u)"

definition validateWebhookURL :: "'s net \<Rightarrow> 'ip ip_lib \<Rightarrow> 'ip ip_network list \<Rightarrow> whitelist \<Rightarrow> string \<Rightarrow> 's \<Rightarrow>
    (string + unit) \<times> 's" where
  "validateWebhookURL N L blocked wl urlString s =
     (case (case normalizeURL N urlString of None \<Rightarrow> None | Some normalizedUrl \<Rightarrow> new_URL N normalizedUrl) of
        None \<Rightarrow> (Inl ''Invalid URL syntax'', s)
      | Some u \<Rightarrow>
          if u_protocol u \<notin> {''https:'', ''http:''} then (Inl ''Only HTTP and HTTPS protocols are allowed'', s)
          else if u_port u \<noteq> [] \<and> u_port u \<notin> {''443'', ''80''} then (Inl ''Only ports 80 and 443 are allowed'', s)
          else (let hostname = normalizeHostname N (u_hostname u) in
            if hostname \<in> set (wl_hosts wl) then (Inr (), s)
            else if isHostnameBlocked hostname then (Inl ''Blocked hostname detected'', s)
            else if isIPAddress L hostname \<and> isIPBlocked L blocked hostname (wl_ips wl) (wl_ip_ranges wl)
              then (Inl ''Blocked IP address detected'', s)
            else (case resolveHost N hostname s of
                (Inl e, s') \<Rightarrow> (Inl e, s')
              | (Inr ips, s') \<Rightarrow>
                  (if list_ex (\<lambda>ip. isIPBlocked L blocked ip (wl_ips wl) (wl_ip_ranges wl)) ips
                   then Inl ''Blocked IP address detected'' else Inr (), s'))))"

section \<open>Following redirects\<close>

datatype redirect_error =
    Fetch_Failed
  | Missing_Location nat string
  | Invalid_Redirect string string
  | Redirect_Validation string string nat
  | Max_Redirects nat "string list"
  | Circular_Redirect "string list"

record redirect_result =
  final_response :: response
  redirect_chain :: "string list"
  final_url :: string

record redirect_options =
  maxRedirects :: nat
  skipValidation :: bool
  redirect_whitelist :: whitelist

definition isRedirect :: "response \<Rightarrow> bool" where
  "isRedirect r \<longleftrightarrow> status_code r \<ge> 300 \<and> status_code r < 400 \<and> status_code r \<noteq> 304"

text \<open>
  One turn of the loop: the result, or the chain and the URL with which it goes on. \<open>validate\<close> is
  the check of the URL.
\<close>

datatype turn = Done "redirect_error + redirect_result" | Follow "string list" string

definition redirect_turn :: "'s net \<Rightarrow> (string \<Rightarrow> 's \<Rightarrow> (string + unit) \<times> 's) \<Rightarrow> redirect_options \<Rightarrow>
    string list \<Rightarrow> string \<Rightarrow> nat \<Rightarrow> 's \<Rightarrow> turn \<times> 's" where
  "redirect_turn N validate opts redirectChain currentUrl redirectDepth s =
     (case http_fetch N currentUrl s of
        (None, s1) \<Rightarrow> (Done (Inl Fetch_Failed), s1)
      | (Some resp, s1) \<Rightarrow>
          if \<not> isRedirect resp then
            (Done (Inr \<lparr>final_response = resp, redirect_chain = redirectChain, final_url = currentUrl\<rparr>), s1)
          else (case location_header resp of
              None \<Rightarrow> (Done (Inl (Missing_Location (status_code resp) currentUrl)), s1)
            | Some loc \<Rightarrow>
                if loc = [] then (Done (Inl (Missing_Location (status_code resp) currentUrl)), s1)
                else (case resolve_URL N loc currentUrl of
                    None \<Rightarrow> (Done (Inl (Invalid_Redirect loc currentUrl)), s1)
                  | Some redirectUrl \<Rightarrow>
                      if redirectUrl \<in> set redirectChain then (Done (Inl (Circular_Redirect (redirectChain @ [redirectUrl]))), s1)
                      else (let chain = redirectChain @ [currentUrl] in
                        if redirectDepth \<ge> maxRedirects opts
                        then (Done (Inl (Max_Redirects (maxRedirects opts) (chain @ [redirectUrl]))), s1)
                        else if skipValidation opts then (Follow chain redirectUrl, s1)
                        else (case validate redirectUrl s1 of
                            (Inl e, s2) \<Rightarrow> (Done (Inl (Redirect_Validation e redirectUrl redirectDepth)), s2)
                          | (Inr _, s2) \<Rightarrow> (Follow chain redirectUrl, s2))))))"

function redirect_loop :: "'s net \<Rightarrow> (string \<Rightarrow> 's \<Rightarrow> (string + unit) \<times> 's) \<Rightarrow> redirect_options \<Rightarrow>
    string list \<Rightarrow> string \<Rightarrow> nat \<Rightarrow> 's \<Rightarrow> (redirect_error + redirect_result) \<times> 's" where
  "redirect_loop N validate opts redirectChain currentUrl redirectDepth s =
     (if redirectDepth \<le> maxRedirects opts then
        (case redirect_turn N validate opts redirectChain currentUrl redirectDepth s of
           (Done r, s') \<Rightarrow> (r, s')
         | (Follow chain redirectUrl, s') \<Rightarrow> redirect_loop N validate opts chain redirectUrl (redirectDepth + 1) s')
      else (Inl (Max_Redirects (maxRedirects opts) (redirectChain @ [currentUrl])), s))"
  by pat_completeness auto
termination
  by (relation "measure (\<lambda>(N, validate, opts, redirectChain, currentUrl, redirectDepth, s). Suc (maxRedirects opts) - redirectDepth)") auto

declare redirect_loop.simps [simp del]

definition fetchWithSecureRedirects :: "'s net \<Rightarrow> 'ip ip_lib \<Rightarrow> 'ip ip_network list \<Rightarrow> string \<Rightarrow> redirect_options \<Rightarrow> 's \<Rightarrow>
    (redirect_error + redirect_result) \<times> 's" where
  "fetchWithSecureRedirects N L blocked u opts s =
     redirect_loop N (validateWebhookURL N L blocked (redirect_whitelist opts)) opts [] u 0 s"

section \<open>Lemmas\<close>





text \<open>Every request the network sees is a call of \<open>fetch\<close>; resolving a name makes none.\<close>

definition net_laws :: "'s net \<Rightarrow> ('s \<Rightarrow> string list) \<Rightarrow> bool" where
  "net_laws N requests \<longleftrightarrow>
     (\<forall>u s r s'. http_fetch N u s = (r, s') \<longrightarrow> requests s' = requests s @ [u]) \<and>
     (\<forall>h s r s'. dns_resolve4 N h s = (r, s') \<longrightarrow> requests s' = requests s) \<and>
     (\<forall>h s r s'. dns_resolve6 N h s = (r, s') \<longrightarrow> requests s' = requests s)"

lemma net_lawsD:
  assumes "net_laws N requests"
  shows "http_fetch N u s = (r, s') \<Longrightarrow> requests s' = requests s @ [u]"
    "dns_resolve4 N h s = (ra, s') \<Longrightarrow> requests s' = requests s"
    "dns_resolve6 N h s = (rb, s') \<Longrightarrow> requests s' = requests s"
  using assms unfolding net_laws_def by blast+

lemma resolve_requests: "net_laws N requests \<Longrightarrow> resolveHost N h s = (r, s') \<Longrightarrow> requests s' = requests s"
  by (auto simp: resolveHost_def Let_def split: prod.splits) (metis net_lawsD(2,3))+

lemma validate_requests:
  assumes "net_laws N requests" "validateWebhookURL N L blocked wl u s = (r, s')"
  shows "requests s' = requests s"
  using assms(2) resolve_requests [OF assms(1)]
  by (auto simp: validateWebhookURL_def Let_def split: option.splits if_splits prod.splits sum.splits)

text \<open>One turn makes one request, and goes on only to a URL that was checked.\<close>

lemma turn_requests:
  assumes "net_laws N requests" "\<And>u s r s'. validate u s = (r, s') \<Longrightarrow> requests s' = requests s"
    "redirect_turn N validate opts chain u d s = (t, s')"
  shows "requests s' = requests s @ [u]"
proof -
  obtain r s1 where f: "http_fetch N u s = (r, s1)" by (cases "http_fetch N u s")
  have "requests s1 = requests s @ [u]" by (rule net_lawsD(1) [OF assms(1) f])
  moreover have "s' = s1 \<or> (\<exists>v e. validate v s1 = (e, s'))"
    using assms(3) f
    by (auto simp: redirect_turn_def Let_def split: option.splits if_splits prod.splits sum.splits)
  ultimately show ?thesis using assms(2) by metis
qed

lemma turn_follow:
  assumes "redirect_turn N validate opts chain u d s = (Follow chain' v, s')"
  shows "chain' = chain @ [u] \<and> v \<notin> set chain \<and> d < maxRedirects opts \<and>
    (skipValidation opts \<or> (\<exists>s1. validate v s1 = (Inr (), s')))"
  using assms
  by (auto simp: redirect_turn_def Let_def split: option.splits if_splits prod.splits sum.splits)

lemma turn_done:
  assumes "redirect_turn N validate opts chain u d s = (Done (Inr res), s')"
  shows "redirect_chain res = chain \<and> final_url res = u \<and> \<not> isRedirect (final_response res)"
  using assms
  by (auto simp: redirect_turn_def Let_def split: option.splits if_splits prod.splits sum.splits)

lemma redirect_loop_requests:
  assumes "net_laws N requests" "\<And>u s r s'. validate u s = (r, s') \<Longrightarrow> requests s' = requests s"
    "redirect_loop N validate opts chain u d s = (res, s')" "d \<le> maxRedirects opts"
  shows "\<exists>us. requests s' = requests s @ u # us \<and> length us \<le> maxRedirects opts - d \<and>
    (\<forall>v \<in> set us. skipValidation opts \<or> (\<exists>s1 s2. validate v s1 = (Inr (), s2))) \<and>
    (\<forall>r. res = Inr r \<longrightarrow> redirect_chain r @ [final_url r] = chain @ u # us \<and> \<not> isRedirect (final_response r))"
  using assms(3,4)
proof (induction "maxRedirects opts - d" arbitrary: chain u d s)
  case 0
  obtain t s1 where t: "redirect_turn N validate opts chain u d s = (t, s1)"
    by (cases "redirect_turn N validate opts chain u d s")
  have r: "requests s1 = requests s @ [u]" by (rule turn_requests [OF assms(1,2) t])
  obtain res' where "t = Done res'"
  proof (cases t)
    case (Follow c v)
    with t turn_follow [of N validate opts chain u d s c v s1] 0(1,3) show ?thesis by simp
  qed simp
  with 0 t r turn_done [of N validate opts chain u d s _ s1] show ?case
    by (subst (asm) redirect_loop.simps) fastforce
next
  case (Suc n)
  obtain t s1 where t: "redirect_turn N validate opts chain u d s = (t, s1)"
    by (cases "redirect_turn N validate opts chain u d s")
  have r: "requests s1 = requests s @ [u]" by (rule turn_requests [OF assms(1,2) t])
  show ?case
  proof (cases t)
    case (Done res')
    with Suc.prems t r turn_done [of N validate opts chain u d s _ s1] show ?thesis
      by (subst (asm) redirect_loop.simps) fastforce
  next
    case (Follow chain' v)
    note f = turn_follow [OF t [unfolded Follow]]
    have "redirect_loop N validate opts chain' v (d + 1) s1 = (res, s')"
      using Suc.prems t Follow by (subst (asm) redirect_loop.simps) simp
    moreover have "n = maxRedirects opts - (d + 1)" "d + 1 \<le> maxRedirects opts" using Suc.hyps(2) f by simp_all
    ultimately obtain us where us: "requests s' = requests s1 @ v # us" "length us \<le> maxRedirects opts - (d + 1)"
      "\<forall>v \<in> set us. skipValidation opts \<or> (\<exists>s1 s2. validate v s1 = (Inr (), s2))"
      "\<forall>r. res = Inr r \<longrightarrow> redirect_chain r @ [final_url r] = chain' @ v # us \<and> \<not> isRedirect (final_response r)"
      using Suc.hyps(1) by blast
    then show ?thesis using f r Suc.hyps(2) by (intro exI [of _ "v # us"]) auto
  qed
qed

lemma fetch_requests:
  assumes "net_laws N requests" "fetchWithSecureRedirects N L blocked u opts s = (res, s')"
  shows "\<exists>us. requests s' = requests s @ u # us \<and> length us \<le> maxRedirects opts \<and>
    (\<forall>v \<in> set us. skipValidation opts \<or> (\<exists>s1 s2. validateWebhookURL N L blocked (redirect_whitelist opts) v s1 = (Inr (), s2))) \<and>
    (\<forall>r. res = Inr r \<longrightarrow> redirect_chain r @ [final_url r] = u # us \<and> \<not> isRedirect (final_response r))"
proof -
  have "\<exists>us. requests s' = requests s @ u # us \<and> length us \<le> maxRedirects opts - 0 \<and>
    (\<forall>v \<in> set us. skipValidation opts \<or> (\<exists>s1 s2. validateWebhookURL N L blocked (redirect_whitelist opts) v s1 = (Inr (), s2))) \<and>
    (\<forall>r. res = Inr r \<longrightarrow> redirect_chain r @ [final_url r] = [] @ u # us \<and> \<not> isRedirect (final_response r))"
    by (rule redirect_loop_requests [OF assms(1) _ assms(2) [unfolded fetchWithSecureRedirects_def]])
      (erule validate_requests [OF assms(1)], simp)
  then show ?thesis by simp
qed

text \<open>
  A network with two hosts: \<open>a.test\<close> is public and redirects to the path it is asked for,
  \<open>m.test\<close> resolves to the metadata address.
\<close>

definition sample_net :: "string list net" where
  "sample_net = \<lparr>
     new_URL = map_of [
       (''http://a.test/1'', \<lparr>u_protocol = ''http:'', u_port = [], u_hostname = ''a.test''\<rparr>),
       (''http://a.test/2'', \<lparr>u_protocol = ''http:'', u_port = [], u_hostname = ''a.test''\<rparr>),
       (''http://m.test/'', \<lparr>u_protocol = ''http:'', u_port = [], u_hostname = ''m.test''\<rparr>),
       (''http://a.test'', \<lparr>u_protocol = ''http:'', u_port = [], u_hostname = ''a.test''\<rparr>),
       (''http://m.test'', \<lparr>u_protocol = ''http:'', u_port = [], u_hostname = ''m.test''\<rparr>)],
     resolve_URL = (\<lambda>l b. Some l), decode_URI = Some, normalize_NFC = Some,
     dns_resolve4 = (\<lambda>h s. (map_of [(''a.test'', [''93.184.216.34'']), (''m.test'', [''169.254.169.254''])] h, s)),
     dns_resolve6 = (\<lambda>h s. (None, s)),
     http_fetch = (\<lambda>u s. (map_of [
       (''http://a.test/1'', \<lparr>status_code = 302, location_header = Some ''http://a.test/2'', response_body = Some []\<rparr>),
       (''http://a.test/2'', \<lparr>status_code = 307, location_header = Some ''http://m.test/'', response_body = Some []\<rparr>),
       (''http://m.test/'', \<lparr>status_code = 200, location_header = None, response_body = Some []\<rparr>)] u, s @ [u]))\<rparr>"

lemma sample_net_laws: "net_laws sample_net (\<lambda>s. s)"
  by (simp add: net_laws_def sample_net_def)

lemma lower_sample: "js_lower ''a.test'' = ''a.test''" "js_lower ''m.test'' = ''m.test''"
  "js_lower ''93.184.216.34'' = ''93.184.216.34''" "js_lower ''169.254.169.254'' = ''169.254.169.254''"
  by (simp_all add: js_lower_def lower_char_def)

lemma sample_validation:
  assumes "blockedNetworks sample_lib = Some blocked"
  shows "validateWebhookURL sample_net sample_lib blocked \<lparr>wl_hosts = [], wl_ips = [], wl_ip_ranges = []\<rparr> ''http://a.test/2'' s = (Inr (), s)"
    "validateWebhookURL sample_net sample_lib blocked \<lparr>wl_hosts = [], wl_ips = [], wl_ip_ranges = []\<rparr> ''http://m.test/'' s =
      (Inl ''Blocked IP address detected'', s)"
proof -
  have parse: "ip_parse sample_lib ''93.184.216.34'' = Some (IPv4, octets 93 184 216 34)"
    "ip_parse sample_lib ''169.254.169.254'' = Some (IPv4, octets 169 254 169 254)"
    "ip_parse sample_lib ''a.test'' = None" "ip_parse sample_lib ''m.test'' = None"
    by (simp_all add: sample_lib_def sample_ips_def listed_networks_def)
  have ips: "\<not> isIPBlocked sample_lib blocked ''93.184.216.34'' [] []" "isIPBlocked sample_lib blocked ''169.254.169.254'' [] []"
    unfolding isIPBlocked_def parse blocked_network_address [OF sample_lib_laws assms]
    by (simp_all add: blocked_address_def blocked_ranges_def octets_def sample_lib_def sample_value_def)
  have hosts: "\<not> isHostnameBlocked ''a.test''" "\<not> isHostnameBlocked ''m.test''"
    by (simp_all add: isHostnameBlocked_def blockedPatterns_def js_starts_with_def js_ends_with_def Let_def)
  have literal: "\<not> isIPAddress sample_lib ''a.test''" "\<not> isIPAddress sample_lib ''m.test''"
    by (simp_all add: isIPAddress_def strip_brackets_def parse)
  have urls: "normalizeURL sample_net ''http://a.test/2'' = Some ''http://a.test/2''"
    "normalizeURL sample_net ''http://m.test/'' = Some ''http://m.test/''"
    "new_URL sample_net ''http://a.test/2'' = Some \<lparr>u_protocol = ''http:'', u_port = [], u_hostname = ''a.test''\<rparr>"
    "new_URL sample_net ''http://m.test/'' = Some \<lparr>u_protocol = ''http:'', u_port = [], u_hostname = ''m.test''\<rparr>"
    by (simp_all add: normalizeURL_def sample_net_def js_trim_def js_space_def)
  have names: "normalizeHostname sample_net ''a.test'' = ''a.test''" "normalizeHostname sample_net ''m.test'' = ''m.test''"
    unfolding normalizeHostname_def lower_sample by (simp_all add: sample_net_def)
  have dns: "resolveHost sample_net ''a.test'' s = (Inr [''93.184.216.34''], s)"
    "resolveHost sample_net ''m.test'' s = (Inr [''169.254.169.254''], s)"
    by (simp_all add: resolveHost_def sample_net_def)
  show "validateWebhookURL sample_net sample_lib blocked \<lparr>wl_hosts = [], wl_ips = [], wl_ip_ranges = []\<rparr> ''http://a.test/2'' s = (Inr (), s)"
    "validateWebhookURL sample_net sample_lib blocked \<lparr>wl_hosts = [], wl_ips = [], wl_ip_ranges = []\<rparr> ''http://m.test/'' s =
      (Inl ''Blocked IP address detected'', s)"
    by (simp_all add: validateWebhookURL_def urls names hosts literal dns ips)
qed

section \<open>Properties\<close>



text \<open>
  C32: following redirects ends after at most the allowed number of further requests; the first
  request goes to the given URL, every later one to a URL that has passed the check, and a result
  reports exactly the URLs requested and a response that is no redirect.
\<close>

theorem redirects_validated:
  assumes "net_laws N requests" "\<not> skipValidation opts"
    "fetchWithSecureRedirects N L blocked u opts s = (res, s')"
  shows "\<exists>us. requests s' = requests s @ u # us \<and> length us \<le> maxRedirects opts \<and>
    (\<forall>v \<in> set us. \<exists>s1 s2. validateWebhookURL N L blocked (redirect_whitelist opts) v s1 = (Inr (), s2)) \<and>
    (\<forall>r. res = Inr r \<longrightarrow> redirect_chain r @ [final_url r] = u # us \<and> \<not> isRedirect (final_response r))"
  using fetch_requests [OF assms(1,3)] assms(2) by simp


definition sample_options :: redirect_options where
  "sample_options = \<lparr>maxRedirects = 5, skipValidation = False,
     redirect_whitelist = \<lparr>wl_hosts = [], wl_ips = [], wl_ip_ranges = []\<rparr>\<rparr>"

lemma sample_redirects:
  assumes "blockedNetworks sample_lib = Some blocked"
  shows "fetchWithSecureRedirects sample_net sample_lib blocked ''http://a.test/1'' sample_options [] =
    (Inl (Redirect_Validation ''Blocked IP address detected'' ''http://m.test/'' 1), [''http://a.test/1'', ''http://a.test/2''])"
proof -
  have fetch: "http_fetch sample_net ''http://a.test/1'' s =
      (Some \<lparr>status_code = 302, location_header = Some ''http://a.test/2'', response_body = Some []\<rparr>, s @ [''http://a.test/1''])"
    "http_fetch sample_net ''http://a.test/2'' s =
      (Some \<lparr>status_code = 307, location_header = Some ''http://m.test/'', response_body = Some []\<rparr>, s @ [''http://a.test/2''])"
    "resolve_URL sample_net l b = Some l" for s l b
    by (simp_all add: sample_net_def)
  note v = sample_validation [OF assms]
  show ?thesis
    unfolding fetchWithSecureRedirects_def
    by (simp add: redirect_loop.simps redirect_turn_def sample_options_def fetch v isRedirect_def Let_def)
qed

theorem redirects_validated_witness:
  "\<exists>blocked. blockedNetworks sample_lib = Some blocked \<and>
     fst (fetchWithSecureRedirects sample_net sample_lib blocked ''http://a.test/1'' sample_options []) =
       Inl (Redirect_Validation ''Blocked IP address detected'' ''http://m.test/'' 1) \<and>
     (\<exists>us. snd (fetchWithSecureRedirects sample_net sample_lib blocked ''http://a.test/1'' sample_options []) =
        ''http://a.test/1'' # us \<and> length us \<le> 5)"
proof -
  obtain blocked where b: "blockedNetworks sample_lib = Some blocked"
    using blockedNetworks_listed [OF sample_lib_laws] by blast
  have "\<not> skipValidation sample_options" by (simp add: sample_options_def)
  from redirects_validated [OF sample_net_laws this sample_redirects [OF b]] b sample_redirects [OF b]
  show ?thesis by (intro exI [of _ blocked]) (auto simp: sample_options_def)
qed

end
