(* ===== verification/Webhook_Delivery.thy ===== *)
theory Webhook_Delivery imports Webhook_Guard begin

text \<open>
  Delivering an automation's HTTP action and disabling its trigger after repeated failures:
  \<open>executeHttpAction\<close> of \<^verbatim>\<open>worker/src/queues/webhooks.ts\<close> and
  \<open>getConsecutiveAutomationFailures\<close> of \<^verbatim>\<open>packages/shared/src/server/repositories/automation-repository.ts\<close>.
  The database is the rows of one automation: whether its trigger is active, its action's kind and
  last failing execution, and its executions. The package that retries is an argument.
\<close>

section \<open>The rows of an automation\<close>

datatype exec_status = Pending | Completed | Errored | Cancelled

datatype action_kind = Webhook | Slack | Github_Dispatch

record execution =
  exec_id :: nat
  exec_status :: exec_status
  created_at :: int

record automation =
  trigger_active :: bool
  action_kind :: action_kind
  lastFailingExecutionId :: "nat option"
  executions :: "execution list"

text \<open>Updating a row that is not there is an error.\<close>

definition set_status :: "nat \<Rightarrow> exec_status \<Rightarrow> automation \<Rightarrow> automation option" where
  "set_status i st db =
     (if i \<in> exec_id ` set (executions db)
      then Some (db\<lparr>executions := map (\<lambda>e. if exec_id e = i then e\<lparr>exec_status := st\<rparr> else e) (executions db)\<rparr>)
      else None)"

fun count_failures :: "exec_status list \<Rightarrow> nat" where
  "count_failures [] = 0"
| "count_failures (st # sts) =
     (if st = Errored then 1 + count_failures sts
      else if st = Completed then 0
      else count_failures sts)"

definition newer_than :: "automation \<Rightarrow> int option" where
  "newer_than db =
     (if action_kind db = Webhook then
        (case lastFailingExecutionId db of None \<Rightarrow> None
         | Some i \<Rightarrow> map_option created_at (List.find (\<lambda>e. exec_id e = i) (executions db)))
      else None)"

definition counted_executions :: "automation \<Rightarrow> execution list" where
  "counted_executions db =
     take 20 (sort_key (\<lambda>e. - created_at e)
       (filter (\<lambda>e. exec_status e \<in> {Errored, Completed} \<and>
            (case newer_than db of None \<Rightarrow> True | Some t \<Rightarrow> created_at e > t)) (executions db)))"

definition getConsecutiveAutomationFailures :: "automation option \<Rightarrow> nat" where
  "getConsecutiveAutomationFailures a =
     (case a of None \<Rightarrow> 0 | Some db \<Rightarrow> count_failures (map exec_status (counted_executions db)))"

text \<open>
  The failure transaction. The count reads outside the transaction, so it sees the rows as they
  were before it.
\<close>

definition action_failed :: "nat \<Rightarrow> automation \<Rightarrow> automation option" where
  "action_failed executionId db =
     (case set_status executionId Errored db of
        None \<Rightarrow> None
      | Some db1 \<Rightarrow>
          (let consecutiveFailures = getConsecutiveAutomationFailures (Some db) in
           if consecutiveFailures \<ge> 4 then
             Some (let db2 = db1\<lparr>trigger_active := False\<rparr> in
               if action_kind db2 = Webhook \<or> action_kind db2 = Github_Dispatch
               then db2\<lparr>lastFailingExecutionId := Some executionId\<rparr> else db2)
           else Some db1))"

section \<open>The request and its retries\<close>

datatype action_error = Langfuse_Not_Found | Internal_Server | Other string

type_synonym captured = "nat option \<times> string option"

text \<open>One attempt; it writes the status and the body where the caller sees them.\<close>

definition http_attempt :: "'s net \<Rightarrow> 'ip ip_lib \<Rightarrow> 'ip ip_network list \<Rightarrow> redirect_options \<Rightarrow> string \<Rightarrow>
    's \<times> captured \<Rightarrow> (action_error + unit) \<times> ('s \<times> captured)" where
  "http_attempt N L blocked opts u x = (case x of (s, cap) \<Rightarrow>
     (case (if skipValidation opts then (Inr (), s) else validateWebhookURL N L blocked (redirect_whitelist opts) u s) of
        (Inl e, s1) \<Rightarrow> (Inl (Other e), s1, cap)
      | (Inr _, s1) \<Rightarrow>
        (case fetchWithSecureRedirects N L blocked u opts s1 of
           (Inl e, s2) \<Rightarrow> (Inl (Other ''request failed''), s2, cap)
         | (Inr redirectResult, s2) \<Rightarrow>
             (let res = final_response redirectResult; st = status_code res in
              case response_body res of
                None \<Rightarrow> (Inl (Other ''body failed''), s2, (Some st, snd cap))
              | Some b \<Rightarrow>
                  (if 200 \<le> st \<and> st \<le> 299 then Inr () else Inl (Other ''Webhook does not return 2xx status''),
                   s2, (Some st, Some b))))))"

definition http_failure :: "nat \<Rightarrow> action_error \<Rightarrow> captured \<Rightarrow> automation \<Rightarrow> (action_error + nat \<times> string) \<times> automation" where
  "http_failure executionId e cap db =
     (if e = Langfuse_Not_Found \<or> e = Internal_Server then (Inl e, db)
      else (case action_failed executionId db of
          None \<Rightarrow> (Inl (Other ''record not found''), db)
        | Some db' \<Rightarrow> (Inr (case fst cap of None \<Rightarrow> 0 | Some st \<Rightarrow> st, case snd cap of None \<Rightarrow> [] | Some b \<Rightarrow> b), db')))"

definition executeHttpAction :: "'s net \<Rightarrow> 'ip ip_lib \<Rightarrow> 'ip ip_network list \<Rightarrow> redirect_options \<Rightarrow>
    (nat \<Rightarrow> ('s \<times> captured \<Rightarrow> (action_error + unit) \<times> ('s \<times> captured)) \<Rightarrow> 's \<times> captured \<Rightarrow>
       (action_error + unit) \<times> ('s \<times> captured)) \<Rightarrow>
    string \<Rightarrow> nat \<Rightarrow> 's \<Rightarrow> automation \<Rightarrow> (action_error + nat \<times> string) \<times> 's \<times> automation" where
  "executeHttpAction N L blocked opts backOff u executionId s db =
     (case backOff 4 (http_attempt N L blocked opts u) (s, (None, None)) of
        (Inr _, s', cap) \<Rightarrow>
          (case set_status executionId Completed db of
             Some db' \<Rightarrow> (Inr (the (fst cap), the (snd cap)), s', db')
           | None \<Rightarrow> (case http_failure executionId (Other ''record not found'') cap db of (r, db') \<Rightarrow> (r, s', db')))
      | (Inl e, s', cap) \<Rightarrow> (case http_failure executionId e cap db of (r, db') \<Rightarrow> (r, s', db')))"

section \<open>Sequences of deliveries\<close>

text \<open>
  An execution is created as pending and finishes before the next one starts; a user may enable a
  disabled trigger again, which changes nothing else.
\<close>

datatype delivery_event = Delivered | Failed | Enabled

definition new_automation :: "action_kind \<Rightarrow> automation" where
  "new_automation k = \<lparr>trigger_active = True, action_kind = k, lastFailingExecutionId = None, executions = []\<rparr>"

definition create_execution :: "automation \<Rightarrow> automation" where
  "create_execution db = db\<lparr>executions := executions db @
     [\<lparr>exec_id = length (executions db), exec_status = Pending, created_at = int (length (executions db))\<rparr>]\<rparr>"

definition delivery_step :: "delivery_event \<Rightarrow> automation \<Rightarrow> automation option" where
  "delivery_step ev db = (case ev of
       Delivered \<Rightarrow> set_status (length (executions db)) Completed (create_execution db)
     | Failed \<Rightarrow> action_failed (length (executions db)) (create_execution db)
     | Enabled \<Rightarrow> Some (db\<lparr>trigger_active := True\<rparr>))"

fun delivery_run :: "delivery_event list \<Rightarrow> automation \<Rightarrow> automation option" where
  "delivery_run [] db = Some db"
| "delivery_run (ev # evs) db = (case delivery_step ev db of None \<Rightarrow> None | Some db' \<Rightarrow> delivery_run evs db')"


section \<open>Lemmas\<close>




















section \<open>Properties\<close>


text \<open>
  a GitHub dispatch automation that was disabled and enabled again is disabled by its first
  failure, although its last failing execution is recorded: only webhook configurations are asked
  for it. The same events leave a webhook trigger active.
\<close>

theorem github_dispatch_disabled_at_once:
  "map_option trigger_active (delivery_run (replicate 5 Failed @ [Enabled, Failed]) (new_automation Github_Dispatch)) = Some False \<and>
   map_option lastFailingExecutionId (delivery_run (replicate 5 Failed) (new_automation Github_Dispatch)) = Some (Some 4) \<and>
   map_option trigger_active (delivery_run (replicate 5 Failed @ [Enabled, Failed]) (new_automation Webhook)) = Some True"
  by code_simp

text \<open>What the retrying package promises: up to \<open>n\<close> runs, until one succeeds.\<close>

fun retry :: "nat \<Rightarrow> ('x \<Rightarrow> ('e + 'r) \<times> 'x) \<Rightarrow> 'x \<Rightarrow> ('e + 'r) \<times> 'x" where
  "retry 0 f x = f x"
| "retry (Suc n) f x = (case f x of (Inr r, y) \<Rightarrow> (Inr r, y) | (Inl e, y) \<Rightarrow> retry n f y)"

text \<open>The requests a piece of code made: all to checked URLs, at most \<open>n\<close>.\<close>

definition checked_requests :: "'s net \<Rightarrow> 'ip ip_lib \<Rightarrow> 'ip ip_network list \<Rightarrow> whitelist \<Rightarrow> nat \<Rightarrow> string list \<Rightarrow> string list \<Rightarrow> bool" where
  "checked_requests N L blocked wl n before after \<longleftrightarrow> (\<exists>us. after = before @ us \<and> length us \<le> n \<and>
     (\<forall>v \<in> set us. \<exists>s1 s2. validateWebhookURL N L blocked wl v s1 = (Inr (), s2)))"

lemma checked_requests_trans:
  "checked_requests N L blocked wl n a b \<Longrightarrow> checked_requests N L blocked wl m b c \<Longrightarrow> checked_requests N L blocked wl (n + m) a c"
  unfolding checked_requests_def by (elim exE conjE) (rule exI, auto)

lemma checked_requests_none: "checked_requests N L blocked wl n a a"
  by (simp add: checked_requests_def)

lemma attempt_requests:
  assumes "net_laws N requests" "\<not> skipValidation opts" "http_attempt N L blocked opts u (s, cap) = (r, s', cap')"
  shows "checked_requests N L blocked (redirect_whitelist opts) (Suc (maxRedirects opts)) (requests s) (requests s')"
proof -
  obtain v s1 where v: "validateWebhookURL N L blocked (redirect_whitelist opts) u s = (v, s1)"
    by (cases "validateWebhookURL N L blocked (redirect_whitelist opts) u s")
  have s1: "requests s1 = requests s" by (rule validate_requests [OF assms(1) v])
  show ?thesis
  proof (cases v)
    case (Inl e)
    with assms(2,3) v s1 show ?thesis by (simp add: http_attempt_def checked_requests_none)
  next
    case (Inr x)
    obtain res s2 where f: "fetchWithSecureRedirects N L blocked u opts s1 = (res, s2)"
      by (cases "fetchWithSecureRedirects N L blocked u opts s1")
    have "s' = s2"
      using assms(2,3) v f Inr by (auto simp: http_attempt_def Let_def split: sum.splits option.splits)
    moreover obtain us where "requests s2 = requests s1 @ u # us" "length us \<le> maxRedirects opts"
      "\<forall>v \<in> set us. \<exists>s1 s2. validateWebhookURL N L blocked (redirect_whitelist opts) v s1 = (Inr (), s2)"
      using fetch_requests [OF assms(1) f] assms(2) by auto
    ultimately show ?thesis
      unfolding checked_requests_def using v Inr s1 by (intro exI [of _ "u # us"]) auto
  qed
qed

lemma retry_requests:
  assumes "net_laws N requests" "\<not> skipValidation opts" "retry n (http_attempt N L blocked opts u) (s, cap) = (r, s', cap')"
  shows "checked_requests N L blocked (redirect_whitelist opts) (Suc n * Suc (maxRedirects opts)) (requests s) (requests s')"
  using assms(3)
proof (induction n arbitrary: s cap)
  case 0
  then show ?case using attempt_requests [OF assms(1,2), of L blocked u s cap r s' cap'] by simp
next
  case (Suc n)
  obtain r1 s1 cap1 where a: "http_attempt N L blocked opts u (s, cap) = (r1, s1, cap1)"
    by (cases "http_attempt N L blocked opts u (s, cap)") auto
  note first = attempt_requests [OF assms(1,2) a]
  show ?case
  proof (cases r1)
    case (Inl e)
    with Suc a have "checked_requests N L blocked (redirect_whitelist opts) (Suc n * Suc (maxRedirects opts)) (requests s1) (requests s')"
      by simp
    from checked_requests_trans [OF first this] show ?thesis by (simp add: algebra_simps)
  next
    case (Inr x)
    with Suc a have "s' = s1" by simp
    moreover have "Suc (maxRedirects opts) + Suc n * Suc (maxRedirects opts) = Suc (Suc n) * Suc (maxRedirects opts)" by simp
    ultimately show ?thesis
      using checked_requests_trans [OF first checked_requests_none [of N L blocked _ "Suc n * Suc (maxRedirects opts)"]] by metis
  qed
qed

text \<open>
  C7: every request of a delivery, first ones, retries and redirects alike, goes to a URL that has
  passed the check, and there are at most four times the allowed redirects plus one.
\<close>

theorem delivery_requests_checked:
  assumes "net_laws N requests" "\<not> skipValidation opts" "\<forall>n f x. backOff (Suc n) f x = retry n f x"
    "executeHttpAction N L blocked opts backOff u i s db = (r, s', db')"
  shows "checked_requests N L blocked (redirect_whitelist opts) (4 * Suc (maxRedirects opts)) (requests s) (requests s')"
proof -
  obtain r1 s1 cap1 where b: "retry 3 (http_attempt N L blocked opts u) (s, (None, None)) = (r1, s1, cap1)"
    by (cases "retry 3 (http_attempt N L blocked opts u) (s, (None, None))") auto
  have "backOff 4 (http_attempt N L blocked opts u) (s, (None, None)) = (r1, s1, cap1)"
    using assms(3) b by (metis eval_nat_numeral(2) semiring_norm(26) semiring_norm(27) numeral_eq_Suc pred_numeral_simps(2))
  with assms(4) have "s' = s1"
    by (auto simp: executeHttpAction_def split: sum.splits option.splits prod.splits)
  with retry_requests [OF assms(1,2) b] show ?thesis by (simp add: numeral_eq_Suc)
qed

definition sample_backOff :: "nat \<Rightarrow> ('x \<Rightarrow> ('e + 'r) \<times> 'x) \<Rightarrow> 'x \<Rightarrow> ('e + 'r) \<times> 'x" where
  "sample_backOff n f x = retry (n - 1) f x"

theorem delivery_requests_checked_witness:
  "\<exists>blocked r s' db'. executeHttpAction sample_net sample_lib blocked sample_options sample_backOff ''http://a.test/1'' 0 []
       (create_execution (new_automation Webhook)) = (r, s', db') \<and>
     checked_requests sample_net sample_lib blocked (redirect_whitelist sample_options) 24 [] s'"
proof -
  obtain blocked where b: "blockedNetworks sample_lib = Some blocked"
    using blockedNetworks_listed [OF sample_lib_laws] by blast
  obtain r s' db' where e: "executeHttpAction sample_net sample_lib blocked sample_options sample_backOff ''http://a.test/1'' 0 []
      (create_execution (new_automation Webhook)) = (r, s', db')" by (metis prod_cases3)
  have "\<not> skipValidation sample_options" "4 * Suc (maxRedirects sample_options) = 24" by (simp_all add: sample_options_def)
  with delivery_requests_checked [OF sample_net_laws _ _ e] e show ?thesis
    by (intro exI [of _ blocked] exI [of _ r] exI [of _ s'] exI [of _ db']) (simp add: sample_backOff_def)
qed

end
