(* ===== verification/Pricing_Tiers.thy ===== *)
theory Pricing_Tiers imports Prelude "HOL-Library.Char_ord" "HOL-Library.List_Lexorder" begin

text \<open>
  The pricing tiers of a model: what is accepted when they are defined,
  \<^verbatim>\<open>packages/shared/src/features/model-pricing/validation.ts\<close>, and which one applies to the usage of
  an observation, \<^verbatim>\<open>packages/shared/src/server/pricing-tiers/matcher.ts\<close>. The engine of regular
  expressions and the package that rejects slow ones are arguments; numbers are exact rationals. A
  JavaScript record is the list of its entries.
\<close>

section \<open>Tiers\<close>

datatype operator = Gt | Gte | Lt | Lte | Eq | Neq

record condition =
  usageDetailPattern :: string
  cond_operator :: operator
  cond_value :: rat
  caseSensitive :: bool

record 'd tier =
  tier_id :: string
  tier_name :: string
  isDefault :: bool
  priority :: int
  conditions :: "condition list"
  prices :: "(string \<times> 'd) list"

text \<open>
  \<open>regex_test\<close> gives \<open>None\<close> for a pattern that cannot be compiled, else what \<open>test\<close> answers;
  \<open>safe_regex\<close> is the package's verdict.
\<close>

record regex_engine =
  regex_test :: "string \<Rightarrow> bool \<Rightarrow> (string \<Rightarrow> bool) option"
  safe_regex :: "string \<Rightarrow> bool"

section \<open>Defining tiers\<close>

definition validateRegexPattern :: "regex_engine \<Rightarrow> string \<Rightarrow> string option" where
  "validateRegexPattern E pattern =
     (if length pattern > 200 then Some ''Pattern exceeds maximum length of 200 characters''
      else if length pattern = 0 then Some ''Pattern cannot be empty''
      else if regex_test E pattern True = None then Some ''Invalid regex syntax''
      else if \<not> safe_regex E pattern then Some ''Pattern may cause catastrophic backtracking''
      else None)"

text \<open>The checks in their order; \<open>None\<close> is a valid definition, else it is the error.\<close>

definition unconditional_tier :: "'d tier list \<Rightarrow> bool" where
  "unconditional_tier tiers = list_ex (\<lambda>t. \<not> isDefault t \<and> length (conditions t) = 0) tiers"

definition invalid_pattern :: "regex_engine \<Rightarrow> 'd tier list \<Rightarrow> bool" where
  "invalid_pattern E tiers =
     list_ex (\<lambda>t. list_ex (\<lambda>c. validateRegexPattern E (usageDetailPattern c) \<noteq> None) (conditions t)) tiers"

definition sorted_keys :: "'d tier \<Rightarrow> string list" where
  "sorted_keys t = sort (map fst (prices t))"

definition keys_differ :: "string list \<Rightarrow> 'd tier list \<Rightarrow> bool" where
  "keys_differ defaultKeys tiers = list_ex (\<lambda>t. \<not> isDefault t \<and>
     (let tierKeys = sorted_keys t in
      length defaultKeys \<noteq> length tierKeys \<or>
      \<not> list_all (\<lambda>(i, key). i < length tierKeys \<and> key = tierKeys ! i) (enumerate 0 defaultKeys))) tiers"

definition validatePricingTiers :: "regex_engine \<Rightarrow> 'd tier list \<Rightarrow> string option" where
  "validatePricingTiers E tiers =
     (if length tiers = 0 then Some ''At least one pricing tier is required''
      else let defaultTiers = filter isDefault tiers in
      if length defaultTiers = 0 then Some ''Exactly one pricing tier must have isDefault: true''
      else if length defaultTiers > 1 then Some ''Only one pricing tier can have isDefault: true''
      else let defaultTier = defaultTiers ! 0 in
      if priority defaultTier \<noteq> 0 then Some ''Default pricing tier must have priority: 0''
      else if length (conditions defaultTier) > 0 then Some ''Default pricing tier must have empty conditions array''
      else if unconditional_tier tiers then Some ''Non-default pricing tier must have at least one condition''
      else let priorities = map priority tiers in
      if length priorities \<noteq> card (set priorities) then Some ''Pricing tier priorities must be unique within a model''
      else let names = map tier_name tiers in
      if length names \<noteq> card (set names) then Some ''Pricing tier names must be unique''
      else if invalid_pattern E tiers then Some ''Invalid regex pattern in tier''
      else if list_ex (\<lambda>t. length (map fst (prices t)) = 0) tiers then Some ''Pricing tier must have at least one price defined''
      else if length tiers > 1 then
        (case find isDefault tiers of
           None \<Rightarrow> Some ''No default tier found''
         | Some d \<Rightarrow> if keys_differ (sorted_keys d) tiers then Some ''Pricing tier must have the same usage keys as the default tier''
             else None)
      else None)"

section \<open>Matching usage\<close>

definition compare_sum :: "operator \<Rightarrow> rat \<Rightarrow> rat \<Rightarrow> bool" where
  "compare_sum op s v = (case op of Gt \<Rightarrow> s > v | Gte \<Rightarrow> s \<ge> v | Lt \<Rightarrow> s < v | Lte \<Rightarrow> s \<le> v | Eq \<Rightarrow> s = v | Neq \<Rightarrow> s \<noteq> v)"

text \<open>A pattern that cannot be compiled makes the condition fail.\<close>

definition evaluateCondition :: "regex_engine \<Rightarrow> condition \<Rightarrow> (string \<times> rat) list \<Rightarrow> bool" where
  "evaluateCondition E c usageDetails =
     (case regex_test E (usageDetailPattern c) (caseSensitive c) of
        None \<Rightarrow> False
      | Some matches \<Rightarrow>
          (let matchingKeys = filter matches (map fst usageDetails);
               s = foldl (\<lambda>acc key. acc + (case map_of usageDetails key of None \<Rightarrow> 0 | Some n \<Rightarrow> n)) 0 matchingKeys
           in compare_sum (cond_operator c) s (cond_value c)))"

definition evaluateConditions :: "regex_engine \<Rightarrow> condition list \<Rightarrow> (string \<times> rat) list \<Rightarrow> bool" where
  "evaluateConditions E cs usageDetails =
     (if length cs = 0 then False else list_all (\<lambda>c. evaluateCondition E c usageDetails) cs)"

record 'd match_result =
  pricingTierId :: string
  pricingTierName :: string
  matched_prices :: "(string \<times> 'd) list"

definition match_of_tier :: "'d tier \<Rightarrow> 'd match_result" where
  "match_of_tier t = \<lparr>pricingTierId = tier_id t, pricingTierName = tier_name t,
     matched_prices = fold (\<lambda>(k, v) r. rec_set k v r) (prices t) []\<rparr>"

definition matchPricingTier :: "regex_engine \<Rightarrow> 'd tier list \<Rightarrow> (string \<times> rat) list \<Rightarrow> 'd match_result option" where
  "matchPricingTier E tiers usageDetails =
     (let sortedTiers = sort_key priority (filter (\<lambda>t. \<not> isDefault t) tiers) in
      case find (\<lambda>t. evaluateConditions E (conditions t) usageDetails) sortedTiers of
        Some t \<Rightarrow> Some (match_of_tier t)
      | None \<Rightarrow> (case find isDefault tiers of Some d \<Rightarrow> Some (match_of_tier d) | None \<Rightarrow> None))"

section \<open>Lemmas\<close>

lemma find_sorted_least:
  fixes f :: "'a \<Rightarrow> 'k :: linorder"
  assumes "sorted (map f xs)" "find P xs = Some x"
  shows "x \<in> set xs \<and> P x \<and> (\<forall>y \<in> set xs. P y \<longrightarrow> f x \<le> f y)"
  using assms by (induction xs) (auto split: if_splits)

lemma find_Some_in: "find P xs = Some x \<Longrightarrow> x \<in> set xs \<and> P x"
  by (induction xs) (auto split: if_splits)

lemma find_None_iff_all: "find P xs = None \<longleftrightarrow> (\<forall>x \<in> set xs. \<not> P x)"
  by (induction xs) auto

lemma enumerate_equal:
  "length ks = length ts \<Longrightarrow> list_all (\<lambda>(i, key). i < length ts \<and> key = ts ! i) (enumerate 0 ks) \<Longrightarrow> ks = ts"
  by (auto simp: list_all_iff in_set_enumerate_eq intro!: nth_equalityI)

lemma fold_rec_set_keys: "fst ` set (fold (\<lambda>(k, v) r. rec_set k v r) ps r) = fst ` set ps \<union> fst ` set r"
  by (induction ps arbitrary: r) (simp_all add: case_prod_beta)

lemma validated:
  assumes "validatePricingTiers E tiers = None"
  shows "length (filter isDefault tiers) = 1" "distinct (map priority tiers)"
    "\<forall>t \<in> set tiers. \<not> isDefault t \<longrightarrow> conditions t \<noteq> []"
    "\<forall>t \<in> set tiers. prices t \<noteq> []"
    "\<forall>t \<in> set tiers. \<forall>d \<in> set tiers. isDefault d \<longrightarrow> fst ` set (prices t) = fst ` set (prices d)"
proof -
  have n: "length (filter isDefault tiers) \<noteq> 0" "\<not> length (filter isDefault tiers) > 1"
    using assms unfolding validatePricingTiers_def Let_def by (simp_all split: if_splits option.splits)
  have r: "length (map priority tiers) = card (set (map priority tiers))"
    "\<not> unconditional_tier tiers" "\<not> list_ex (\<lambda>t. length (map fst (prices t)) = 0) tiers"
    "length tiers > 1 \<Longrightarrow> \<exists>d. find isDefault tiers = Some d \<and> \<not> keys_differ (sorted_keys d) tiers"
    using assms unfolding validatePricingTiers_def Let_def by (simp_all split: if_splits option.splits)
  show l: "length (filter isDefault tiers) = 1" using n by linarith
  show "distinct (map priority tiers)" using r(1) by (metis card_distinct)
  show "\<forall>t \<in> set tiers. \<not> isDefault t \<longrightarrow> conditions t \<noteq> []" using r(2) by (auto simp: unconditional_tier_def list_ex_iff)
  show "\<forall>t \<in> set tiers. prices t \<noteq> []" using r(3) by (auto simp: list_ex_iff)
  have one: "d = d'" if "d \<in> set tiers" "isDefault d" "d' \<in> set tiers" "isDefault d'" for d d'
  proof -
    have "d \<in> set (filter isDefault tiers)" "d' \<in> set (filter isDefault tiers)" using that by simp_all
    with l show ?thesis by (cases "filter isDefault tiers") auto
  qed
  show "\<forall>t \<in> set tiers. \<forall>d \<in> set tiers. isDefault d \<longrightarrow> fst ` set (prices t) = fst ` set (prices d)"
  proof (intro ballI impI)
    fix t d assume t: "t \<in> set tiers" and d: "d \<in> set tiers" "isDefault d"
    show "fst ` set (prices t) = fst ` set (prices d)"
    proof (cases "isDefault t")
      case True
      with one t d show ?thesis by blast
    next
      case False
      with t d have "length tiers > 1" by (cases tiers; cases "tl tiers") auto
      then obtain d' where d': "find isDefault tiers = Some d'" "\<not> keys_differ (sorted_keys d') tiers" using r(4) by blast
      have "d' = d" using find_Some_in [OF d'(1)] one d by blast
      with d'(2) t False have "sorted_keys d = sorted_keys t"
        by (intro enumerate_equal) (auto simp: keys_differ_def list_ex_iff Let_def)
      then have "set (sorted_keys d) = set (sorted_keys t)" by simp
      then show ?thesis by (simp add: sorted_keys_def)
    qed
  qed
qed

section \<open>Properties\<close>

text \<open>
  C35: the tier chosen for a usage is the matching conditional tier of least priority number; when
  none matches it is the first default tier, and without one there is no result.
\<close>

theorem tier_match_correct:
  "case matchPricingTier E tiers usage of
     None \<Rightarrow> (\<forall>t \<in> set tiers. \<not> isDefault t \<and> \<not> evaluateConditions E (conditions t) usage)
   | Some r \<Rightarrow> (\<exists>t \<in> set tiers. r = match_of_tier t \<and>
       (if isDefault t then (\<forall>u \<in> set tiers. evaluateConditions E (conditions u) usage \<longrightarrow> isDefault u)
        else evaluateConditions E (conditions t) usage \<and>
          (\<forall>u \<in> set tiers. \<not> isDefault u \<and> evaluateConditions E (conditions u) usage \<longrightarrow> priority t \<le> priority u)))"
proof -
  let ?P = "\<lambda>t. evaluateConditions E (conditions t) usage"
  let ?xs = "sort_key priority (filter (\<lambda>t. \<not> isDefault t) tiers)"
  show ?thesis
  proof (cases "find ?P ?xs")
    case (Some t)
    have "t \<in> set ?xs \<and> ?P t \<and> (\<forall>y \<in> set ?xs. ?P y \<longrightarrow> priority t \<le> priority y)"
      by (rule find_sorted_least [OF _ Some]) simp
    with Some show ?thesis by (simp add: matchPricingTier_def) blast
  next
    case None
    then have none: "\<forall>u \<in> set tiers. ?P u \<longrightarrow> isDefault u" by (auto simp: find_None_iff_all)
    show ?thesis
    proof (cases "find isDefault tiers")
      case (Some d)
      with None none find_Some_in [OF Some] show ?thesis by (simp add: matchPricingTier_def) blast
    next
      case None': None
      then have "\<forall>u \<in> set tiers. \<not> isDefault u" by (simp add: find_None_iff_all)
      with none show ?thesis unfolding matchPricingTier_def Let_def None None' by auto
    qed
  qed
qed

text \<open>
  C36: tiers that passed validation always price: every usage gets a tier, whose prices are for
  exactly the usage keys of the default tier.
\<close>

theorem validated_tiers_price:
  assumes "validatePricingTiers E tiers = None"
  shows "\<exists>r d. matchPricingTier E' tiers usage = Some r \<and> d \<in> set tiers \<and> isDefault d \<and>
    matched_prices r \<noteq> [] \<and> fst ` set (matched_prices r) = fst ` set (prices d)"
proof -
  note v = validated [OF assms]
  obtain d where "d \<in> set (filter isDefault tiers)"
    using v(1) by (metis length_0_conv list.set_intros(1) neq_Nil_conv zero_neq_one)
  then have d: "d \<in> set tiers" "isDefault d" by simp_all
  then have f: "find isDefault tiers \<noteq> None" by (auto simp: find_None_iff_all)
  obtain t where t: "t \<in> set tiers" "matchPricingTier E' tiers usage = Some (match_of_tier t)"
  proof (cases "find (\<lambda>t. evaluateConditions E' (conditions t) usage) (sort_key priority (filter (\<lambda>t. \<not> isDefault t) tiers))")
    case None
    obtain u where u: "find isDefault tiers = Some u" using f by blast
    with None find_Some_in [OF u] show thesis using that [of u] by (simp add: matchPricingTier_def)
  next
    case (Some t)
    with find_Some_in [OF Some] show thesis using that by (auto simp: matchPricingTier_def)
  qed
  have keys: "fst ` set (matched_prices (match_of_tier t)) = fst ` set (prices t)"
    by (simp add: match_of_tier_def fold_rec_set_keys)
  moreover have "fst ` set (prices t) = fst ` set (prices d)" using v(5) t(1) d by blast
  moreover have "matched_prices (match_of_tier t) \<noteq> []" using keys v(4) t(1) by auto
  ultimately show ?thesis using t(2) d by auto
qed

definition sample_tiers :: "rat tier list" where
  "sample_tiers = [
     \<lparr>tier_id = ''d'', tier_name = ''Standard'', isDefault = True, priority = 0, conditions = [], prices = [(''input'', 3)]\<rparr>,
     \<lparr>tier_id = ''l'', tier_name = ''Long'', isDefault = False, priority = 1,
       conditions = [\<lparr>usageDetailPattern = ''input'', cond_operator = Gt, cond_value = 200000, caseSensitive = False\<rparr>],
       prices = [(''input'', 6)]\<rparr>]"

definition sample_engine :: regex_engine where
  "sample_engine = \<lparr>regex_test = (\<lambda>p cs. Some (\<lambda>s. js_includes s p)), safe_regex = (\<lambda>p. True)\<rparr>"

theorem validated_tiers_price_witness:
  "\<exists>r. matchPricingTier sample_engine sample_tiers [(''input_tokens'', 250000)] = Some r \<and>
     fst ` set (matched_prices r) = {''input''}"
proof -
  have "validatePricingTiers sample_engine sample_tiers = None"
    by (simp add: validatePricingTiers_def sample_tiers_def sample_engine_def unconditional_tier_def invalid_pattern_def
        validateRegexPattern_def keys_differ_def sorted_keys_def Let_def)
  from validated_tiers_price [OF this, of sample_engine "[(''input_tokens'', 250000)]"]
  show ?thesis by (auto simp: sample_tiers_def)
qed

theorem tier_match_correct_witness:
  "\<exists>r. matchPricingTier sample_engine sample_tiers [(''input_tokens'', 250000)] = Some r \<and> pricingTierId r = ''l''"
proof -
  have ev: "evaluateConditions sample_engine (conditions (sample_tiers ! 1)) [(''input_tokens'', 250000)]"
    by (simp add: evaluateConditions_def evaluateCondition_def sample_tiers_def sample_engine_def compare_sum_def
        js_includes_def js_starts_with_def)
  show ?thesis
    using tier_match_correct [where E = sample_engine and tiers = sample_tiers and usage = "[(''input_tokens'', 250000)]"] ev
    by (auto simp: sample_tiers_def match_of_tier_def split: option.splits)
qed

end
