(* ===== verification/Js_Uri.thy ===== *)
theory Js_Uri imports Prelude begin

text \<open>
  \<open>encodeURIComponent\<close> and \<open>decodeURIComponent\<close> of the JavaScript library on texts of code units
  below 256, with their round trip.
\<close>

section \<open>Encoding\<close>

text \<open>\<open>encodeURIComponent\<close>: every other character becomes the bytes of its UTF-8 form.\<close>

definition uri_unreserved :: "char \<Rightarrow> bool" where
  "uri_unreserved c \<longleftrightarrow> (let n = (of_char c :: nat) in
     65 \<le> n \<and> n \<le> 90 \<or> 97 \<le> n \<and> n \<le> 122 \<or> 48 \<le> n \<and> n \<le> 57 \<or> n = 39 \<or> c \<in> set ''-_.!~*()'')"

definition hex_digit :: "nat \<Rightarrow> char" where
  "hex_digit d = (if d < 10 then char_of (48 + d) else char_of (55 + d))"

definition percent_byte :: "nat \<Rightarrow> string" where
  "percent_byte b = [CHR ''%'', hex_digit (b div 16), hex_digit (b mod 16)]"

definition encode_char :: "char \<Rightarrow> string" where
  "encode_char c = (let n = of_char c in
     if uri_unreserved c then [c]
     else if n < 128 then percent_byte n
     else percent_byte (192 + n div 64) @ percent_byte (128 + n mod 64))"

definition encodeURIComponent :: "string \<Rightarrow> string" where
  "encodeURIComponent s = concat (map encode_char s)"

section \<open>Decoding\<close>

definition hex_byte :: "char \<Rightarrow> char \<Rightarrow> nat option" where
  "hex_byte h l = (case (hex_digit_value h, hex_digit_value l) of
     (Some a, Some b) \<Rightarrow> Some (16 * a + b) | _ \<Rightarrow> None)"

text \<open>
  \<open>None\<close> is the thrown \<open>URIError\<close>. A byte from 128 on starts a code point; those up to 255 start with
  194 or 195 and have one more byte. Longer ones have no \<open>char\<close>; texts with them are outside the model.
\<close>

fun decodeURIComponent :: "string \<Rightarrow> string option" where
  "decodeURIComponent [] = Some []"
| "decodeURIComponent (c # r) =
     (if c \<noteq> CHR ''%'' then map_option ((#) c) (decodeURIComponent r)
      else (case r of
          h # l # r1 \<Rightarrow>
            (case hex_byte h l of
                None \<Rightarrow> None
              | Some b \<Rightarrow>
                  if b < 128 then map_option ((#) (char_of b)) (decodeURIComponent r1)
                  else if b \<noteq> 194 \<and> b \<noteq> 195 then None
                  else (case r1 of
                      p # h2 # l2 # r2 \<Rightarrow>
                        (case hex_byte h2 l2 of
                            None \<Rightarrow> None
                          | Some b2 \<Rightarrow>
                              if p = CHR ''%'' \<and> 128 \<le> b2 \<and> b2 < 192
                              then map_option ((#) (char_of (64 * (b - 192) + (b2 - 128)))) (decodeURIComponent r2)
                              else None)
                    | _ \<Rightarrow> None))
        | _ \<Rightarrow> None))"

declare decodeURIComponent.simps(2) [simp del]

section \<open>Round trip\<close>

lemma hex_digit_read: "d < 16 \<Longrightarrow> hex_digit_value (hex_digit d) = Some d"
  by (auto simp: hex_digit_value_def hex_digit_def)

lemma hex_byte_digits: "b < 256 \<Longrightarrow> hex_byte (hex_digit (b div 16)) (hex_digit (b mod 16)) = Some b"
  unfolding hex_byte_def by (subst (1 2) hex_digit_read) auto

lemma decode_char:
  "decodeURIComponent (encode_char c @ r) = map_option ((#) c) (decodeURIComponent r)"
proof -
  define n where "n = (of_char c :: nat)"
  have c: "c = char_of n" and n: "n < 256" by (simp_all add: n_def)
  consider "uri_unreserved c" | "\<not> uri_unreserved c" "n < 128" | "\<not> uri_unreserved c" "\<not> n < 128" by blast
  then show ?thesis
  proof cases
    case 1
    then have "c \<noteq> CHR ''%''" by (auto simp: uri_unreserved_def)
    with 1 show ?thesis by (simp add: encode_char_def Let_def decodeURIComponent.simps(2))
  next
    case 2
    then have "encode_char c = percent_byte n" by (simp add: encode_char_def Let_def flip: n_def)
    with 2 n show ?thesis by (simp add: percent_byte_def hex_byte_digits c decodeURIComponent.simps(2))
  next
    case 3
    let ?a = "192 + n div 64" and ?b = "128 + n mod 64"
    have d: "?a < 256" "?b < 256" "\<not> ?a < 128" "?a = 194 \<or> ?a = 195" "128 \<le> ?b" "?b < 192" using 3 n by linarith+
    have a: "encode_char c = percent_byte ?a @ percent_byte ?b"
      using 3 by (simp add: encode_char_def Let_def flip: n_def)
    have v: "64 * (?a - 192) + (?b - 128) = n" by simp
    from d show ?thesis
      by (simp only: a percent_byte_def append.simps decodeURIComponent.simps(2) hex_byte_digits list.case option.case
          if_False if_True simp_thms v c [symmetric]) auto
  qed
qed

lemma decode_encode: "decodeURIComponent (encodeURIComponent s) = Some s"
  by (induction s) (auto simp: encodeURIComponent_def decode_char)

lemma encodeURIComponent_inj: "encodeURIComponent s = encodeURIComponent t \<Longrightarrow> s = t"
  by (metis decode_encode option.inject)

lemma decode_plain: "CHR ''%'' \<notin> set s \<Longrightarrow> decodeURIComponent s = Some s"
  by (induction s) (auto simp: decodeURIComponent.simps(2))

lemma hex_digit_unreserved: "d < 16 \<Longrightarrow> uri_unreserved (hex_digit d)"
  by (auto simp: hex_digit_def uri_unreserved_def)

lemma percent_byte_chars: "b < 256 \<Longrightarrow> c \<in> set (percent_byte b) \<Longrightarrow> c = CHR ''%'' \<or> uri_unreserved c"
  using hex_digit_unreserved [of "b div 16"] hex_digit_unreserved [of "b mod 16"]
  by (auto simp: percent_byte_def div_less_iff_less_mult)

lemma encodeURIComponent_chars: "c \<in> set (encodeURIComponent s) \<Longrightarrow> c = CHR ''%'' \<or> uri_unreserved c"
proof -
  have "c = CHR ''%'' \<or> uri_unreserved c" if "c \<in> set (encode_char d)" for d
  proof -
    have "(of_char d :: nat) < 256" by simp
    moreover from this have "192 + of_char d div 64 < (256 :: nat)" "128 + of_char d mod 64 < (256 :: nat)" by linarith+
    ultimately have "c \<in> set (percent_byte b) \<Longrightarrow> b \<in> {of_char d, 192 + of_char d div 64, 128 + of_char d mod 64}
        \<Longrightarrow> c = CHR ''%'' \<or> uri_unreserved c" for b
      using percent_byte_chars [of b c] by blast
    with that show ?thesis by (auto simp: encode_char_def Let_def split: if_splits)
  qed
  then show "c \<in> set (encodeURIComponent s) \<Longrightarrow> c = CHR ''%'' \<or> uri_unreserved c"
    by (auto simp: encodeURIComponent_def)
qed

end
