(* ===== verification/Model_Match.thy ===== *)
theory Model_Match imports Pricing_Tiers Js_Uri begin

text \<open>
  Finding the model definition of an observation and caching it,
  \<^verbatim>\<open>packages/shared/src/server/ingestion/modelMatch.ts\<close>. The tables of models and tiers are
  arguments, Postgres' regular expressions and decimal.js too. Redis is a record of the commands the
  code uses on a state \<open>'s\<close>; a command may fail. A cached value is the token for a model that was
  not found, the parsed JSON of a model with its tiers (decimals as the strings they are written
  as), JSON of another form, or text that does not parse.
\<close>

section \<open>Models and their cache\<close>

record 'd model_row =
  model_id :: string
  model_project :: "string option"
  model_name :: string
  match_pattern :: string
  start_date :: "int option"
  inputPrice :: "'d option"
  outputPrice :: "'d option"
  totalPrice :: "'d option"

datatype cached = Not_Found_Token | Cached_Json "string model_row" "string tier list" | Unknown_Json | Malformed | Locked_Token

record 'd decimal_ops =
  dec_text :: "'d \<Rightarrow> string"
  new_Decimal :: "string \<Rightarrow> 'd"

record 's model_redis =
  mr_get :: "string \<Rightarrow> 's \<Rightarrow> cached option option \<times> 's"
  mr_set :: "string \<Rightarrow> cached \<Rightarrow> 's \<Rightarrow> bool \<times> 's"
  mr_exists :: "string \<Rightarrow> 's \<Rightarrow> bool option \<times> 's"
  mr_scan :: "string \<Rightarrow> 's \<Rightarrow> string list option \<times> 's"
  mr_del :: "string list \<Rightarrow> 's \<Rightarrow> bool \<times> 's"

record match_config =
  cache_enabled :: bool
  redis_cluster :: bool
  redis_available :: bool

type_synonym match_props = "string \<times> string"

definition MODEL_MATCH_CACHE_LOCKED_KEY :: string where
  "MODEL_MATCH_CACHE_LOCKED_KEY = ''LOCK:model-match-clear''"

section \<open>Keys\<close>

definition getModelMatchKeyPrefix :: "match_config \<Rightarrow> string" where
  "getModelMatchKeyPrefix cfg = (if redis_cluster cfg then ''{model-price-tiers}'' else ''model-price-tiers'')"

definition getRedisModelKey :: "match_config \<Rightarrow> match_props \<Rightarrow> string" where
  "getRedisModelKey cfg p = (case p of (projectId, model) \<Rightarrow>
     getModelMatchKeyPrefix cfg @ '':'' @ projectId @ '':'' @ encodeURIComponent model)"

section \<open>The tables\<close>

record 'd tables =
  models :: "'d model_row list"
  tiers_of_model :: "string \<Rightarrow> 'd tier list"

text \<open>
  The rows of the project or of all projects whose pattern matches, ordered by project with NULL
  last, then by start date, latest first and NULL last; each sort is stable.
\<close>

definition order_rows :: "'d model_row list \<Rightarrow> 'd model_row list" where
  "order_rows rows =
     sort_key (\<lambda>m. if model_project m = None then 1 else (0 :: nat))
       (sort_key (\<lambda>m. if start_date m = None then 1 else (0 :: nat))
         (sort_key (\<lambda>m. case start_date m of None \<Rightarrow> 0 | Some d \<Rightarrow> - d) rows))"

definition findModelInPostgres :: "(string \<Rightarrow> string \<Rightarrow> bool) \<Rightarrow> 'd tables \<Rightarrow> match_props \<Rightarrow> 'd model_row option" where
  "findModelInPostgres pg_match D p = (case p of (projectId, model) \<Rightarrow>
     if model = [] then None
     else (case order_rows (filter (\<lambda>m. (model_project m = Some projectId \<or> model_project m = None) \<and>
             pg_match model (match_pattern m)) (models D)) of
         [] \<Rightarrow> None | m # _ \<Rightarrow> Some m))"

definition findPricingTiersForModel :: "'d tables \<Rightarrow> string \<Rightarrow> 'd tier list" where
  "findPricingTiersForModel D modelId = (if modelId = [] then [] else sort_key priority (tiers_of_model D modelId))"

section \<open>Reading and writing the cache\<close>

definition model_map :: "('a \<Rightarrow> 'b) \<Rightarrow> 'a model_row \<Rightarrow> 'b model_row" where
  "model_map f m = \<lparr>model_id = model_id m, model_project = model_project m, model_name = model_name m,
     match_pattern = match_pattern m, start_date = start_date m, inputPrice = map_option f (inputPrice m),
     outputPrice = map_option f (outputPrice m), totalPrice = map_option f (totalPrice m)\<rparr>"

definition tier_with_prices :: "'a tier \<Rightarrow> (string \<times> 'b) list \<Rightarrow> 'b tier" where
  "tier_with_prices t ps = \<lparr>tier_id = tier_id t, tier_name = tier_name t, isDefault = isDefault t,
     priority = priority t, conditions = conditions t, prices = ps\<rparr>"

definition redisModelToPrismaModel :: "'d decimal_ops \<Rightarrow> string model_row \<Rightarrow> 'd model_row" where
  "redisModelToPrismaModel Dec redisModel = model_map (new_Decimal Dec) redisModel"

text \<open>\<open>Object.fromEntries\<close> of the prices, each written as its text.\<close>

definition cached_tier :: "'d decimal_ops \<Rightarrow> 'd tier \<Rightarrow> string tier" where
  "cached_tier Dec t = tier_with_prices t
     (map (\<lambda>(k, d). (k, dec_text Dec d)) (fold (\<lambda>(k, v) r. rec_set k v r) (prices t) []))"

definition uncached_tier :: "'d decimal_ops \<Rightarrow> string tier \<Rightarrow> 'd tier" where
  "uncached_tier Dec t = tier_with_prices t (map (\<lambda>(usageType, price). (usageType, new_Decimal Dec price)) (prices t))"

definition isModelMatchCacheLocked :: "match_config \<Rightarrow> 's model_redis \<Rightarrow> 's \<Rightarrow> bool \<times> 's" where
  "isModelMatchCacheLocked cfg R s =
     (if \<not> redis_available cfg then (False, s)
      else (case mr_exists R MODEL_MATCH_CACHE_LOCKED_KEY s of
          (None, s') \<Rightarrow> (False, s') | (Some b, s') \<Rightarrow> (b, s')))"

type_synonym 'd found = "'d model_row option \<times> 'd tier list"

definition getModelWithPricesFromRedis :: "match_config \<Rightarrow> 'd decimal_ops \<Rightarrow> 's model_redis \<Rightarrow> match_props \<Rightarrow> 's \<Rightarrow>
    'd found option \<times> 's" where
  "getModelWithPricesFromRedis cfg Dec R p s =
     (if \<not> cache_enabled cfg then (None, s)
      else (case isModelMatchCacheLocked cfg R s of
          (True, s1) \<Rightarrow> (None, s1)
        | (False, s1) \<Rightarrow>
            if \<not> redis_available cfg then (None, s1)
            else (case mr_get R (getRedisModelKey cfg p) s1 of
                (None, s2) \<Rightarrow> (None, s2)
              | (Some None, s2) \<Rightarrow> (None, s2)
              | (Some (Some v), s2) \<Rightarrow>
                  ((case v of
                      Not_Found_Token \<Rightarrow> Some (None, [])
                    | Cached_Json m ts \<Rightarrow> Some (Some (redisModelToPrismaModel Dec m), map (uncached_tier Dec) ts)
                    | Unknown_Json \<Rightarrow> None
                    | Malformed \<Rightarrow> None
                    | Locked_Token \<Rightarrow> None), s2))))"

definition redis_set_quietly :: "match_config \<Rightarrow> 's model_redis \<Rightarrow> string \<Rightarrow> cached \<Rightarrow> 's \<Rightarrow> 's" where
  "redis_set_quietly cfg R k v s = (if redis_available cfg then snd (mr_set R k v s) else s)"

definition addModelNotFoundTokenToRedis :: "match_config \<Rightarrow> 's model_redis \<Rightarrow> match_props \<Rightarrow> 's \<Rightarrow> 's" where
  "addModelNotFoundTokenToRedis cfg R p s = redis_set_quietly cfg R (getRedisModelKey cfg p) Not_Found_Token s"

definition addModelWithPricingTiersToRedis :: "match_config \<Rightarrow> 'd decimal_ops \<Rightarrow> 's model_redis \<Rightarrow> match_props \<Rightarrow>
    'd model_row \<Rightarrow> 'd tier list \<Rightarrow> 's \<Rightarrow> 's" where
  "addModelWithPricingTiersToRedis cfg Dec R p model pricingTiers s =
     redis_set_quietly cfg R (getRedisModelKey cfg p)
       (Cached_Json (model_map (dec_text Dec) model) (map (cached_tier Dec) pricingTiers)) s"

definition findModel :: "match_config \<Rightarrow> 'd decimal_ops \<Rightarrow> (string \<Rightarrow> string \<Rightarrow> bool) \<Rightarrow> 'd tables \<Rightarrow> 's model_redis \<Rightarrow>
    match_props \<Rightarrow> 's \<Rightarrow> 'd found \<times> 's" where
  "findModel cfg Dec pg_match D R p s =
     (case getModelWithPricesFromRedis cfg Dec R p s of
        (Some cachedResult, s1) \<Rightarrow> (if fst cachedResult = None then (None, []) else cachedResult, s1)
      | (None, s1) \<Rightarrow>
          (case findModelInPostgres pg_match D p of
             Some postgresModel \<Rightarrow>
               (let pricingTiers = findPricingTiersForModel D (model_id postgresModel) in
                if cache_enabled cfg
                then ((Some postgresModel, pricingTiers),
                      addModelWithPricingTiersToRedis cfg Dec R p postgresModel pricingTiers s1)
                else ((Some postgresModel, pricingTiers), s1))
           | None \<Rightarrow>
               ((None, []), if cache_enabled cfg then addModelNotFoundTokenToRedis cfg R p s1 else s1)))"

section \<open>Clearing the cache\<close>

fun del_each :: "'s model_redis \<Rightarrow> string list \<Rightarrow> 's \<Rightarrow> bool \<times> 's" where
  "del_each R [] s = (True, s)"
| "del_each R (k # ks) s = (case mr_del R [k] s of (ok, s1) \<Rightarrow>
     case del_each R ks s1 of (oks, s2) \<Rightarrow> (ok \<and> oks, s2))"

definition safeMultiDel :: "match_config \<Rightarrow> 's model_redis \<Rightarrow> string list \<Rightarrow> 's \<Rightarrow> bool \<times> 's" where
  "safeMultiDel cfg R ks s =
     (if \<not> redis_available cfg \<or> length ks = 0 then (True, s)
      else if redis_cluster cfg then del_each R ks s else mr_del R ks s)"

definition scan_and_delete :: "match_config \<Rightarrow> 's model_redis \<Rightarrow> string \<Rightarrow> 's \<Rightarrow> 's" where
  "scan_and_delete cfg R pattern s =
     (case mr_scan R pattern s of
        (None, s1) \<Rightarrow> s1
      | (Some ks, s1) \<Rightarrow> if length ks > 0 then snd (safeMultiDel cfg R ks s1) else s1)"

definition clearModelCacheForProject :: "match_config \<Rightarrow> 's model_redis \<Rightarrow> string \<Rightarrow> 's \<Rightarrow> 's" where
  "clearModelCacheForProject cfg R projectId s =
     (if \<not> cache_enabled cfg \<or> \<not> redis_available cfg then s
      else scan_and_delete cfg R (getModelMatchKeyPrefix cfg @ '':'' @ projectId @ '':*'') s)"

text \<open>
  The lock is deleted in the \<open>finally\<close> block, whichever way the body ended; the result is whether
  that last command succeeded, as its error is thrown on.
\<close>

definition clearFullModelCache :: "match_config \<Rightarrow> 's model_redis \<Rightarrow> 's \<Rightarrow> bool \<times> 's" where
  "clearFullModelCache cfg R s =
     (if \<not> cache_enabled cfg \<or> \<not> redis_available cfg then (True, s)
      else (let s' = (case isModelMatchCacheLocked cfg R s of
            (True, s1) \<Rightarrow> s1
          | (False, s1) \<Rightarrow> (case mr_set R MODEL_MATCH_CACHE_LOCKED_KEY Locked_Token s1 of
                (False, s2) \<Rightarrow> s2
              | (True, s2) \<Rightarrow> scan_and_delete cfg R (getModelMatchKeyPrefix cfg @ ''*'') s2))
        in mr_del R [MODEL_MATCH_CACHE_LOCKED_KEY] s'))"

section \<open>Keys are unambiguous\<close>

lemma encode_no_colon: "CHR '':'' \<notin> set (encodeURIComponent s)"
  using encodeURIComponent_chars [of "CHR '':''" s] by (auto simp: uri_unreserved_def)

lemma key_inj: "getRedisModelKey cfg p = getRedisModelKey cfg q \<Longrightarrow> p = q"
proof -
  assume e: "getRedisModelKey cfg p = getRedisModelKey cfg q"
  obtain a b c d where pq: "p = (a, b)" "q = (c, d)" by (metis surj_pair)
  have "(getModelMatchKeyPrefix cfg @ '':'' @ a) @ CHR '':'' # encodeURIComponent b =
      (getModelMatchKeyPrefix cfg @ '':'' @ c) @ CHR '':'' # encodeURIComponent d"
    using e by (simp add: pq getRedisModelKey_def)
  from last_colon [OF this encode_no_colon encode_no_colon] show ?thesis
    using encodeURIComponent_inj by (auto simp: pq)
qed

section \<open>What Redis promises\<close>

text \<open>
  \<open>view\<close> is what the server stores; entries may expire at any time, so commands bound it from above.
\<close>

definition model_redis_laws :: "'s model_redis \<Rightarrow> ('s \<Rightarrow> string \<Rightarrow> cached option) \<Rightarrow> bool" where
  "model_redis_laws R view \<longleftrightarrow>
     (\<forall>k s r s'. mr_get R k s = (r, s') \<longrightarrow> view s' \<subseteq>\<^sub>m view s) \<and>
     (\<forall>k s v s'. mr_get R k s = (Some (Some v), s') \<longrightarrow> view s k = Some v) \<and>
     (\<forall>k v s ok s'. mr_set R k v s = (ok, s') \<longrightarrow> view s' \<subseteq>\<^sub>m (view s)(k \<mapsto> v) \<or> view s' \<subseteq>\<^sub>m view s) \<and>
     (\<forall>k s r s'. mr_exists R k s = (r, s') \<longrightarrow> view s' \<subseteq>\<^sub>m view s) \<and>
     (\<forall>p s r s'. mr_scan R p s = (r, s') \<longrightarrow> view s' \<subseteq>\<^sub>m view s) \<and>
     (\<forall>ks s ok s'. mr_del R ks s = (ok, s') \<longrightarrow> view s' \<subseteq>\<^sub>m view s)"

lemma model_redis_lawsD:
  assumes "model_redis_laws R view"
  shows "mr_get R k s = (g, s') \<Longrightarrow> view s' \<subseteq>\<^sub>m view s"
    "mr_get R k s = (Some (Some v), s') \<Longrightarrow> view s k = Some v"
    "mr_set R k v s = (ok, s') \<Longrightarrow> view s' \<subseteq>\<^sub>m (view s)(k \<mapsto> v) \<or> view s' \<subseteq>\<^sub>m view s"
    "mr_exists R k s = (ex, s') \<Longrightarrow> view s' \<subseteq>\<^sub>m view s"
proof -
  note laws = assms [unfolded model_redis_laws_def]
  show "mr_get R k s = (g, s') \<Longrightarrow> view s' \<subseteq>\<^sub>m view s" using laws [THEN conjunct1] by simp
  show "mr_get R k s = (Some (Some v), s') \<Longrightarrow> view s k = Some v" using laws [THEN conjunct2, THEN conjunct1] by simp
  show "mr_set R k v s = (ok, s') \<Longrightarrow> view s' \<subseteq>\<^sub>m (view s)(k \<mapsto> v) \<or> view s' \<subseteq>\<^sub>m view s"
    using laws [THEN conjunct2, THEN conjunct2, THEN conjunct1] by simp
  show "mr_exists R k s = (ex, s') \<Longrightarrow> view s' \<subseteq>\<^sub>m view s"
    using laws [THEN conjunct2, THEN conjunct2, THEN conjunct2, THEN conjunct1] by simp
qed

text \<open>The answer of the tables, what the cache should hold for it, and a cache that does.\<close>

definition table_answer :: "(string \<Rightarrow> string \<Rightarrow> bool) \<Rightarrow> 'd tables \<Rightarrow> match_props \<Rightarrow> 'd found" where
  "table_answer pg_match D p = (case findModelInPostgres pg_match D p of
       None \<Rightarrow> (None, []) | Some m \<Rightarrow> (Some m, findPricingTiersForModel D (model_id m)))"

definition cached_answer :: "'d decimal_ops \<Rightarrow> 'd found \<Rightarrow> cached" where
  "cached_answer Dec f = (case f of
       (None, _) \<Rightarrow> Not_Found_Token
     | (Some m, ts) \<Rightarrow> Cached_Json (model_map (dec_text Dec) m) (map (cached_tier Dec) ts))"

definition cache_true :: "match_config \<Rightarrow> 'd decimal_ops \<Rightarrow> (string \<Rightarrow> string \<Rightarrow> bool) \<Rightarrow> 'd tables \<Rightarrow> (string \<Rightarrow> cached option) \<Rightarrow> bool" where
  "cache_true cfg Dec pg_match D c \<longleftrightarrow>
     (\<forall>p v. c (getRedisModelKey cfg p) = Some v \<longrightarrow> v = cached_answer Dec (table_answer pg_match D p))"

lemma cache_true_sub: "cache_true cfg Dec pg_match D c \<Longrightarrow> c' \<subseteq>\<^sub>m c \<Longrightarrow> cache_true cfg Dec pg_match D c'"
  unfolding cache_true_def map_le_def by (metis domI)

lemma cache_true_set:
  "cache_true cfg Dec pg_match D c \<Longrightarrow> v = cached_answer Dec (table_answer pg_match D p) \<Longrightarrow>
   cache_true cfg Dec pg_match D (c(getRedisModelKey cfg p \<mapsto> v))"
  unfolding cache_true_def by (auto dest: key_inj)

text \<open>Reading back what was written.\<close>

lemma uncached_cached_tier:
  assumes "\<forall>d. new_Decimal Dec (dec_text Dec d) = d" "distinct (map fst (prices t))"
  shows "uncached_tier Dec (cached_tier Dec t) = t"
  using fold_rec_set_fresh [of "[]" "prices t"] assms
  by (simp add: uncached_tier_def cached_tier_def tier_with_prices_def case_prod_beta o_def)

lemma model_map_back:
  "\<forall>d. new_Decimal Dec (dec_text Dec d) = d \<Longrightarrow> redisModelToPrismaModel Dec (model_map (dec_text Dec) m) = m"
  by (simp add: redisModelToPrismaModel_def model_map_def option.map_comp o_def option.map_ident)

definition table_laws :: "'d decimal_ops \<Rightarrow> 'd tables \<Rightarrow> bool" where
  "table_laws Dec D \<longleftrightarrow> (\<forall>d. new_Decimal Dec (dec_text Dec d) = d) \<and>
     (\<forall>i. \<forall>t \<in> set (tiers_of_model D i). distinct (map fst (prices t)))"

lemma cached_answer_read:
  assumes "table_laws Dec D" "cached_answer Dec (table_answer pg_match D p) = v"
  shows "v \<notin> {Unknown_Json, Malformed, Locked_Token}"
    "v = Not_Found_Token \<Longrightarrow> table_answer pg_match D p = (None, [])"
    "v = Cached_Json m ts \<Longrightarrow> table_answer pg_match D p = (Some (redisModelToPrismaModel Dec m), map (uncached_tier Dec) ts)"
proof -
  have d: "\<forall>d. new_Decimal Dec (dec_text Dec d) = d" using assms(1) by (simp add: table_laws_def)
  have t: "uncached_tier Dec (cached_tier Dec t) = t" if "t \<in> set (findPricingTiersForModel D i)" for t i
    using that assms(1) by (intro uncached_cached_tier [OF d]) (auto simp: findPricingTiersForModel_def table_laws_def split: if_splits)
  show "v \<notin> {Unknown_Json, Malformed, Locked_Token}" "v = Not_Found_Token \<Longrightarrow> table_answer pg_match D p = (None, [])"
    using assms(2) by (auto simp: cached_answer_def table_answer_def split: option.splits)
  assume "v = Cached_Json m ts"
  with assms(2) obtain m0 where m0: "findModelInPostgres pg_match D p = Some m0" "m = model_map (dec_text Dec) m0"
    "ts = map (cached_tier Dec) (findPricingTiersForModel D (model_id m0))"
    by (auto simp: cached_answer_def table_answer_def split: option.splits)
  have "map (uncached_tier Dec) ts = findPricingTiersForModel D (model_id m0)"
    unfolding m0(3) map_map o_def using t by (intro map_idI) blast
  then show "table_answer pg_match D p = (Some (redisModelToPrismaModel Dec m), map (uncached_tier Dec) ts)"
    by (simp add: table_answer_def m0(1,2) model_map_back [OF d])
qed

lemma lookup_true:
  assumes "model_redis_laws R view" "table_laws Dec D" "cache_true cfg Dec pg_match D (view s)"
    "getModelWithPricesFromRedis cfg Dec R p s = (r, s')"
  shows "cache_true cfg Dec pg_match D (view s') \<and> (\<forall>f. r = Some f \<longrightarrow> f = table_answer pg_match D p)"
proof -
  obtain b s1 where l: "isModelMatchCacheLocked cfg R s = (b, s1)" by (cases "isModelMatchCacheLocked cfg R s")
  obtain g s2 where g: "mr_get R (getRedisModelKey cfg p) s1 = (g, s2)" by (cases "mr_get R (getRedisModelKey cfg p) s1")
  have c1: "cache_true cfg Dec pg_match D (view s1)"
  proof (cases "redis_available cfg")
    case True
    obtain ex t where e: "mr_exists R MODEL_MATCH_CACHE_LOCKED_KEY s = (ex, t)" by (cases "mr_exists R MODEL_MATCH_CACHE_LOCKED_KEY s")
    with True l have "s1 = t" by (cases ex) (simp_all add: isModelMatchCacheLocked_def)
    with cache_true_sub [OF assms(3) model_redis_lawsD(4) [OF assms(1) e]] show ?thesis by simp
  next
    case False
    with l assms(3) show ?thesis by (simp add: isModelMatchCacheLocked_def)
  qed
  have c2: "cache_true cfg Dec pg_match D (view s2)" by (rule cache_true_sub [OF c1 model_redis_lawsD(1) [OF assms(1) g]])
  have hit: "v = cached_answer Dec (table_answer pg_match D p)" if "g = Some (Some v)" for v
  proof -
    have "view s1 (getRedisModelKey cfg p) = Some v" using model_redis_lawsD(2) [OF assms(1)] g that by blast
    with c1 show ?thesis unfolding cache_true_def by blast
  qed
  have read: "table_answer pg_match D p = f"
    if "g = Some (Some v)" "(case v of Not_Found_Token \<Rightarrow> Some (None, [])
        | Cached_Json m ts \<Rightarrow> Some (Some (redisModelToPrismaModel Dec m), map (uncached_tier Dec) ts)
        | Unknown_Json \<Rightarrow> None | Malformed \<Rightarrow> None | Locked_Token \<Rightarrow> None) = Some f" for v f
    using that(2) cached_answer_read(2,3) [OF assms(2) hit [OF that(1), symmetric]] by (cases v) auto
  show ?thesis
    using assms(3,4) l g c1 c2 read
    by (auto simp: getModelWithPricesFromRedis_def split: if_splits bool.splits option.splits)
qed

lemma store_true:
  assumes "model_redis_laws R view" "cache_true cfg Dec pg_match D (view s)" "v = cached_answer Dec (table_answer pg_match D p)"
  shows "cache_true cfg Dec pg_match D (view (redis_set_quietly cfg R (getRedisModelKey cfg p) v s))"
proof (cases "redis_available cfg")
  case True
  obtain ok t where t: "mr_set R (getRedisModelKey cfg p) v s = (ok, t)" by (cases "mr_set R (getRedisModelKey cfg p) v s")
  have "cache_true cfg Dec pg_match D (view t)"
    using model_redis_lawsD(3) [OF assms(1) t] cache_true_sub cache_true_set [OF assms(2,3)] assms(2) by blast
  with True t show ?thesis by (simp add: redis_set_quietly_def)
qed (simp add: redis_set_quietly_def assms(2))

section \<open>Properties\<close>

text \<open>
  C16: the cache is transparent: while the tables do not change, finding a model gives what the
  tables give, whatever expires, fails or is locked, and leaves a cache that again holds nothing
  but answers of the tables.
\<close>

theorem model_cache_transparent:
  assumes "model_redis_laws R view" "table_laws Dec D" "cache_true cfg Dec pg_match D (view s)"
  shows "fst (findModel cfg Dec pg_match D R p s) = table_answer pg_match D p \<and>
    cache_true cfg Dec pg_match D (view (snd (findModel cfg Dec pg_match D R p s)))"
proof -
  obtain r s1 where r: "getModelWithPricesFromRedis cfg Dec R p s = (r, s1)"
    by (cases "getModelWithPricesFromRedis cfg Dec R p s")
  note l = lookup_true [OF assms r]
  show ?thesis
  proof (cases r)
    case (Some f)
    with l have f: "f = table_answer pg_match D p" by blast
    have i: "(if fst (table_answer pg_match D p) = None then (None, []) else table_answer pg_match D p) = table_answer pg_match D p"
      by (simp add: table_answer_def split: option.split)
    have "findModel cfg Dec pg_match D R p s = (table_answer pg_match D p, s1)"
      by (simp only: findModel_def r Some f i prod.case option.case)
    with l [THEN conjunct1] show ?thesis by (simp only: fst_conv snd_conv simp_thms)
  next
    case None
    show ?thesis
    proof (cases "cache_enabled cfg")
      case False
      have "findModel cfg Dec pg_match D R p s = (table_answer pg_match D p, s1)"
        by (cases "findModelInPostgres pg_match D p")
          (simp_all only: findModel_def r None False table_answer_def Let_def option.case prod.case if_False)
      with l [THEN conjunct1] show ?thesis by (simp only: fst_conv snd_conv simp_thms)
    next
      case True
      let ?v = "cached_answer Dec (table_answer pg_match D p)"
      have "findModel cfg Dec pg_match D R p s =
          (table_answer pg_match D p, redis_set_quietly cfg R (getRedisModelKey cfg p) ?v s1)"
        by (cases "findModelInPostgres pg_match D p")
          (simp_all only: findModel_def r None True table_answer_def cached_answer_def Let_def
            addModelNotFoundTokenToRedis_def addModelWithPricingTiersToRedis_def option.case prod.case if_True)
      with store_true [OF assms(1) l [THEN conjunct1], of ?v p] show ?thesis by (simp only: fst_conv snd_conv simp_thms)
    qed
  qed
qed

text \<open>A server that keeps a list of entries and never fails.\<close>

definition list_redis :: "(string \<times> cached) list model_redis" where
  "list_redis = \<lparr>mr_get = (\<lambda>k s. (Some (map_of s k), s)), mr_set = (\<lambda>k v s. (True, rec_set k v s)),
     mr_exists = (\<lambda>k s. (Some (map_of s k \<noteq> None), s)),
     mr_scan = (\<lambda>pattern s. (Some (filter (\<lambda>k. js_starts_with k (butlast pattern)) (map fst s)), s)),
     mr_del = (\<lambda>ks s. (True, filter (\<lambda>(k, v). k \<notin> set ks) s))\<rparr>"

lemma map_of_filter_keys: "map_of (filter (\<lambda>(k, v). P k) s) k = (if P k then map_of s k else None)"
  by (induction s) auto

lemma list_redis_laws: "model_redis_laws list_redis map_of"
  by (auto simp: model_redis_laws_def list_redis_def map_le_def map_of_filter_keys)

definition sample_tables :: "string tables" where
  "sample_tables = \<lparr>models = [
      \<lparr>model_id = ''g'', model_project = None, model_name = ''gpt'', match_pattern = ''gpt'', start_date = Some 5,
        inputPrice = None, outputPrice = None, totalPrice = None\<rparr>,
      \<lparr>model_id = ''p'', model_project = Some ''a'', model_name = ''gpt'', match_pattern = ''gpt'', start_date = None,
        inputPrice = None, outputPrice = None, totalPrice = None\<rparr>],
    tiers_of_model = (\<lambda>_. [])\<rparr>"

definition sample_decimals :: "string decimal_ops" where
  "sample_decimals = \<lparr>dec_text = id, new_Decimal = id\<rparr>"

definition sample_config :: match_config where
  "sample_config = \<lparr>cache_enabled = True, redis_cluster = False, redis_available = True\<rparr>"

theorem model_cache_transparent_witness:
  "map_option model_id (fst (fst (findModel sample_config sample_decimals (\<lambda>a b. a = b) sample_tables list_redis (''a'', ''gpt'') []))) = Some ''p'' \<and>
   map_option model_id (fst (fst (findModel sample_config sample_decimals (\<lambda>a b. a = b) sample_tables list_redis (''b'', ''gpt'') []))) = Some ''g''"
proof -
  have laws: "table_laws sample_decimals sample_tables" by (simp add: table_laws_def sample_decimals_def sample_tables_def)
  have empty: "cache_true sample_config sample_decimals (\<lambda>a b. a = b) sample_tables (map_of [])" by (simp add: cache_true_def)
  have "map_option model_id (fst (table_answer (\<lambda>a b. a = b) sample_tables (''a'', ''gpt''))) = Some ''p''"
    "map_option model_id (fst (table_answer (\<lambda>a b. a = b) sample_tables (''b'', ''gpt''))) = Some ''g''"
    by (simp_all add: table_answer_def findModelInPostgres_def order_rows_def sample_tables_def)
  with model_cache_transparent [OF list_redis_laws laws empty] show ?thesis by simp
qed

text \<open>Taking the first of stably sorted rows.\<close>

lemma sort_key_head:
  fixes f :: "'a \<Rightarrow> 'k :: linorder"
  assumes "sort_key f xs = m # r"
  shows "m \<in> set xs" "\<forall>y \<in> set xs. f m \<le> f y" "\<exists>r'. filter (\<lambda>y. f y = f m) xs = m # r'"
proof -
  have s: "set (sort_key f xs) = set xs" by simp
  have "m \<in> set (sort_key f xs)" unfolding assms by simp
  with s show "m \<in> set xs" by simp
  have "sorted (map f (m # r))" unfolding assms [symmetric] by simp
  then have "\<forall>y \<in> set (sort_key f xs). f m \<le> f y" unfolding assms by simp
  with s show "\<forall>y \<in> set xs. f m \<le> f y" by simp
  have "filter (\<lambda>y. f y = f m) (sort_key f xs) = filter (\<lambda>y. f y = f m) xs" by (rule sort_key_stable)
  then have "filter (\<lambda>y. f y = f m) xs = m # filter (\<lambda>y. f y = f m) r" unfolding assms by simp
  then show "\<exists>r'. filter (\<lambda>y. f y = f m) xs = m # r'" by blast
qed

text \<open>
  C37: the model found is one of the rows that match; a definition of the project wins over one for
  all projects, then a dated one over an undated one, then the latest one.
\<close>

theorem model_precedence:
  assumes "findModelInPostgres pg_match D (projectId, model) = Some m"
  shows "m \<in> set (models D) \<and> pg_match model (match_pattern m) \<and> model_project m \<in> {Some projectId, None} \<and>
    (\<forall>y \<in> set (models D). pg_match model (match_pattern y) \<and> model_project y \<in> {Some projectId, None} \<longrightarrow>
       (model_project m = None \<longrightarrow> model_project y = None) \<and>
       (model_project y = model_project m \<longrightarrow>
          (start_date m = None \<longrightarrow> start_date y = None) \<and>
          (\<forall>d. start_date y = Some d \<longrightarrow> (\<exists>e. start_date m = Some e \<and> d \<le> e))))"
proof -
  define rows where "rows = filter (\<lambda>m. (model_project m = Some projectId \<or> model_project m = None) \<and>
    pg_match model (match_pattern m)) (models D)"
  define f where "f = (\<lambda>m :: 'a model_row. if model_project m = None then 1 else (0 :: nat))"
  define g where "g = (\<lambda>m :: 'a model_row. if start_date m = None then 1 else (0 :: nat))"
  define h where "h = (\<lambda>m :: 'a model_row. case start_date m of None \<Rightarrow> 0 | Some d \<Rightarrow> - d)"
  obtain r where "order_rows rows = m # r"
    using assms by (auto simp: findModelInPostgres_def rows_def split: if_splits list.splits)
  then have sf: "sort_key f (sort_key g (sort_key h rows)) = m # r" by (simp add: order_rows_def f_def g_def h_def)
  obtain r1 where "filter (\<lambda>y. f y = f m) (sort_key g (sort_key h rows)) = m # r1" using sort_key_head(3) [OF sf] by blast
  then have sg: "sort_key g (sort_key h (filter (\<lambda>y. f y = f m) rows)) = m # r1" by (simp add: filter_sort)
  obtain r2 where "filter (\<lambda>y. g y = g m) (sort_key h (filter (\<lambda>y. f y = f m) rows)) = m # r2" using sort_key_head(3) [OF sg] by blast
  then have sh: "sort_key h (filter (\<lambda>y. g y = g m) (filter (\<lambda>y. f y = f m) rows)) = m # r2" by (simp add: filter_sort)
  have m: "m \<in> set rows" using sort_key_head(1) [OF sf] by simp
  have ge: "f m \<le> f y" "f y = f m \<Longrightarrow> g m \<le> g y" "f y = f m \<Longrightarrow> g y = g m \<Longrightarrow> h m \<le> h y" if "y \<in> set rows" for y
    using sort_key_head(2) [OF sf] sort_key_head(2) [OF sg] sort_key_head(2) [OF sh] that by simp_all
  have prec: "(model_project m = None \<longrightarrow> model_project y = None) \<and>
       (model_project y = model_project m \<longrightarrow>
          (start_date m = None \<longrightarrow> start_date y = None) \<and>
          (\<forall>d. start_date y = Some d \<longrightarrow> (\<exists>e. start_date m = Some e \<and> d \<le> e)))" if y: "y \<in> set rows" for y
  proof (intro conjI impI allI)
    assume "model_project m = None"
    with ge(1) [OF y] show "model_project y = None" by (simp add: f_def split: if_splits)
  next
    assume p: "model_project y = model_project m" "start_date m = None"
    then have "f y = f m" by (simp add: f_def)
    from ge(2) [OF y this] p(2) show "start_date y = None" by (simp add: g_def split: if_splits)
  next
    fix d assume p: "model_project y = model_project m" and d: "start_date y = Some d"
    then have fy: "f y = f m" by (simp add: f_def)
    from ge(2) [OF y fy] d obtain e where e: "start_date m = Some e" by (cases "start_date m") (auto simp: g_def)
    with d have "g y = g m" by (simp add: g_def)
    from ge(3) [OF y fy this] d e show "\<exists>e. start_date m = Some e \<and> d \<le> e" by (simp add: h_def)
  qed
  have "m \<in> set (models D) \<and> pg_match model (match_pattern m) \<and> model_project m \<in> {Some projectId, None}"
    using m by (simp add: rows_def)
  moreover have "y \<in> set rows"
    if "y \<in> set (models D)" "pg_match model (match_pattern y) \<and> model_project y \<in> {Some projectId, None}" for y
    using that by (simp add: rows_def)
  ultimately show ?thesis using prec by blast
qed

theorem model_precedence_witness:
  "\<exists>m. findModelInPostgres (\<lambda>a b. a = b) sample_tables (''a'', ''gpt'') = Some m \<and> model_project m \<noteq> None"
proof -
  obtain m where m: "findModelInPostgres (\<lambda>a b. a = b) sample_tables (''a'', ''gpt'') = Some m"
    by (simp add: findModelInPostgres_def order_rows_def sample_tables_def)
  have "\<exists>y \<in> set (models sample_tables). ''gpt'' = match_pattern y \<and> model_project y = Some ''a''" by (simp add: sample_tables_def)
  with model_precedence [OF m] m show ?thesis by (metis insertI1 option.distinct(1))
qed

text \<open>
  clearing the full cache while another worker is doing so deletes that worker's lock: the call
  returns early inside \<open>try\<close>, but the \<open>finally\<close> block deletes the lock it never took. The entries
  stay, and readers use them again while the other worker still clears.
\<close>

theorem clear_deletes_foreign_lock:
  "clearFullModelCache sample_config list_redis
     [(MODEL_MATCH_CACHE_LOCKED_KEY, Locked_Token), (getRedisModelKey sample_config (''a'', ''gpt''), Not_Found_Token)] =
   (True, [(getRedisModelKey sample_config (''a'', ''gpt''), Not_Found_Token)])"
proof -
  have k: "getRedisModelKey sample_config (''a'', ''gpt'') \<noteq> MODEL_MATCH_CACHE_LOCKED_KEY"
    by (simp add: getRedisModelKey_def getModelMatchKeyPrefix_def sample_config_def MODEL_MATCH_CACHE_LOCKED_KEY_def)
  have "clearFullModelCache sample_config list_redis [(MODEL_MATCH_CACHE_LOCKED_KEY, Locked_Token), (key, v)] = (True, [(key, v)])"
    if "key \<noteq> MODEL_MATCH_CACHE_LOCKED_KEY" for key v
    using that by (simp add: clearFullModelCache_def isModelMatchCacheLocked_def list_redis_def sample_config_def)
  from this [OF k] show ?thesis .
qed

end
