(* ===== verification/Json_Text.thy ===== *)
theory Json_Text imports Json_Value begin

text \<open>
  The parts of the JavaScript library the prompt service builds on: \<open>JSON.stringify\<close> and
  \<open>JSON.parse\<close> on the values of \<^verbatim>\<open>Json_Value\<close>, and \<open>replace\<close> with a global regular
  expression that is an alternative of literal texts. \<open>JSON.parse\<close> is written for texts without
  white space between tokens, which is what \<open>JSON.stringify\<close> produces; a number is its text.
\<close>

section \<open>Writing\<close>

abbreviation quote_char :: char where "quote_char \<equiv> CHR 0x22"
abbreviation backslash :: char where "backslash \<equiv> CHR 0x5C"

definition hex_lower :: "nat \<Rightarrow> char" where
  "hex_lower d = (if d < 10 then char_of (48 + d) else char_of (87 + d))"

definition escape_char :: "char \<Rightarrow> string" where
  "escape_char c = (let n = (of_char c :: nat) in
     if c = quote_char \<or> c = backslash then [backslash, c]
     else if n = 8 then [backslash, CHR ''b'']
     else if n = 9 then [backslash, CHR ''t'']
     else if n = 10 then [backslash, CHR ''n'']
     else if n = 12 then [backslash, CHR ''f'']
     else if n = 13 then [backslash, CHR ''r'']
     else if n < 32 then backslash # ''u00'' @ [hex_lower (n div 16), hex_lower (n mod 16)]
     else [c])"

definition json_escape :: "string \<Rightarrow> string" where
  "json_escape s = concat (map escape_char s)"

definition json_quote :: "string \<Rightarrow> string" where
  "json_quote s = quote_char # json_escape s @ [quote_char]"

fun stringify :: "json \<Rightarrow> string" where
  "stringify JNull = ''null''"
| "stringify JUndefined = []"
| "stringify (JBool b) = (if b then ''true'' else ''false'')"
| "stringify (JNumber t) = t"
| "stringify (JString s) = json_quote s"
| "stringify (JArray xs) = ''['' @ js_join '','' (map stringify xs) @ '']''"
| "stringify (JObject kvs) = ''{'' @ js_join '','' (map (\<lambda>(k, v). json_quote k @ '':'' @ stringify v) kvs) @ ''}''"

section \<open>Reading\<close>

text \<open>A code unit above 255 has no \<open>char\<close>; such texts are outside the model.\<close>

definition hex_code :: "char \<Rightarrow> char \<Rightarrow> char \<Rightarrow> char \<Rightarrow> char option" where
  "hex_code a b c d = (case (hex_digit_value a, hex_digit_value b, hex_digit_value c, hex_digit_value d) of
     (Some w, Some x, Some y, Some z) \<Rightarrow>
       (let n = ((w * 16 + x) * 16 + y) * 16 + z in if n < 256 then Some (char_of n) else None)
   | _ \<Rightarrow> None)"

definition simple_escape :: "char \<Rightarrow> char option" where
  "simple_escape c =
     (if c = quote_char \<or> c = backslash \<or> c = CHR ''/'' then Some c
      else if c = CHR ''b'' then Some (char_of (8 :: nat))
      else if c = CHR ''t'' then Some (char_of (9 :: nat))
      else if c = CHR ''n'' then Some (char_of (10 :: nat))
      else if c = CHR ''f'' then Some (char_of (12 :: nat))
      else if c = CHR ''r'' then Some (char_of (13 :: nat))
      else None)"

definition cons_char :: "char \<Rightarrow> (string \<times> string) option \<Rightarrow> (string \<times> string) option" where
  "cons_char c r = map_option (\<lambda>(s, t). (c # s, t)) r"

text \<open>What is after the opening quote of a string.\<close>

fun parse_chars :: "string \<Rightarrow> (string \<times> string) option" where
  "parse_chars [] = None"
| "parse_chars (c # r) =
     (if c = quote_char then Some ([], r)
      else if c = backslash then
        (case r of [] \<Rightarrow> None
         | e # r1 \<Rightarrow>
             if e = CHR ''u'' then
               (case r1 of h1 # h2 # h3 # h4 # r2 \<Rightarrow>
                  (case hex_code h1 h2 h3 h4 of None \<Rightarrow> None | Some d \<Rightarrow> cons_char d (parse_chars r2))
                | _ \<Rightarrow> None)
             else (case simple_escape e of None \<Rightarrow> None | Some d \<Rightarrow> cons_char d (parse_chars r1)))
      else if (of_char c :: nat) < 32 then None
      else cons_char c (parse_chars r))"

definition num_char :: "char \<Rightarrow> bool" where
  "num_char c \<longleftrightarrow> c \<in> set ''0123456789+-.eE''"

text \<open>The first argument bounds the nesting and the number of elements; the length of the text is enough.\<close>

fun parse_value :: "nat \<Rightarrow> string \<Rightarrow> (json \<times> string) option"
  and parse_elems :: "nat \<Rightarrow> string \<Rightarrow> (json list \<times> string) option"
  and parse_members :: "nat \<Rightarrow> string \<Rightarrow> ((string \<times> json) list \<times> string) option" where
  "parse_value 0 s = None"
| "parse_value (Suc n) s = (case s of [] \<Rightarrow> None | c # r \<Rightarrow>
     if c = quote_char then map_option (\<lambda>(x, t). (JString x, t)) (parse_chars r)
     else if c = CHR ''['' then
       (if r \<noteq> [] \<and> hd r = CHR '']'' then Some (JArray [], tl r)
        else map_option (\<lambda>(xs, t). (JArray xs, t)) (parse_elems n r))
     else if c = CHR ''{'' then
       (if r \<noteq> [] \<and> hd r = CHR ''}'' then Some (JObject [], tl r)
        else map_option (\<lambda>(kvs, t). (JObject (fold (\<lambda>(k, v) o1. rec_set k v o1) kvs []), t)) (parse_members n r))
     else if js_starts_with s ''null'' then Some (JNull, drop 4 s)
     else if js_starts_with s ''true'' then Some (JBool True, drop 4 s)
     else if js_starts_with s ''false'' then Some (JBool False, drop 5 s)
     else if num_char c then Some (JNumber (takeWhile num_char s), dropWhile num_char s)
     else None)"
| "parse_elems 0 s = None"
| "parse_elems (Suc n) s = (case parse_value n s of None \<Rightarrow> None
     | Some (v, t) \<Rightarrow> (case t of [] \<Rightarrow> None | c # t' \<Rightarrow>
         if c = CHR '','' then map_option (\<lambda>(xs, u). (v # xs, u)) (parse_elems n t')
         else if c = CHR '']'' then Some ([v], t') else None))"
| "parse_members 0 s = None"
| "parse_members (Suc n) s = (case s of [] \<Rightarrow> None | c # r \<Rightarrow>
     if c \<noteq> quote_char then None
     else (case parse_chars r of None \<Rightarrow> None
       | Some (k, t) \<Rightarrow> (case t of [] \<Rightarrow> None | d # t1 \<Rightarrow>
           if d \<noteq> CHR '':'' then None
           else (case parse_value n t1 of None \<Rightarrow> None
             | Some (v, t2) \<Rightarrow> (case t2 of [] \<Rightarrow> None | e # t3 \<Rightarrow>
                 if e = CHR '','' then map_option (\<lambda>(kvs, u). ((k, v) # kvs, u)) (parse_members n t3)
                 else if e = CHR ''}'' then Some ([(k, v)], t3) else None)))))"

definition json_parse :: "string \<Rightarrow> json option" where
  "json_parse s = (case parse_value (length s) s of Some (v, []) \<Rightarrow> Some v | _ \<Rightarrow> None)"

section \<open>Replacing\<close>

text \<open>The first alternative, in their order, that the text starts with.\<close>

definition match_here :: "string list \<Rightarrow> string \<Rightarrow> string option" where
  "match_here pats s = find (js_starts_with s) pats"

function replace_all :: "string list \<Rightarrow> string \<Rightarrow> string \<Rightarrow> string" where
  "replace_all pats r [] = []"
| "replace_all pats r (c # s) = (case match_here pats (c # s) of
     None \<Rightarrow> c # replace_all pats r s
   | Some p \<Rightarrow> if p = [] then c # replace_all pats r s else r @ replace_all pats r (drop (length p) (c # s)))"
  by pat_completeness auto
termination
  by (relation "measure (\<lambda>(pats, r, s). length s)") auto

declare replace_all.simps [simp del]

section \<open>Reading what was written\<close>

fun wf_json :: "json \<Rightarrow> bool" where
  "wf_json JNull = True"
| "wf_json JUndefined = False"
| "wf_json (JBool b) = True"
| "wf_json (JNumber t) \<longleftrightarrow> t \<noteq> [] \<and> list_all num_char t"
| "wf_json (JString s) = True"
| "wf_json (JArray xs) = list_all wf_json xs"
| "wf_json (JObject kvs) \<longleftrightarrow> distinct (map fst kvs) \<and> list_all (\<lambda>(k, v). wf_json v) kvs"

lemma json_quote_append: "json_quote s @ t = quote_char # json_escape s @ quote_char # t"
  by (simp add: json_quote_def)

lemma json_escape_simps [simp]:
  "json_escape [] = []"
  "json_escape (c # s) = escape_char c @ json_escape s"
  by (simp_all add: json_escape_def)

lemma hex_digit_lower: "d < 16 \<Longrightarrow> hex_digit_value (hex_lower d) = Some d"
  by (auto simp: hex_digit_value_def hex_lower_def)

lemma parse_escaped_char: "parse_chars (escape_char c @ t) = cons_char c (parse_chars t)"
proof -
  have c: "char_of (of_char c :: nat) = c" by simp
  have small: "parse_chars (escape_char c @ t) = cons_char c (parse_chars t)" if "(of_char c :: nat) < 32"
  proof -
    define n where "n = (of_char c :: nat)"
    have n: "c = char_of n" and lt: "n < 32" using c that by (simp_all add: n_def)
    have h: "hex_code (CHR ''0'') (CHR ''0'') (hex_lower (n div 16)) (hex_lower (n mod 16)) = Some c"
      using lt by (simp add: hex_code_def hex_digit_lower n hex_digit_value_def [of "CHR ''0''"])
    have q: "c \<noteq> quote_char" "c \<noteq> backslash" using that by auto
    show ?thesis
      using q lt h
      by (auto simp: escape_char_def Let_def n_def [symmetric] simple_escape_def)
         (simp_all add: n)
  qed
  show ?thesis
    using small by (cases "(of_char c :: nat) < 32") (auto simp: escape_char_def Let_def simple_escape_def)
qed

lemma parse_escaped: "parse_chars (json_escape s @ quote_char # t) = Some (s, t)"
  by (induction s) (simp_all add: parse_escaped_char cons_char_def)

abbreviation number_ends :: "string \<Rightarrow> bool" where
  "number_ends t \<equiv> t = [] \<or> \<not> num_char (hd t)"

lemma num_char_separators [simp]:
  "\<not> num_char (CHR '','')" "\<not> num_char (CHR '']'')" "\<not> num_char (CHR ''}'')"
  "\<not> num_char (CHR ''['')" "\<not> num_char (CHR ''{'')" "\<not> num_char quote_char"
  "\<not> num_char (CHR ''n'')" "\<not> num_char (CHR ''t'')" "\<not> num_char (CHR ''f'')"
  by (simp_all add: num_char_def)

lemma stringify_starts:
  "wf_json v \<Longrightarrow> \<exists>c t. stringify v = c # t \<and> c \<noteq> CHR '']'' \<and> c \<noteq> CHR ''}''"
proof (cases v)
  case (JNumber t)
  assume "wf_json v"
  with JNumber obtain c r where "t = c # r" "num_char c" by (cases t) auto
  with JNumber show ?thesis by (auto simp: num_char_def)
qed (auto simp: json_quote_def)

lemma js_join_Cons: "js_join s (x # xs) = x @ (if xs = [] then [] else s @ js_join s xs)"
  by (cases xs) auto

definition reads_back :: "json \<Rightarrow> bool" where
  "reads_back v \<longleftrightarrow> (\<forall>n t. length (stringify v) \<le> n \<longrightarrow> number_ends t \<longrightarrow>
     parse_value n (stringify v @ t) = Some (v, t))"

lemma reads_backD:
  "reads_back v \<Longrightarrow> length (stringify v) \<le> n \<Longrightarrow> number_ends t \<Longrightarrow> parse_value n (stringify v @ t) = Some (v, t)"
  unfolding reads_back_def by blast

lemma number_reads_back:
  assumes "x \<noteq> []" "list_all num_char x" "length x \<le> n" "number_ends t"
  shows "parse_value n (x @ t) = Some (JNumber x, t)"
proof -
  obtain c r where x: "x = c # r" using assms by (cases x) auto
  obtain m where n: "n = Suc m" using assms by (cases n) auto
  have c: "num_char c" using assms x by simp
  then have "c \<noteq> quote_char" "c \<noteq> CHR ''[''" "c \<noteq> CHR ''{''" "c \<noteq> CHR ''n''" "c \<noteq> CHR ''t''" "c \<noteq> CHR ''f''"
    by (auto simp: num_char_def)
  moreover have "takeWhile num_char (x @ t) = x" "dropWhile num_char (x @ t) = t"
    using assms by (cases t; simp add: list_all_iff)+
  ultimately show ?thesis
    using c by (simp add: n x js_starts_with_def)
qed

lemma elems_read_back:
  assumes "\<And>v. v \<in> set vs \<Longrightarrow> reads_back v" "vs \<noteq> []"
    and "length (js_join '','' (map stringify vs)) < n"
  shows "parse_elems n (js_join '','' (map stringify vs) @ CHR '']'' # t) = Some (vs, t)"
  using assms
proof (induction vs arbitrary: n)
  case Nil
  then show ?case by simp
next
  case (Cons v vs)
  obtain m where n: "n = Suc m" using Cons.prems by (cases n) auto
  have v: "parse_value m (stringify v @ u) = Some (v, u)" if "number_ends u" for u
    using Cons.prems that n by (intro reads_backD) (auto simp: js_join_Cons)
  show ?case
  proof (cases "vs = []")
    case True
    then show ?thesis using v by (simp add: n)
  next
    case False
    with Cons n have "parse_elems m (js_join '','' (map stringify vs) @ CHR '']'' # t) = Some (vs, t)"
      by (intro Cons.IH) (auto simp: js_join_Cons)
    with False show ?thesis using v by (simp add: n js_join_Cons)
  qed
qed

lemma members_read_back:
  assumes "\<And>k v. (k, v) \<in> set kvs \<Longrightarrow> reads_back v" "kvs \<noteq> []"
    and "length (js_join '','' (map (\<lambda>(k, v). json_quote k @ '':'' @ stringify v) kvs)) < n"
  shows "parse_members n (js_join '','' (map (\<lambda>(k, v). json_quote k @ '':'' @ stringify v) kvs) @ CHR ''}'' # t) =
     Some (kvs, t)"
  using assms
proof (induction kvs arbitrary: n)
  case Nil
  then show ?case by simp
next
  case (Cons e kvs)
  obtain k v where e: "e = (k, v)" by (cases e)
  obtain m where n: "n = Suc m" using Cons.prems by (cases n) auto
  have v: "parse_value m (stringify v @ u) = Some (v, u)" if "number_ends u" for u
    using Cons.prems that n e by (intro reads_backD) (auto simp: js_join_Cons)
  have k: "parse_chars (json_escape k @ quote_char # u) = Some (k, u)" for u by (rule parse_escaped)
  show ?case
  proof (cases "kvs = []")
    case True
    then show ?thesis using v k by (simp add: n e json_quote_def)
  next
    case False
    with Cons.prems n have "parse_members m (js_join '','' (map (\<lambda>(k, v). json_quote k @ '':'' @ stringify v) kvs) @ CHR ''}'' # t) =
       Some (kvs, t)"
      by (intro Cons.IH) (auto simp: js_join_Cons)
    with False show ?thesis using v k by (simp add: n e js_join_Cons json_quote_def)
  qed
qed

lemma no_separator_first:
  assumes "\<And>v. v \<in> set vs \<Longrightarrow> \<exists>c t. f v = c # t \<and> c \<noteq> d" "vs \<noteq> []"
  shows "\<exists>c t. js_join '','' (map f vs) = c # t \<and> c \<noteq> d"
  using assms by (cases vs) (fastforce simp: js_join_Cons)+

lemma wf_reads_back: "wf_json v \<Longrightarrow> reads_back v"
proof (induction v rule: wf_json.induct)
  case (4 t)
  then show ?case by (auto simp: reads_back_def number_reads_back)
next
  case (5 s)
  have "parse_value n (json_quote s @ t) = Some (JString s, t)" if "0 < n" for n t
    using that by (cases n) (simp_all add: json_quote_def parse_escaped)
  then show ?case by (auto simp: reads_back_def json_quote_def)
next
  case (6 xs)
  have "parse_value n (stringify (JArray xs) @ t) = Some (JArray xs, t)"
    if le: "length (stringify (JArray xs)) \<le> n" for n t
  proof (cases "xs = []")
    case True
    with le show ?thesis by (cases n) auto
  next
    case False
    obtain m where n: "n = Suc m" using le by (cases n) auto
    have "parse_elems m (js_join '','' (map stringify xs) @ CHR '']'' # t) = Some (xs, t)"
      using 6 False le n by (intro elems_read_back) (auto simp: list_all_iff)
    moreover have "\<exists>c t. stringify v = c # t \<and> c \<noteq> CHR '']''" if "v \<in> set xs" for v
      using stringify_starts [of v] "6.prems" that by (auto simp: list_all_iff)
    with False obtain c u where "js_join '','' (map stringify xs) = c # u" "c \<noteq> CHR '']''"
      using no_separator_first [of xs stringify "CHR '']''"] by blast
    ultimately show ?thesis by (simp add: n)
  qed
  then show ?case by (auto simp: reads_back_def)
next
  case (7 kvs)
  let ?f = "\<lambda>(k, v). json_quote k @ '':'' @ stringify v"
  have "parse_value n (stringify (JObject kvs) @ t) = Some (JObject kvs, t)"
    if le: "length (stringify (JObject kvs)) \<le> n" for n t
  proof (cases "kvs = []")
    case True
    with le show ?thesis by (cases n) auto
  next
    case False
    obtain m where n: "n = Suc m" using le by (cases n) auto
    have "parse_members m (js_join '','' (map ?f kvs) @ CHR ''}'' # t) = Some (kvs, t)"
      using 7 False le n by (intro members_read_back) (auto simp: list_all_iff)
    moreover obtain c u where "js_join '','' (map ?f kvs) = c # u" "c \<noteq> CHR ''}''"
      using no_separator_first [of kvs ?f "CHR ''}''"] False by (auto simp: json_quote_def)
    moreover have "fold (\<lambda>(k, v) o1. rec_set k v o1) kvs [] = kvs"
      using fold_rec_set_fresh [of "[]" kvs] 7 by simp
    ultimately show ?thesis by (simp add: n)
  qed
  then show ?case by (auto simp: reads_back_def)
next
  case 1
  show ?case unfolding reads_back_def
    by (intro allI impI, case_tac n) (simp_all add: js_starts_with_def)
next
  case (3 b)
  show ?case unfolding reads_back_def
    by (cases b; intro allI impI, case_tac n) (simp_all add: js_starts_with_def)
qed simp_all

lemma parse_stringify: "wf_json v \<Longrightarrow> json_parse (stringify v) = Some v"
  using reads_backD [OF wf_reads_back, of v "length (stringify v)" "[]"] by (simp add: json_parse_def)

section \<open>Replacing inside the written text\<close>

definition plain_char :: "char \<Rightarrow> bool" where
  "plain_char c \<longleftrightarrow> c \<noteq> quote_char \<and> c \<noteq> backslash \<and> 32 \<le> (of_char c :: nat)"

definition plain_pattern :: "string \<Rightarrow> bool" where
  "plain_pattern p \<longleftrightarrow> p \<noteq> [] \<and> hd p = CHR ''@'' \<and> list_all plain_char p"

lemma escape_plain: "plain_char c \<Longrightarrow> escape_char c = [c]"
  unfolding plain_char_def escape_char_def Let_def by auto

lemma hex_lower_not_at: "d < 16 \<Longrightarrow> hex_lower d \<noteq> CHR ''@''"
  using hex_digit_lower [of d] by (auto simp: hex_digit_value_def)

lemma escape_not_plain:
  "\<not> plain_char c \<Longrightarrow> hd (escape_char c) = backslash \<and> CHR ''@'' \<notin> set (escape_char c) \<and> escape_char c \<noteq> []"
proof -
  have "(of_char c :: nat) < 32 \<Longrightarrow> (of_char c :: nat) div 16 < 16" by auto
  moreover assume "\<not> plain_char c"
  ultimately show ?thesis
    unfolding plain_char_def escape_char_def Let_def
    using hex_lower_not_at [of "(of_char c :: nat) div 16"] hex_lower_not_at [of "(of_char c :: nat) mod 16"]
    by auto
qed

fun map_texts :: "(string \<Rightarrow> string) \<Rightarrow> json \<Rightarrow> json" where
  "map_texts f (JString s) = JString (f s)"
| "map_texts f (JArray xs) = JArray (map (map_texts f) xs)"
| "map_texts f (JObject kvs) = JObject (map (\<lambda>(k, v). (f k, map_texts f v)) kvs)"
| "map_texts f v = v"

lemma js_starts_with_simps [simp]:
  "js_starts_with s []"
  "\<not> js_starts_with [] (c # p)"
  "js_starts_with (d # s) (c # p) \<longleftrightarrow> d = c \<and> js_starts_with s p"
  by (auto simp: js_starts_with_def)

lemma match_here_other:
  assumes "\<forall>p \<in> set pats. plain_pattern p" "c \<noteq> CHR ''@''"
  shows "match_here pats (c # s) = None"
proof -
  have "\<not> js_starts_with (c # s) p" if "p \<in> set pats" for p
    using assms that by (cases p) (auto simp: plain_pattern_def)
  then show ?thesis by (auto simp: match_here_def find_None_iff)
qed

lemma replace_others:
  assumes "\<forall>p \<in> set pats. plain_pattern p"
  shows "CHR ''@'' \<notin> set x \<Longrightarrow> replace_all pats r (x @ s) = x @ replace_all pats r s"
proof (induction x)
  case (Cons c x)
  then show ?case
    using match_here_other [OF assms, of c] by (auto simp: replace_all.simps)
qed simp

lemma replace_nil [simp]: "replace_all pats r [] = []"
  by (simp add: replace_all.simps)

lemma starts_with_escaped:
  "list_all plain_char p \<Longrightarrow> js_starts_with (json_escape s @ quote_char # t) p = js_starts_with s p"
proof (induction p arbitrary: s)
  case (Cons c p)
  then have c: "c \<noteq> quote_char" "c \<noteq> backslash" by (simp_all add: plain_char_def)
  show ?case
  proof (cases s)
    case Nil
    with c show ?thesis by auto
  next
    case (Cons d s')
    show ?thesis
    proof (cases "plain_char d")
      case True
      with Cons Cons.IH Cons.prems show ?thesis by (simp add: escape_plain)
    next
      case False
      obtain e where "escape_char d = backslash # e"
        using escape_not_plain [OF False] by (cases "escape_char d") auto
      moreover have "d \<noteq> c" using False Cons.prems by auto
      ultimately show ?thesis using Cons c by simp
    qed
  qed
qed simp

lemma escape_dropped:
  "list_all plain_char p \<Longrightarrow> js_starts_with s p \<Longrightarrow> json_escape s = p @ json_escape (drop (length p) s)"
proof (induction p arbitrary: s)
  case (Cons c p)
  then show ?case by (cases s) (auto simp: escape_plain)
qed simp

lemma replace_escaped:
  assumes "\<forall>p \<in> set pats. plain_pattern p"
  shows "replace_all pats (json_escape r) (json_escape s @ quote_char # t) =
    json_escape (replace_all pats r s) @ quote_char # replace_all pats (json_escape r) t"
  using assms
proof (induction pats r s rule: replace_all.induct)
  case (1 pats r)
  then show ?case using replace_others [of pats "[quote_char]"] by simp
next
  case (2 pats r c s)
  have same: "match_here pats (json_escape (c # s) @ quote_char # t) = match_here pats (c # s)"
    unfolding match_here_def using "2.prems" starts_with_escaped [of _ "c # s" t]
    by (intro find_cong) (auto simp: plain_pattern_def simp del: json_escape_simps)
  show ?case
  proof (cases "match_here pats (c # s)")
    case None
    show ?thesis
    proof (cases "plain_char c")
      case True
      with None 2 same show ?thesis by (simp add: escape_plain replace_all.simps)
    next
      case False
      with escape_not_plain [OF this] None 2 show ?thesis
        by (simp add: replace_others replace_all.simps(2))
    qed
  next
    case (Some p)
    then have p: "p \<in> set pats" "js_starts_with (c # s) p"
      by (auto simp: match_here_def find_Some_iff)
    then have plain: "list_all plain_char p" "p \<noteq> []" using "2.prems" by (auto simp: plain_pattern_def)
    obtain d u where du: "json_escape (c # s) @ quote_char # t = d # u"
      by (cases "json_escape (c # s) @ quote_char # t") (simp_all del: json_escape_simps)
    have "drop (length p) (d # u) = json_escape (drop (length p) (c # s)) @ quote_char # t"
      unfolding du [symmetric] escape_dropped [OF plain(1) p(2)] by simp
    then have "replace_all pats (json_escape r) (d # u) =
        json_escape r @ replace_all pats (json_escape r) (json_escape (drop (length p) (c # s)) @ quote_char # t)"
      using same Some plain unfolding du by (simp add: replace_all.simps(2))
    then show ?thesis
      using "2.IH" Some plain "2.prems" du
      by (simp add: replace_all.simps(2) json_escape_def)
  qed
qed

lemma replace_quoted:
  assumes "\<forall>p \<in> set pats. plain_pattern p"
  shows "replace_all pats (json_escape r) (json_quote s @ t) =
    json_quote (replace_all pats r s) @ replace_all pats (json_escape r) t"
  using replace_others [OF assms, of "[quote_char]"] replace_escaped [OF assms]
  by (simp add: json_quote_def)

definition passes_through :: "string list \<Rightarrow> string \<Rightarrow> string \<Rightarrow> string \<Rightarrow> bool" where
  "passes_through pats r x y \<longleftrightarrow> (\<forall>t. replace_all pats r (x @ t) = y @ replace_all pats r t)"

lemma passes_append:
  "passes_through pats r x y \<Longrightarrow> passes_through pats r x' y' \<Longrightarrow> passes_through pats r (x @ x') (y @ y')"
  by (simp add: passes_through_def)

lemma passes_plain:
  "\<forall>p \<in> set pats. plain_pattern p \<Longrightarrow> CHR ''@'' \<notin> set x \<Longrightarrow> passes_through pats r x x"
  by (simp add: passes_through_def replace_others)

lemma passes_join:
  assumes "\<forall>p \<in> set pats. plain_pattern p" "\<And>v. v \<in> set vs \<Longrightarrow> passes_through pats r (f v) (g v)"
  shows "passes_through pats r (js_join '','' (map f vs)) (js_join '','' (map g vs))"
  using assms(2)
proof (induction vs)
  case (Cons v vs)
  show ?case
    using Cons passes_plain [OF assms(1), of "'',''" r]
    by (auto simp: js_join_Cons passes_through_def)
qed (simp add: passes_through_def)

lemma replace_stringify:
  assumes "\<forall>p \<in> set pats. plain_pattern p"
  shows "wf_json v \<Longrightarrow>
    passes_through pats (json_escape r) (stringify v) (stringify (map_texts (replace_all pats r) v))"
proof (induction v rule: wf_json.induct)
  case (4 x)
  moreover have "\<not> num_char (CHR ''@'')" by (simp add: num_char_def)
  ultimately have "CHR ''@'' \<notin> set x" by (auto simp: list_all_iff)
  then show ?case by (simp add: passes_plain [OF assms])
next
  case (5 s)
  show ?case by (simp add: passes_through_def replace_quoted [OF assms])
next
  case (6 xs)
  have "passes_through pats (json_escape r) (stringify v) (stringify (map_texts (replace_all pats r) v))"
    if e: "v \<in> set xs" for v
    using 6 e by (intro "6.IH") (auto simp: list_all_iff)
  then have "passes_through pats (json_escape r) (js_join '','' (map stringify xs))
      (js_join '','' (map (\<lambda>v. stringify (map_texts (replace_all pats r) v)) xs))"
    by (rule passes_join [OF assms])
  then show ?case
    using passes_plain [OF assms, of "''[''" "json_escape r"] passes_plain [OF assms, of "'']''" "json_escape r"]
    by (simp add: o_def passes_through_def)
next
  case (7 kvs)
  have "passes_through pats (json_escape r) (json_quote k @ '':'' @ stringify v)
      (json_quote (replace_all pats r k) @ '':'' @ stringify (map_texts (replace_all pats r) v))"
    if e: "(k, v) \<in> set kvs" for k v
  proof -
    have "wf_json v" using 7 e by (auto simp: list_all_iff)
    then have "passes_through pats (json_escape r) (stringify v) (stringify (map_texts (replace_all pats r) v))"
      by (rule "7.IH" [OF e refl])
    then show ?thesis
      using replace_quoted [OF assms] passes_plain [OF assms, of "'':''" "json_escape r"]
      unfolding passes_through_def by simp
  qed
  then have "passes_through pats (json_escape r)
     (js_join '','' (map (\<lambda>(k, v). json_quote k @ '':'' @ stringify v) kvs))
     (js_join '','' (map (\<lambda>(k, v). json_quote (replace_all pats r k) @ '':'' @
        stringify (map_texts (replace_all pats r) v)) kvs))"
    by (intro passes_join [OF assms]) (simp only: case_prod_beta prod.collapse)
  then show ?case
    using passes_plain [OF assms, of "''{''" "json_escape r"] passes_plain [OF assms, of "''}''" "json_escape r"]
    by (simp add: passes_through_def o_def case_prod_unfold)
qed (simp_all add: passes_plain [OF assms])

text \<open>Keys a tag cannot occur in: the keys of a chat message.\<close>

fun keys_without_at :: "json \<Rightarrow> bool" where
  "keys_without_at (JArray xs) = list_all keys_without_at xs"
| "keys_without_at (JObject kvs) \<longleftrightarrow> list_all (\<lambda>(k, v). CHR ''@'' \<notin> set k \<and> keys_without_at v) kvs"
| "keys_without_at v = True"

lemma replace_without_at:
  "\<forall>p \<in> set pats. plain_pattern p \<Longrightarrow> CHR ''@'' \<notin> set s \<Longrightarrow> replace_all pats r s = s"
  using replace_others [of pats s r "[]"] by simp

lemma wf_map_texts:
  assumes "\<And>k. CHR ''@'' \<notin> set k \<Longrightarrow> f k = k"
  shows "wf_json v \<Longrightarrow> keys_without_at v \<Longrightarrow> wf_json (map_texts f v) \<and> keys_without_at (map_texts f v)"
proof (induction v rule: wf_json.induct)
  case (7 kvs)
  then have "map fst (map (\<lambda>(k, v). (f k, map_texts f v)) kvs) = map fst kvs"
    using assms by (auto simp: list_all_iff)
  moreover have "f k = k \<and> CHR ''@'' \<notin> set k \<and> wf_json (map_texts f v) \<and> keys_without_at (map_texts f v)"
    if e: "(k, v) \<in> set kvs" for k v
  proof -
    have "wf_json v" "keys_without_at v" "CHR ''@'' \<notin> set k" using 7 e by (auto simp: list_all_iff)
    with "7.IH" [OF e refl] assms show ?thesis by simp
  qed
  ultimately show ?case using "7.prems" by (auto simp: list_all_iff simp del: map_map)
qed (auto simp: list_all_iff)

lemma parse_replaced:
  assumes "\<forall>p \<in> set pats. plain_pattern p" "wf_json v" "keys_without_at v"
  shows "json_parse (replace_all pats (json_escape r) (stringify v)) = Some (map_texts (replace_all pats r) v)"
proof -
  have "replace_all pats (json_escape r) (stringify v @ []) =
      stringify (map_texts (replace_all pats r) v) @ replace_all pats (json_escape r) []"
    using replace_stringify [OF assms(1,2)] unfolding passes_through_def by blast
  moreover have "wf_json (map_texts (replace_all pats r) v)"
    using wf_map_texts [OF _ assms(2,3)] replace_without_at [OF assms(1)] by blast
  ultimately show ?thesis by (simp add: parse_stringify)
qed

end
