(* ===== verification/Prompt_Graph.thy ===== *)
theory Prompt_Graph imports Json_Text begin

text \<open>
  The resolution of prompt dependencies,
  \<^verbatim>\<open>packages/shared/src/server/services/PromptService/index.ts\<close>
  (\<open>resolvePrompt\<close>, \<open>buildAndResolvePromptGraph\<close>) with \<^verbatim>\<open>utils.ts\<close> (\<open>escapeRegex\<close>).

  The two tables the service reads are lists of rows; \<open>findFirst\<close> takes the first row in the order
  of the list. The code substitutes in the text \<open>JSON.stringify\<close> gives and parses the result; the
  specification at the end of the theory substitutes in the strings of the JSON value itself.
\<close>

section \<open>The tables\<close>

record prompt_row =
  pr_id :: string
  pr_project :: string
  pr_name :: string
  pr_version :: nat
  pr_labels :: "string list"
  pr_tags :: "string list"
  pr_type :: string
  pr_prompt :: json

record dependency_row =
  dp_project :: string
  dp_parent :: string
  dp_childName :: string
  dp_childLabel :: "string option"
  dp_childVersion :: "nat option"

record prompt_db =
  prompt_rows :: "prompt_row list"
  dependency_rows :: "dependency_row list"

text \<open>The label of a row read from the table may be null, which no array of labels has.\<close>

datatype dep_tag = Dep_Version string nat | Dep_Label string "string option"

definition tag_of_row :: "dependency_row \<Rightarrow> dep_tag" where
  "tag_of_row r = (case dp_childVersion r of
     Some v \<Rightarrow> if v \<noteq> 0 then Dep_Version (dp_childName r) v else Dep_Label (dp_childName r) (dp_childLabel r)
   | None \<Rightarrow> Dep_Label (dp_childName r) (dp_childLabel r))"

definition stored_deps :: "prompt_db \<Rightarrow> string \<Rightarrow> string \<Rightarrow> dep_tag list" where
  "stored_deps db projectId i =
     map tag_of_row (filter (\<lambda>r. dp_project r = projectId \<and> dp_parent r = i) (dependency_rows db))"

definition tag_selects :: "dep_tag \<Rightarrow> prompt_row \<Rightarrow> bool" where
  "tag_selects t p = (case t of
     Dep_Version n v \<Rightarrow> pr_name p = n \<and> pr_version p = v
   | Dep_Label n l \<Rightarrow> pr_name p = n \<and> (case l of None \<Rightarrow> False | Some x \<Rightarrow> x \<in> set (pr_labels p)))"

definition find_dep :: "prompt_db \<Rightarrow> string \<Rightarrow> dep_tag \<Rightarrow> prompt_row option" where
  "find_dep db projectId t = find (\<lambda>p. pr_project p = projectId \<and> tag_selects t p) (prompt_rows db)"

section \<open>The substitution in the text\<close>

definition regex_syntax :: "char \<Rightarrow> bool" where
  "regex_syntax c \<longleftrightarrow> c \<in> set ''.*+?^${}()|[]'' \<or> c = backslash"

definition escapeRegex :: "string \<Rightarrow> string" where
  "escapeRegex s = concat (map (\<lambda>c. if regex_syntax c then [backslash, c] else [c]) s)"

text \<open>
  The patterns the service builds: alternatives of literal characters, a character of the syntax
  behind a backslash. Any other pattern has no value here.
\<close>

fun regex_literals :: "string \<Rightarrow> string list option" where
  "regex_literals [] = Some [[]]"
| "regex_literals (c # s) =
     (if c = CHR ''|'' then map_option ((#) []) (regex_literals s)
      else if c = backslash then
        (case s of [] \<Rightarrow> None | d # r \<Rightarrow>
           if regex_syntax d then map_option (\<lambda>ps. (d # hd ps) # tl ps) (regex_literals r) else None)
      else if regex_syntax c then None
      else map_option (\<lambda>ps. (c # hd ps) # tl ps) (regex_literals s))"

text \<open>A replacement text: \<open>$$\<close> stands for one dollar sign; the other uses of the sign have no value here.\<close>

abbreviation dollar :: char where "dollar \<equiv> CHR ''$''"

fun expand_template :: "string \<Rightarrow> string option" where
  "expand_template [] = Some []"
| "expand_template (c # s) =
     (if c = dollar then (case s of [] \<Rightarrow> None | d # r \<Rightarrow>
        if d = dollar then map_option ((#) dollar) (expand_template r) else None)
      else map_option ((#) c) (expand_template s))"

definition js_replace :: "string \<Rightarrow> string \<Rightarrow> string \<Rightarrow> string" where
  "js_replace pattern template s = (case (regex_literals pattern, expand_template template) of
     (Some pats, Some r) \<Rightarrow> replace_all pats r s | _ \<Rightarrow> s)"

definition double_dollars :: "string \<Rightarrow> string" where
  "double_dollars s = concat (map (\<lambda>c. if c = dollar then [dollar, dollar] else [c]) s)"

definition version_pattern :: "prompt_row \<Rightarrow> string" where
  "version_pattern p = ''@@@langfusePrompt:name='' @ escapeRegex (pr_name p) @ [backslash] @ ''|version='' @
     escapeRegex (nat_str (pr_version p)) @ ''@@@''"

definition label_pattern :: "prompt_row \<Rightarrow> string \<Rightarrow> string" where
  "label_pattern p l = ''@@@langfusePrompt:name='' @ escapeRegex (pr_name p) @ [backslash] @ ''|label='' @
     escapeRegex l @ ''@@@''"

definition combined_pattern :: "prompt_row \<Rightarrow> string" where
  "combined_pattern p = js_join ''|'' (version_pattern p # map (label_pattern p) (pr_labels p))"

definition replace_value :: "json \<Rightarrow> string" where
  "replace_value v = double_dollars (butlast (tl (stringify v)))"

section \<open>The walk\<close>

definition MAX_PROMPT_NESTING_DEPTH :: nat where
  "MAX_PROMPT_NESTING_DEPTH = 5"

datatype prompt_error =
    Max_Nesting
  | Circular string nat
  | Dep_Not_Found dep_tag
  | Dep_Not_Text dep_tag
  | Json_Syntax

record prompt_ref =
  ref_id :: string
  ref_name :: string
  ref_version :: nat

definition ref_of :: "prompt_row \<Rightarrow> prompt_ref" where
  "ref_of p = \<lparr>ref_id = pr_id p, ref_name = pr_name p, ref_version = pr_version p\<rparr>"

type_synonym adjacency = "(string \<times> prompt_ref list) list"

definition push_dep :: "string \<Rightarrow> prompt_ref \<Rightarrow> adjacency \<Rightarrow> adjacency" where
  "push_dep i r g = rec_set i ((case map_of g i of None \<Rightarrow> [] | Some rs \<Rightarrow> rs) @ [r]) g"

text \<open>A \<open>for\<close> loop whose body may throw.\<close>

fun for_each :: "('d \<Rightarrow> 's \<Rightarrow> 'e + 's) \<Rightarrow> 'd list \<Rightarrow> 's \<Rightarrow> 'e + 's" where
  "for_each f [] s = Inr s"
| "for_each f (d # ds) s = (case f d s of Inl e \<Rightarrow> Inl e | Inr s' \<Rightarrow> for_each f ds s')"

lemma for_each_cong [fundef_cong]:
  "ds = ds' \<Longrightarrow> s = s' \<Longrightarrow> (\<And>d s. d \<in> set ds' \<Longrightarrow> f d s = g d s) \<Longrightarrow> for_each f ds s = for_each g ds' s'"
proof (induction ds arbitrary: ds' s s')
  case (Cons d ds)
  have "for_each f ds t = for_each g ds t" for t
    using Cons.prems by (intro Cons.IH) auto
  then show ?case using Cons.prems by (auto split: sum.splits)
qed simp

function resolve :: "prompt_db \<Rightarrow> string \<Rightarrow> prompt_row \<Rightarrow> prompt_row \<Rightarrow> dep_tag list option \<Rightarrow> nat \<Rightarrow>
    string set \<times> adjacency \<Rightarrow> prompt_error + json \<times> string set \<times> adjacency" where
  "resolve db projectId parent cur deps level (seen, g) =
     (if MAX_PROMPT_NESTING_DEPTH \<le> level then Inl Max_Nesting
      else if pr_id cur \<in> seen \<or> (pr_name cur = pr_name parent \<and> pr_id cur \<noteq> pr_id parent)
      then Inl (Circular (pr_name cur) (pr_version cur))
      else
        (let seen1 = insert (pr_id cur) seen;
             promptDependencies = (case deps of None \<Rightarrow> stored_deps db projectId (pr_id cur) | Some ds \<Rightarrow> ds)
         in if promptDependencies \<noteq> [] then
              (case for_each (\<lambda>dep (seen, g, resolvedPrompt).
                  case find_dep db projectId dep of
                    None \<Rightarrow> Inl (Dep_Not_Found dep)
                  | Some depPrompt \<Rightarrow>
                      if pr_type depPrompt \<noteq> ''text'' then Inl (Dep_Not_Text dep)
                      else (case resolve db projectId parent depPrompt None (level + 1)
                                   (seen, push_dep (pr_id cur) (ref_of depPrompt) g) of
                          Inl e \<Rightarrow> Inl e
                        | Inr (v, seen', g') \<Rightarrow>
                            Inr (seen', g', js_replace (combined_pattern depPrompt) (replace_value v) resolvedPrompt)))
                promptDependencies (seen1, g, stringify (pr_prompt cur)) of
                Inl e \<Rightarrow> Inl e
              | Inr (seen2, g2, resolvedPrompt) \<Rightarrow>
                  (case json_parse resolvedPrompt of
                     None \<Rightarrow> Inl Json_Syntax
                   | Some v \<Rightarrow> Inr (v, seen2 - {pr_id cur}, g2)))
            else Inr (pr_prompt cur, seen1 - {pr_id cur}, g)))"
  by pat_completeness auto
termination
  by (relation "measure (\<lambda>(db, projectId, parent, cur, deps, level, s). MAX_PROMPT_NESTING_DEPTH - level)") auto

declare resolve.simps [simp del]

record prompt_graph =
  graph_root :: prompt_ref
  graph_deps :: adjacency

definition buildAndResolvePromptGraph :: "prompt_db \<Rightarrow> string \<Rightarrow> prompt_row \<Rightarrow> dep_tag list option \<Rightarrow>
    prompt_error + prompt_graph option \<times> json" where
  "buildAndResolvePromptGraph db projectId parentPrompt dependencies =
     (case resolve db projectId parentPrompt parentPrompt dependencies 0 ({}, []) of
        Inl e \<Rightarrow> Inl e
      | Inr (v, seen, g) \<Rightarrow>
          Inr (if 0 < length (map fst g) then Some \<lparr>graph_root = ref_of parentPrompt, graph_deps = g\<rparr> else None, v))"

section \<open>The substitution is literal\<close>

definition version_text :: "prompt_row \<Rightarrow> string" where
  "version_text p = ''@@@langfusePrompt:name='' @ pr_name p @ ''|version='' @ nat_str (pr_version p) @ ''@@@''"

definition label_text :: "prompt_row \<Rightarrow> string \<Rightarrow> string" where
  "label_text p l = ''@@@langfusePrompt:name='' @ pr_name p @ ''|label='' @ l @ ''@@@''"

definition tag_texts :: "prompt_row \<Rightarrow> string list" where
  "tag_texts p = version_text p # map (label_text p) (pr_labels p)"

definition in_front :: "string \<Rightarrow> string list \<Rightarrow> string list" where
  "in_front s ps = (s @ hd ps) # tl ps"

lemma in_front_simps [simp]:
  "in_front s (in_front t ps) = in_front (s @ t) ps"
  "hd (in_front s ps) = s @ hd ps" "tl (in_front s ps) = tl ps"
  by (simp_all add: in_front_def)

lemma regex_literals_char:
  "\<not> regex_syntax c \<Longrightarrow> regex_literals (c # s) = map_option (in_front [c]) (regex_literals s)"
  unfolding in_front_def by (auto simp: regex_syntax_def)

lemma regex_literals_escaped_char:
  "regex_syntax d \<Longrightarrow> regex_literals (backslash # d # s) = map_option (in_front [d]) (regex_literals s)"
  unfolding in_front_def by simp

lemma regex_literals_plain:
  "list_all (\<lambda>c. \<not> regex_syntax c) s \<Longrightarrow> regex_literals (s @ t) = map_option (in_front s) (regex_literals t)"
proof (induction s)
  case Nil
  have "regex_literals t = Some ps \<Longrightarrow> ps \<noteq> []" for ps
    by (cases t) (auto split: if_splits list.splits)
  then show ?case by (cases "regex_literals t") (auto simp: in_front_def)
next
  case (Cons c s)
  then show ?case by (simp add: regex_literals_char option.map_comp o_def del: regex_literals.simps)
qed

lemma regex_literals_escape:
  "regex_literals (escapeRegex s @ t) = map_option (in_front s) (regex_literals t)"
proof (induction s)
  case Nil
  then show ?case using regex_literals_plain [of "[]"] by (simp add: escapeRegex_def)
next
  case (Cons c s)
  have "escapeRegex (c # s) = (if regex_syntax c then [backslash, c] else [c]) @ escapeRegex s"
    by (simp add: escapeRegex_def)
  with Cons show ?case
    by (simp add: regex_literals_char regex_literals_escaped_char option.map_comp o_def del: regex_literals.simps)
qed

lemma plain_literal_parts:
  "list_all (\<lambda>c. \<not> regex_syntax c) ''@@@langfusePrompt:name=''"
  "list_all (\<lambda>c. \<not> regex_syntax c) ''version=''"
  "list_all (\<lambda>c. \<not> regex_syntax c) ''label=''"
  "list_all (\<lambda>c. \<not> regex_syntax c) ''@@@''"
  "regex_syntax (CHR ''|'')"
  by (simp_all add: regex_syntax_def)

lemma regex_literals_version:
  "regex_literals (version_pattern p @ t) = map_option (in_front (version_text p)) (regex_literals t)"
proof -
  have "version_pattern p @ t = ''@@@langfusePrompt:name='' @ escapeRegex (pr_name p) @ backslash # CHR ''|'' #
      ''version='' @ escapeRegex (nat_str (pr_version p)) @ ''@@@'' @ t"
    by (simp add: version_pattern_def)
  then show ?thesis
    by (simp only: regex_literals_plain [OF plain_literal_parts(1)] regex_literals_plain [OF plain_literal_parts(2)]
        regex_literals_plain [OF plain_literal_parts(4)] regex_literals_escape
        regex_literals_escaped_char [OF plain_literal_parts(5)] option.map_comp)
       (simp add: o_def version_text_def)
qed

lemma regex_literals_label:
  "regex_literals (label_pattern p l @ t) = map_option (in_front (label_text p l)) (regex_literals t)"
proof -
  have "label_pattern p l @ t = ''@@@langfusePrompt:name='' @ escapeRegex (pr_name p) @ backslash # CHR ''|'' #
      ''label='' @ escapeRegex l @ ''@@@'' @ t"
    by (simp add: label_pattern_def)
  then show ?thesis
    by (simp only: regex_literals_plain [OF plain_literal_parts(1)] regex_literals_plain [OF plain_literal_parts(3)]
        regex_literals_plain [OF plain_literal_parts(4)] regex_literals_escape
        regex_literals_escaped_char [OF plain_literal_parts(5)] option.map_comp)
       (simp add: o_def label_text_def)
qed

lemma regex_literals_labels:
  "regex_literals (js_join ''|'' (map (label_pattern p) ls)) = Some (if ls = [] then [[]] else map (label_text p) ls)"
proof (induction ls)
  case (Cons l ls)
  show ?case
    using Cons regex_literals_label [of p l "[]"] regex_literals_label [of p l "CHR ''|'' # js_join ''|'' (map (label_pattern p) ls)"]
    by (simp add: js_join_Cons in_front_def)
qed simp

lemma regex_literals_combined: "regex_literals (combined_pattern p) = Some (tag_texts p)"
  using regex_literals_version [of p "[]"]
    regex_literals_version [of p "CHR ''|'' # js_join ''|'' (map (label_pattern p) (pr_labels p))"]
    regex_literals_labels [of p "pr_labels p"]
  by (simp add: combined_pattern_def js_join_Cons in_front_def tag_texts_def)

lemma expand_doubled: "expand_template (double_dollars s) = Some s"
  by (induction s) (auto simp: double_dollars_def)

lemma js_replace_combined:
  "js_replace (combined_pattern p) (replace_value v) s = replace_all (tag_texts p) (butlast (tl (stringify v))) s"
  by (simp add: js_replace_def regex_literals_combined replace_value_def expand_doubled)

section \<open>The specification: substitution in the value\<close>

fun text_of :: "json \<Rightarrow> string" where
  "text_of (JString s) = s"
| "text_of v = []"

definition put_in :: "prompt_row \<Rightarrow> json \<Rightarrow> json \<Rightarrow> json" where
  "put_in p w v = map_texts (replace_all (tag_texts p) (text_of w)) v"

text \<open>The prompts above the current one are the path; there is no other state.\<close>

function expand :: "prompt_db \<Rightarrow> string \<Rightarrow> prompt_row \<Rightarrow> string list \<Rightarrow> prompt_row \<Rightarrow> dep_tag list option \<Rightarrow>
    prompt_error + json" where
  "expand db projectId parent path cur deps =
     (if MAX_PROMPT_NESTING_DEPTH \<le> length path then Inl Max_Nesting
      else if pr_id cur \<in> set path \<or> (pr_name cur = pr_name parent \<and> pr_id cur \<noteq> pr_id parent)
      then Inl (Circular (pr_name cur) (pr_version cur))
      else for_each (\<lambda>dep v. case find_dep db projectId dep of
              None \<Rightarrow> Inl (Dep_Not_Found dep)
            | Some depPrompt \<Rightarrow>
                if pr_type depPrompt \<noteq> ''text'' then Inl (Dep_Not_Text dep)
                else (case expand db projectId parent (pr_id cur # path) depPrompt None of
                    Inl e \<Rightarrow> Inl e | Inr w \<Rightarrow> Inr (put_in depPrompt w v)))
          (case deps of None \<Rightarrow> stored_deps db projectId (pr_id cur) | Some ds \<Rightarrow> ds) (pr_prompt cur))"
  by pat_completeness auto
termination
  by (relation "measure (\<lambda>(db, projectId, parent, path, cur, deps). MAX_PROMPT_NESTING_DEPTH - length path)") auto

declare expand.simps [simp del]

text \<open>Rows as the schema admits them, with names and labels that need no escape in JSON.\<close>

definition prompt_ok :: "prompt_row \<Rightarrow> bool" where
  "prompt_ok p \<longleftrightarrow> wf_json (pr_prompt p) \<and> keys_without_at (pr_prompt p) \<and>
     (pr_type p = ''text'' \<longrightarrow> (\<exists>s. pr_prompt p = JString s)) \<and>
     list_all plain_char (pr_name p) \<and> (\<forall>l \<in> set (pr_labels p). list_all plain_char l)"

definition db_ok :: "prompt_db \<Rightarrow> bool" where
  "db_ok db \<longleftrightarrow> (\<forall>p \<in> set (prompt_rows db). prompt_ok p)"

lemma find_dep_row: "find_dep db projectId t = Some p \<Longrightarrow> p \<in> set (prompt_rows db)"
  by (auto simp: find_dep_def find_Some_iff)

lemma plain_nat_str: "list_all plain_char (nat_str n)"
proof (induction n rule: nat_str.induct)
  case (1 n)
  have "plain_char (digit_char d)" if "d < 10" for d
  proof -
    have n: "(of_char (digit_char d) :: nat) = 48 + d" using that by (simp add: digit_char_def)
    have "digit_char d \<noteq> quote_char" by (rule notI) (use n in simp)
    moreover have "digit_char d \<noteq> backslash" by (rule notI) (use n that in simp)
    ultimately show ?thesis using n by (simp add: plain_char_def)
  qed
  with 1 show ?case by (subst nat_str.simps) auto
qed

lemma tag_texts_plain:
  assumes "prompt_ok p"
  shows "\<forall>t \<in> set (tag_texts p). plain_pattern t"
proof -
  have "list_all plain_char ''@@@langfusePrompt:name=''" "list_all plain_char ''|version=''"
    "list_all plain_char ''|label=''" "list_all plain_char ''@@@''"
    by (simp_all add: plain_char_def)
  with assms plain_nat_str [of "pr_version p"] show ?thesis
    unfolding tag_texts_def prompt_ok_def
    by (auto simp: plain_pattern_def version_text_def label_text_def)
qed

text \<open>The value with its texts erased: what a substitution leaves as it is.\<close>

fun shape :: "json \<Rightarrow> json" where
  "shape (JString s) = JString []"
| "shape (JArray xs) = JArray (map shape xs)"
| "shape (JObject kvs) = JObject (map (\<lambda>(k, v). (k, shape v)) kvs)"
| "shape v = v"

lemma shape_map_texts:
  assumes "\<And>k. CHR ''@'' \<notin> set k \<Longrightarrow> f k = k"
  shows "keys_without_at v \<Longrightarrow> shape (map_texts f v) = shape v"
proof (induction v rule: shape.induct)
  case (3 kvs)
  have "f k = k \<and> shape (map_texts f v) = shape v" if e: "(k, v) \<in> set kvs" for k v
  proof -
    have "keys_without_at v" "CHR ''@'' \<notin> set k" using 3 e by (auto simp: list_all_iff)
    with "3.IH" [OF e refl] assms show ?thesis by simp
  qed
  then show ?case by auto
qed (auto simp: list_all_iff)

text \<open>What a value a prompt resolves to has kept of the prompt.\<close>

definition typed_as :: "json \<Rightarrow> json \<Rightarrow> bool" where
  "typed_as u v \<longleftrightarrow> wf_json v \<and> keys_without_at v \<and> shape v = shape u"

lemma typed_as_text: "typed_as (JString s) v \<Longrightarrow> \<exists>t. v = JString t"
  by (cases v) (auto simp: typed_as_def)

lemma put_in_typed:
  assumes "prompt_ok p" "typed_as u v"
  shows "typed_as u (put_in p w v)"
proof -
  have same: "CHR ''@'' \<notin> set k \<Longrightarrow> replace_all (tag_texts p) (text_of w) k = k" for k
    by (rule replace_without_at [OF tag_texts_plain [OF assms(1)]])
  show ?thesis
    using wf_map_texts [OF same, of v] shape_map_texts [OF same, of v] assms(2)
    by (simp add: typed_as_def put_in_def)
qed

text \<open>One step of the loop on the text is one substitution in the value.\<close>

lemma js_replace_put_in:
  assumes "prompt_ok p" "wf_json v"
  shows "js_replace (combined_pattern p) (replace_value (JString s)) (stringify v) = stringify (put_in p (JString s) v)"
proof -
  have "js_replace (combined_pattern p) (replace_value (JString s)) (stringify v) =
      replace_all (tag_texts p) (json_escape s) (stringify v @ [])"
    by (simp add: js_replace_combined json_quote_def)
  also have "\<dots> = stringify (put_in p (JString s) v) @ replace_all (tag_texts p) (json_escape s) []"
    using replace_stringify [OF tag_texts_plain [OF assms(1)] assms(2)]
    unfolding passes_through_def put_in_def text_of.simps by blast
  finally show ?thesis by simp
qed

lemma for_each_rel:
  assumes "\<And>d s t. d \<in> set ds \<Longrightarrow> R s t \<Longrightarrow> rel_sum (=) R (f d s) (h d t)" "R s t"
  shows "rel_sum (=) R (for_each f ds s) (for_each h ds t)"
  using assms
proof (induction ds arbitrary: s t)
  case (Cons d ds)
  have "rel_sum (=) R (f d s) (h d t)" using Cons.prems by simp
  then show ?case using Cons by (cases rule: rel_sum.cases) auto
qed simp

text \<open>The walk over the text and the specification, prompt by prompt.\<close>

definition walk_agrees :: "string set \<Rightarrow> json \<Rightarrow> prompt_error + json \<times> string set \<times> adjacency \<Rightarrow>
    prompt_error + json \<Rightarrow> bool" where
  "walk_agrees seen u = rel_sum (=) (\<lambda>(v, seen', g) w. v = w \<and> seen' = seen \<and> typed_as u v)"

lemma resolve_expand:
  assumes "db_ok db"
  shows "prompt_ok cur \<Longrightarrow> walk_agrees (set path) (pr_prompt cur)
    (resolve db pid parent cur deps (length path) (set path, g)) (expand db pid parent path cur deps)"
proof (induction "MAX_PROMPT_NESTING_DEPTH - length path" arbitrary: path cur deps g rule: less_induct)
  case less
  define pds where "pds = (case deps of None \<Rightarrow> stored_deps db pid (pr_id cur) | Some ds \<Rightarrow> ds)"
  define body where "body = (\<lambda>dep (seen, g, text). case find_dep db pid dep of
        None \<Rightarrow> Inl (Dep_Not_Found dep)
      | Some dp \<Rightarrow> if pr_type dp \<noteq> ''text'' then Inl (Dep_Not_Text dep)
          else (case resolve db pid parent dp None (length path + 1) (seen, push_dep (pr_id cur) (ref_of dp) g) of
             Inl e \<Rightarrow> Inl e
           | Inr (v, seen', g') \<Rightarrow> Inr (seen', g', js_replace (combined_pattern dp) (replace_value v) text)))"
  define body' where "body' = (\<lambda>dep v. case find_dep db pid dep of
        None \<Rightarrow> Inl (Dep_Not_Found dep)
      | Some dp \<Rightarrow> if pr_type dp \<noteq> ''text'' then Inl (Dep_Not_Text dep)
          else (case expand db pid parent (pr_id cur # path) dp None of
             Inl e \<Rightarrow> Inl e | Inr w \<Rightarrow> Inr (put_in dp w v)))"
  let ?R = "\<lambda>(seen, g, text) v. seen = set (pr_id cur # path) \<and> typed_as (pr_prompt cur) v \<and> text = stringify v"
  show ?case
  proof (cases "MAX_PROMPT_NESTING_DEPTH \<le> length path \<or> pr_id cur \<in> set path \<or>
      (pr_name cur = pr_name parent \<and> pr_id cur \<noteq> pr_id parent)")
    case True
    then show ?thesis by (auto simp: walk_agrees_def resolve.simps expand.simps)
  next
    case False
    then have smaller: "MAX_PROMPT_NESTING_DEPTH - length (pr_id cur # path) < MAX_PROMPT_NESTING_DEPTH - length path"
      by (auto intro: diff_less_mono2)
    have step: "rel_sum (=) ?R (body dep s) (body' dep v)" if R: "?R s v" for dep s v
    proof (cases "find_dep db pid dep")
      case None
      then show ?thesis by (simp add: body_def body'_def split: prod.splits)
    next
      case (Some dp)
      obtain seen g1 x1 where s: "s = (seen, g1, x1)" by (cases s) auto
      have dp: "prompt_ok dp" using find_dep_row [OF Some] assms by (simp add: db_ok_def)
      have "walk_agrees (set (pr_id cur # path)) (pr_prompt dp)
         (resolve db pid parent dp None (length (pr_id cur # path))
            (set (pr_id cur # path), push_dep (pr_id cur) (ref_of dp) g1))
         (expand db pid parent (pr_id cur # path) dp None)"
        by (rule less.hyps [OF smaller dp])
      then show ?thesis
      proof (cases "pr_type dp = ''text''")
        case True
        then obtain x where x: "pr_prompt dp = JString x" using dp by (auto simp: prompt_ok_def)
        show ?thesis
          using \<open>walk_agrees _ _ _ _\<close> R True Some s unfolding walk_agrees_def body_def body'_def x
          by (cases rule: rel_sum.cases)
             (auto dest!: typed_as_text simp: js_replace_put_in [OF dp] put_in_typed [OF dp] typed_as_def [of _ v])
      qed (use s Some in \<open>simp add: body_def body'_def\<close>)
    qed
    have "rel_sum (=) ?R (for_each body pds (insert (pr_id cur) (set path), g, stringify (pr_prompt cur)))
        (for_each body' pds (pr_prompt cur))"
      using less.prems by (intro for_each_rel step) (simp_all add: typed_as_def prompt_ok_def)
    moreover have "insert (pr_id cur) (set path) - {pr_id cur} = set path" using False by auto
    moreover have "typed_as (pr_prompt cur) (pr_prompt cur)" using less.prems by (simp add: typed_as_def prompt_ok_def)
    moreover have "expand db pid parent path cur deps = for_each body' pds (pr_prompt cur)"
      using False by (auto simp: expand.simps [of db pid parent path cur deps] body'_def pds_def)
    ultimately show ?thesis
      using False
      unfolding walk_agrees_def resolve.simps [of db pid parent cur deps]
      by (cases rule: rel_sum.cases) 
         (auto simp: pds_def [symmetric] body_def [symmetric] Let_def typed_as_def parse_stringify)
  qed
qed

section \<open>The prompts a resolution visits\<close>

text \<open>A visit is the current prompt with the prompts above it, the parent prompt last.\<close>

definition deps_here :: "prompt_db \<Rightarrow> string \<Rightarrow> dep_tag list option \<Rightarrow> prompt_row list \<Rightarrow> dep_tag list" where
  "deps_here db pid deps c =
     (case (if tl c = [] then deps else None) of None \<Rightarrow> stored_deps db pid (pr_id (hd c)) | Some ds \<Rightarrow> ds)"

inductive visit_step :: "prompt_db \<Rightarrow> string \<Rightarrow> dep_tag list option \<Rightarrow> prompt_row list \<Rightarrow> prompt_row list \<Rightarrow> bool"
  for db pid deps where
  "dep \<in> set (deps_here db pid deps c) \<Longrightarrow> find_dep db pid dep = Some q \<Longrightarrow> visit_step db pid deps c (q # c)"

inductive_cases visit_stepE: "visit_step db pid deps c c'"









section \<open>The graph\<close>

definition edges :: "adjacency \<Rightarrow> (string \<times> prompt_ref) set" where
  "edges g = {(i, r). \<exists>rs. map_of g i = Some rs \<and> r \<in> set rs}"

lemma edges_push: "edges (push_dep i r g) = insert (i, r) (edges g)"
  by (auto simp: edges_def push_dep_def split: if_splits option.splits)

text \<open>The dependencies met from a visit on.\<close>

definition visited_edges :: "prompt_db \<Rightarrow> string \<Rightarrow> dep_tag list option \<Rightarrow> prompt_row list \<Rightarrow> (string \<times> prompt_ref) set" where
  "visited_edges db pid deps c =
     {(pr_id (hd c'), ref_of q) | c' q. (visit_step db pid deps)\<^sup>*\<^sup>* c c' \<and> visit_step db pid deps c' (q # c')}"

lemma visited_edges_step:
  "visited_edges db pid deps c =
     (\<Union>dep \<in> set (deps_here db pid deps c). case find_dep db pid dep of None \<Rightarrow> {}
        | Some q \<Rightarrow> insert (pr_id (hd c), ref_of q) (visited_edges db pid deps (q # c)))"
  (is "?l = ?r")
proof
  show "?l \<subseteq> ?r"
  proof
    fix x
    assume "x \<in> ?l"
    then obtain c' q where x: "x = (pr_id (hd c'), ref_of q)" and s: "(visit_step db pid deps)\<^sup>*\<^sup>* c c'"
      and last: "visit_step db pid deps c' (q # c')" by (auto simp: visited_edges_def)
    from s show "x \<in> ?r"
    proof (cases rule: converse_rtranclpE)
      case base
      with last x show ?thesis by (auto elim!: visit_stepE intro!: bexI)
    next
      case (step z)
      then obtain dep q' where "dep \<in> set (deps_here db pid deps c)" "find_dep db pid dep = Some q'" "z = q' # c"
        by (auto elim!: visit_stepE)
      with step x last show ?thesis by (auto simp: visited_edges_def intro!: bexI)
    qed
  qed
  have "(pr_id (hd c), ref_of q) \<in> ?l" "visited_edges db pid deps (q # c) \<subseteq> ?l"
    if "dep \<in> set (deps_here db pid deps c)" "find_dep db pid dep = Some q" for dep q
  proof -
    have s: "visit_step db pid deps c (q # c)" using that by (rule visit_step.intros)
    then show "(pr_id (hd c), ref_of q) \<in> ?l" unfolding visited_edges_def by blast
    show "visited_edges db pid deps (q # c) \<subseteq> ?l"
      unfolding visited_edges_def using converse_rtranclp_into_rtranclp [of "visit_step db pid deps", OF s] by blast
  qed
  then show "?r \<subseteq> ?l" by (fastforce split: option.splits)
qed

lemma for_each_collects:
  assumes "\<And>d s s'. d \<in> set ds \<Longrightarrow> f d s = Inr s' \<Longrightarrow> m s' = m s \<union> X d" "for_each f ds s = Inr s'"
  shows "m s' = m s \<union> (\<Union>d \<in> set ds. X d)"
  using assms
proof (induction ds arbitrary: s)
  case (Cons d ds)
  then obtain t where t: "f d s = Inr t" "for_each f ds t = Inr s'" by (auto split: sum.splits)
  have "m s' = m t \<union> (\<Union>d \<in> set ds. X d)" using Cons.prems t by (intro Cons.IH) auto
  moreover have "m t = m s \<union> X d" using Cons.prems t by simp
  ultimately show ?case by auto
qed simp

definition dep_step :: "prompt_db \<Rightarrow> string \<Rightarrow> prompt_row \<Rightarrow> prompt_row \<Rightarrow> nat \<Rightarrow> dep_tag \<Rightarrow>
    string set \<times> adjacency \<times> string \<Rightarrow> prompt_error + string set \<times> adjacency \<times> string" where
  "dep_step db pid parent cur level = (\<lambda>dep (seen, g, resolvedPrompt). case find_dep db pid dep of
        None \<Rightarrow> Inl (Dep_Not_Found dep)
      | Some dp \<Rightarrow> if pr_type dp \<noteq> ''text'' then Inl (Dep_Not_Text dep)
          else (case resolve db pid parent dp None (level + 1) (seen, push_dep (pr_id cur) (ref_of dp) g) of
             Inl e \<Rightarrow> Inl e
           | Inr (v, seen', g') \<Rightarrow>
               Inr (seen', g', js_replace (combined_pattern dp) (replace_value v) resolvedPrompt)))"

lemma resolve_Inr:
  assumes "resolve db pid parent p deps level (seen, g) = Inr (v, seen', g')"
    and "pds = (case deps of None \<Rightarrow> stored_deps db pid (pr_id p) | Some ds \<Rightarrow> ds)"
  shows "\<not> MAX_PROMPT_NESTING_DEPTH \<le> level"
    and "pds = [] \<Longrightarrow> g' = g"
    and "pds \<noteq> [] \<Longrightarrow> \<exists>seen2 x. for_each (dep_step db pid parent p level) pds
           (insert (pr_id p) seen, g, stringify (pr_prompt p)) = Inr (seen2, g', x)"
  using assms(1) unfolding resolve.simps [of db pid parent p] Let_def assms(2) [symmetric] dep_step_def [symmetric]
  by (auto simp del: for_each.simps split: if_splits sum.splits option.splits)

lemma resolve_edges:
  "resolve db pid parent p (if ps = [] then deps else None) (length ps) (seen, g) = Inr (v, seen', g') \<Longrightarrow>
   edges g' = edges g \<union> visited_edges db pid deps (p # ps)"
proof (induction "MAX_PROMPT_NESTING_DEPTH - length ps" arbitrary: ps p seen g v seen' g' rule: less_induct)
  case less
  let ?deps = "if ps = [] then deps else None"
  have here: "(case ?deps of None \<Rightarrow> stored_deps db pid (pr_id p) | Some ds \<Rightarrow> ds) = deps_here db pid deps (p # ps)"
    by (simp only: deps_here_def list.sel)
  note parts = resolve_Inr [OF less.prems here [symmetric]]
  have smaller: "MAX_PROMPT_NESTING_DEPTH - length (p # ps) < MAX_PROMPT_NESTING_DEPTH - length ps"
    using parts(1) by (auto intro: diff_less_mono2)
  let ?X = "\<lambda>dep. case find_dep db pid dep of None \<Rightarrow> {}
     | Some q \<Rightarrow> insert (pr_id p, ref_of q) (visited_edges db pid deps (q # p # ps))"
  have step: "edges (fst (snd s')) = edges (fst (snd s)) \<union> ?X dep" if "dep_step db pid parent p (length ps) dep s = Inr s'" for dep s s'
  proof -
    obtain seen1 g1 x1 where s: "s = (seen1, g1, x1)" by (cases s) auto
    from that obtain q w seen2 g2 where q: "find_dep db pid dep = Some q"
      and r: "resolve db pid parent q None (length ps + 1) (seen1, push_dep (pr_id p) (ref_of q) g1) = Inr (w, seen2, g2)"
      and s': "fst (snd s') = g2"
      by (auto simp: dep_step_def s split: option.splits if_splits sum.splits)
    have "edges g2 = edges (push_dep (pr_id p) (ref_of q) g1) \<union> visited_edges db pid deps (q # p # ps)"
      using less.hyps [OF smaller, of q seen1 "push_dep (pr_id p) (ref_of q) g1" w seen2 g2] r by simp
    with s s' q show ?thesis by (simp add: edges_push)
  qed
  have collects: "edges (fst (snd s')) = edges (fst (snd s)) \<union> (\<Union>dep \<in> set ds. ?X dep)"
    if "for_each (dep_step db pid parent p (length ps)) ds s = Inr s'" for ds s s'
    by (rule for_each_collects [where m = "\<lambda>s. edges (fst (snd s))", OF _ that]) (rule step)
  let ?ds = "deps_here db pid deps (p # ps)"
  have edges_here: "visited_edges db pid deps (p # ps) = (\<Union>dep \<in> set ?ds. ?X dep)"
    by (subst visited_edges_step) (simp only: list.sel)
  show ?case
  proof (cases "?ds = []")
    case True
    with parts(2) show ?thesis unfolding edges_here by simp
  next
    case False
    with parts(3) obtain s' where "for_each (dep_step db pid parent p (length ps)) ?ds
       (insert (pr_id p) seen, g, stringify (pr_prompt p)) = Inr s'" "fst (snd s') = g'" by auto
    with collects [OF this(1)] show ?thesis unfolding edges_here by simp
  qed
qed

section \<open>The service\<close>

lemma build_agrees:
  assumes "db_ok db" "prompt_ok parent"
  shows "rel_sum (=) (\<lambda>(gr, v) w. v = w \<and> typed_as (pr_prompt parent) v)
    (buildAndResolvePromptGraph db pid parent deps) (expand db pid parent [] parent deps)"
proof -
  have "walk_agrees (set []) (pr_prompt parent) (resolve db pid parent parent deps (length ([] :: string list)) (set [], []))
      (expand db pid parent [] parent deps)"
    by (rule resolve_expand [OF assms])
  then have "rel_sum (=) (\<lambda>(v, seen', g) w. v = w \<and> seen' = {} \<and> typed_as (pr_prompt parent) v)
      (resolve db pid parent parent deps 0 ({}, [])) (expand db pid parent [] parent deps)"
    by (simp add: walk_agrees_def)
  then show ?thesis
    unfolding buildAndResolvePromptGraph_def by (cases rule: rel_sum.cases) auto
qed

text \<open>
  C3: the text the service edits with regular expressions and parses back is, for every prompt and
  every depth, the value with the tags in its strings replaced by the resolved texts of the
  dependencies, quotes, escapes and dollar signs included; the two fail together and with the same error.
\<close>

theorem prompt_resolution_refines:
  assumes "db_ok db" "prompt_ok parent"
  shows "(case buildAndResolvePromptGraph db pid parent deps of Inl e \<Rightarrow> Inl e | Inr (gr, v) \<Rightarrow> Inr v) =
    expand db pid parent [] parent deps"
  using build_agrees [OF assms, of pid deps] by (cases rule: rel_sum.cases) auto

text \<open>Four prompts: one refers to two others, which both refer to a third.\<close>

definition sample_prompt :: "string \<Rightarrow> string \<Rightarrow> string \<Rightarrow> prompt_row" where
  "sample_prompt i n s = \<lparr>pr_id = i, pr_project = ''p'', pr_name = n, pr_version = 1, pr_labels = [''production''], pr_tags = [],
     pr_type = ''text'', pr_prompt = JString s\<rparr>"

definition sample_dep :: "string \<Rightarrow> string \<Rightarrow> dependency_row" where
  "sample_dep i n = \<lparr>dp_project = ''p'', dp_parent = i, dp_childName = n, dp_childLabel = Some ''production'',
     dp_childVersion = None\<rparr>"

definition sample_tag :: "string \<Rightarrow> string" where
  "sample_tag n = ''@@@langfusePrompt:name='' @ n @ ''|label=production@@@''"

definition sample_parent :: prompt_row where
  "sample_parent = sample_prompt ''1'' ''a'' (sample_tag ''b'' @ '' and '' @ sample_tag ''c'')"

definition sample_db :: prompt_db where
  "sample_db = \<lparr>prompt_rows = [sample_parent,
       sample_prompt ''2'' ''b'' (''cost $& '' @ sample_tag ''d''),
       sample_prompt ''3'' ''c'' (sample_tag ''d''),
       sample_prompt ''4'' ''d'' (quote_char # sample_tag ''e'' @ [quote_char]),
       sample_prompt ''5'' ''e'' ''deep''],
     dependency_rows = [sample_dep ''1'' ''b'', sample_dep ''1'' ''c'', sample_dep ''2'' ''d'',
       sample_dep ''3'' ''d'', sample_dep ''4'' ''e'']\<rparr>"

lemma sample_db_ok: "db_ok sample_db" "prompt_ok sample_parent"
  by (simp_all add: db_ok_def sample_db_def sample_parent_def sample_prompt_def prompt_ok_def plain_char_def)

lemma sample_expands: "expand sample_db ''p'' sample_parent [] sample_parent None =
    Inr (JString (''cost $& '' @ quote_char # ''deep'' @ quote_char # '' and '' @ quote_char # ''deep'' @ [quote_char]))"
  by code_simp

theorem prompt_resolution_refines_witness:
  "(case buildAndResolvePromptGraph sample_db ''p'' sample_parent None of Inl e \<Rightarrow> Inl e | Inr (gr, v) \<Rightarrow> Inr v) =
    Inr (JString (''cost $& '' @ quote_char # ''deep'' @ quote_char # '' and '' @ quote_char # ''deep'' @ [quote_char]))"
  using prompt_resolution_refines [OF sample_db_ok, of "''p''" None] sample_expands by simp


lemma sample_built: "\<exists>gr. buildAndResolvePromptGraph sample_db ''p'' sample_parent None =
    Inr (gr, JString (''cost $& '' @ quote_char # ''deep'' @ quote_char # '' and '' @ quote_char # ''deep'' @ [quote_char]))"
  using build_agrees [OF sample_db_ok, of "''p''" None] unfolding sample_expands
  by (cases rule: rel_sum.cases) auto




text \<open>
  C39: the graph that is returned has an edge for a prompt and a dependency exactly if the resolution
  meets them on some chain, and there is no graph exactly if the prompt has no dependency.
\<close>

theorem graph_edges_exact:
  assumes "buildAndResolvePromptGraph db pid parent deps = Inr (gr, v)"
  shows "(case gr of None \<Rightarrow> {} | Some G \<Rightarrow> edges (graph_deps G)) = visited_edges db pid deps [parent]"
proof -
  obtain seen g where r: "resolve db pid parent parent deps 0 ({}, []) = Inr (v, seen, g)"
    and gr: "gr = (if 0 < length (map fst g) then Some \<lparr>graph_root = ref_of parent, graph_deps = g\<rparr> else None)"
    using assms by (auto simp: buildAndResolvePromptGraph_def split: sum.splits)
  have "edges g = edges [] \<union> visited_edges db pid deps [parent]"
    using resolve_edges [of db pid parent parent "[]" deps "{}" "[]" v seen g] r by simp
  moreover have "edges [] = {}" by (simp add: edges_def)
  ultimately show ?thesis using gr by (auto simp: edges_def)
qed

theorem graph_edges_exact_witness:
  "\<exists>gr v. buildAndResolvePromptGraph sample_db ''p'' sample_parent None = Inr (gr, v) \<and>
     (case gr of None \<Rightarrow> {} | Some G \<Rightarrow> edges (graph_deps G)) = visited_edges sample_db ''p'' None [sample_parent]"
  using graph_edges_exact sample_built by blast

text \<open>A dependency met on two chains is pushed twice.\<close>

lemma diamond_pushes_twice:
  "(case resolve sample_db ''p'' sample_parent sample_parent None 0 ({}, []) of
      Inl e \<Rightarrow> False
    | Inr (v, seen, g) \<Rightarrow> map_of g ''4'' = Some (replicate 2 \<lparr>ref_id = ''5'', ref_name = ''e'', ref_version = 1\<rparr>))"
  by code_simp

end
