(* ===== verification/Prompt_Tags.thy ===== *)
theory Prompt_Tags imports Prompt_Graph begin

text \<open>
  The tags of a prompt, \<^verbatim>\<open>packages/shared/src/features/prompts/parsePromptDependencyTags.ts\<close>:
  the regular expression over the stringified content, the split of a tag into its two parameters,
  and the check of the schema. \<open>Number\<close> of the JavaScript library is written out on decimal, hexadecimal,
  octal and binary literals, with exact rationals where the code has doubles.
\<close>

section \<open>Numbers\<close>

definition digit_value :: "char \<Rightarrow> nat option" where
  "digit_value c = (let n = (of_char c :: nat) in
     if 48 \<le> n \<and> n \<le> 57 then Some (n - 48)
     else if 97 \<le> n \<and> n \<le> 122 then Some (n - 87)
     else if 65 \<le> n \<and> n \<le> 90 then Some (n - 55) else None)"

definition all_digits :: "nat \<Rightarrow> string \<Rightarrow> bool" where
  "all_digits b s = list_all (\<lambda>c. case digit_value c of None \<Rightarrow> False | Some d \<Rightarrow> d < b) s"

definition digits_value :: "nat \<Rightarrow> string \<Rightarrow> nat" where
  "digits_value b s = fold (\<lambda>c acc. acc * b + (case digit_value c of None \<Rightarrow> 0 | Some d \<Rightarrow> d)) s 0"

definition unsigned_decimal :: "string \<Rightarrow> rat option" where
  "unsigned_decimal s =
     (let m = takeWhile (\<lambda>c. c \<noteq> CHR ''e'' \<and> c \<noteq> CHR ''E'') s;
          ex = drop (length m) s;
          i = takeWhile (\<lambda>c. c \<noteq> CHR ''.'') m;
          fr = tl (drop (length i) m);
          base = rat_of_nat (digits_value 10 i) + rat_of_nat (digits_value 10 fr) / 10 ^ length fr
      in if \<not> all_digits 10 i \<or> \<not> all_digits 10 fr \<or> i = [] \<and> fr = [] then None
         else if ex = [] then Some base
         else (let e = tl ex;
                   down = (e \<noteq> [] \<and> hd e = CHR ''-'');
                   ds = (if e \<noteq> [] \<and> (hd e = CHR ''-'' \<or> hd e = CHR ''+'') then tl e else e)
               in if ds = [] \<or> \<not> all_digits 10 ds then None
                  else Some (if down then base / 10 ^ digits_value 10 ds else base * 10 ^ digits_value 10 ds)))"

definition radix_literal :: "nat \<Rightarrow> string \<Rightarrow> rat option" where
  "radix_literal b s = (if s = [] \<or> \<not> all_digits b s then None else Some (rat_of_nat (digits_value b s)))"

text \<open>\<open>None\<close> is not a number, or infinite; the schema rejects both.\<close>

definition js_number :: "string \<Rightarrow> rat option" where
  "js_number s0 = (let s = js_trim s0; p = js_lower (take 2 s) in
     if s = [] then Some 0
     else if p = ''0x'' then radix_literal 16 (drop 2 s)
     else if p = ''0o'' then radix_literal 8 (drop 2 s)
     else if p = ''0b'' then radix_literal 2 (drop 2 s)
     else if hd s = CHR ''-'' then map_option uminus (unsigned_decimal (tl s))
     else if hd s = CHR ''+'' then unsigned_decimal (tl s)
     else unsigned_decimal s)"

section \<open>Matching\<close>

definition tag_opening :: string where "tag_opening = ''@@@langfusePrompt:''"
definition tag_closing :: string where "tag_closing = ''@@@''"

text \<open>
  The matches of \<open>/@@@langfusePrompt:(.*?)@@@/g\<close>: from the left, each up to the next \<open>@@@\<close>. The dot
  excludes line ends, which a stringified text does not contain.
\<close>

function match_tags :: "string \<Rightarrow> string list" where
  "match_tags [] = []"
| "match_tags (c # s) =
     (if js_starts_with (c # s) tag_opening then
        (let r = drop (length tag_opening) (c # s) in
         case js_find tag_closing r of
           Some i \<Rightarrow> (tag_opening @ take i r @ tag_closing) # match_tags (drop (i + length tag_closing) r)
         | None \<Rightarrow> match_tags s)
      else match_tags s)"
  by pat_completeness auto
termination
  by (relation "measure length") (auto simp: Let_def tag_closing_def)

declare match_tags.simps [simp del]

text \<open>\<open>new Set\<close> of an array, in insertion order.\<close>

definition set_order :: "'a list \<Rightarrow> 'a list" where
  "set_order xs = rev (fold (\<lambda>x acc. if x \<in> set acc then acc else x # acc) xs [])"

text \<open>\<open>replace(/^@@@langfusePrompt:|@@@$/g, "")\<close>.\<close>

definition inner_content :: "string \<Rightarrow> string" where
  "inner_content m =
     (let a = (if js_starts_with m tag_opening then drop (length tag_opening) m else m)
      in if length tag_closing \<le> length a \<and> drop (length a - length tag_closing) a = tag_closing
         then take (length a - length tag_closing) a else a)"

section \<open>Reading a tag\<close>

datatype parsed_tag = Parsed_Version string rat | Parsed_Label string string

text \<open>\<open>const [key, value] = part.split("=")\<close>: what is after a second equals sign is dropped.\<close>

definition set_param :: "string \<Rightarrow> (string \<times> string option) list \<Rightarrow> (string \<times> string option) list" where
  "set_param part params =
     (let ps = js_split (CHR ''='') part
      in rec_set (hd ps) (if length ps < 2 then None else Some (ps ! 1)) params)"

definition tag_param :: "(string \<times> string option) list \<Rightarrow> string \<Rightarrow> string option" where
  "tag_param params k = Option.bind (map_of params k) id"

text \<open>A parameter counts when it is neither undefined nor the empty string.\<close>

definition truthy_text :: "string option \<Rightarrow> bool" where
  "truthy_text v \<longleftrightarrow> v \<noteq> None \<and> v \<noteq> Some []"

definition parse_tag :: "string \<Rightarrow> parsed_tag option" where
  "parse_tag m =
     (let parts = js_split (CHR ''|'') (inner_content m); firstPart = hd parts in
      if firstPart = [] \<or> \<not> js_starts_with firstPart ''name='' then None
      else if length parts \<noteq> 2 then None
      else
        (let params = fold set_param parts [] in
         if truthy_text (tag_param params ''name'') then
           (if truthy_text (tag_param params ''version'')
            then map_option (Parsed_Version (the (tag_param params ''name''))) (js_number (the (tag_param params ''version'')))
            else map_option (Parsed_Label (the (tag_param params ''name''))) (tag_param params ''label''))
         else None))"

definition parsePromptDependencyTags :: "json \<Rightarrow> parsed_tag list" where
  "parsePromptDependencyTags content = List.map_filter parse_tag (set_order (match_tags (stringify content)))"

text \<open>The parsed tags as the resolution takes them.\<close>

definition dep_of_tag :: "parsed_tag \<Rightarrow> dep_tag option" where
  "dep_of_tag t = (case t of
     Parsed_Label n l \<Rightarrow> Some (Dep_Label n (Some l))
   | Parsed_Version n v \<Rightarrow>
       (let k = nat \<lfloor>v\<rfloor> in if v = rat_of_nat k then Some (Dep_Version n k) else None))"

section \<open>What is written is found\<close>

definition tag_char :: "char \<Rightarrow> bool" where
  "tag_char c \<longleftrightarrow> plain_char c \<and> c \<noteq> CHR ''@'' \<and> c \<noteq> CHR ''|'' \<and> c \<noteq> CHR ''=''"

definition tag_inner :: "parsed_tag \<Rightarrow> string" where
  "tag_inner t = (case t of
     Parsed_Label n l \<Rightarrow> ''name='' @ n @ ''|label='' @ l
   | Parsed_Version n v \<Rightarrow> ''name='' @ n @ ''|version='' @ nat_str (nat \<lfloor>v\<rfloor>))"

definition tag_written :: "parsed_tag \<Rightarrow> string" where
  "tag_written t = tag_opening @ tag_inner t @ tag_closing"

definition tag_writable :: "parsed_tag \<Rightarrow> bool" where
  "tag_writable t = (case t of
     Parsed_Label n l \<Rightarrow> n \<noteq> [] \<and> list_all tag_char n \<and> list_all tag_char l
   | Parsed_Version n v \<Rightarrow> n \<noteq> [] \<and> list_all tag_char n \<and> (\<exists>k. v = rat_of_nat k))"

lemma tag_written_texts:
  "tag_written (Parsed_Label (pr_name p) l) = label_text p l"
  "tag_written (Parsed_Version (pr_name p) (rat_of_nat (pr_version p))) = version_text p"
  by (simp_all add: tag_written_def tag_inner_def tag_opening_def tag_closing_def label_text_def version_text_def)

lemma tag_digit_value: "d < 10 \<Longrightarrow> digit_value (digit_char d) = Some d"
  by (simp add: digit_value_def digit_char_def)

lemma nat_str_decimal: "all_digits 10 (nat_str n) \<and> digits_value 10 (nat_str n) = n \<and> nat_str n \<noteq> []"
proof (induction n rule: nat_str.induct)
  case (1 n)
  show ?case
  proof (cases "n < 10")
    case True
    then show ?thesis by (subst (1 2 3) nat_str.simps) (simp add: all_digits_def digits_value_def tag_digit_value)
  next
    case False
    have "digit_value (digit_char (n mod 10)) = Some (n mod 10)" by (simp add: tag_digit_value)
    with 1 False show ?thesis
      by (subst (1 2 3) nat_str.simps) (simp add: all_digits_def digits_value_def)
  qed
qed

lemma digit_bounds: "digit_value c = Some d \<Longrightarrow> d < 10 \<Longrightarrow> 48 \<le> (of_char c :: nat) \<and> (of_char c :: nat) \<le> 57"
  by (auto simp: digit_value_def Let_def split: if_splits)

lemma digit_char_bounds: "all_digits 10 s \<Longrightarrow> c \<in> set s \<Longrightarrow> 48 \<le> (of_char c :: nat) \<and> (of_char c :: nat) \<le> 57"
  using digit_bounds by (auto simp: all_digits_def list_all_iff split: option.splits)

lemma digits_not_space: "all_digits 10 s \<Longrightarrow> js_trim s = s"
proof -
  assume s: "all_digits 10 s"
  have "dropWhile js_space x = x" if "set x \<subseteq> set s" for x
    using digit_char_bounds [OF s, of "hd x"] that
    by (cases x) (auto simp: js_space_def Let_def)
  then show ?thesis by (simp add: js_trim_def)
qed

lemma js_number_digits:
  assumes "all_digits 10 s" "s \<noteq> []"
  shows "js_number s = Some (rat_of_nat (digits_value 10 s))"
proof -
  note b = digit_char_bounds [OF assms(1)]
  have n: "c \<notin> set s" if "\<not> (48 \<le> (of_char c :: nat) \<and> (of_char c :: nat) \<le> 57)" for c using b that by blast
  have "CHR ''e'' \<notin> set s" "CHR ''E'' \<notin> set s" "CHR ''.'' \<notin> set s" "CHR ''-'' \<notin> set s" "CHR ''+'' \<notin> set s"
    by (rule n, simp)+
  then have u: "takeWhile (\<lambda>c. c \<noteq> CHR ''e'' \<and> c \<noteq> CHR ''E'') s = s" "takeWhile (\<lambda>c. c \<noteq> CHR ''.'') s = s"
    "hd s \<noteq> CHR ''-''" "hd s \<noteq> CHR ''+''"
    using hd_in_set [OF assms(2)] by (auto simp: takeWhile_eq_all_conv)
  have lower: "lower_char c = c" if "c \<in> set s" for c
    using b [OF that] by (simp add: lower_char_def Let_def)
  have low: "js_lower (take 2 s) \<noteq> [x, y]" if "y \<notin> set s" for x y
  proof
    assume eq: "js_lower (take 2 s) = [x, y]"
    have "map lower_char (take 2 s) = take 2 s"
      using lower by (intro map_idI) (auto dest: in_set_takeD)
    with eq have "take 2 s = [x, y]" by (simp add: js_lower_def)
    then have "y \<in> set (take 2 s)" by simp
    then show False using that by (auto dest: in_set_takeD)
  qed
  have "CHR ''x'' \<notin> set s" "CHR ''o'' \<notin> set s" "CHR ''b'' \<notin> set s" by (rule n, simp)+
  note low = this [THEN low]
  have "unsigned_decimal s = Some (rat_of_nat (digits_value 10 s))"
    unfolding unsigned_decimal_def u using assms by (simp add: u all_digits_def digits_value_def)
  then show ?thesis
    unfolding js_number_def using assms low u by (simp add: digits_not_space Let_def)
qed

lemma match_skip: "CHR ''@'' \<notin> set x \<Longrightarrow> match_tags (x @ s) = match_tags s"
  by (induction x) (auto simp: match_tags.simps tag_opening_def)

lemma js_find_closing:
  "CHR ''@'' \<notin> set x \<Longrightarrow> js_find tag_closing (x @ tag_closing @ s) = Some (length x)"
  by (induction x) (auto simp: tag_closing_def)

lemma starts_with_append [simp]: "js_starts_with (p @ s) p"
  by (simp add: js_starts_with_def)

lemma match_tag:
  assumes "CHR ''@'' \<notin> set x"
  shows "match_tags (tag_opening @ x @ tag_closing @ s) = (tag_opening @ x @ tag_closing) # match_tags s"
proof -
  obtain c r where cr: "tag_opening @ x @ tag_closing @ s = c # r" by (simp add: tag_opening_def)
  have "js_starts_with (c # r) tag_opening" unfolding cr [symmetric] by simp
  moreover have "drop (length tag_opening) (c # r) = x @ tag_closing @ s" unfolding cr [symmetric] by simp
  ultimately show ?thesis
    unfolding cr match_tags.simps(2) Let_def using assms by (simp add: js_find_closing)
qed

lemma inner_content_written: "inner_content (tag_opening @ x @ tag_closing) = x"
  by (simp add: inner_content_def Let_def)

lemma tag_chars_absent:
  assumes "list_all tag_char n"
  shows "CHR ''='' \<notin> set n" "CHR ''|'' \<notin> set n" "CHR ''@'' \<notin> set n" "list_all plain_char n"
  using assms by (auto simp: list_all_iff tag_char_def)

lemma nat_str_tag_chars: "list_all tag_char (nat_str k)"
proof -
  have "tag_char c" if "c \<in> set (nat_str k)" for c
  proof -
    note b = digit_char_bounds [OF nat_str_decimal [THEN conjunct1] that]
    have "c \<noteq> x" if "\<not> (48 \<le> (of_char x :: nat) \<and> (of_char x :: nat) \<le> 57)" for x using b that by blast
    moreover have "plain_char c" using plain_nat_str [of k] that by (simp add: list_all_iff)
    ultimately show ?thesis by (simp add: tag_char_def)
  qed
  then show ?thesis by (simp add: list_all_iff)
qed

lemma tag_param_simps [simp]:
  "tag_param [] k = None"
  "tag_param (rec_set k v r) k' = (if k' = k then v else tag_param r k')"
  by (simp_all add: tag_param_def)

lemma set_param_pair:
  assumes "CHR ''='' \<notin> set k" "CHR ''='' \<notin> set v"
  shows "set_param (k @ CHR ''='' # v) r = rec_set k (Some v) r"
  using assms by (simp add: set_param_def js_split_append js_split_dotless)

lemma parse_two:
  assumes "list_all tag_char n" "n \<noteq> []" "CHR ''='' \<notin> set k" "CHR ''|'' \<notin> set k" "list_all tag_char v" "k \<noteq> ''name''"
  shows "parse_tag (tag_opening @ (''name='' @ n @ ''|'' @ k @ ''='' @ v) @ tag_closing) =
    (if k = ''version'' \<and> v \<noteq> [] then map_option (Parsed_Version n) (js_number v)
     else if k = ''label'' then Some (Parsed_Label n v) else None)"
proof -
  note absent = tag_chars_absent [OF assms(1)] tag_chars_absent [OF assms(5)]
  let ?first = "''name='' @ n" and ?second = "k @ CHR ''='' # v"
  have nb: "CHR ''|'' \<notin> set ?first" "CHR ''|'' \<notin> set ?second" using absent(2,6) assms(4) by simp_all
  have split: "js_split (CHR ''|'') (?first @ CHR ''|'' # ?second) = [?first, ?second]"
    by (simp only: js_split_append [OF nb(1)] js_split_dotless [OF nb(2)])
  have "set_param (''name'' @ CHR ''='' # n) r = rec_set ''name'' (Some n) r" for r
    by (rule set_param_pair) (use absent in simp_all)
  then have first: "set_param ?first r = rec_set ''name'' (Some n) r" for r by simp
  have second: "set_param ?second r = rec_set k (Some v) r" for r
    by (rule set_param_pair) (use absent assms(3) in simp_all)
  define ps where "ps = fold set_param [?first, ?second] []"
  have ps: "ps = rec_set k (Some v) (rec_set ''name'' (Some n) [])" by (simp only: ps_def fold_simps first second)
  have params: "tag_param ps ''name'' = Some n" "tag_param ps ''version'' = (if k = ''version'' then Some v else None)"
    "tag_param ps ''label'' = (if k = ''label'' then Some v else None)"
    using assms(6) by (simp_all only: ps tag_param_simps) simp_all
  have starts: "?first \<noteq> []" "js_starts_with ?first ''name=''" by (simp_all only: starts_with_append) simp
  have "parse_tag (tag_opening @ (?first @ CHR ''|'' # ?second) @ tag_closing) =
    (if k = ''version'' \<and> v \<noteq> [] then map_option (Parsed_Version n) (js_number v)
     else if k = ''label'' then Some (Parsed_Label n v) else None)"
    unfolding parse_tag_def inner_content_written Let_def split list.sel ps_def [symmetric] params
    using starts assms(2) by (simp add: truthy_text_def)
  then show ?thesis by simp
qed

lemma parse_written:
  assumes "tag_writable t"
  shows "parse_tag (tag_written t) = Some t"
proof (cases t)
  case (Parsed_Label n l)
  with assms parse_two [of n "''label''" l] show ?thesis
    by (simp add: tag_writable_def tag_written_def tag_inner_def)
next
  case (Parsed_Version n v)
  then obtain k where k: "v = rat_of_nat k" "n \<noteq> []" "list_all tag_char n"
    using assms by (auto simp: tag_writable_def)
  have "js_number (nat_str k) = Some v" "nat_str k \<noteq> []"
    using js_number_digits [of "nat_str k"] nat_str_decimal [of k] k by simp_all
  with k Parsed_Version parse_two [of n "''version''" "nat_str k"] nat_str_tag_chars [of k] show ?thesis
    by (simp add: tag_written_def tag_inner_def)
qed

lemma tag_inner_chars:
  assumes "tag_writable t"
  shows "CHR ''@'' \<notin> set (tag_inner t)" "list_all plain_char (tag_written t)"
proof -
  have lits: "list_all plain_char tag_opening" "list_all plain_char tag_closing" "list_all plain_char ''name=''"
    "list_all plain_char ''|label=''" "list_all plain_char ''|version=''"
    by (simp_all add: tag_opening_def tag_closing_def plain_char_def)
  show "CHR ''@'' \<notin> set (tag_inner t)"
    using assms tag_chars_absent nat_str_tag_chars
    by (cases t) (auto simp: tag_writable_def tag_inner_def)
  show "list_all plain_char (tag_written t)"
  proof (cases t)
    case (Parsed_Label n l)
    then have "list_all plain_char n" "list_all plain_char l"
      using assms tag_chars_absent(4) by (auto simp: tag_writable_def)
    with Parsed_Label show ?thesis
      by (simp only: tag_written_def tag_inner_def parsed_tag.case list_all_append lits)
  next
    case (Parsed_Version n v)
    then have "list_all plain_char n" using assms tag_chars_absent(4) by (auto simp: tag_writable_def)
    with Parsed_Version show ?thesis
      by (simp only: tag_written_def tag_inner_def parsed_tag.case list_all_append lits plain_nat_str)
  qed
qed

lemma json_escape_append: "json_escape (s @ t) = json_escape s @ json_escape t"
  by (simp add: json_escape_def)

lemma escape_all_plain: "list_all plain_char s \<Longrightarrow> json_escape s = s"
  by (induction s) (simp_all add: escape_plain)

text \<open>No part of the opening is both its beginning and its end, so it cannot begin in the text before it.\<close>

lemma opening_ends: "drop k tag_opening = take (length (drop k tag_opening)) tag_opening \<Longrightarrow> k = 0 \<or> length tag_opening \<le> k"
proof -
  assume e: "drop k tag_opening = take (length (drop k tag_opening)) tag_opening"
  have "list_all (\<lambda>k. drop k tag_opening \<noteq> take (length (drop k tag_opening)) tag_opening) [1..<length tag_opening]"
    by (simp add: tag_opening_def upt_rec)
  then show ?thesis using e by (auto simp: list_all_iff not_le)
qed

lemma opening_first:
  assumes "u @ tag_opening @ v = x @ tag_opening @ s" "\<not> js_includes x tag_opening"
  shows "length x \<le> length u"
proof (rule ccontr)
  assume "\<not> length x \<le> length u"
  then obtain w where w: "x = u @ w" "w \<noteq> []"
    using assms(1) by (auto simp: append_eq_append_conv_if) (metis append_take_drop_id drop_eq_Nil not_le)
  then have e: "tag_opening @ v = w @ tag_opening @ s" using assms(1) by simp
  show False
  proof (cases "length tag_opening \<le> length w")
    case True
    then have "take (length tag_opening) w = tag_opening" using arg_cong [OF e, of "take (length tag_opening)"] by simp
    then have "x = u @ tag_opening @ drop (length tag_opening) w" using w by (metis append_take_drop_id)
    with assms(2) show ?thesis unfolding js_includes_iff by blast
  next
    case False
    then have "drop (length w) tag_opening @ v = tag_opening @ s" using arg_cong [OF e, of "drop (length w)"] by simp
    then have "drop (length w) tag_opening = take (length (drop (length w) tag_opening)) tag_opening"
      by (metis append_eq_conv_conj length_drop diff_le_self append_eq_append_conv_if)
    with opening_ends [of "length w"] False w show ?thesis by simp
  qed
qed

lemma starts_iff: "js_starts_with s p \<longleftrightarrow> (\<exists>v. s = p @ v)"
  unfolding js_starts_with_def by (metis append_eq_conv_conj append_take_drop_id)

lemma skip_text:
  "(\<And>u v. x @ s = u @ tag_opening @ v \<Longrightarrow> length x \<le> length u) \<Longrightarrow> match_tags (x @ s) = match_tags s"
proof (induction x)
  case (Cons c x)
  have "\<not> js_starts_with (c # x @ s) tag_opening"
  proof
    assume "js_starts_with (c # x @ s) tag_opening"
    then obtain v where "(c # x) @ s = [] @ tag_opening @ v" by (auto simp: starts_iff)
    from Cons.prems [OF this] show False by simp
  qed
  moreover have "length x \<le> length u" if "x @ s = u @ tag_opening @ v" for u v
    using Cons.prems [of "c # u" v] that by simp
  ultimately show ?case using Cons.IH by (simp add: match_tags.simps)
qed simp

lemma match_opened: "\<not> js_includes x tag_opening \<Longrightarrow> match_tags (x @ tag_opening @ s) = match_tags (tag_opening @ s)"
  by (rule skip_text) (metis opening_first)

lemma match_none: "\<not> js_includes x tag_opening \<Longrightarrow> match_tags x = []"
proof -
  assume x: "\<not> js_includes x tag_opening"
  have "match_tags (x @ []) = match_tags []"
    by (rule skip_text) (use x in \<open>auto simp: js_includes_iff\<close>)
  then show ?thesis by (simp add: match_tags.simps)
qed

text \<open>The stringified text has an opening only where the text has one.\<close>

lemma escaped_start: "json_escape a = p @ v \<Longrightarrow> list_all plain_char p \<Longrightarrow> \<exists>w. a = p @ w"
proof (induction p arbitrary: a)
  case (Cons c p)
  then obtain d a' where a: "a = d # a'" by (cases a) auto
  show ?case
  proof (cases "plain_char d")
    case True
    with Cons a show ?thesis by (auto simp: escape_plain)
  next
    case False
    from escape_not_plain [OF this] Cons.prems a have "c = backslash" by (cases "escape_char d") auto
    with Cons.prems show ?thesis by (simp add: plain_char_def)
  qed
qed simp

lemma escaped_opening: "json_escape a = u @ tag_opening @ v \<Longrightarrow> js_includes a tag_opening"
proof (induction a arbitrary: u)
  case Nil
  then show ?case by (simp add: json_escape_def tag_opening_def)
next
  case (Cons c a)
  have op: "list_all plain_char tag_opening" by (simp add: tag_opening_def plain_char_def)
  from Cons.prems have "escape_char c @ json_escape a = u @ tag_opening @ v" by simp
  then obtain w where w: "escape_char c = u @ w \<and> w @ json_escape a = tag_opening @ v \<or>
      escape_char c @ w = u \<and> json_escape a = w @ tag_opening @ v"
    by (auto simp: append_eq_append_conv2)
  show ?case
  proof (cases "\<exists>w. json_escape a = w @ tag_opening @ v")
    case True
    then have "js_includes a tag_opening" using Cons.IH by blast
    then show ?thesis unfolding js_includes_iff by (metis append_Cons)
  next
    case False
    with w have e: "escape_char c = u @ w" "w @ json_escape a = tag_opening @ v" by blast+
    with False have "w \<noteq> []" by (metis append_Nil)
    with e have "CHR ''@'' \<in> set (escape_char c)" by (cases w) (auto simp: tag_opening_def)
    then have "escape_char c = [c]" using escape_not_plain escape_plain by blast
    with e(1) \<open>w \<noteq> []\<close> have "u = []" by (cases u) auto
    with Cons.prems have "json_escape (c # a) = tag_opening @ v" by simp
    from escaped_start [OF this op] show ?thesis unfolding js_includes_iff by (metis append_Nil)
  qed
qed

lemma escape_without_opening: "\<not> js_includes a tag_opening \<Longrightarrow> \<not> js_includes (json_escape a) tag_opening"
  using escaped_opening unfolding js_includes_iff [of "json_escape a"] by blast

lemma opening_before_quote: "\<not> js_includes a tag_opening \<Longrightarrow> \<not> js_includes (a @ [quote_char]) tag_opening"
proof
  assume a: "\<not> js_includes a tag_opening" and "js_includes (a @ [quote_char]) tag_opening"
  then obtain u v where "a @ [quote_char] = u @ tag_opening @ v" unfolding js_includes_iff by blast
  with a show False unfolding js_includes_iff
    by (cases v rule: rev_cases) (auto simp: tag_opening_def append_eq_Cons_conv)
qed

lemma match_written:
  assumes "\<forall>(a, t) \<in> set segs. \<not> js_includes a tag_opening \<and> tag_writable t" "\<not> js_includes b tag_opening"
  shows "match_tags (json_escape (concat (map (\<lambda>(a, t). a @ tag_written t) segs)) @ b) = map (tag_written \<circ> snd) segs"
  using assms(1)
proof (induction segs)
  case Nil
  show ?case using match_none [OF assms(2)] by simp
next
  case (Cons e segs)
  obtain a t where e: "e = (a, t)" by (cases e)
  with Cons.prems have a: "\<not> js_includes a tag_opening" and t: "tag_writable t" by auto
  let ?rest = "json_escape (concat (map (\<lambda>(a, t). a @ tag_written t) segs)) @ b"
  have "json_escape (concat (map (\<lambda>(a, t). a @ tag_written t) (e # segs))) @ b =
      json_escape a @ tag_opening @ tag_inner t @ tag_closing @ ?rest"
    using escape_all_plain [OF tag_inner_chars(2) [OF t]] by (simp add: e json_escape_append tag_written_def)
  then have "match_tags (json_escape (concat (map (\<lambda>(a, t). a @ tag_written t) (e # segs))) @ b) =
      tag_written t # match_tags ?rest"
    using match_opened [OF escape_without_opening [OF a]] match_tag [OF tag_inner_chars(1) [OF t]]
    by (simp add: tag_written_def)
  with Cons e show ?case by simp
qed

lemma fold_set_order_map:
  "inj_on f (set xs \<union> set acc) \<Longrightarrow>
   fold (\<lambda>x acc. if x \<in> set acc then acc else x # acc) (map f xs) (map f acc) =
   map f (fold (\<lambda>x acc. if x \<in> set acc then acc else x # acc) xs acc)"
proof (induction xs arbitrary: acc)
  case (Cons x xs)
  have same: "f x \<in> f ` set acc \<longleftrightarrow> x \<in> set acc"
    using Cons.prems by (auto dest: inj_onD)
  have "inj_on f (set xs \<union> set (if x \<in> set acc then acc else x # acc))"
    using Cons.prems by (rule inj_on_subset) auto
  from Cons.IH [OF this] show ?case by (simp add: same split: if_splits)
qed simp

lemma set_order_map: "inj_on f (set xs) \<Longrightarrow> set_order (map f xs) = map f (set_order xs)"
  using fold_set_order_map [of f xs "[]"] by (simp add: set_order_def rev_map)

lemma set_set_order [simp]: "set (set_order xs) = set xs"
proof -
  have "set (fold (\<lambda>x acc. if x \<in> set acc then acc else x # acc) xs acc) = set xs \<union> set acc" for acc :: "'a list"
    by (induction xs arbitrary: acc) auto
  then show ?thesis by (simp add: set_order_def)
qed

text \<open>
  C40: what is written as a tag is read as that tag. The content is any text in which the opening
  \<open>@@@langfusePrompt:\<close> stands only where a tag begins, so other \<open>@\<close> signs are allowed; the names are not empty,
  and names and labels have no quote, backslash, control character, \<open>@\<close>, bar or equals sign (\<open>tag_writable\<close>).
  Then the parser returns exactly the tags that were written, each once, in the order of their first
  occurrence. The lemmas after the theorem show that an equals sign or a quote in a name is read wrongly.
\<close>

theorem written_tags_found:
  assumes "\<forall>(a, t) \<in> set segs. \<not> js_includes a tag_opening \<and> tag_writable t" "\<not> js_includes b tag_opening"
  shows "parsePromptDependencyTags (JString (concat (map (\<lambda>(a, t). a @ tag_written t) segs) @ b)) =
    set_order (map snd segs)"
proof -
  let ?s = "concat (map (\<lambda>(a, t). a @ tag_written t) segs)"
  have "stringify (JString (?s @ b)) = [quote_char] @ json_escape ?s @ (json_escape b @ [quote_char])"
    by (simp add: json_quote_def json_escape_append)
  moreover have "\<not> js_includes (json_escape b @ [quote_char]) tag_opening"
    by (rule opening_before_quote [OF escape_without_opening [OF assms(2)]])
  ultimately have m: "match_tags (stringify (JString (?s @ b))) = map (tag_written \<circ> snd) segs"
    using match_skip [of "[quote_char]"] match_written [OF assms(1)] by simp
  have ok: "tag_writable t" if "t \<in> set (map snd segs)" for t using assms(1) that by auto
  have "inj_on tag_written (set (map snd segs))"
    by (rule inj_on_inverseI [where g = "the \<circ> parse_tag"]) (simp add: parse_written ok)
  then have "set_order (map (tag_written \<circ> snd) segs) = map tag_written (set_order (map snd segs))"
    using set_order_map [of tag_written "map snd segs"] by simp
  moreover have "List.map_filter parse_tag (map tag_written ts) = ts" if "\<forall>t \<in> set ts. tag_writable t" for ts
    using that by (induction ts) (simp_all add: List.map_filter_simps parse_written)
  ultimately show ?thesis
    unfolding parsePromptDependencyTags_def m using ok by simp
qed

theorem written_tags_found_witness:
  "parsePromptDependencyTags (JString (''a@b.c '' @ tag_written (Parsed_Label ''greeting'' ''production'') @ ''@'')) =
     [Parsed_Label ''greeting'' ''production'']"
proof -
  have "tag_writable (Parsed_Label ''greeting'' ''production'')"
    by (simp add: tag_writable_def tag_char_def plain_char_def)
  moreover have "\<not> js_includes ''a@b.c '' tag_opening" "\<not> js_includes ''@'' tag_opening"
    by (simp_all add: js_includes_def js_starts_with_def tag_opening_def)
  ultimately show ?thesis
    using written_tags_found [of "[(''a@b.c '', Parsed_Label ''greeting'' ''production'')]" "''@''"]
    by (simp add: set_order_def)
qed

text \<open>What is after a second equals sign of a parameter is lost, and a quote in a name is read with its escape.\<close>

lemma equals_sign_truncates:
  "parsePromptDependencyTags (JString (sample_tag ''a=b'')) = [Parsed_Label ''a'' ''production'']"
  by code_simp

lemma quote_read_with_escape:
  "parsePromptDependencyTags (JString (sample_tag [CHR ''a'', quote_char])) =
     [Parsed_Label [CHR ''a'', backslash, quote_char] ''production'']"
  by code_simp

end
