(* ===== verification/Prompt_Actions.thy ===== *)
theory Prompt_Actions imports Prompt_Tags begin

text \<open>
  The operations that change the prompts of a project: \<^verbatim>\<open>web/src/features/prompts/server/actions/\<close>
  (\<open>createPrompt\<close>, \<open>duplicatePrompt\<close>, \<open>updatePrompt\<close>, \<open>deletePrompt\<close>), the mutations \<open>delete\<close>,
  \<open>deleteVersion\<close>, \<open>setLabels\<close> and \<open>updateTags\<close> of \<^verbatim>\<open>routers/promptRouter.ts\<close>, and their helpers.

  An operation takes the tables and gives the tables it leaves with its outcome; an outcome that is an
  error may come after the transaction. The reads and the transaction of an operation are one step; the two
  writes of \<open>deletePrompt\<close>, which has no transaction, are separate, and the database may fail between them.
  Permissions, audit logs and the cache are left out; new identifiers are arguments.
\<close>

section \<open>Variables and placeholders of a chat prompt\<close>

definition brace :: "char \<Rightarrow> bool" where
  "brace c \<longleftrightarrow> c = CHR ''{'' \<or> c = CHR ''}''"

text \<open>The first groups of the matches of \<open>/{{([^{}]*)}}+/g\<close>.\<close>

function mustache_groups :: "string \<Rightarrow> string list" where
  "mustache_groups [] = []"
| "mustache_groups (c # s) =
     (if js_starts_with (c # s) ''{{'' then
        (let g = takeWhile (\<lambda>d. \<not> brace d) (tl s); r = drop (length g) (tl s) in
         if js_starts_with r ''}}'' then g # mustache_groups (dropWhile (\<lambda>d. d = CHR ''}'') r)
         else mustache_groups s)
      else mustache_groups s)"
  by pat_completeness auto
termination
proof (relation "measure length")
  fix c :: char and s g r :: string
  assume r: "r = drop (length g) (tl s)"
  have "length (dropWhile (\<lambda>d. d = CHR ''}'') r) \<le> length s"
    using length_dropWhile_le [of "\<lambda>d. d = CHR ''}''" r] r by simp
  then show "(dropWhile (\<lambda>d. d = CHR ''}'') r, c # s) \<in> measure length" by simp
qed auto

declare mustache_groups.simps [simp del]

definition letter :: "char \<Rightarrow> bool" where
  "letter c = (let n = (of_char c :: nat) in 65 \<le> n \<and> n \<le> 90 \<or> 97 \<le> n \<and> n \<le> 122)"

definition isValidVariableName :: "string \<Rightarrow> bool" where
  "isValidVariableName s \<longleftrightarrow> s \<noteq> [] \<and> letter (hd s) \<and> list_all (\<lambda>c. letter c \<or> c = CHR ''_'') (tl s)"

definition extractVariables :: "string \<Rightarrow> string list" where
  "extractVariables s = set_order (filter isValidVariableName (mustache_groups s))"

definition text_field :: "string \<Rightarrow> json \<Rightarrow> string option" where
  "text_field k m = (case m of
     JObject kvs \<Rightarrow> (case map_of kvs k of Some (JString s) \<Rightarrow> Some s | _ \<Rightarrow> None)
   | _ \<Rightarrow> None)"

definition extractPlaceholderNames :: "json list \<Rightarrow> string list" where
  "extractPlaceholderNames ms =
     List.map_filter (text_field ''name'') (filter (\<lambda>m. text_field ''type'' m = Some ''placeholder'') ms)"

definition extractChatVariableAndPlaceholderNames :: "json list \<Rightarrow> string list \<times> string list" where
  "extractChatVariableAndPlaceholderNames ms =
     (set_order (concat (map (\<lambda>m. case text_field ''content'' m of None \<Rightarrow> [] | Some s \<Rightarrow> extractVariables s) ms)),
      set_order (extractPlaceholderNames ms))"

definition conflictingNames :: "string \<Rightarrow> json \<Rightarrow> string list" where
  "conflictingNames ty content = (case content of
     JArray ms \<Rightarrow> if ty = ''chat'' then
        (let (variables, placeholders) = extractChatVariableAndPlaceholderNames ms
         in filter (\<lambda>v. v \<in> set placeholders) variables) else []
   | _ \<Rightarrow> [])"

section \<open>Reads and writes of the tables\<close>

abbreviation LATEST_PROMPT_LABEL :: string where "LATEST_PROMPT_LABEL \<equiv> ''latest''"

definition versions_of :: "prompt_db \<Rightarrow> string \<Rightarrow> string \<Rightarrow> prompt_row list" where
  "versions_of db projectId name = filter (\<lambda>p. pr_project p = projectId \<and> pr_name p = name) (prompt_rows db)"

text \<open>\<open>orderBy: version desc\<close>.\<close>

definition newest_first :: "prompt_row list \<Rightarrow> prompt_row list" where
  "newest_first ps = rev (sort_key pr_version ps)"

definition find_latest :: "prompt_row list \<Rightarrow> prompt_row option" where
  "find_latest ps = (case newest_first ps of [] \<Rightarrow> None | p # _ \<Rightarrow> Some p)"

definition update_row :: "(prompt_row \<Rightarrow> prompt_row) \<Rightarrow> string \<Rightarrow> prompt_db \<Rightarrow> prompt_db" where
  "update_row f i db = db\<lparr>prompt_rows := map (\<lambda>p. if pr_id p = i then f p else p) (prompt_rows db)\<rparr>"

definition set_labels :: "string \<times> string list \<Rightarrow> prompt_db \<Rightarrow> prompt_db" where
  "set_labels u = update_row (\<lambda>p. p\<lparr>pr_labels := snd u\<rparr>) (fst u)"

definition set_tags :: "string \<times> string list \<Rightarrow> prompt_db \<Rightarrow> prompt_db" where
  "set_tags u = update_row (\<lambda>p. p\<lparr>pr_tags := snd u\<rparr>) (fst u)"

text \<open>A deleted prompt takes its own dependencies with it (\<open>onDelete: Cascade\<close>).\<close>

definition delete_rows :: "string list \<Rightarrow> prompt_db \<Rightarrow> prompt_db" where
  "delete_rows is db = \<lparr>prompt_rows = filter (\<lambda>p. pr_id p \<notin> set is) (prompt_rows db),
     dependency_rows = filter (\<lambda>d. dp_parent d \<notin> set is) (dependency_rows db)\<rparr>"

definition row_clash :: "prompt_db \<Rightarrow> prompt_row \<Rightarrow> bool" where
  "row_clash db p \<longleftrightarrow> list_ex (\<lambda>q. pr_id q = pr_id p \<or>
     pr_project q = pr_project p \<and> pr_name q = pr_name p \<and> pr_version q = pr_version p) (prompt_rows db)"

definition insert_row :: "prompt_row \<Rightarrow> prompt_db \<Rightarrow> prompt_db" where
  "insert_row p db = db\<lparr>prompt_rows := prompt_rows db @ [p]\<rparr>"

definition insert_deps :: "dependency_row list \<Rightarrow> prompt_db \<Rightarrow> prompt_db" where
  "insert_deps ds db = db\<lparr>dependency_rows := dependency_rows db @ ds\<rparr>"

definition row_of_tag :: "string \<Rightarrow> string \<Rightarrow> dep_tag \<Rightarrow> dependency_row" where
  "row_of_tag projectId i t = (case t of
     Dep_Version n v \<Rightarrow> \<lparr>dp_project = projectId, dp_parent = i, dp_childName = n, dp_childLabel = None, dp_childVersion = Some v\<rparr>
   | Dep_Label n l \<Rightarrow> \<lparr>dp_project = projectId, dp_parent = i, dp_childName = n, dp_childLabel = l, dp_childVersion = None\<rparr>)"

definition removeLabelsFromPreviousPromptVersions :: "prompt_db \<Rightarrow> string \<Rightarrow> string \<Rightarrow> string list \<Rightarrow>
    (string \<times> string list) list" where
  "removeLabelsFromPreviousPromptVersions db projectId name labelsToRemove =
     map (\<lambda>p. (pr_id p, filter (\<lambda>l. l \<notin> set labelsToRemove) (pr_labels p)))
       (newest_first (filter (\<lambda>p. list_ex (\<lambda>l. l \<in> set labelsToRemove) (pr_labels p)) (versions_of db projectId name)))"

definition updatePromptTagsOnAllVersions :: "prompt_db \<Rightarrow> string \<Rightarrow> string \<Rightarrow> string list \<Rightarrow> (string \<times> string list) list" where
  "updatePromptTagsOnAllVersions db projectId name tags =
     map (\<lambda>p. (pr_id p, set_order tags)) (versions_of db projectId name)"

section \<open>Outcomes\<close>

datatype action_error =
    Type_Differs
  | Names_Conflict "string list"
  | Version_Not_Integer
  | Resolution_Failed prompt_error
  | Unique_Constraint
  | Prompt_Not_Found
  | Both_Version_And_Label
  | Has_Dependents "dependency_row list"
  | Name_Exists
  | Duplicate_Failed
  | Database_Failed

datatype event_action = Created | Updated | Deleted

type_synonym prompt_event = "prompt_row \<times> event_action"
type_synonym 'a outcome = "prompt_db \<times> (action_error + 'a)"

text \<open>
  \<open>resolvePrompt\<close> of every prompt and the event with the result; one that does not resolve makes
  the operation fail although its transaction is done.
\<close>

definition resolve_row :: "prompt_db \<Rightarrow> prompt_row \<Rightarrow> prompt_error + prompt_row" where
  "resolve_row db p = (case buildAndResolvePromptGraph db (pr_project p) p None of
     Inl e \<Rightarrow> Inl e | Inr (gr, v) \<Rightarrow> Inr (p\<lparr>pr_prompt := v\<rparr>))"

fun promptChangeEvents :: "prompt_db \<Rightarrow> (prompt_row \<times> event_action) list \<Rightarrow> action_error + prompt_event list" where
  "promptChangeEvents db [] = Inr []"
| "promptChangeEvents db ((p, a) # r) = (case (resolve_row db p, promptChangeEvents db r) of
     (Inl e, _) \<Rightarrow> Inl (Resolution_Failed e)
   | (Inr q, Inl e) \<Rightarrow> Inl e
   | (Inr q, Inr evs) \<Rightarrow> Inr ((q, a) # evs))"

definition rows_with_ids :: "prompt_db \<Rightarrow> string \<Rightarrow> string list \<Rightarrow> prompt_row list" where
  "rows_with_ids db projectId is = filter (\<lambda>p. pr_id p \<in> set is \<and> pr_project p = projectId) (prompt_rows db)"

section \<open>Creating\<close>

record create_params =
  cp_project :: string
  cp_name :: string
  cp_prompt :: json
  cp_type :: string
  cp_labels :: "string list"
  cp_tags :: "string list option"

definition next_version :: "prompt_row option \<Rightarrow> nat" where
  "next_version latest = (case latest of None \<Rightarrow> 1 | Some l \<Rightarrow> if pr_version l \<noteq> 0 then pr_version l + 1 else 1)"

definition final_tags :: "create_params \<Rightarrow> prompt_row option \<Rightarrow> string list" where
  "final_tags c latest = set_order (case cp_tags c of Some t \<Rightarrow> t
     | None \<Rightarrow> (case latest of None \<Rightarrow> [] | Some l \<Rightarrow> pr_tags l))"

text \<open>The sorted arrays of distinct tags are written alike exactly if the sets are the same.\<close>

definition haveTagsChanged :: "string list \<Rightarrow> prompt_row option \<Rightarrow> bool" where
  "haveTagsChanged tags latest \<longleftrightarrow> set tags \<noteq> (case latest of None \<Rightarrow> {} | Some l \<Rightarrow> set (pr_tags l))"

definition new_prompt :: "create_params \<Rightarrow> string \<Rightarrow> prompt_row option \<Rightarrow> string list \<Rightarrow> prompt_row" where
  "new_prompt c newId latest labels = \<lparr>pr_id = newId, pr_project = cp_project c, pr_name = cp_name c,
     pr_version = next_version latest, pr_labels = labels, pr_tags = final_tags c latest,
     pr_type = cp_type c, pr_prompt = cp_prompt c\<rparr>"

text \<open>The transaction: the new row and its dependencies, the labels taken away, the tags.\<close>

definition create_transaction :: "create_params \<Rightarrow> string \<Rightarrow> prompt_row option \<Rightarrow> dep_tag list \<Rightarrow>
    (string \<times> string list) list \<Rightarrow> (string \<times> string list) list \<Rightarrow> prompt_db \<Rightarrow> prompt_db" where
  "create_transaction c newId latest deps labelUpdates tagUpdates db =
     fold set_tags tagUpdates (fold set_labels labelUpdates
       (insert_deps (map (row_of_tag (cp_project c) newId) deps)
         (insert_row (new_prompt c newId latest (set_order (cp_labels c @ [LATEST_PROMPT_LABEL]))) db)))"

definition createPrompt :: "create_params \<Rightarrow> string \<Rightarrow> prompt_db \<Rightarrow> (prompt_row \<times> prompt_event list) outcome" where
  "createPrompt c newId db =
     (let projectId = cp_project c; name = cp_name c;
          latestPrompt = find_latest (versions_of db projectId name) in
      if (case latestPrompt of None \<Rightarrow> False | Some l \<Rightarrow> pr_type l \<noteq> cp_type c) then (db, Inl Type_Differs)
      else if conflictingNames (cp_type c) (cp_prompt c) \<noteq> []
      then (db, Inl (Names_Conflict (conflictingNames (cp_type c) (cp_prompt c))))
      else
        (let finalLabels = cp_labels c @ [LATEST_PROMPT_LABEL];
             finalTags = final_tags c latestPrompt in
         case those (map dep_of_tag (parsePromptDependencyTags (cp_prompt c))) of
           None \<Rightarrow> (db, Inl Version_Not_Integer)
         | Some promptDependencies \<Rightarrow>
             (case buildAndResolvePromptGraph db projectId (new_prompt c newId latestPrompt (cp_labels c))
                     (Some promptDependencies) of
                Inl e \<Rightarrow> (db, Inl (Resolution_Failed e))
              | Inr _ \<Rightarrow>
                  (let labelUpdates = removeLabelsFromPreviousPromptVersions db projectId name finalLabels;
                       tagUpdates = (if haveTagsChanged finalTags latestPrompt
                         then updatePromptTagsOnAllVersions db projectId name finalTags else []);
                       created = new_prompt c newId latestPrompt (set_order finalLabels) in
                   if row_clash db created then (db, Inl Unique_Constraint)
                   else
                     (let db' = create_transaction c newId latestPrompt promptDependencies labelUpdates tagUpdates db;
                          updated = rows_with_ids db' projectId (map fst labelUpdates @ map fst tagUpdates) in
                      case promptChangeEvents db' (map (\<lambda>p. (p, Updated)) updated @ [(created, Created)]) of
                        Inl e \<Rightarrow> (db', Inl e)
                      | Inr evs \<Rightarrow> (db', Inr (created, evs)))))))"

section \<open>Duplicating\<close>

text \<open>The new identifiers are given by the old ones.\<close>

definition duplicated_row :: "(string \<Rightarrow> string) \<Rightarrow> string \<Rightarrow> bool \<Rightarrow> prompt_row \<Rightarrow> prompt_row" where
  "duplicated_row newId name single p = p\<lparr>pr_id := newId (pr_id p), pr_name := name,
     pr_version := if single then 1 else pr_version p,
     pr_labels := if single then set_order (LATEST_PROMPT_LABEL # pr_labels p) else pr_labels p\<rparr>"

definition duplicatePrompt :: "string \<Rightarrow> string \<Rightarrow> string \<Rightarrow> bool \<Rightarrow> (string \<Rightarrow> string) \<Rightarrow> prompt_db \<Rightarrow>
    (prompt_row \<times> prompt_event list) outcome" where
  "duplicatePrompt projectId promptId name isSingleVersion newId db =
     (if versions_of db projectId name \<noteq> [] then (db, Inl Name_Exists)
      else (case find (\<lambda>p. pr_id p = promptId \<and> pr_project p = projectId) (prompt_rows db) of
        None \<Rightarrow> (db, Inl Prompt_Not_Found)
      | Some existingPrompt \<Rightarrow>
          (let promptsDb = filter (\<lambda>p. isSingleVersion \<longrightarrow> pr_version p = pr_version existingPrompt)
                 (versions_of db projectId (pr_name existingPrompt));
               promptsToCreate = map (duplicated_row newId name isSingleVersion) promptsDb;
               newDeps = concat (map (\<lambda>p. map (\<lambda>d. d\<lparr>dp_project := projectId, dp_parent := newId (pr_id p)\<rparr>)
                   (filter (\<lambda>d. dp_parent d = pr_id p) (dependency_rows db))) promptsDb) in
           if list_ex (row_clash db) promptsToCreate then (db, Inl Unique_Constraint)
           else
             (let db' = insert_deps newDeps (fold insert_row promptsToCreate db);
                  createdPrompt = find (\<lambda>p. pr_version p = (if isSingleVersion then 1 else length promptsToCreate))
                    (versions_of db' projectId name) in
              case promptChangeEvents db' (map (\<lambda>p. (p, Created)) promptsToCreate) of
                Inl e \<Rightarrow> (db', Inl e)
              | Inr evs \<Rightarrow> (case createdPrompt of
                    None \<Rightarrow> (db', Inl Duplicate_Failed)
                  | Some p \<Rightarrow> (db', Inr (p, evs)))))))"

section \<open>Labels and tags\<close>

text \<open>The dependencies on labels of a prompt, joined with the prompts that have them.\<close>

definition label_dependents :: "prompt_db \<Rightarrow> string \<Rightarrow> string \<Rightarrow> string list \<Rightarrow> dependency_row list" where
  "label_dependents db projectId name labels =
     filter (\<lambda>d. list_ex (\<lambda>p. pr_id p = dp_parent d \<and> pr_project p = projectId) (prompt_rows db) \<and>
       dp_project d = projectId \<and> dp_childName d = name \<and>
       (case dp_childLabel d of None \<Rightarrow> False | Some l \<Rightarrow> l \<in> set labels)) (dependency_rows db)"

definition updatePrompt :: "string \<Rightarrow> string \<Rightarrow> nat \<Rightarrow> string list \<Rightarrow> prompt_db \<Rightarrow>
    (prompt_row \<times> prompt_event list) outcome" where
  "updatePrompt projectId promptName promptVersion newLabels db =
     (case find (\<lambda>p. pr_version p = promptVersion) (versions_of db projectId promptName) of
        None \<Rightarrow> (db, Inl Prompt_Not_Found)
      | Some prompt \<Rightarrow>
          (let newLabelsSet = set_order (newLabels @ pr_labels prompt);
               removedLabels = filter (\<lambda>l. l \<notin> set newLabelsSet) (pr_labels prompt);
               dependents = label_dependents db projectId promptName removedLabels in
           if removedLabels \<noteq> [] \<and> dependents \<noteq> [] then (db, Inl (Has_Dependents dependents))
           else
             (let labelUpdates = removeLabelsFromPreviousPromptVersions db projectId promptName (set_order newLabels);
                  db' = set_labels (pr_id prompt, newLabelsSet) (fold set_labels labelUpdates db) in
              case promptChangeEvents db' (map (\<lambda>p. (p, Updated))
                     (rows_with_ids db' projectId (pr_id prompt # map fst labelUpdates))) of
                Inl e \<Rightarrow> (db', Inl e)
              | Inr evs \<Rightarrow> (db', Inr (prompt\<lparr>pr_labels := newLabelsSet\<rparr>, evs)))))"

definition setLabels :: "string \<Rightarrow> string \<Rightarrow> string list \<Rightarrow> prompt_db \<Rightarrow> prompt_event list outcome" where
  "setLabels projectId promptId labels db =
     (case find (\<lambda>p. pr_id p = promptId \<and> pr_project p = projectId) (prompt_rows db) of
        None \<Rightarrow> (db, Inl Prompt_Not_Found)
      | Some toBeLabeledPrompt \<Rightarrow>
          (let promptName = pr_name toBeLabeledPrompt; newLabels = set_order labels;
               removedLabels = filter (\<lambda>l. l \<notin> set newLabels) (pr_labels toBeLabeledPrompt);
               dependents = label_dependents db projectId promptName removedLabels in
           if removedLabels \<noteq> [] \<and> dependents \<noteq> [] then (db, Inl (Has_Dependents dependents))
           else
             (let previousLabeledPrompts = newest_first (filter (\<lambda>p. list_ex (\<lambda>l. l \<in> set newLabels) (pr_labels p) \<and>
                    pr_id p \<noteq> promptId) (versions_of db projectId promptName));
                  db' = fold set_labels (map (\<lambda>p. (pr_id p, filter (\<lambda>l. l \<notin> set newLabels) (pr_labels p)))
                      previousLabeledPrompts) (set_labels (promptId, newLabels) db) in
              case promptChangeEvents db' (map (\<lambda>p. (p, Updated))
                     (rows_with_ids db' projectId (promptId # map pr_id previousLabeledPrompts))) of
                Inl e \<Rightarrow> (db', Inl e)
              | Inr evs \<Rightarrow> (db', Inr evs))))"

definition updateTags :: "string \<Rightarrow> string \<Rightarrow> string list \<Rightarrow> prompt_db \<Rightarrow> prompt_event list outcome" where
  "updateTags projectId promptName tags db =
     (let db' = db\<lparr>prompt_rows := map (\<lambda>p. if pr_project p = projectId \<and> pr_name p = promptName
            then p\<lparr>pr_tags := tags\<rparr> else p) (prompt_rows db)\<rparr> in
      case promptChangeEvents db' (map (\<lambda>p. (p, Updated)) (versions_of db' projectId promptName)) of
        Inl e \<Rightarrow> (db', Inl e)
      | Inr evs \<Rightarrow> (db', Inr evs))"

section \<open>Deleting\<close>

text \<open>
  \<open>deletePrompt\<close> of the public interface. The versions to delete are those the handler has read:
  the rows with the name, restricted by the version or the label of the request.
\<close>

definition requested_versions :: "prompt_db \<Rightarrow> string \<Rightarrow> string \<Rightarrow> nat option \<Rightarrow> string option \<Rightarrow> prompt_row list" where
  "requested_versions db projectId promptName version lbl =
     filter (\<lambda>p. (case version of Some v \<Rightarrow> v \<noteq> 0 \<longrightarrow> pr_version p = v | None \<Rightarrow> True) \<and>
       (case lbl of Some l \<Rightarrow> l \<noteq> [] \<longrightarrow> l \<in> set (pr_labels p) | None \<Rightarrow> True)) (versions_of db projectId promptName)"

definition blocks_deletion :: "prompt_row list \<Rightarrow> prompt_row list \<Rightarrow> dependency_row \<Rightarrow> bool" where
  "blocks_deletion deleted remaining d \<longleftrightarrow>
     (case dp_childVersion d of Some v \<Rightarrow> v \<noteq> 0 \<and> v \<in> set (map pr_version deleted) | None \<Rightarrow> False) \<or>
     (case dp_childLabel d of
        Some l \<Rightarrow> l \<noteq> [] \<and> \<not> list_ex (\<lambda>p. l \<in> set (pr_labels p)) remaining
      | None \<Rightarrow> False)"

text \<open>\<open>reduce\<close> with the greater version, the earlier row on a tie.\<close>

definition highest_version :: "prompt_row list \<Rightarrow> prompt_row" where
  "highest_version ps = fold (\<lambda>v m. if pr_version m < pr_version v then v else m) (tl ps) (hd ps)"

text \<open>
  The first write moves \<open>latest\<close> to the highest version that remains, if no other one has it; the second
  deletes. They are not in a transaction: \<open>updates\<close> and \<open>deletes\<close> say whether the database carries out the
  first and the second.
\<close>

definition moves_latest :: "string \<Rightarrow> string \<Rightarrow> prompt_row list \<Rightarrow> prompt_db \<Rightarrow> bool" where
  "moves_latest projectId promptName promptVersions db =
     (let remainingVersions = filter (\<lambda>p. pr_id p \<notin> set (map pr_id promptVersions)) (versions_of db projectId promptName);
          deletingLatest = list_ex (\<lambda>p. LATEST_PROMPT_LABEL \<in> set (pr_labels p)) promptVersions;
          latestRemains = list_ex (\<lambda>p. LATEST_PROMPT_LABEL \<in> set (pr_labels p)) remainingVersions
      in deletingLatest \<and> \<not> latestRemains \<and> remainingVersions \<noteq> [])"

definition reattach_latest :: "string \<Rightarrow> string \<Rightarrow> prompt_row list \<Rightarrow> prompt_db \<Rightarrow> prompt_db" where
  "reattach_latest projectId promptName promptVersions db =
     (if moves_latest projectId promptName promptVersions db then
        (let remainingVersions = filter (\<lambda>p. pr_id p \<notin> set (map pr_id promptVersions)) (versions_of db projectId promptName);
             h = highest_version remainingVersions
         in set_labels (pr_id h, set_order (pr_labels h @ [LATEST_PROMPT_LABEL])) db)
      else db)"

definition delete_many :: "string \<Rightarrow> string list \<Rightarrow> prompt_db \<Rightarrow> prompt_db" where
  "delete_many projectId ids db =
     db\<lparr>prompt_rows := filter (\<lambda>p. \<not> (pr_project p = projectId \<and> pr_id p \<in> set ids)) (prompt_rows db),
        dependency_rows := filter (\<lambda>d. dp_parent d \<notin> pr_id ` set (filter (\<lambda>p. pr_project p = projectId \<and>
            pr_id p \<in> set ids) (prompt_rows db))) (dependency_rows db)\<rparr>"

definition deletePrompt :: "bool \<Rightarrow> bool \<Rightarrow> string \<Rightarrow> string \<Rightarrow> nat option \<Rightarrow> string option \<Rightarrow> prompt_row list \<Rightarrow>
    prompt_db \<Rightarrow> unit outcome" where
  "deletePrompt updates deletes projectId promptName version lbl promptVersions db =
     (if version \<noteq> None \<and> version \<noteq> Some 0 \<and> truthy_text lbl then (db, Inl Both_Version_And_Label)
      else if promptVersions = [] then (db, Inl Prompt_Not_Found)
      else
        (let dependents = filter (\<lambda>d. dp_project d = projectId \<and> dp_childName d = promptName) (dependency_rows db);
             ids = map pr_id promptVersions;
             remainingVersions = filter (\<lambda>p. pr_id p \<notin> set ids) (versions_of db projectId promptName);
             blockingDependents = filter (blocks_deletion promptVersions remainingVersions) dependents in
         if blockingDependents \<noteq> [] then (db, Inl (Has_Dependents blockingDependents))
         else if moves_latest projectId promptName promptVersions db \<and> \<not> updates then (db, Inl Database_Failed)
         else
           (let db1 = reattach_latest projectId promptName promptVersions db in
            if \<not> deletes then (db1, Inl Database_Failed)
            else (delete_many projectId ids db1, Inr ()))))"

text \<open>The mutation \<open>delete\<close>: all versions, none of which may have a dependent.\<close>

definition delete_all :: "string \<Rightarrow> string \<Rightarrow> prompt_db \<Rightarrow> prompt_event list outcome" where
  "delete_all projectId promptName db =
     (let prompts = versions_of db projectId promptName;
          dependents = filter (\<lambda>d. list_ex (\<lambda>p. pr_id p = dp_parent d \<and> pr_project p = projectId) (prompt_rows db) \<and>
             dp_project d = projectId \<and> dp_childName d = promptName) (dependency_rows db) in
      if dependents \<noteq> [] then (db, Inl (Has_Dependents dependents))
      else
        (let db' = delete_rows (map pr_id prompts) db in
         case promptChangeEvents db' (map (\<lambda>p. (p, Deleted)) prompts) of
           Inl e \<Rightarrow> (db', Inl e)
         | Inr evs \<Rightarrow> (db', Inr evs)))"

text \<open>The mutation \<open>deleteVersion\<close>; it looks for dependents only if the version has labels.\<close>

definition delete_version :: "string \<Rightarrow> string \<Rightarrow> prompt_db \<Rightarrow> prompt_event list outcome" where
  "delete_version projectId promptVersionId db =
     (case find (\<lambda>p. pr_id p = promptVersionId \<and> pr_project p = projectId) (prompt_rows db) of
        None \<Rightarrow> (db, Inl Prompt_Not_Found)
      | Some promptVersion \<Rightarrow>
          (let promptName = pr_name promptVersion; labels = pr_labels promptVersion;
               dependents = filter (\<lambda>d. list_ex (\<lambda>p. pr_id p = dp_parent d \<and> pr_project p = projectId) (prompt_rows db) \<and>
                  dp_project d = projectId \<and> dp_childName d = promptName \<and>
                  (dp_childVersion d = Some (pr_version promptVersion) \<or>
                   (case dp_childLabel d of None \<Rightarrow> False | Some l \<Rightarrow> l \<in> set labels))) (dependency_rows db) in
           if labels \<noteq> [] \<and> dependents \<noteq> [] then (db, Inl (Has_Dependents dependents))
           else
             (let newLatestPrompt = (if LATEST_PROMPT_LABEL \<in> set labels
                    then find_latest (filter (\<lambda>p. pr_id p \<noteq> promptVersionId) (versions_of db projectId promptName))
                    else None);
                  db1 = delete_rows [promptVersionId] db;
                  db' = (case newLatestPrompt of None \<Rightarrow> db1
                    | Some n \<Rightarrow> set_labels (pr_id n, pr_labels n @ [LATEST_PROMPT_LABEL]) db1) in
              case promptChangeEvents db' [(promptVersion, Deleted)] of
                Inl e \<Rightarrow> (db', Inl e)
              | Inr evs \<Rightarrow> (db', Inr evs))))"

section \<open>All operations\<close>

text \<open>The tables after a call whose writes the database carries out.\<close>

datatype prompt_action =
    Create_Prompt create_params string
  | Duplicate_Prompt string string string bool "string \<Rightarrow> string"
  | Update_Prompt string string nat "string list"
  | Set_Labels string string "string list"
  | Update_Tags string string "string list"
  | Delete_Prompt string string "nat option" "string option"
  | Delete_All string string
  | Delete_Version string string

fun perform :: "prompt_action \<Rightarrow> prompt_db \<Rightarrow> prompt_db" where
  "perform (Create_Prompt c i) db = fst (createPrompt c i db)"
| "perform (Duplicate_Prompt pid i name single newId) db = fst (duplicatePrompt pid i name single newId db)"
| "perform (Update_Prompt pid name v ls) db = fst (updatePrompt pid name v ls db)"
| "perform (Set_Labels pid i ls) db = fst (setLabels pid i ls db)"
| "perform (Update_Tags pid name ts) db = fst (updateTags pid name ts db)"
| "perform (Delete_Prompt pid name v l) db = fst (deletePrompt True True pid name v l (requested_versions db pid name v l) db)"
| "perform (Delete_All pid name) db = fst (delete_all pid name db)"
| "perform (Delete_Version pid i) db = fst (delete_version pid i db)"

end
