(* ===== verification/Prompt_Invariants.thy ===== *)
theory Prompt_Invariants imports Prompt_Actions begin

text \<open>
  What the operations of \<^verbatim>\<open>Prompt_Actions\<close> keep: identifiers and versions are unique, a label is on at
  most one version of a name, all versions of a name have one type and the same tags, and the parents of
  dependencies exist. Each operation is first reduced to its effect on the rows.
\<close>

section \<open>The invariant\<close>

definition same_name :: "prompt_row \<Rightarrow> prompt_row \<Rightarrow> bool" where
  "same_name p q \<longleftrightarrow> pr_project p = pr_project q \<and> pr_name p = pr_name q"

definition one_id :: "(prompt_row \<Rightarrow> prompt_row \<Rightarrow> bool) \<Rightarrow> prompt_row list \<Rightarrow> bool" where
  "one_id r ps \<longleftrightarrow> (\<forall>p \<in> set ps. \<forall>q \<in> set ps. same_name p q \<longrightarrow> r p q \<longrightarrow> pr_id p = pr_id q)"

definition versions_unique :: "prompt_row list \<Rightarrow> bool" where
  "versions_unique = one_id (\<lambda>p q. pr_version p = pr_version q)"

definition labels_unique :: "prompt_row list \<Rightarrow> bool" where
  "labels_unique = one_id (\<lambda>p q. set (pr_labels p) \<inter> set (pr_labels q) \<noteq> {})"

definition all_same :: "(prompt_row \<Rightarrow> 'a) \<Rightarrow> prompt_row list \<Rightarrow> bool" where
  "all_same f ps \<longleftrightarrow> (\<forall>p \<in> set ps. \<forall>q \<in> set ps. same_name p q \<longrightarrow> f p = f q)"

definition parents_exist :: "prompt_db \<Rightarrow> bool" where
  "parents_exist db \<longleftrightarrow> (\<forall>d \<in> set (dependency_rows db).
     \<exists>p \<in> set (prompt_rows db). pr_id p = dp_parent d \<and> pr_project p = dp_project d)"

definition store_ok :: "prompt_db \<Rightarrow> bool" where
  "store_ok db \<longleftrightarrow> distinct (map pr_id (prompt_rows db)) \<and> versions_unique (prompt_rows db) \<and>
     labels_unique (prompt_rows db) \<and> all_same pr_type (prompt_rows db) \<and>
     all_same (\<lambda>p. set (pr_tags p)) (prompt_rows db) \<and> parents_exist db \<and>
     (\<forall>p \<in> set (prompt_rows db). 0 < pr_version p)"

lemma versions_uniqueD:
  "versions_unique ps \<Longrightarrow> p \<in> set ps \<Longrightarrow> q \<in> set ps \<Longrightarrow> same_name p q \<Longrightarrow> pr_version p = pr_version q \<Longrightarrow>
   pr_id p = pr_id q"
  by (simp add: versions_unique_def one_id_def)

lemma labels_uniqueD:
  "labels_unique ps \<Longrightarrow> p \<in> set ps \<Longrightarrow> q \<in> set ps \<Longrightarrow> same_name p q \<Longrightarrow> l \<in> set (pr_labels p) \<Longrightarrow>
   l \<in> set (pr_labels q) \<Longrightarrow> pr_id p = pr_id q"
  unfolding labels_unique_def one_id_def by blast

lemma all_sameD: "all_same f ps \<Longrightarrow> p \<in> set ps \<Longrightarrow> q \<in> set ps \<Longrightarrow> same_name p q \<Longrightarrow> f p = f q"
  by (simp add: all_same_def)

lemma all_same_mapI:
  "(\<And>p q. p \<in> set ps \<Longrightarrow> q \<in> set ps \<Longrightarrow> same_name (f p) (f q) \<Longrightarrow> g (f p) = g (f q)) \<Longrightarrow> all_same g (map f ps)"
  by (simp add: all_same_def)

text \<open>Identifiers that are given must be new.\<close>

fun fresh_ids :: "prompt_action \<Rightarrow> prompt_db \<Rightarrow> bool" where
  "fresh_ids (Create_Prompt c i) db \<longleftrightarrow> i \<notin> pr_id ` set (prompt_rows db)"
| "fresh_ids (Duplicate_Prompt pid i name single newId) db \<longleftrightarrow>
     inj_on newId (pr_id ` set (prompt_rows db)) \<and>
     (\<forall>p \<in> set (prompt_rows db). newId (pr_id p) \<notin> pr_id ` set (prompt_rows db))"
| "fresh_ids a db \<longleftrightarrow> True"

section \<open>The effects of the updates\<close>

lemma same_id: "distinct (map pr_id ps) \<Longrightarrow> p \<in> set ps \<Longrightarrow> q \<in> set ps \<Longrightarrow> pr_id p = pr_id q \<Longrightarrow> p = q"
  by (auto simp: distinct_map dest: inj_onD)

lemma fold_set_labels:
  "distinct (map fst us) \<Longrightarrow> fold set_labels us db = db\<lparr>prompt_rows := map (\<lambda>p. case map_of us (pr_id p) of
     None \<Rightarrow> p | Some ls \<Rightarrow> p\<lparr>pr_labels := ls\<rparr>) (prompt_rows db)\<rparr>"
proof (induction us arbitrary: db)
  case (Cons u us)
  have "map_of us (fst u) = None" using Cons.prems by (simp add: map_of_eq_None_iff)
  with Cons show ?case
    by (cases u) (auto simp: set_labels_def update_row_def intro!: prompt_db.equality split: option.splits)
qed simp

lemma fold_set_tags:
  "distinct (map fst us) \<Longrightarrow> fold set_tags us db = db\<lparr>prompt_rows := map (\<lambda>p. case map_of us (pr_id p) of
     None \<Rightarrow> p | Some ls \<Rightarrow> p\<lparr>pr_tags := ls\<rparr>) (prompt_rows db)\<rparr>"
proof (induction us arbitrary: db)
  case (Cons u us)
  have "map_of us (fst u) = None" using Cons.prems by (simp add: map_of_eq_None_iff)
  with Cons show ?case
    by (cases u) (auto simp: set_tags_def update_row_def intro!: prompt_db.equality split: option.splits)
qed simp

lemma set_newest_first [simp]: "set (newest_first ps) = set ps"
  by (simp add: newest_first_def)

lemma distinct_newest_first: "distinct (map pr_id ps) \<Longrightarrow> distinct (map pr_id (newest_first ps))"
proof -
  assume "distinct (map pr_id ps)"
  then have "distinct (map pr_id (sort_key pr_version ps))" by (auto simp: distinct_map)
  then show ?thesis by (simp add: newest_first_def rev_map [symmetric])
qed

lemma map_of_updates:
  assumes "distinct (map pr_id ps)"
  shows "map_of (map (\<lambda>p. (pr_id p, f p)) ps) i = map_option f (find (\<lambda>p. pr_id p = i) ps)"
  by (induction ps) auto

text \<open>Labels taken from the versions of a name.\<close>

definition strip :: "string \<Rightarrow> string \<Rightarrow> string list \<Rightarrow> prompt_row \<Rightarrow> prompt_row" where
  "strip pid name ls p = (if pr_project p = pid \<and> pr_name p = name
     then p\<lparr>pr_labels := filter (\<lambda>l. l \<notin> set ls) (pr_labels p)\<rparr> else p)"

lemma strip_fields [simp]:
  "pr_id (strip pid name ls p) = pr_id p" "pr_project (strip pid name ls p) = pr_project p"
  "pr_name (strip pid name ls p) = pr_name p" "pr_version (strip pid name ls p) = pr_version p"
  "pr_type (strip pid name ls p) = pr_type p" "pr_tags (strip pid name ls p) = pr_tags p"
  "pr_prompt (strip pid name ls p) = pr_prompt p"
  by (simp_all add: strip_def)

lemma find_id:
  assumes "distinct (map pr_id ps)" "p \<in> set ps"
  shows "find (\<lambda>q. pr_id q = pr_id p) (filter P ps) = (if P p then Some p else None)"
  using assms
proof (induction ps)
  case (Cons a ps)
  show ?case
  proof (cases "a = p")
    case True
    have "pr_id p \<notin> pr_id ` set ps" using Cons.prems True by simp
    then have "find (\<lambda>q. pr_id q = pr_id p) (filter P ps) = None"
      unfolding find_None_iff by (metis filter_is_subset image_eqI subsetD)
    with True show ?thesis by simp
  next
    case False
    with Cons.prems have "pr_id a \<noteq> pr_id p" by (auto dest: same_id)
    with Cons False show ?thesis by simp
  qed
qed simp

lemma find_newest_first:
  assumes "distinct (map pr_id ps)"
  shows "find (\<lambda>q. pr_id q = i) (newest_first ps) = find (\<lambda>q. pr_id q = i) ps"
proof -
  have one: "find (\<lambda>q. pr_id q = i) qs = (if \<exists>p \<in> set ps. pr_id p = i then Some (THE p. p \<in> set ps \<and> pr_id p = i) else None)"
    if qs: "set qs = set ps" for qs
  proof (cases "find (\<lambda>q. pr_id q = i) qs")
    case None
    with qs show ?thesis by (auto simp: find_None_iff)
  next
    case (Some p)
    then have p: "p \<in> set ps" "pr_id p = i" using qs by (auto simp: find_Some_iff)
    then have "(THE p. p \<in> set ps \<and> pr_id p = i) = p"
      using same_id [OF assms] by (intro the_equality) auto
    with p Some show ?thesis by auto
  qed
  show ?thesis using one [of "newest_first ps"] one [of ps] by simp
qed

lemma distinct_versions_of: "distinct (map pr_id (prompt_rows db)) \<Longrightarrow> distinct (map pr_id (filter P (versions_of db pid name)))"
  by (simp add: versions_of_def distinct_map_filter)

lemma versions_of_filter: "filter P (versions_of db pid name) =
    filter (\<lambda>p. pr_project p = pid \<and> pr_name p = name \<and> P p) (prompt_rows db)"
  by (auto simp: versions_of_def intro!: filter_cong)

lemma label_updates_effect:
  assumes ids: "distinct (map pr_id (prompt_rows db))"
    and us: "us = map (\<lambda>p. (pr_id p, filter (\<lambda>l. l \<notin> set ls) (pr_labels p)))
       (newest_first (filter (\<lambda>p. list_ex (\<lambda>l. l \<in> set ls) (pr_labels p) \<and> Q p) (versions_of db pid name)))"
  shows "distinct (map fst us)"
    and "p \<in> set (prompt_rows db) \<Longrightarrow> Q p \<Longrightarrow>
      (case map_of us (pr_id p) of None \<Rightarrow> q | Some x \<Rightarrow> q\<lparr>pr_labels := x\<rparr>) =
      (if pr_project p = pid \<and> pr_name p = name \<and> list_ex (\<lambda>l. l \<in> set ls) (pr_labels p)
       then q\<lparr>pr_labels := filter (\<lambda>l. l \<notin> set ls) (pr_labels p)\<rparr> else q)"
    and "p \<in> set (prompt_rows db) \<Longrightarrow> \<not> Q p \<Longrightarrow> map_of us (pr_id p) = None"
    and "i \<notin> pr_id ` set (prompt_rows db) \<Longrightarrow> map_of us i = None"
proof -
  let ?ps = "filter (\<lambda>p. list_ex (\<lambda>l. l \<in> set ls) (pr_labels p) \<and> Q p) (versions_of db pid name)"
  have d: "distinct (map pr_id ?ps)" by (rule distinct_versions_of [OF ids])
  then show "distinct (map fst us)"
    using distinct_newest_first [OF d] by (simp add: us o_def)
  have m: "map_of us i = map_option (\<lambda>p. filter (\<lambda>l. l \<notin> set ls) (pr_labels p)) (find (\<lambda>p. pr_id p = i) ?ps)" for i
    by (simp add: us map_of_updates [OF distinct_newest_first [OF d]] find_newest_first [OF d])
  have f: "find (\<lambda>q. pr_id q = pr_id p) ?ps =
      (if pr_project p = pid \<and> pr_name p = name \<and> list_ex (\<lambda>l. l \<in> set ls) (pr_labels p) \<and> Q p then Some p else None)"
    if "p \<in> set (prompt_rows db)" for p
    unfolding versions_of_filter by (rule find_id [OF ids that])
  show "p \<in> set (prompt_rows db) \<Longrightarrow> Q p \<Longrightarrow>
      (case map_of us (pr_id p) of None \<Rightarrow> q | Some x \<Rightarrow> q\<lparr>pr_labels := x\<rparr>) =
      (if pr_project p = pid \<and> pr_name p = name \<and> list_ex (\<lambda>l. l \<in> set ls) (pr_labels p)
       then q\<lparr>pr_labels := filter (\<lambda>l. l \<notin> set ls) (pr_labels p)\<rparr> else q)"
    by (auto simp: m f)
  show "p \<in> set (prompt_rows db) \<Longrightarrow> \<not> Q p \<Longrightarrow> map_of us (pr_id p) = None"
    by (auto simp: m f)
  show "i \<notin> pr_id ` set (prompt_rows db) \<Longrightarrow> map_of us i = None"
    by (auto simp: m find_None_iff versions_of_def)
qed

lemma strip_alt: "(if pr_project p = pid \<and> pr_name p = name \<and> list_ex (\<lambda>l. l \<in> set ls) (pr_labels p)
     then p\<lparr>pr_labels := filter (\<lambda>l. l \<notin> set ls) (pr_labels p)\<rparr> else p) = strip pid name ls p"
proof -
  have "filter (\<lambda>l. l \<notin> set ls) (pr_labels p) = pr_labels p" if "\<not> list_ex (\<lambda>l. l \<in> set ls) (pr_labels p)"
    using that by (simp add: list_ex_iff filter_id_conv)
  then show ?thesis by (auto simp: strip_def)
qed

definition relabel :: "string \<Rightarrow> string \<Rightarrow> string \<Rightarrow> string list \<Rightarrow> string list \<Rightarrow> prompt_row \<Rightarrow> prompt_row" where
  "relabel pid name i new ls p = (if pr_id p = i then p\<lparr>pr_labels := new\<rparr> else strip pid name ls p)"

lemma relabel_fields [simp]:
  "pr_id (relabel pid name i new ls p) = pr_id p" "pr_project (relabel pid name i new ls p) = pr_project p"
  "pr_name (relabel pid name i new ls p) = pr_name p" "pr_version (relabel pid name i new ls p) = pr_version p"
  "pr_type (relabel pid name i new ls p) = pr_type p" "pr_tags (relabel pid name i new ls p) = pr_tags p"
  "pr_prompt (relabel pid name i new ls p) = pr_prompt p"
  by (simp_all add: relabel_def)

lemma case_labels [simp]:
  "(case m of None \<Rightarrow> p | Some ls \<Rightarrow> p\<lparr>pr_labels := ls\<rparr>)\<lparr>pr_labels := x\<rparr> = p\<lparr>pr_labels := x\<rparr>"
  "pr_id (case m of None \<Rightarrow> p | Some ls \<Rightarrow> p\<lparr>pr_labels := ls\<rparr>) = pr_id p"
  "pr_id (case m of None \<Rightarrow> p | Some ls \<Rightarrow> p\<lparr>pr_tags := ls\<rparr>) = pr_id p"
  by (cases m; simp)+

lemma updatePrompt_effect:
  assumes ids: "distinct (map pr_id (prompt_rows db))"
  shows "fst (updatePrompt pid name v newLabels db) = db \<or>
    (\<exists>p \<in> set (prompt_rows db). pr_project p = pid \<and> pr_name p = name \<and>
       fst (updatePrompt pid name v newLabels db) = db\<lparr>prompt_rows := map
         (relabel pid name (pr_id p) (set_order (newLabels @ pr_labels p)) newLabels) (prompt_rows db)\<rparr>)"
proof (cases "find (\<lambda>p. pr_version p = v) (versions_of db pid name)")
  case None
  then show ?thesis by (simp add: updatePrompt_def)
next
  case (Some p)
  then have p: "p \<in> set (prompt_rows db)" "pr_project p = pid" "pr_name p = name"
    by (auto simp: find_Some_iff versions_of_def dest: nth_mem)
  define us where "us = removeLabelsFromPreviousPromptVersions db pid name (set_order newLabels)"
  have us: "us = map (\<lambda>p. (pr_id p, filter (\<lambda>l. l \<notin> set newLabels) (pr_labels p)))
       (newest_first (filter (\<lambda>p. list_ex (\<lambda>l. l \<in> set newLabels) (pr_labels p) \<and> True) (versions_of db pid name)))"
    by (simp add: us_def removeLabelsFromPreviousPromptVersions_def)
  note effect = label_updates_effect [OF ids us]
  have row: "(case map_of us (pr_id q) of None \<Rightarrow> q | Some x \<Rightarrow> q\<lparr>pr_labels := x\<rparr>) = strip pid name newLabels q"
    if "q \<in> set (prompt_rows db)" for q
    using effect(2) [OF that, of q] by (simp add: strip_alt)
  have "set_labels (pr_id p, set_order (newLabels @ pr_labels p)) (fold set_labels us db) =
      db\<lparr>prompt_rows := map (relabel pid name (pr_id p) (set_order (newLabels @ pr_labels p)) newLabels) (prompt_rows db)\<rparr>"
    unfolding fold_set_labels [OF effect(1)] set_labels_def update_row_def
    by (auto simp: relabel_def row intro!: prompt_db.equality)
  with p Some show ?thesis
    unfolding updatePrompt_def us_def by (auto simp: Let_def split: sum.splits)
qed

lemma setLabels_effect:
  assumes ids: "distinct (map pr_id (prompt_rows db))"
  shows "fst (setLabels pid i labels db) = db \<or>
    (\<exists>p \<in> set (prompt_rows db). pr_id p = i \<and> pr_project p = pid \<and>
       \<not> (filter (\<lambda>l. l \<notin> set labels) (pr_labels p) \<noteq> [] \<and>
          label_dependents db pid (pr_name p) (filter (\<lambda>l. l \<notin> set labels) (pr_labels p)) \<noteq> []) \<and>
       fst (setLabels pid i labels db) = db\<lparr>prompt_rows := map
         (relabel pid (pr_name p) i (set_order labels) labels) (prompt_rows db)\<rparr>)"
proof (cases "find (\<lambda>p. pr_id p = i \<and> pr_project p = pid) (prompt_rows db)")
  case None
  then show ?thesis by (simp add: setLabels_def)
next
  case (Some p)
  then have p: "p \<in> set (prompt_rows db)" "pr_id p = i" "pr_project p = pid"
    by (auto simp: find_Some_iff)
  let ?new = "set_order labels" and ?name = "pr_name p"
  let ?prev = "newest_first (filter (\<lambda>p. list_ex (\<lambda>l. l \<in> set ?new) (pr_labels p) \<and> pr_id p \<noteq> i) (versions_of db pid ?name))"
  define us where "us = map (\<lambda>p. (pr_id p, filter (\<lambda>l. l \<notin> set ?new) (pr_labels p))) ?prev"
  have us: "us = map (\<lambda>p. (pr_id p, filter (\<lambda>l. l \<notin> set labels) (pr_labels p)))
       (newest_first (filter (\<lambda>p. list_ex (\<lambda>l. l \<in> set labels) (pr_labels p) \<and> pr_id p \<noteq> i) (versions_of db pid ?name)))"
    by (simp add: us_def)
  note effect = label_updates_effect [OF ids us]
  have other: "(case map_of us (pr_id q) of None \<Rightarrow> q | Some x \<Rightarrow> q\<lparr>pr_labels := x\<rparr>) = strip pid ?name labels q"
    if "q \<in> set (prompt_rows db)" "pr_id q \<noteq> i" for q
    using effect(2) [OF that, of q] by (simp add: strip_alt)
  have self: "map_of us i = None" using effect(3) [OF p(1)] p(2) by simp
  have "fold set_labels us (set_labels (i, ?new) db) =
      db\<lparr>prompt_rows := map (relabel pid ?name i ?new labels) (prompt_rows db)\<rparr>"
    unfolding fold_set_labels [OF effect(1)] set_labels_def update_row_def
    by (auto simp: relabel_def other self intro!: prompt_db.equality)
  then have eff: "fst (setLabels pid i labels db) =
      (if filter (\<lambda>l. l \<notin> set labels) (pr_labels p) \<noteq> [] \<and>
          label_dependents db pid ?name (filter (\<lambda>l. l \<notin> set labels) (pr_labels p)) \<noteq> [] then db
       else db\<lparr>prompt_rows := map (relabel pid ?name i ?new labels) (prompt_rows db)\<rparr>)"
    using Some unfolding setLabels_def us_def by (auto simp: Let_def split: sum.splits)
  show ?thesis
  proof (cases "filter (\<lambda>l. l \<notin> set labels) (pr_labels p) \<noteq> [] \<and>
      label_dependents db pid ?name (filter (\<lambda>l. l \<notin> set labels) (pr_labels p)) \<noteq> []")
    case True
    with eff show ?thesis by (simp only: if_True) simp
  next
    case False
    with eff p show ?thesis by (intro disjI2 bexI [of _ p]) (simp_all only: if_False simp_thms)
  qed
qed

text \<open>The tags of the versions of a name.\<close>

definition retag :: "string \<Rightarrow> string \<Rightarrow> string list \<Rightarrow> prompt_row \<Rightarrow> prompt_row" where
  "retag pid name ts p = (if pr_project p = pid \<and> pr_name p = name then p\<lparr>pr_tags := ts\<rparr> else p)"

lemma retag_fields [simp]:
  "pr_id (retag pid name ts p) = pr_id p" "pr_project (retag pid name ts p) = pr_project p"
  "pr_name (retag pid name ts p) = pr_name p" "pr_version (retag pid name ts p) = pr_version p"
  "pr_type (retag pid name ts p) = pr_type p" "pr_labels (retag pid name ts p) = pr_labels p"
  "pr_prompt (retag pid name ts p) = pr_prompt p"
  by (simp_all add: retag_def)

lemma updateTags_effect:
  "fst (updateTags pid name ts db) = db\<lparr>prompt_rows := map (retag pid name ts) (prompt_rows db)\<rparr>"
  by (simp add: updateTags_def Let_def retag_def split: sum.splits)

lemma tag_updates_effect:
  assumes ids: "distinct (map pr_id (prompt_rows db))" and us: "us = updatePromptTagsOnAllVersions db pid name ts"
  shows "distinct (map fst us)"
    and "p \<in> set (prompt_rows db) \<Longrightarrow>
      (case map_of us (pr_id p) of None \<Rightarrow> q | Some x \<Rightarrow> q\<lparr>pr_tags := x\<rparr>) =
      (if pr_project p = pid \<and> pr_name p = name then q\<lparr>pr_tags := set_order ts\<rparr> else q)"
    and "i \<notin> pr_id ` set (prompt_rows db) \<Longrightarrow> map_of us i = None"
proof -
  let ?ps = "versions_of db pid name"
  have d: "distinct (map pr_id ?ps)" using distinct_versions_of [OF ids, of "\<lambda>p. True" pid name] by simp
  then show "distinct (map fst us)" by (simp add: us updatePromptTagsOnAllVersions_def o_def)
  have m: "map_of us i = map_option (\<lambda>p. set_order ts) (find (\<lambda>p. pr_id p = i) ?ps)" for i
    by (simp add: us updatePromptTagsOnAllVersions_def map_of_updates [OF d])
  have f: "find (\<lambda>q. pr_id q = pr_id p) ?ps = (if pr_project p = pid \<and> pr_name p = name then Some p else None)"
    if "p \<in> set (prompt_rows db)" for p
    unfolding versions_of_def by (rule find_id [OF ids that])
  show "p \<in> set (prompt_rows db) \<Longrightarrow>
      (case map_of us (pr_id p) of None \<Rightarrow> q | Some x \<Rightarrow> q\<lparr>pr_tags := x\<rparr>) =
      (if pr_project p = pid \<and> pr_name p = name then q\<lparr>pr_tags := set_order ts\<rparr> else q)"
    by (auto simp: m f)
  show "i \<notin> pr_id ` set (prompt_rows db) \<Longrightarrow> map_of us i = None"
    by (auto simp: m find_None_iff versions_of_def)
qed

text \<open>A created prompt is put behind the rows, which lose its labels and take its tags.\<close>

definition after_create :: "create_params \<Rightarrow> prompt_row option \<Rightarrow> prompt_row \<Rightarrow> prompt_row" where
  "after_create c latest p =
     (let q = strip (cp_project c) (cp_name c) (cp_labels c @ [LATEST_PROMPT_LABEL]) p in
      if haveTagsChanged (final_tags c latest) latest
      then retag (cp_project c) (cp_name c) (set_order (final_tags c latest)) q else q)"

definition created_db :: "create_params \<Rightarrow> string \<Rightarrow> prompt_row option \<Rightarrow> dep_tag list \<Rightarrow> prompt_db \<Rightarrow> prompt_db" where
  "created_db c i latest deps db = \<lparr>prompt_rows = map (after_create c latest) (prompt_rows db) @
       [new_prompt c i latest (set_order (cp_labels c @ [LATEST_PROMPT_LABEL]))],
     dependency_rows = dependency_rows db @ map (row_of_tag (cp_project c) i) deps\<rparr>"

definition creation_checked :: "create_params \<Rightarrow> string \<Rightarrow> prompt_row option \<Rightarrow> dep_tag list \<Rightarrow> prompt_db \<Rightarrow> bool" where
  "creation_checked c i latest deps db \<longleftrightarrow>
     latest = find_latest (versions_of db (cp_project c) (cp_name c)) \<and>
     (case latest of None \<Rightarrow> True | Some l \<Rightarrow> pr_type l = cp_type c) \<and>
     those (map dep_of_tag (parsePromptDependencyTags (cp_prompt c))) = Some deps \<and>
     \<not> isl (buildAndResolvePromptGraph db (cp_project c) (new_prompt c i latest (cp_labels c)) (Some deps)) \<and>
     \<not> row_clash db (new_prompt c i latest (set_order (cp_labels c @ [LATEST_PROMPT_LABEL])))"

lemma create_transaction_effect:
  assumes ids: "distinct (map pr_id (prompt_rows db))" and fresh: "i \<notin> pr_id ` set (prompt_rows db)"
    and ls: "ls = removeLabelsFromPreviousPromptVersions db (cp_project c) (cp_name c) (cp_labels c @ [LATEST_PROMPT_LABEL])"
    and ts: "ts = (if haveTagsChanged (final_tags c latest) latest
      then updatePromptTagsOnAllVersions db (cp_project c) (cp_name c) (final_tags c latest) else [])"
  shows "create_transaction c i latest deps ls ts db = created_db c i latest deps db"
proof -
  let ?fl = "cp_labels c @ [LATEST_PROMPT_LABEL]"
  have ls': "ls = map (\<lambda>p. (pr_id p, filter (\<lambda>l. l \<notin> set ?fl) (pr_labels p)))
       (newest_first (filter (\<lambda>p. list_ex (\<lambda>l. l \<in> set ?fl) (pr_labels p) \<and> True) (versions_of db (cp_project c) (cp_name c))))"
    by (simp add: ls removeLabelsFromPreviousPromptVersions_def)
  note labels = label_updates_effect [OF ids ls']
  have row: "(case map_of ls (pr_id q) of None \<Rightarrow> q | Some x \<Rightarrow> q\<lparr>pr_labels := x\<rparr>) = strip (cp_project c) (cp_name c) ?fl q"
    if "q \<in> set (prompt_rows db)" for q
    using labels(2) [OF that, of q] by (simp only: simp_thms strip_alt)
  have new: "map_of ls i = None" using labels(4) [OF fresh] .
  have tags: "(case map_of ts (pr_id p) of None \<Rightarrow> strip (cp_project c) (cp_name c) ?fl p
       | Some x \<Rightarrow> (strip (cp_project c) (cp_name c) ?fl p)\<lparr>pr_tags := x\<rparr>) = after_create c latest p"
    if p: "p \<in> set (prompt_rows db)" for p
  proof (cases "haveTagsChanged (final_tags c latest) latest")
    case True
    then show ?thesis
      unfolding ts if_P [OF True] tag_updates_effect(2) [OF ids refl p] after_create_def Let_def
      by (simp add: retag_def)
  next
    case False
    then show ?thesis by (simp add: ts after_create_def Let_def)
  qed
  have both: "(case map_of ts (pr_id p) of
         None \<Rightarrow> (case map_of ls (pr_id p) of None \<Rightarrow> p | Some x \<Rightarrow> p\<lparr>pr_labels := x\<rparr>)
       | Some y \<Rightarrow> (case map_of ls (pr_id p) of None \<Rightarrow> p | Some x \<Rightarrow> p\<lparr>pr_labels := x\<rparr>)\<lparr>pr_tags := y\<rparr>) = after_create c latest p"
    if p: "p \<in> set (prompt_rows db)" for p
    unfolding row [OF p] by (rule tags [OF p])
  have ts_ok: "distinct (map fst ts)" "map_of ts i = None"
    using tag_updates_effect [OF ids, of ts "cp_project c" "cp_name c" "final_tags c latest"] fresh
    by (auto simp: ts)
  show ?thesis
    unfolding create_transaction_def fold_set_tags [OF ts_ok(1)] fold_set_labels [OF labels(1)] created_db_def
    by (auto simp: insert_row_def insert_deps_def new_prompt_def new ts_ok both intro!: prompt_db.equality)
qed

lemma createPrompt_effect:
  assumes ids: "distinct (map pr_id (prompt_rows db))" and fresh: "i \<notin> pr_id ` set (prompt_rows db)"
  shows "fst (createPrompt c i db) = db \<or>
    (\<exists>latest deps. creation_checked c i latest deps db \<and> fst (createPrompt c i db) = created_db c i latest deps db)"
proof -
  note effect = create_transaction_effect [OF ids fresh refl refl, of c]
  let ?latest = "find_latest (versions_of db (cp_project c) (cp_name c))"
  show ?thesis
  proof (cases "(case ?latest of None \<Rightarrow> False | Some l \<Rightarrow> pr_type l \<noteq> cp_type c) \<or>
      conflictingNames (cp_type c) (cp_prompt c) \<noteq> []")
    case True
    then show ?thesis by (auto simp: createPrompt_def Let_def)
  next
    case False
    then have g: "\<not> (case ?latest of None \<Rightarrow> False | Some l \<Rightarrow> pr_type l \<noteq> cp_type c)"
      "\<not> conflictingNames (cp_type c) (cp_prompt c) \<noteq> []" by blast+
    have ty: "case ?latest of None \<Rightarrow> True | Some l \<Rightarrow> pr_type l = cp_type c" using g(1) by (auto split: option.splits)
    note parts = createPrompt_def [of c i db, unfolded Let_def if_not_P [OF g(1)] if_not_P [OF g(2)]]
    show ?thesis
    proof (cases "those (map dep_of_tag (parsePromptDependencyTags (cp_prompt c)))")
      case None
      then show ?thesis by (simp add: parts)
    next
      case (Some deps)
      show ?thesis
      proof (cases "isl (buildAndResolvePromptGraph db (cp_project c) (new_prompt c i ?latest (cp_labels c)) (Some deps)) \<or>
          row_clash db (new_prompt c i ?latest (set_order (cp_labels c @ [LATEST_PROMPT_LABEL])))")
        case True
        then show ?thesis using Some by (auto simp: parts isl_def split: sum.splits)
      next
        case False
        then have "creation_checked c i ?latest deps db" using Some ty by (simp add: creation_checked_def)
        moreover obtain x where x: "buildAndResolvePromptGraph db (cp_project c) (new_prompt c i ?latest (cp_labels c)) (Some deps) = Inr x"
          using False by (cases "buildAndResolvePromptGraph db (cp_project c) (new_prompt c i ?latest (cp_labels c)) (Some deps)") auto
        moreover have nc: "\<not> row_clash db (new_prompt c i ?latest (set_order (cp_labels c @ [LATEST_PROMPT_LABEL])))"
          using False by blast
        moreover have "fst (createPrompt c i db) = created_db c i ?latest deps db"
          unfolding parts Some x option.case sum.case if_not_P [OF nc] effect by (simp split: sum.split)
        ultimately show ?thesis by blast
      qed
    qed
  qed
qed

definition relabel_one :: "(string \<times> string list) option \<Rightarrow> prompt_db \<Rightarrow> prompt_db" where
  "relabel_one u db = (case u of None \<Rightarrow> db | Some x \<Rightarrow> set_labels x db)"

text \<open>The row the label \<open>latest\<close> goes to when the versions that are deleted have it.\<close>

definition latest_moves :: "prompt_db \<Rightarrow> string \<Rightarrow> string \<Rightarrow> prompt_row list \<Rightarrow> (string \<times> string list) option \<Rightarrow> bool" where
  "latest_moves db pid name ps u \<longleftrightarrow>
     (let remaining = filter (\<lambda>p. pr_id p \<notin> set (map pr_id ps)) (versions_of db pid name) in
      if list_ex (\<lambda>p. LATEST_PROMPT_LABEL \<in> set (pr_labels p)) ps \<and>
         \<not> list_ex (\<lambda>p. LATEST_PROMPT_LABEL \<in> set (pr_labels p)) remaining \<and> remaining \<noteq> []
      then \<exists>h \<in> set remaining. (\<forall>q \<in> set remaining. pr_version q \<le> pr_version h) \<and>
             (\<exists>ls. u = Some (pr_id h, ls) \<and> set ls = insert LATEST_PROMPT_LABEL (set (pr_labels h)))
      else u = None)"

lemma highest_version_max:
  assumes "ps \<noteq> []"
  shows "highest_version ps \<in> set ps \<and> (\<forall>q \<in> set ps. pr_version q \<le> pr_version (highest_version ps))"
proof -
  have "fold (\<lambda>v m. if pr_version m < pr_version v then v else m) qs m \<in> insert m (set qs) \<and>
      (\<forall>q \<in> insert m (set qs). pr_version q \<le> pr_version (fold (\<lambda>v m. if pr_version m < pr_version v then v else m) qs m))"
    for qs m
  proof (induction qs arbitrary: m)
    case (Cons v qs)
    show ?case using Cons.IH [of "if pr_version m < pr_version v then v else m"] by (auto split: if_splits)
  qed simp
  from this [of "tl ps" "hd ps"] show ?thesis using assms by (cases ps) (auto simp: highest_version_def)
qed

lemma find_latest_props:
  "find_latest ps = None \<longleftrightarrow> ps = []"
  "find_latest ps = Some l \<Longrightarrow> l \<in> set ps \<and> (\<forall>q \<in> set ps. pr_version q \<le> pr_version l)"
proof -
  have s: "sorted (map pr_version (sort_key pr_version ps))" by simp
  show "find_latest ps = None \<longleftrightarrow> ps = []"
    using set_newest_first [of ps] by (cases "newest_first ps") (auto simp: find_latest_def)
  assume "find_latest ps = Some l"
  then obtain r where r: "newest_first ps = l # r" by (auto simp: find_latest_def split: list.splits)
  then have sk: "sort_key pr_version ps = rev r @ [l]" by (metis newest_first_def rev_rev_ident rev.simps(2))
  have "\<forall>q \<in> set (rev r @ [l]). pr_version q \<le> pr_version l"
    using s unfolding sk by (auto simp: sorted_append)
  moreover have "set (rev r @ [l]) = set ps" using r set_newest_first [of ps] by auto
  ultimately show "l \<in> set ps \<and> (\<forall>q \<in> set ps. pr_version q \<le> pr_version l)" by auto
qed

lemma set_labels_delete_rows: "set_labels u (delete_rows is db) = delete_rows is (set_labels u db)"
  by (auto simp: set_labels_def update_row_def delete_rows_def filter_map o_def
      intro!: arg_cong [where f = "map _"] filter_cong)

lemma deletePrompt_effect:
  assumes ids: "distinct (map pr_id (prompt_rows db))" and ps: "set ps \<subseteq> set (versions_of db pid name)"
  shows "fst (deletePrompt True True pid name version lbl ps db) = db \<or>
    (\<exists>u. latest_moves db pid name ps u \<and>
       (\<forall>d \<in> set (dependency_rows db). dp_project d = pid \<longrightarrow> dp_childName d = name \<longrightarrow>
          \<not> blocks_deletion ps (filter (\<lambda>p. pr_id p \<notin> pr_id ` set ps) (versions_of db pid name)) d) \<and>
       fst (deletePrompt True True pid name version lbl ps db) = relabel_one u (delete_rows (map pr_id ps) db))"
proof -
  let ?rem = "filter (\<lambda>p. pr_id p \<notin> set (map pr_id ps)) (versions_of db pid name)"
  let ?move = "list_ex (\<lambda>p. LATEST_PROMPT_LABEL \<in> set (pr_labels p)) ps \<and>
         \<not> list_ex (\<lambda>p. LATEST_PROMPT_LABEL \<in> set (pr_labels p)) ?rem \<and> ?rem \<noteq> []"
  define u where "u = (if ?move then Some (pr_id (highest_version ?rem),
     set_order (pr_labels (highest_version ?rem) @ [LATEST_PROMPT_LABEL])) else None)"
  have rel: "(if ?move then set_labels (pr_id (highest_version ?rem),
     set_order (pr_labels (highest_version ?rem) @ [LATEST_PROMPT_LABEL])) db else db) = relabel_one u db"
    by (simp add: u_def relabel_one_def)
  have moves: "latest_moves db pid name ps u"
    using highest_version_max [of ?rem] unfolding latest_moves_def u_def Let_def
    by (cases ?move) (auto intro!: bexI [of _ "highest_version ?rem"])
  have keys: "map pr_id (prompt_rows (relabel_one u db)) = map pr_id (prompt_rows db)"
    "dependency_rows (relabel_one u db) = dependency_rows db"
    "map (\<lambda>p. (pr_id p, pr_project p)) (prompt_rows (relabel_one u db)) = map (\<lambda>p. (pr_id p, pr_project p)) (prompt_rows db)"
    by (auto simp: relabel_one_def set_labels_def update_row_def split: option.splits)
  have inproj: "pr_project p = pid" if a: "p \<in> set (prompt_rows (relabel_one u db))" and b: "pr_id p \<in> pr_id ` set ps" for p
  proof -
    have "(pr_id p, pr_project p) \<in> set (map (\<lambda>p. (pr_id p, pr_project p)) (prompt_rows db))"
      using a unfolding keys(3) [symmetric] by auto
    then obtain q where q: "q \<in> set (prompt_rows db)" "pr_id q = pr_id p" "pr_project q = pr_project p" by auto
    obtain r where r: "r \<in> set ps" "pr_id r = pr_id p" using b by auto
    have "r \<in> set (prompt_rows db)" "pr_project r = pid" using ps r by (auto simp: versions_of_def)
    with same_id [OF ids] q r show ?thesis by metis
  qed
  have present: "\<exists>p \<in> set (prompt_rows (relabel_one u db)). pr_id p = i" if "i \<in> pr_id ` set ps" for i
  proof -
    have "i \<in> set (map pr_id (prompt_rows db))" using that ps by (auto simp: versions_of_def)
    then show ?thesis unfolding keys(1) [symmetric] by auto
  qed
  have del: "(relabel_one u db)\<lparr>prompt_rows := filter (\<lambda>p. \<not> (pr_project p = pid \<and> pr_id p \<in> set (map pr_id ps))) (prompt_rows (relabel_one u db)),
      dependency_rows := filter (\<lambda>d. dp_parent d \<notin> pr_id ` set (filter (\<lambda>p. pr_project p = pid \<and>
         pr_id p \<in> set (map pr_id ps)) (prompt_rows (relabel_one u db)))) (dependency_rows (relabel_one u db))\<rparr> =
      relabel_one u (delete_rows (map pr_id ps) db)" (is "?new = _")
  proof -
    have "pr_id ` set (filter (\<lambda>p. pr_project p = pid \<and> pr_id p \<in> set (map pr_id ps)) (prompt_rows (relabel_one u db))) =
        pr_id ` set ps" (is "pr_id ` set ?f = _")
    proof
      show "pr_id ` set ?f \<subseteq> pr_id ` set ps" by auto
      show "pr_id ` set ps \<subseteq> pr_id ` set ?f"
      proof
        fix i
        assume i: "i \<in> pr_id ` set ps"
        then obtain p where p: "p \<in> set (prompt_rows (relabel_one u db))" "pr_id p = i" using present by blast
        have "pr_project p = pid" using inproj [OF p(1)] i p(2) by simp
        with p i show "i \<in> pr_id ` set ?f" by (intro image_eqI [of _ _ p]) auto
      qed
    qed
    then have parents: "dp_parent d \<notin> pr_id ` set ?f \<longleftrightarrow> dp_parent d \<notin> set (map pr_id ps)" for d by simp
    have rows: "\<not> (pr_project p = pid \<and> pr_id p \<in> set (map pr_id ps)) \<longleftrightarrow> pr_id p \<notin> set (map pr_id ps)"
      if "p \<in> set (prompt_rows (relabel_one u db))" for p
      using inproj [OF that] by auto
    have f: "filter (\<lambda>p. pr_project p = pid \<longrightarrow> pr_id p \<notin> pr_id ` set ps) (prompt_rows (relabel_one u db)) =
        filter (\<lambda>p. pr_id p \<notin> pr_id ` set ps) (prompt_rows (relabel_one u db))"
      using rows by (intro filter_cong) auto
    have "?new = delete_rows (map pr_id ps) (relabel_one u db)"
      unfolding delete_rows_def parents
      by (intro prompt_db.equality) (simp_all add: f)
    also have "\<dots> = relabel_one u (delete_rows (map pr_id ps) db)"
      by (cases u) (simp_all add: relabel_one_def set_labels_delete_rows)
    finally show ?thesis .
  qed
  show ?thesis
    using moves
    unfolding deletePrompt_def reattach_latest_def moves_latest_def delete_many_def Let_def rel del
    by (auto simp: filter_empty_conv)
qed

lemma requested_versions_of: "set (requested_versions db pid name v l) \<subseteq> set (versions_of db pid name)"
  by (auto simp: requested_versions_def)

lemma delete_all_effect:
  "fst (delete_all pid name db) = db \<or>
   (\<forall>d \<in> set (dependency_rows db). dp_project d = pid \<longrightarrow> dp_childName d = name \<longrightarrow>
      \<not> (\<exists>p \<in> set (prompt_rows db). pr_id p = dp_parent d \<and> pr_project p = pid)) \<and>
   fst (delete_all pid name db) = delete_rows (map pr_id (versions_of db pid name)) db"
  by (auto simp: delete_all_def Let_def list_ex_iff filter_empty_conv split: sum.splits)

lemma delete_version_effect:
  assumes ids: "distinct (map pr_id (prompt_rows db))" and labels: "labels_unique (prompt_rows db)"
  shows "fst (delete_version pid i db) = db \<or>
    (\<exists>p u. p \<in> set (prompt_rows db) \<and> pr_id p = i \<and> pr_project p = pid \<and>
       latest_moves db pid (pr_name p) [p] u \<and>
       (pr_labels p \<noteq> [] \<longrightarrow> (\<forall>d \<in> set (dependency_rows db). dp_project d = pid \<longrightarrow> dp_childName d = pr_name p \<longrightarrow>
          (\<exists>q \<in> set (prompt_rows db). pr_id q = dp_parent d \<and> pr_project q = pid) \<longrightarrow>
          dp_childVersion d \<noteq> Some (pr_version p) \<and>
          (case dp_childLabel d of None \<Rightarrow> True | Some l \<Rightarrow> l \<notin> set (pr_labels p)))) \<and>
       fst (delete_version pid i db) = relabel_one u (delete_rows [i] db))"
proof (cases "find (\<lambda>p. pr_id p = i \<and> pr_project p = pid) (prompt_rows db)")
  case None
  then show ?thesis by (simp add: delete_version_def)
next
  case (Some p)
  then have p: "p \<in> set (prompt_rows db)" "pr_id p = i" "pr_project p = pid" by (auto simp: find_Some_iff)
  define rem where "rem = filter (\<lambda>q. pr_id q \<noteq> i) (versions_of db pid (pr_name p))"
  define deps where "deps = filter (\<lambda>d. list_ex (\<lambda>q. pr_id q = dp_parent d \<and> pr_project q = pid) (prompt_rows db) \<and>
      dp_project d = pid \<and> dp_childName d = pr_name p \<and> (dp_childVersion d = Some (pr_version p) \<or>
      (case dp_childLabel d of None \<Rightarrow> False | Some l \<Rightarrow> l \<in> set (pr_labels p)))) (dependency_rows db)"
  define u where "u = map_option (\<lambda>n. (pr_id n, pr_labels n @ [LATEST_PROMPT_LABEL]))
     (if LATEST_PROMPT_LABEL \<in> set (pr_labels p) then find_latest rem else None)"
  have none: "LATEST_PROMPT_LABEL \<notin> set (pr_labels q)" if "LATEST_PROMPT_LABEL \<in> set (pr_labels p)" "q \<in> set rem" for q
  proof
    assume "LATEST_PROMPT_LABEL \<in> set (pr_labels q)"
    then have "pr_id p = pr_id q"
      using p that by (intro labels_uniqueD [OF labels]) (auto simp: rem_def versions_of_def same_name_def)
    with that p show False by (simp add: rem_def)
  qed
  have moves: "latest_moves db pid (pr_name p) [p] u"
    using none find_latest_props [of rem] p(2)
    by (cases "find_latest rem") (auto simp: latest_moves_def u_def rem_def [symmetric] list_ex_iff Let_def intro!: bexI)
  have eff: "fst (delete_version pid i db) = (if pr_labels p \<noteq> [] \<and> deps \<noteq> [] then db else relabel_one u (delete_rows [i] db))"
    using Some unfolding delete_version_def deps_def [symmetric] u_def rem_def [symmetric] relabel_one_def
    by (simp add: Let_def deps_def [symmetric] rem_def [symmetric] split: sum.split option.split)
  have "dp_childVersion d \<noteq> Some (pr_version p) \<and>
      (case dp_childLabel d of None \<Rightarrow> True | Some l \<Rightarrow> l \<notin> set (pr_labels p))"
    if "deps = []" "d \<in> set (dependency_rows db)" "dp_project d = pid" "dp_childName d = pr_name p"
      "\<exists>q \<in> set (prompt_rows db). pr_id q = dp_parent d \<and> pr_project q = pid" for d
    using that by (auto simp: deps_def filter_empty_conv list_ex_iff split: option.splits)
  note free = this
  show ?thesis
  proof (cases "pr_labels p \<noteq> [] \<and> deps \<noteq> []")
    case True
    with eff show ?thesis by simp
  next
    case False
    then have "pr_labels p \<noteq> [] \<Longrightarrow> deps = []" by blast
    with free have "pr_labels p \<noteq> [] \<longrightarrow> (\<forall>d \<in> set (dependency_rows db). dp_project d = pid \<longrightarrow> dp_childName d = pr_name p \<longrightarrow>
          (\<exists>q \<in> set (prompt_rows db). pr_id q = dp_parent d \<and> pr_project q = pid) \<longrightarrow>
          dp_childVersion d \<noteq> Some (pr_version p) \<and>
          (case dp_childLabel d of None \<Rightarrow> True | Some l \<Rightarrow> l \<notin> set (pr_labels p)))" by simp
    moreover have "fst (delete_version pid i db) = relabel_one u (delete_rows [i] db)"
      using eff unfolding if_not_P [OF False] .
    ultimately show ?thesis using moves p by (intro disjI2 exI [of _ p] exI [of _ u]) simp
  qed
qed

definition duplicated_db :: "string \<Rightarrow> bool \<Rightarrow> (string \<Rightarrow> string) \<Rightarrow> prompt_row list \<Rightarrow> string \<Rightarrow> prompt_db \<Rightarrow> prompt_db" where
  "duplicated_db name single newId ps pid db = \<lparr>prompt_rows = prompt_rows db @ map (duplicated_row newId name single) ps,
     dependency_rows = dependency_rows db @ concat (map (\<lambda>p. map (\<lambda>d. d\<lparr>dp_project := pid, dp_parent := newId (pr_id p)\<rparr>)
       (filter (\<lambda>d. dp_parent d = pr_id p) (dependency_rows db))) ps)\<rparr>"

lemma fold_insert_row: "fold insert_row ps db = db\<lparr>prompt_rows := prompt_rows db @ ps\<rparr>"
  by (induction ps arbitrary: db) (simp_all add: insert_row_def)

lemma duplicatePrompt_effect:
  "fst (duplicatePrompt pid i name single newId db) = db \<or>
   (\<exists>src ps. versions_of db pid name = [] \<and> src \<in> set (prompt_rows db) \<and> pr_id src = i \<and> pr_project src = pid \<and>
      ps = filter (\<lambda>p. single \<longrightarrow> pr_version p = pr_version src) (versions_of db pid (pr_name src)) \<and>
      fst (duplicatePrompt pid i name single newId db) = duplicated_db name single newId ps pid db)"
proof (cases "versions_of db pid name \<noteq> [] \<or> find (\<lambda>p. pr_id p = i \<and> pr_project p = pid) (prompt_rows db) = None")
  case True
  then show ?thesis by (auto simp: duplicatePrompt_def)
next
  case False
  then obtain src where src: "find (\<lambda>p. pr_id p = i \<and> pr_project p = pid) (prompt_rows db) = Some src"
    and new: "versions_of db pid name = []" by auto
  then have p: "src \<in> set (prompt_rows db)" "pr_id src = i" "pr_project src = pid" by (auto simp: find_Some_iff)
  define ps where "ps = filter (\<lambda>p. single \<longrightarrow> pr_version p = pr_version src) (versions_of db pid (pr_name src))"
  have "fst (duplicatePrompt pid i name single newId db) =
      (if list_ex (row_clash db) (map (duplicated_row newId name single) ps) then db
       else duplicated_db name single newId ps pid db)"
    using src new unfolding duplicatePrompt_def duplicated_db_def ps_def [symmetric] fold_insert_row insert_deps_def
    by (simp add: Let_def ps_def [symmetric] split: sum.split option.split)
  then show ?thesis using p new ps_def by (cases "list_ex (row_clash db) (map (duplicated_row newId name single) ps)") auto
qed

section \<open>Each kind of change keeps the invariant\<close>

lemma store_okD:
  assumes "store_ok db"
  shows "distinct (map pr_id (prompt_rows db))" "versions_unique (prompt_rows db)" "labels_unique (prompt_rows db)"
    "all_same pr_type (prompt_rows db)" "all_same (\<lambda>p. set (pr_tags p)) (prompt_rows db)" "parents_exist db"
    "\<forall>p \<in> set (prompt_rows db). 0 < pr_version p"
  using assms by (simp_all add: store_ok_def)

definition keeps_keys :: "(prompt_row \<Rightarrow> prompt_row) \<Rightarrow> bool" where
  "keeps_keys f \<longleftrightarrow> (\<forall>p. pr_id (f p) = pr_id p \<and> pr_project (f p) = pr_project p \<and> pr_name (f p) = pr_name p \<and>
     pr_version (f p) = pr_version p \<and> pr_type (f p) = pr_type p)"

lemma keeps_keysD:
  "keeps_keys f \<Longrightarrow> pr_id (f p) = pr_id p" "keeps_keys f \<Longrightarrow> pr_project (f p) = pr_project p"
  "keeps_keys f \<Longrightarrow> pr_name (f p) = pr_name p" "keeps_keys f \<Longrightarrow> pr_version (f p) = pr_version p"
  "keeps_keys f \<Longrightarrow> pr_type (f p) = pr_type p" "keeps_keys f \<Longrightarrow> same_name (f p) (f q) = same_name p q"
  by (simp_all add: keeps_keys_def same_name_def)

lemma store_ok_map:
  assumes ok: "store_ok db" and f: "keeps_keys f"
    and labels: "labels_unique (map f (prompt_rows db))" and tags: "all_same (\<lambda>p. set (pr_tags p)) (map f (prompt_rows db))"
  shows "store_ok (db\<lparr>prompt_rows := map f (prompt_rows db)\<rparr>)"
proof -
  note parts = store_okD [OF ok] and keys = keeps_keysD [OF f]
  have "distinct (map pr_id (map f (prompt_rows db)))" using parts(1) by (simp add: o_def keys)
  moreover have "versions_unique (map f (prompt_rows db))"
    using parts(2) by (auto simp: versions_unique_def one_id_def keys)
  moreover have "all_same pr_type (map f (prompt_rows db))"
    using parts(4) by (auto simp: all_same_def keys)
  moreover have "parents_exist (db\<lparr>prompt_rows := map f (prompt_rows db)\<rparr>)"
    using parts(6) by (auto simp: parents_exist_def keys)
  moreover have "\<forall>p \<in> set (map f (prompt_rows db)). 0 < pr_version p" using parts(7) by (auto simp: keys)
  ultimately show ?thesis using labels tags by (simp add: store_ok_def)
qed

lemma all_same_map:
  "keeps_keys f \<Longrightarrow> (\<And>p. p \<in> set ps \<Longrightarrow> g (f p) = g p) \<Longrightarrow> all_same g ps \<Longrightarrow> all_same g (map f ps)"
  by (auto simp: all_same_def keeps_keysD)

lemma relabel_keeps: "keeps_keys (relabel pid name i new ls)" "keeps_keys (strip pid name ls)" "keeps_keys (retag pid name ts)"
  by (simp_all add: keeps_keys_def)

lemma relabel_labels:
  assumes labels: "labels_unique ps" and p: "p \<in> set ps" "pr_id p = i" "pr_project p = pid" "pr_name p = name"
    and ids: "distinct (map pr_id ps)" and new: "set new \<subseteq> set ls \<union> set (pr_labels p)"
  shows "labels_unique (map (relabel pid name i new ls) ps)"
proof -
  let ?f = "relabel pid name i new ls"
  have self: "a = p \<and> l \<in> set new" if "a \<in> set ps" "pr_id a = i" "l \<in> set (pr_labels (?f a))" for a l
    using same_id [OF ids that(1) p(1)] that p(2) by (simp add: relabel_def)
  have other: "l \<in> set (pr_labels b) \<and> (same_name p b \<longrightarrow> l \<notin> set ls)"
    if "pr_id b \<noteq> i" "l \<in> set (pr_labels (?f b))" for b l
    using that p(3,4) by (auto simp: relabel_def strip_def same_name_def split: if_splits)
  have mix: False
    if b: "b \<in> set ps" "pr_id b \<noteq> i" "same_name p b" and l: "l \<in> set (pr_labels (?f b))" "l \<in> set new" for b l
  proof -
    have "l \<in> set (pr_labels b)" "l \<in> set (pr_labels p)" using other [OF b(2) l(1)] b(3) l(2) new by auto
    then show False using labels_uniqueD [OF labels p(1) b(1) b(3)] p(2) b(2) by auto
  qed
  have "pr_id q = pr_id r" if q: "q \<in> set ps" and r: "r \<in> set ps" and s: "same_name q r"
    and lq: "l \<in> set (pr_labels (?f q))" and lr: "l \<in> set (pr_labels (?f r))" for q r l
  proof (cases "pr_id q = i"; cases "pr_id r = i")
    assume "pr_id q \<noteq> i" "pr_id r \<noteq> i"
    then show ?thesis using other lq lr labels_uniqueD [OF labels q r s] by blast
  next
    assume i: "pr_id q = i" "pr_id r \<noteq> i"
    with self [OF q _ lq] s mix [OF r _ _ lr] show ?thesis by blast
  next
    assume i: "pr_id q \<noteq> i" "pr_id r = i"
    have "same_name r q" using s by (simp add: same_name_def)
    with i self [OF r _ lr] mix [OF q _ _ lq] show ?thesis by blast
  qed simp
  then have "pr_id (?f q) = pr_id (?f r)" if "q \<in> set ps" "r \<in> set ps" "same_name (?f q) (?f r)"
    "set (pr_labels (?f q)) \<inter> set (pr_labels (?f r)) \<noteq> {}" for q r
    using that by (auto simp only: keeps_keysD [OF relabel_keeps(1)] Int_iff)
  then show ?thesis unfolding labels_unique_def one_id_def by (simp only: set_map ball_simps) blast
qed

lemma relabel_ok:
  assumes ok: "store_ok db" and p: "p \<in> set (prompt_rows db)" and new: "set new \<subseteq> set ls \<union> set (pr_labels p)"
  shows "store_ok (db\<lparr>prompt_rows := map (relabel (pr_project p) (pr_name p) (pr_id p) new ls) (prompt_rows db)\<rparr>)"
  using store_okD [OF ok] p new
  by (intro store_ok_map [OF ok relabel_keeps(1)] relabel_labels all_same_map [OF relabel_keeps(1)]) auto

lemma retag_ok:
  assumes ok: "store_ok db"
  shows "store_ok (db\<lparr>prompt_rows := map (retag pid name ts) (prompt_rows db)\<rparr>)"
proof (rule store_ok_map [OF ok relabel_keeps(3)])
  show "labels_unique (map (retag pid name ts) (prompt_rows db))"
    using store_okD(3) [OF ok] by (auto simp: labels_unique_def one_id_def keeps_keysD [OF relabel_keeps(3)])
  show "all_same (\<lambda>p. set (pr_tags p)) (map (retag pid name ts) (prompt_rows db))"
  proof (rule all_same_mapI)
    fix p q
    assume p: "p \<in> set (prompt_rows db)" and q: "q \<in> set (prompt_rows db)"
      and "same_name (retag pid name ts p) (retag pid name ts q)"
    then have same: "same_name p q" by (simp add: same_name_def)
    then show "set (pr_tags (retag pid name ts p)) = set (pr_tags (retag pid name ts q))"
      using all_sameD [OF store_okD(5) [OF ok] p q same] by (simp add: retag_def same_name_def)
  qed
qed

lemma delete_rows_ok:
  assumes "store_ok db"
  shows "store_ok (delete_rows is db)"
proof -
  note parts = store_okD [OF assms]
  have "parents_exist (delete_rows is db)"
    unfolding parents_exist_def
  proof
    fix d
    assume "d \<in> set (dependency_rows (delete_rows is db))"
    then have d: "d \<in> set (dependency_rows db)" "dp_parent d \<notin> set is" by (simp_all add: delete_rows_def)
    then obtain p where "p \<in> set (prompt_rows db)" "pr_id p = dp_parent d" "pr_project p = dp_project d"
      using parts(6) unfolding parents_exist_def by blast
    with d show "\<exists>p \<in> set (prompt_rows (delete_rows is db)). pr_id p = dp_parent d \<and> pr_project p = dp_project d"
      by (intro bexI [of _ p]) (simp_all add: delete_rows_def)
  qed
  moreover have "versions_unique (prompt_rows (delete_rows is db))"
    unfolding versions_unique_def one_id_def using versions_uniqueD [OF parts(2)] by (simp add: delete_rows_def)
  moreover have "labels_unique (prompt_rows (delete_rows is db))"
    unfolding labels_unique_def one_id_def using parts(3) by (simp add: delete_rows_def labels_unique_def one_id_def)
  moreover have "all_same g (prompt_rows (delete_rows is db))" if "all_same g (prompt_rows db)" for g :: "prompt_row \<Rightarrow> 'a"
    using that by (simp add: delete_rows_def all_same_def)
  moreover have "distinct (map pr_id (prompt_rows (delete_rows is db)))"
    using parts(1) by (simp add: delete_rows_def distinct_map_filter)
  moreover have "\<forall>p \<in> set (prompt_rows (delete_rows is db)). 0 < pr_version p"
    using parts(7) by (simp add: delete_rows_def)
  moreover have "all_same g (prompt_rows (delete_rows is db))" if "all_same g (prompt_rows db)" for g :: "prompt_row \<Rightarrow> 'b"
    using that by (simp add: delete_rows_def all_same_def)
  moreover have "all_same (\<lambda>p. set (pr_tags p)) (prompt_rows (delete_rows is db))"
    using parts(5) by (simp add: delete_rows_def all_same_def)
  moreover have "all_same pr_type (prompt_rows (delete_rows is db))"
    using parts(4) by (simp add: delete_rows_def all_same_def)
  ultimately show ?thesis by (simp add: store_ok_def)
qed

lemma set_labels_relabel:
  assumes "\<And>q. q \<in> set (prompt_rows db) \<Longrightarrow> pr_id q \<noteq> i \<Longrightarrow> pr_project q = pid \<Longrightarrow> pr_name q = name \<Longrightarrow>
      set (pr_labels q) \<inter> set ls = {}"
  shows "set_labels (i, new) db = db\<lparr>prompt_rows := map (relabel pid name i new ls) (prompt_rows db)\<rparr>"
proof -
  have "strip pid name ls q = q" if "q \<in> set (prompt_rows db)" "pr_id q \<noteq> i" for q
  proof -
    have "filter (\<lambda>l. l \<notin> set ls) (pr_labels q) = pr_labels q" if "pr_project q = pid" "pr_name q = name"
      using assms [OF \<open>q \<in> set (prompt_rows db)\<close> \<open>pr_id q \<noteq> i\<close> that] by (auto simp: filter_id_conv)
    then show ?thesis by (simp add: strip_def)
  qed
  then show ?thesis by (auto simp: set_labels_def update_row_def relabel_def intro!: prompt_db.equality)
qed

lemma moved_latest:
  assumes moves: "latest_moves db pid name ps (Some u)"
  obtains h where "h \<in> set (prompt_rows db)" "pr_id h \<notin> pr_id ` set ps" "pr_project h = pid" "pr_name h = name"
    "fst u = pr_id h" "set (snd u) = insert LATEST_PROMPT_LABEL (set (pr_labels h))"
    "\<And>q. q \<in> set (prompt_rows db) \<Longrightarrow> pr_id q \<notin> pr_id ` set ps \<Longrightarrow> pr_project q = pid \<Longrightarrow> pr_name q = name \<Longrightarrow>
       pr_version q \<le> pr_version h \<and> LATEST_PROMPT_LABEL \<notin> set (pr_labels q)"
proof -
  define rem where "rem = filter (\<lambda>p. pr_id p \<notin> set (map pr_id ps)) (versions_of db pid name)"
  let ?move = "list_ex (\<lambda>p. LATEST_PROMPT_LABEL \<in> set (pr_labels p)) ps \<and>
         \<not> list_ex (\<lambda>p. LATEST_PROMPT_LABEL \<in> set (pr_labels p)) rem \<and> rem \<noteq> []"
  note m = moves [unfolded latest_moves_def rem_def [symmetric] Let_def]
  have move: ?move by (rule ccontr) (use m in \<open>simp only: if_False option.distinct\<close>)
  from m [unfolded if_P [OF move]] obtain h ls where h: "h \<in> set rem" and most: "\<forall>q \<in> set rem. pr_version q \<le> pr_version h"
    and u: "u = (pr_id h, ls)" "set ls = insert LATEST_PROMPT_LABEL (set (pr_labels h))"
    by blast
  have rem: "q \<in> set rem \<longleftrightarrow> q \<in> set (prompt_rows db) \<and> pr_project q = pid \<and> pr_name q = name \<and> pr_id q \<notin> pr_id ` set ps"
    for q by (auto simp: rem_def versions_of_def)
  show thesis
  proof (rule that [of h])
    fix q
    assume "q \<in> set (prompt_rows db)" "pr_id q \<notin> pr_id ` set ps" "pr_project q = pid" "pr_name q = name"
    then have "q \<in> set rem" using rem by blast
    then show "pr_version q \<le> pr_version h \<and> LATEST_PROMPT_LABEL \<notin> set (pr_labels q)"
      using most move by (simp add: list_ex_iff)
  qed (use h rem u in auto)
qed

lemma relabel_one_ok:
  assumes ok: "store_ok db" and moves: "latest_moves db pid name ps u" and idset: "set is = pr_id ` set ps"
  shows "store_ok (relabel_one u (delete_rows is db))"
proof (cases u)
  case None
  then show ?thesis using delete_rows_ok [OF ok] by (simp add: relabel_one_def)
next
  case (Some x)
  from moves [unfolded Some] obtain h where h: "h \<in> set (prompt_rows db)" "pr_id h \<notin> pr_id ` set ps"
    "pr_project h = pid" "pr_name h = name" "fst x = pr_id h" "set (snd x) = insert LATEST_PROMPT_LABEL (set (pr_labels h))"
    and rest: "\<And>q. q \<in> set (prompt_rows db) \<Longrightarrow> pr_id q \<notin> pr_id ` set ps \<Longrightarrow> pr_project q = pid \<Longrightarrow> pr_name q = name \<Longrightarrow>
       pr_version q \<le> pr_version h \<and> LATEST_PROMPT_LABEL \<notin> set (pr_labels q)"
    by (rule moved_latest) blast
  let ?db = "delete_rows is db"
  have hd: "h \<in> set (prompt_rows ?db)" using h idset by (simp add: delete_rows_def)
  have "set_labels (pr_id h, snd x) ?db = ?db\<lparr>prompt_rows :=
      map (relabel pid name (pr_id h) (snd x) [LATEST_PROMPT_LABEL]) (prompt_rows ?db)\<rparr>"
    using rest idset by (intro set_labels_relabel) (simp add: delete_rows_def)
  moreover have "x = (pr_id h, snd x)" using h(5) by (cases x) simp
  ultimately have "relabel_one u ?db = ?db\<lparr>prompt_rows :=
      map (relabel (pr_project h) (pr_name h) (pr_id h) (snd x) [LATEST_PROMPT_LABEL]) (prompt_rows ?db)\<rparr>"
    using h(3,4) by (simp add: relabel_one_def Some)
  then show ?thesis
    using relabel_ok [OF delete_rows_ok [OF ok] hd, of "snd x" "[LATEST_PROMPT_LABEL]"] h(6) by simp
qed

lemma after_create_fields [simp]:
  "pr_id (after_create c l p) = pr_id p" "pr_project (after_create c l p) = pr_project p"
  "pr_name (after_create c l p) = pr_name p" "pr_version (after_create c l p) = pr_version p"
  "pr_type (after_create c l p) = pr_type p"
  "pr_labels (after_create c l p) = pr_labels (strip (cp_project c) (cp_name c) (cp_labels c @ [LATEST_PROMPT_LABEL]) p)"
  by (simp_all add: after_create_def Let_def)

lemma new_prompt_fields [simp]:
  "pr_id (new_prompt c i l ls) = i" "pr_project (new_prompt c i l ls) = cp_project c"
  "pr_name (new_prompt c i l ls) = cp_name c" "pr_version (new_prompt c i l ls) = next_version l"
  "pr_labels (new_prompt c i l ls) = ls" "pr_tags (new_prompt c i l ls) = final_tags c l"
  "pr_type (new_prompt c i l ls) = cp_type c" "pr_prompt (new_prompt c i l ls) = cp_prompt c"
  by (simp_all add: new_prompt_def)

lemma one_id_append:
  assumes "one_id r ps" "one_id r ns" "\<And>p n. p \<in> set ps \<Longrightarrow> n \<in> set ns \<Longrightarrow> same_name p n \<Longrightarrow> \<not> r p n \<and> \<not> r n p"
  shows "one_id r (ps @ ns)"
proof -
  have sym: "same_name p q \<longleftrightarrow> same_name q p" for p q by (auto simp: same_name_def)
  have "pr_id p = pr_id q" if "p \<in> set ps \<or> p \<in> set ns" "q \<in> set ps \<or> q \<in> set ns" "same_name p q" "r p q" for p q
    using that(1,2)
  proof (elim disjE)
    assume "p \<in> set ps" "q \<in> set ps"
    with assms(1) that(3,4) show ?thesis by (simp add: one_id_def)
  next
    assume "p \<in> set ns" "q \<in> set ns"
    with assms(2) that(3,4) show ?thesis by (simp add: one_id_def)
  next
    assume "p \<in> set ps" "q \<in> set ns"
    with assms(3) that(3,4) show ?thesis by blast
  next
    assume "p \<in> set ns" "q \<in> set ps"
    with assms(3) [of q p] that(3,4) sym show ?thesis by blast
  qed
  then show ?thesis unfolding one_id_def set_append by blast
qed

lemma all_same_append:
  assumes "all_same f ps" "all_same f ns" "\<And>p n. p \<in> set ps \<Longrightarrow> n \<in> set ns \<Longrightarrow> same_name p n \<Longrightarrow> f p = f n"
  shows "all_same f (ps @ ns)"
proof -
  have sym: "same_name p q \<longleftrightarrow> same_name q p" for p q by (auto simp: same_name_def)
  have "f p = f q" if "p \<in> set ps \<or> p \<in> set ns" "q \<in> set ps \<or> q \<in> set ns" "same_name p q" for p q
    using that(1,2)
  proof (elim disjE)
    assume "p \<in> set ns" "q \<in> set ps"
    with assms(3) [of q p] that(3) sym show ?thesis by simp
  next
    assume "p \<in> set ps" "q \<in> set ns"
    with assms(3) that(3) show ?thesis by simp
  qed (use all_sameD [OF assms(1)] all_sameD [OF assms(2)] that(3) in simp_all)
  then show ?thesis unfolding all_same_def set_append by blast
qed

lemma single_ok: "one_id r [n]" "all_same f [n]"
  by (simp_all add: one_id_def all_same_def)

lemma created_ok:
  assumes ok: "store_ok db" and fresh: "i \<notin> pr_id ` set (prompt_rows db)" and chk: "creation_checked c i latest deps db"
  shows "store_ok (created_db c i latest deps db)"
proof -
  let ?f = "after_create c latest" and ?n = "new_prompt c i latest (set_order (cp_labels c @ [LATEST_PROMPT_LABEL]))"
  let ?rows = "map ?f (prompt_rows db)"
  note parts = store_okD [OF ok]
  have keys: "keeps_keys ?f" by (simp add: keeps_keys_def)
  have latest: "latest = find_latest (versions_of db (cp_project c) (cp_name c))"
    and ty: "case latest of None \<Rightarrow> True | Some l \<Rightarrow> pr_type l = cp_type c"
    using chk unfolding creation_checked_def by blast+
  have above: "\<exists>l. latest = Some l \<and> l \<in> set (prompt_rows db) \<and> same_name p l \<and> pr_version p \<le> pr_version l"
    if p: "p \<in> set (prompt_rows db)" "same_name p ?n" for p
  proof -
    have v: "p \<in> set (versions_of db (cp_project c) (cp_name c))" using p by (simp add: versions_of_def same_name_def)
    then obtain l where l: "latest = Some l" using find_latest_props(1) latest by (cases latest) fastforce+
    have "l \<in> set (versions_of db (cp_project c) (cp_name c)) \<and> pr_version p \<le> pr_version l"
      using find_latest_props(2) latest l v by metis
    with l p show ?thesis by (simp add: versions_of_def same_name_def)
  qed
  have same: "same_name (?f p) q = same_name p q" for p q by (simp add: same_name_def)
  have "versions_unique (?rows @ [?n])"
    unfolding versions_unique_def
  proof (rule one_id_append)
    show "one_id (\<lambda>p q. pr_version p = pr_version q) ?rows"
      using parts(2) by (simp add: versions_unique_def one_id_def keeps_keysD [OF keys])
    fix p n
    assume "p \<in> set ?rows" "n \<in> set [?n]" "same_name p n"
    then obtain q where "p = ?f q" "q \<in> set (prompt_rows db)" "same_name q ?n" "n = ?n" using same by auto
    with above [of q] show "\<not> pr_version p = pr_version n \<and> \<not> pr_version n = pr_version p"
      by (auto simp: next_version_def split: if_splits)
  qed (rule single_ok)
  moreover have "labels_unique (?rows @ [?n])"
    unfolding labels_unique_def
  proof (rule one_id_append)
    have "pr_id p = pr_id q" if "p \<in> set (prompt_rows db)" "q \<in> set (prompt_rows db)" "same_name p q"
      "set (pr_labels (?f p)) \<inter> set (pr_labels (?f q)) \<noteq> {}" for p q
    proof -
      have "set (pr_labels (?f p)) \<subseteq> set (pr_labels p)" for p by (auto simp: strip_def)
      with that labels_uniqueD [OF parts(3) that(1-3)] show ?thesis by blast
    qed
    then show "one_id (\<lambda>p q. set (pr_labels p) \<inter> set (pr_labels q) \<noteq> {}) ?rows"
      by (simp add: one_id_def keeps_keysD [OF keys] del: after_create_fields(6))
    fix p n
    assume "p \<in> set ?rows" "n \<in> set [?n]" "same_name p n"
    then obtain q where "p = ?f q" "same_name q ?n" "n = ?n" using same by auto
    then show "\<not> set (pr_labels p) \<inter> set (pr_labels n) \<noteq> {} \<and> \<not> set (pr_labels n) \<inter> set (pr_labels p) \<noteq> {}"
      by (auto simp: strip_def same_name_def)
  qed (rule single_ok)
  moreover have "all_same pr_type (?rows @ [?n])"
  proof (rule all_same_append)
    show "all_same pr_type ?rows" by (rule all_same_map [OF keys _ parts(4)]) simp
    fix p n
    assume "p \<in> set ?rows" "n \<in> set [?n]" "same_name p n"
    then obtain q where q: "p = ?f q" "q \<in> set (prompt_rows db)" "same_name q ?n" "n = ?n" using same by auto
    obtain l where l: "latest = Some l" "l \<in> set (prompt_rows db)" "same_name q l" using above [OF q(2,3)] by blast
    have "pr_type q = pr_type l" using all_sameD [OF parts(4) q(2) l(2,3)] .
    with ty l q show "pr_type p = pr_type n" by simp
  qed (rule single_ok)
  moreover have "all_same (\<lambda>p. set (pr_tags p)) (?rows @ [?n])"
  proof (rule all_same_append)
    have tags: "set (pr_tags (?f p)) = (if haveTagsChanged (final_tags c latest) latest \<and> pr_project p = cp_project c \<and> pr_name p = cp_name c
        then set (final_tags c latest) else set (pr_tags p))" for p
      by (simp add: after_create_def Let_def retag_def)
    show "all_same (\<lambda>p. set (pr_tags p)) ?rows"
    proof (rule all_same_mapI)
      fix p q
      assume p: "p \<in> set (prompt_rows db)" "q \<in> set (prompt_rows db)" "same_name (?f p) (?f q)"
      then have "same_name p q" by (simp add: same_name_def)
      with all_sameD [OF parts(5) p(1,2) this] show "set (pr_tags (?f p)) = set (pr_tags (?f q))"
        by (simp add: tags same_name_def)
    qed
    fix p n
    assume "p \<in> set ?rows" "n \<in> set [?n]" "same_name p n"
    then obtain q where q: "p = ?f q" "q \<in> set (prompt_rows db)" "same_name q ?n" "n = ?n" using same by auto
    obtain l where l: "latest = Some l" "l \<in> set (prompt_rows db)" "same_name q l" using above [OF q(2,3)] by blast
    have "set (pr_tags q) = set (pr_tags l)" using all_sameD [OF parts(5) q(2) l(2,3)] .
    moreover have "pr_project q = cp_project c" "pr_name q = cp_name c" using q(3) by (simp_all add: same_name_def)
    ultimately show "set (pr_tags p) = set (pr_tags n)"
      unfolding q(1,4) tags using l(1) by (simp add: haveTagsChanged_def)
  qed (rule single_ok)
  moreover have "parents_exist (created_db c i latest deps db)"
  proof -
    have old: "\<exists>p \<in> set (?rows @ [?n]). pr_id p = dp_parent d \<and> pr_project p = dp_project d"
      if d: "d \<in> set (dependency_rows db)" for d
    proof -
      obtain p where "p \<in> set (prompt_rows db)" "pr_id p = dp_parent d" "pr_project p = dp_project d"
        using parts(6) d unfolding parents_exist_def by blast
      then show ?thesis by (intro bexI [of _ "?f p"]) simp_all
    qed
    have new: "dp_parent (row_of_tag x i t) = i \<and> dp_project (row_of_tag x i t) = x" for x t
      by (cases t) (simp_all add: row_of_tag_def)
    show ?thesis
      unfolding parents_exist_def created_db_def prompt_db.simps
      using old new by auto
  qed
  moreover have "distinct (map pr_id (?rows @ [?n]))"
    using parts(1) fresh by (simp add: o_def image_image)
  moreover have "\<forall>p \<in> set (?rows @ [?n]). 0 < pr_version p"
    using parts(7) by (auto simp: next_version_def split: option.splits)
  ultimately show ?thesis by (simp add: store_ok_def created_db_def)
qed

lemma duplicated_row_fields [simp]:
  "pr_id (duplicated_row newId name single p) = newId (pr_id p)"
  "pr_project (duplicated_row newId name single p) = pr_project p"
  "pr_name (duplicated_row newId name single p) = name"
  "pr_type (duplicated_row newId name single p) = pr_type p"
  "pr_tags (duplicated_row newId name single p) = pr_tags p"
  "pr_version (duplicated_row newId name single p) = (if single then 1 else pr_version p)"
  "\<not> single \<Longrightarrow> pr_labels (duplicated_row newId name single p) = pr_labels p"
  by (simp_all add: duplicated_row_def)

lemma duplicated_ok:
  assumes ok: "store_ok db" and src: "src \<in> set (prompt_rows db)" "pr_project src = pid"
    and new: "versions_of db pid name = []"
    and ps: "ps = filter (\<lambda>p. single \<longrightarrow> pr_version p = pr_version src) (versions_of db pid (pr_name src))"
    and inj: "inj_on newId (pr_id ` set (prompt_rows db))"
    and fresh: "\<forall>p \<in> set (prompt_rows db). newId (pr_id p) \<notin> pr_id ` set (prompt_rows db)"
  shows "store_ok (duplicated_db name single newId ps pid db)"
proof -
  let ?f = "duplicated_row newId name single"
  note parts = store_okD [OF ok]
  have in_ps: "p \<in> set (prompt_rows db) \<and> pr_project p = pid \<and> same_name p src \<and> (single \<longrightarrow> p = src)" if "p \<in> set ps" for p
  proof -
    have p: "p \<in> set (prompt_rows db)" "pr_project p = pid" "same_name p src"
      using that src by (auto simp: ps versions_of_def same_name_def)
    have "p = src" if single
      using versions_uniqueD [OF parts(2) p(1) src(1) p(3)] same_id [OF parts(1) p(1) src(1)] \<open>p \<in> set ps\<close> that
      by (simp add: ps)
    with p show ?thesis by blast
  qed
  have apart: "\<not> same_name p (?f q)" if "p \<in> set (prompt_rows db)" "q \<in> set ps" for p q
  proof -
    have "p \<notin> set (versions_of db pid name)" using new by simp
    then show ?thesis using in_ps [OF that(2)] that(1) by (auto simp: versions_of_def same_name_def)
  qed
  have new_id: "pr_id (?f p) = pr_id (?f q)" if "p \<in> set ps" "q \<in> set ps" "pr_id p = pr_id q" for p q
    using that by simp
  have sub: "set ps \<subseteq> set (prompt_rows db)" using in_ps by blast
  have "distinct (map pr_id ps)" unfolding ps by (rule distinct_versions_of [OF parts(1)])
  then have "distinct (map (newId \<circ> pr_id) ps)"
    using inj_on_subset [OF inj image_mono [OF sub]] by (simp add: distinct_map comp_inj_on)
  moreover have "set (map pr_id (prompt_rows db)) \<inter> set (map (newId \<circ> pr_id) ps) = {}"
    unfolding set_map disjoint_iff comp_def using fresh sub by blast
  ultimately have "distinct (map pr_id (prompt_rows db @ map ?f ps))"
    using parts(1) by (simp add: o_def)
  moreover have "versions_unique (prompt_rows db @ map ?f ps)"
    unfolding versions_unique_def
  proof (rule one_id_append)
    have "pr_id p = pr_id q" if "p \<in> set ps" "q \<in> set ps" "pr_version (?f p) = pr_version (?f q)" for p q
    proof (cases single)
      case False
      have "same_name p q" using in_ps [OF that(1)] in_ps [OF that(2)] by (simp add: same_name_def)
      with False versions_uniqueD [OF parts(2), of p q] in_ps [OF that(1)] in_ps [OF that(2)] that(3) show ?thesis by simp
    qed (use in_ps that in auto)
    then show "one_id (\<lambda>p q. pr_version p = pr_version q) (map ?f ps)"
      unfolding one_id_def set_map ball_simps using new_id by blast
    show "one_id (\<lambda>p q. pr_version p = pr_version q) (prompt_rows db)" using parts(2) by (simp add: versions_unique_def)
  qed (use apart in auto)
  moreover have "labels_unique (prompt_rows db @ map ?f ps)"
    unfolding labels_unique_def
  proof (rule one_id_append)
    have "pr_id p = pr_id q" if pq: "p \<in> set ps" "q \<in> set ps" and l: "l \<in> set (pr_labels (?f p))" "l \<in> set (pr_labels (?f q))" for p q l
    proof (cases single)
      case False
      have "same_name p q" using in_ps [OF pq(1)] in_ps [OF pq(2)] by (simp add: same_name_def)
      with labels_uniqueD [OF parts(3) _ _ this, of l] in_ps [OF pq(1)] in_ps [OF pq(2)] l False show ?thesis by simp
    qed (use in_ps pq in auto)
    then show "one_id (\<lambda>p q. set (pr_labels p) \<inter> set (pr_labels q) \<noteq> {}) (map ?f ps)"
      unfolding one_id_def set_map ball_simps using new_id by blast
    show "one_id (\<lambda>p q. set (pr_labels p) \<inter> set (pr_labels q) \<noteq> {}) (prompt_rows db)"
      using parts(3) by (simp add: labels_unique_def)
  qed (use apart in auto)
  moreover have "all_same (pr_type) (prompt_rows db @ map ?f ps)"
  proof (rule all_same_append [OF parts(4)])
    show "all_same (pr_type) (map ?f ps)"
    proof (rule all_same_mapI)
      fix p q
      assume "p \<in> set ps" "q \<in> set ps"
      then have pq: "p \<in> set (prompt_rows db)" "q \<in> set (prompt_rows db)" "same_name p q"
        using in_ps [of p] in_ps [of q] by (simp_all add: same_name_def)
      show "(pr_type) (?f p) = (pr_type) (?f q)"
        unfolding duplicated_row_fields by (rule all_sameD [OF parts(4) pq])
    qed
  qed (use apart in auto)
  moreover have "all_same (\<lambda>p. set (pr_tags p)) (prompt_rows db @ map ?f ps)"
  proof (rule all_same_append [OF parts(5)])
    show "all_same (\<lambda>p. set (pr_tags p)) (map ?f ps)"
    proof (rule all_same_mapI)
      fix p q
      assume "p \<in> set ps" "q \<in> set ps"
      then have pq: "p \<in> set (prompt_rows db)" "q \<in> set (prompt_rows db)" "same_name p q"
        using in_ps [of p] in_ps [of q] by (simp_all add: same_name_def)
      show "(\<lambda>p. set (pr_tags p)) (?f p) = (\<lambda>p. set (pr_tags p)) (?f q)"
        unfolding duplicated_row_fields by (rule all_sameD [OF parts(5) pq])
    qed
  qed (use apart in auto)
  moreover have "parents_exist (duplicated_db name single newId ps pid db)"
    unfolding parents_exist_def
  proof
    fix d
    assume "d \<in> set (dependency_rows (duplicated_db name single newId ps pid db))"
    then consider "d \<in> set (dependency_rows db)"
      | p where "p \<in> set ps" "dp_parent d = newId (pr_id p)" "dp_project d = pid"
      by (auto simp: duplicated_db_def)
    then show "\<exists>p \<in> set (prompt_rows (duplicated_db name single newId ps pid db)).
        pr_id p = dp_parent d \<and> pr_project p = dp_project d"
    proof cases
      case 1
      then obtain p where "p \<in> set (prompt_rows db)" "pr_id p = dp_parent d" "pr_project p = dp_project d"
        using parts(6) unfolding parents_exist_def by blast
      then show ?thesis by (intro bexI [of _ p]) (simp_all add: duplicated_db_def)
    next
      case (2 p)
      then show ?thesis using in_ps [of p] by (intro bexI [of _ "?f p"]) (simp_all add: duplicated_db_def)
    qed
  qed
  moreover have "\<forall>p \<in> set (prompt_rows db @ map ?f ps). 0 < pr_version p"
    using parts(7) sub by auto
  ultimately show ?thesis using parts(4) by (simp add: store_ok_def duplicated_db_def)
qed

section \<open>Every operation keeps the invariant\<close>

lemma perform_ok:
  assumes ok: "store_ok db" and fresh: "fresh_ids a db"
  shows "store_ok (perform a db)"
proof -
  note ids = store_okD(1) [OF ok]
  show ?thesis
  proof (cases a)
    case (Create_Prompt c i)
    with createPrompt_effect [OF ids, of i c] created_ok [OF ok] ok fresh show ?thesis by auto
  next
    case (Duplicate_Prompt pid i name single newId)
    with duplicatePrompt_effect [of pid i name single newId db] ok fresh show ?thesis
      using duplicated_ok [OF ok] by auto
  next
    case (Update_Prompt pid name v ls)
    have "set (set_order (ls @ pr_labels p)) \<subseteq> set ls \<union> set (pr_labels p)" for p by simp
    with Update_Prompt updatePrompt_effect [OF ids, of pid name v ls] ok relabel_ok [OF ok] show ?thesis by fastforce
  next
    case (Set_Labels pid i ls)
    have "set (set_order ls) \<subseteq> set ls \<union> set (pr_labels p)" for p by simp
    with Set_Labels setLabels_effect [OF ids, of pid i ls] ok relabel_ok [OF ok] show ?thesis by fastforce
  next
    case (Update_Tags pid name ts)
    with retag_ok [OF ok] show ?thesis by (simp add: updateTags_effect)
  next
    case (Delete_Prompt pid name v l)
    with deletePrompt_effect [OF ids requested_versions_of, of pid name v l v l] ok relabel_one_ok [OF ok]
    show ?thesis by fastforce
  next
    case (Delete_All pid name)
    with delete_all_effect [of pid name db] ok delete_rows_ok [OF ok] show ?thesis by auto
  next
    case (Delete_Version pid i)
    with delete_version_effect [OF ids store_okD(3) [OF ok], of pid i] ok relabel_one_ok [OF ok] show ?thesis by fastforce
  qed
qed

end
