(* ===== verification/Prompt_Safety.thy ===== *)
theory Prompt_Safety imports Prompt_Invariants begin

text \<open>
  Every stored dependency has the prompt it names, and every operation keeps it so, except the deletion of
  an unlabelled version from the user interface.
\<close>

section \<open>Every dependency has its prompt\<close>

definition dep_found :: "prompt_row list \<Rightarrow> dependency_row \<Rightarrow> bool" where
  "dep_found ps d \<longleftrightarrow> (\<exists>q \<in> set ps. pr_project q = dp_project d \<and> tag_selects (tag_of_row d) q \<and> pr_type q = ''text'')"

definition dependencies_found :: "prompt_db \<Rightarrow> bool" where
  "dependencies_found db \<longleftrightarrow> (\<forall>d \<in> set (dependency_rows db).
     \<exists>q. find_dep db (dp_project d) (tag_of_row d) = Some q \<and> pr_type q = ''text'')"

lemma tag_selects_name: "tag_selects t p \<Longrightarrow> tag_selects t q \<Longrightarrow> pr_name p = pr_name q"
  by (auto simp: tag_selects_def split: dep_tag.splits)

lemma dependencies_found_iff:
  assumes "store_ok db"
  shows "dependencies_found db \<longleftrightarrow> (\<forall>d \<in> set (dependency_rows db). dep_found (prompt_rows db) d)"
proof -
  have "(\<exists>q. find_dep db (dp_project d) (tag_of_row d) = Some q \<and> pr_type q = ''text'') \<longleftrightarrow> dep_found (prompt_rows db) d" for d
  proof
    assume "\<exists>q. find_dep db (dp_project d) (tag_of_row d) = Some q \<and> pr_type q = ''text''"
    then show "dep_found (prompt_rows db) d" by (auto simp: find_dep_def find_Some_iff dep_found_def)
  next
    assume "dep_found (prompt_rows db) d"
    then obtain q where q: "q \<in> set (prompt_rows db)" "pr_project q = dp_project d" "tag_selects (tag_of_row d) q"
      "pr_type q = ''text''" by (auto simp: dep_found_def)
    then obtain r where r: "find_dep db (dp_project d) (tag_of_row d) = Some r"
      by (cases "find_dep db (dp_project d) (tag_of_row d)") (auto simp: find_dep_def find_None_iff)
    then have rr: "r \<in> set (prompt_rows db)" "pr_project r = dp_project d" "tag_selects (tag_of_row d) r"
      by (auto simp: find_dep_def find_Some_iff)
    have "same_name r q" using rr q tag_selects_name [OF rr(3) q(3)] by (simp add: same_name_def)
    then have "pr_type r = pr_type q" using all_sameD [OF store_okD(4) [OF assms] rr(1) q(1)] by blast
    with r q show "\<exists>q. find_dep db (dp_project d) (tag_of_row d) = Some q \<and> pr_type q = ''text''" by simp
  qed
  then show ?thesis by (simp add: dependencies_found_def)
qed

text \<open>A dependency is kept by a row that has its version, or a row of the name that has its label.\<close>

lemma tag_selects_cases:
  assumes "tag_selects (tag_of_row d) q"
  obtains (version) v where "dp_childVersion d = Some v" "v \<noteq> 0" "pr_name q = dp_childName d" "pr_version q = v"
    "\<And>p. pr_name p = dp_childName d \<Longrightarrow> pr_version p = v \<Longrightarrow> tag_selects (tag_of_row d) p"
  | (label) l where "dp_childVersion d = None \<or> dp_childVersion d = Some 0" "dp_childLabel d = Some l"
    "pr_name q = dp_childName d" "l \<in> set (pr_labels q)"
    "\<And>p. pr_name p = dp_childName d \<Longrightarrow> l \<in> set (pr_labels p) \<Longrightarrow> tag_selects (tag_of_row d) p"
  using assms by (auto simp: tag_of_row_def tag_selects_def split: option.splits if_splits)

lemma dep_found_map:
  assumes found: "dep_found ps d" and f: "keeps_keys f" and ty: "all_same pr_type ps"
    and kept: "\<And>q l. q \<in> set ps \<Longrightarrow> pr_project q = dp_project d \<Longrightarrow> pr_name q = dp_childName d \<Longrightarrow>
      dp_childLabel d = Some l \<Longrightarrow> l \<in> set (pr_labels q) \<Longrightarrow> \<exists>r \<in> set ps. same_name r q \<and> l \<in> set (pr_labels (f r))"
  shows "dep_found (map f ps) d"
proof -
  obtain q where q: "q \<in> set ps" "pr_project q = dp_project d" "tag_selects (tag_of_row d) q" "pr_type q = ''text''"
    using found by (auto simp: dep_found_def)
  from q(3) show ?thesis
  proof (cases rule: tag_selects_cases)
    case (version v)
    then have "tag_selects (tag_of_row d) (f q)" using keeps_keysD [OF f] by simp
    with q show ?thesis unfolding dep_found_def set_map using keeps_keysD [OF f] by (intro bexI [of _ "f q"]) simp_all
  next
    case (label l)
    obtain r where r: "r \<in> set ps" "same_name r q" "l \<in> set (pr_labels (f r))"
      using kept [OF q(1,2) label(3,2,4)] by blast
    have "pr_type r = ''text''" using all_sameD [OF ty r(1) q(1) r(2)] q(4) by simp
    moreover have "tag_selects (tag_of_row d) (f r)"
      using label(3,5) r keeps_keysD [OF f] by (simp add: same_name_def)
    ultimately show ?thesis
      unfolding dep_found_def set_map using r q(2) keeps_keysD [OF f]
      by (intro bexI [of _ "f r"]) (simp_all add: same_name_def)
  qed
qed

lemma found_more_labels:
  "dep_found ps d \<Longrightarrow> keeps_keys f \<Longrightarrow> all_same pr_type ps \<Longrightarrow> (\<And>p. p \<in> set ps \<Longrightarrow> set (pr_labels p) \<subseteq> set (pr_labels (f p))) \<Longrightarrow>
   dep_found (map f ps) d"
  by (rule dep_found_map) (auto simp: same_name_def intro!: bexI)

lemma found_relabel:
  assumes ok: "store_ok db" and found: "dep_found (prompt_rows db) d" and p: "p \<in> set (prompt_rows db)"
    and new: "set ls \<subseteq> set new"
    and self: "\<And>l. dp_childLabel d = Some l \<Longrightarrow> dp_childName d = pr_name p \<Longrightarrow> dp_project d = pr_project p \<Longrightarrow>
      l \<in> set (pr_labels p) \<Longrightarrow> l \<in> set new"
  shows "dep_found (map (relabel (pr_project p) (pr_name p) (pr_id p) new ls) (prompt_rows db)) d"
proof (rule dep_found_map [OF found relabel_keeps(1) store_okD(4) [OF ok]])
  fix q l
  assume q: "q \<in> set (prompt_rows db)" "pr_project q = dp_project d" "pr_name q = dp_childName d"
    and l: "dp_childLabel d = Some l" "l \<in> set (pr_labels q)"
  let ?f = "relabel (pr_project p) (pr_name p) (pr_id p) new ls"
  show "\<exists>r \<in> set (prompt_rows db). same_name r q \<and> l \<in> set (pr_labels (?f r))"
  proof (cases "pr_id q = pr_id p")
    case True
    then have "q = p" using same_id [OF store_okD(1) [OF ok] q(1) p] by simp
    with self [OF l(1)] q l p show ?thesis by (intro bexI [of _ p]) (simp_all add: same_name_def relabel_def)
  next
    case False
    show ?thesis
    proof (cases "same_name q p \<and> l \<in> set ls")
      case True
      with new p show ?thesis by (intro bexI [of _ p]) (auto simp: same_name_def relabel_def)
    next
      case notin: False
      with False l q show ?thesis
        by (intro bexI [of _ q]) (auto simp: same_name_def relabel_def strip_def)
    qed
  qed
qed

lemma relabel_one_deps [simp]: "dependency_rows (relabel_one u db) = dependency_rows db"
  by (cases u) (simp_all add: relabel_one_def set_labels_def update_row_def)

lemma found_relabel_one:
  assumes "store_ok db" "latest_moves db pid name ps u" "set is = pr_id ` set ps"
    and "dep_found (prompt_rows (delete_rows is db)) d"
  shows "dep_found (prompt_rows (relabel_one u (delete_rows is db))) d"
proof (cases u)
  case None
  with assms(4) show ?thesis by (simp add: relabel_one_def)
next
  case (Some x)
  from assms(2) [unfolded Some] obtain h where h: "h \<in> set (prompt_rows db)" "fst x = pr_id h"
    "set (snd x) = insert LATEST_PROMPT_LABEL (set (pr_labels h))" by (rule moved_latest) blast
  let ?f = "\<lambda>p. if pr_id p = fst x then p\<lparr>pr_labels := snd x\<rparr> else p"
  have "dep_found (map ?f (prompt_rows (delete_rows is db))) d"
  proof (rule found_more_labels [OF assms(4) _ store_okD(4) [OF delete_rows_ok [OF assms(1)]]])
    show "keeps_keys ?f" by (simp add: keeps_keys_def)
    fix p
    assume p: "p \<in> set (prompt_rows (delete_rows is db))"
    show "set (pr_labels p) \<subseteq> set (pr_labels (?f p))"
    proof (cases "pr_id p = fst x")
      case True
      have "p = h" using same_id [OF store_okD(1) [OF assms(1)], of p h] p h True by (simp add: delete_rows_def)
      with h show ?thesis by auto
    qed simp
  qed
  then show ?thesis by (simp add: relabel_one_def Some set_labels_def update_row_def)
qed

lemma delete_rows_found:
  assumes "store_ok db" "\<forall>d \<in> set (dependency_rows db). dep_found (prompt_rows db) d"
    and "\<And>d q. d \<in> set (dependency_rows db) \<Longrightarrow> q \<in> set (prompt_rows db) \<Longrightarrow> pr_id q \<in> set is \<Longrightarrow>
       pr_project q = dp_project d \<Longrightarrow> tag_selects (tag_of_row d) q \<Longrightarrow> pr_type q = ''text'' \<Longrightarrow>
       \<exists>r \<in> set (prompt_rows db). pr_id r \<notin> set is \<and> same_name r q \<and> tag_selects (tag_of_row d) r"
    and "d \<in> set (dependency_rows (delete_rows is db))"
  shows "dep_found (prompt_rows (delete_rows is db)) d"
proof -
  have d: "d \<in> set (dependency_rows db)" using assms(4) by (simp add: delete_rows_def)
  then obtain q where q: "q \<in> set (prompt_rows db)" "pr_project q = dp_project d" "tag_selects (tag_of_row d) q" "pr_type q = ''text''"
    using assms(2) unfolding dep_found_def by blast
  obtain r where r: "r \<in> set (prompt_rows db)" "pr_id r \<notin> set is" "same_name r q" "tag_selects (tag_of_row d) r"
  proof (cases "pr_id q \<in> set is")
    case True
    with assms(3) [OF d q(1) _ q(2-4)] show thesis using that by blast
  next
    case False
    with q show thesis by (intro that [of q]) (simp_all add: same_name_def)
  qed
  have "pr_type r = ''text''" using all_sameD [OF store_okD(4) [OF assms(1)] r(1) q(1) r(3)] q(4) by simp
  with r q(2) show ?thesis
    unfolding dep_found_def by (intro bexI [of _ r]) (simp_all add: delete_rows_def same_name_def)
qed

text \<open>What the check before a creation has seen of the dependencies.\<close>

lemma for_each_Inr:
  "for_each f ds s = Inr s' \<Longrightarrow> d \<in> set ds \<Longrightarrow> \<exists>t t'. f d t = Inr t'"
  by (induction ds arbitrary: s) (auto split: sum.splits)

lemma resolve_unlike_parent:
  "resolve db pid parent cur deps level s = Inr x \<Longrightarrow> pr_name cur = pr_name parent \<Longrightarrow> pr_id cur = pr_id parent"
  by (cases s) (auto simp: resolve.simps split: if_splits)

lemma build_checks_deps:
  assumes "buildAndResolvePromptGraph db pid parent (Some deps) = Inr x" "dep \<in> set deps"
  shows "\<exists>q. find_dep db pid dep = Some q \<and> pr_type q = ''text'' \<and> (pr_name q = pr_name parent \<longrightarrow> pr_id q = pr_id parent)"
proof -
  obtain v seen g where r: "resolve db pid parent parent (Some deps) 0 ({}, []) = Inr (v, seen, g)"
    using assms(1) by (auto simp: buildAndResolvePromptGraph_def split: sum.splits)
  have ne: "deps \<noteq> []" using assms(2) by auto
  obtain s' where fe: "for_each (dep_step db pid parent parent 0) deps (insert (pr_id parent) {}, [], stringify (pr_prompt parent)) = Inr s'"
    using resolve_Inr(3) [OF r, of deps] ne by auto
  obtain t t' where "dep_step db pid parent parent 0 dep t = Inr t'" using for_each_Inr [OF fe assms(2)] by blast
  then show ?thesis
    using resolve_unlike_parent by (cases t) (auto simp: dep_step_def split: option.splits if_splits sum.splits)
qed

lemma created_found:
  assumes ok: "store_ok db" and found: "\<forall>d \<in> set (dependency_rows db). dep_found (prompt_rows db) d"
    and fresh: "i \<notin> pr_id ` set (prompt_rows db)" and chk: "creation_checked c i latest deps db"
    and d: "d \<in> set (dependency_rows (created_db c i latest deps db))"
  shows "dep_found (prompt_rows (created_db c i latest deps db)) d"
proof -
  let ?f = "after_create c latest" and ?n = "new_prompt c i latest (set_order (cp_labels c @ [LATEST_PROMPT_LABEL]))"
  have rows: "prompt_rows (created_db c i latest deps db) = map ?f (prompt_rows db) @ [?n]" by (simp add: created_db_def)
  have keys: "keeps_keys ?f" by (simp add: keeps_keys_def)
  have ok': "store_ok (created_db c i latest deps db)" by (rule created_ok [OF ok fresh chk])
  have grow: "dep_found (ps @ qs) d" if "dep_found ps d" for ps qs d using that by (auto simp: dep_found_def)
  consider (old) "d \<in> set (dependency_rows db)" | (new) t where "t \<in> set deps" "d = row_of_tag (cp_project c) i t"
    using d by (auto simp: created_db_def)
  then show ?thesis
  proof cases
    case old
    then obtain q where q: "q \<in> set (prompt_rows db)" "pr_project q = dp_project d" "tag_selects (tag_of_row d) q" "pr_type q = ''text''"
      using found by (auto simp: dep_found_def)
    have fq: "?f q \<in> set (prompt_rows (created_db c i latest deps db))" using q(1) rows by simp
    have nq: "?n \<in> set (prompt_rows (created_db c i latest deps db))" using rows by simp
    show ?thesis
    proof (cases "tag_selects (tag_of_row d) (?f q)")
      case True
      with fq q show ?thesis unfolding dep_found_def by (intro bexI [of _ "?f q"]) simp_all
    next
      case False
      from q(3) show ?thesis
      proof (cases rule: tag_selects_cases)
        case (version v)
        with False show ?thesis by simp
      next
        case (label l)
        from False label have l: "l \<notin> set (pr_labels (?f q))" by auto
        then have name: "pr_project q = cp_project c" "pr_name q = cp_name c" "l \<in> set (cp_labels c @ [LATEST_PROMPT_LABEL])"
          using label(4) by (auto simp: strip_def split: if_splits)
        have "tag_selects (tag_of_row d) ?n" using label(3,5) name by auto
        moreover have "pr_type ?n = pr_type (?f q)"
          using all_sameD [OF store_okD(4) [OF ok'] nq fq] name by (simp add: same_name_def)
        ultimately show ?thesis unfolding dep_found_def using nq q name by (intro bexI [of _ ?n]) simp_all
      qed
    qed
  next
    case (new t)
    obtain x where "buildAndResolvePromptGraph db (cp_project c) (new_prompt c i latest (cp_labels c)) (Some deps) = Inr x"
      using chk unfolding creation_checked_def isl_def by (metis sum.exhaust)
    from build_checks_deps [OF this new(1)] obtain q where q: "find_dep db (cp_project c) t = Some q" "pr_type q = ''text''"
      "pr_name q = cp_name c \<longrightarrow> pr_id q = i" by auto
    then have qr: "q \<in> set (prompt_rows db)" "pr_project q = cp_project c" "tag_selects t q"
      by (auto simp: find_dep_def find_Some_iff)
    have "pr_name q \<noteq> cp_name c" using q(3) qr(1) fresh by auto
    then have same: "pr_labels (?f q) = pr_labels q" by (simp add: strip_def)
    have "0 < pr_version q" using store_okD(7) [OF ok] qr(1) by blast
    with qr(3) have "tag_of_row d = t" "dp_project d = cp_project c"
      by (cases t; simp add: new(2) row_of_tag_def tag_of_row_def tag_selects_def)+
    moreover have "tag_selects t (?f q)" using qr(3)
      by (auto simp: tag_selects_def same simp del: after_create_fields(6) split: dep_tag.splits option.splits)
    ultimately show ?thesis
      unfolding dep_found_def rows using qr q(2) by (intro bexI [of _ "?f q"]) simp_all
  qed
qed

lemma duplicated_found:
  assumes ok: "store_ok db" and found: "\<forall>d \<in> set (dependency_rows db). dep_found (prompt_rows db) d"
    and ps: "ps = filter P (versions_of db pid srcName)"
    and d: "d \<in> set (dependency_rows (duplicated_db name single newId ps pid db))"
  shows "dep_found (prompt_rows (duplicated_db name single newId ps pid db)) d"
proof -
  have grow: "dep_found (prompt_rows (duplicated_db name single newId ps pid db)) d'" if "dep_found (prompt_rows db) d'" for d'
    using that by (auto simp: dep_found_def duplicated_db_def)
  consider (old) "d \<in> set (dependency_rows db)" | (new) p e where "p \<in> set ps" "e \<in> set (dependency_rows db)"
     "dp_parent e = pr_id p" "d = e\<lparr>dp_project := pid, dp_parent := newId (pr_id p)\<rparr>"
    using d by (auto simp: duplicated_db_def)
  then show ?thesis
  proof cases
    case old
    with found grow show ?thesis by blast
  next
    case (new p e)
    have p: "p \<in> set (prompt_rows db)" "pr_project p = pid" using new(1) by (auto simp: ps versions_of_def)
    obtain p' where "p' \<in> set (prompt_rows db)" "pr_id p' = dp_parent e" "pr_project p' = dp_project e"
      using store_okD(6) [OF ok] new(2) unfolding parents_exist_def by blast
    then have "dp_project e = pid" using same_id [OF store_okD(1) [OF ok], of p' p] p new(3) by simp
    moreover have "tag_of_row d = tag_of_row e" by (auto simp: new(4) tag_of_row_def split: option.splits)
    moreover have "dp_project d = pid" by (simp add: new(4))
    moreover have "dep_found (prompt_rows (duplicated_db name single newId ps pid db)) e" using grow found new(2) by blast
    ultimately show ?thesis by (simp only: dep_found_def)
  qed
qed

text \<open>
  The exceptions: an unlabelled version deleted by itself is not looked up among the dependencies, and
  \<open>deletePrompt\<close> ignores dependencies on an empty label, which no row has if the labels follow their schema.
\<close>

fun guarded :: "prompt_action \<Rightarrow> prompt_db \<Rightarrow> bool" where
  "guarded (Delete_Version pid i) db \<longleftrightarrow> (\<forall>p \<in> set (prompt_rows db). pr_id p = i \<longrightarrow> pr_labels p \<noteq> [])"
| "guarded (Delete_Prompt pid name v l) db \<longleftrightarrow> (\<forall>p \<in> set (prompt_rows db). [] \<notin> set (pr_labels p))"
| "guarded a db \<longleftrightarrow> True"

lemma perform_found:
  assumes ok: "store_ok db" and found: "\<forall>d \<in> set (dependency_rows db). dep_found (prompt_rows db) d"
    and fresh: "fresh_ids a db" and guard: "guarded a db"
  shows "\<forall>d \<in> set (dependency_rows (perform a db)). dep_found (prompt_rows (perform a db)) d"
proof -
  note ids = store_okD(1) [OF ok]
  have parent: "\<exists>p \<in> set (prompt_rows db). pr_id p = dp_parent d \<and> pr_project p = dp_project d"
    if "d \<in> set (dependency_rows db)" for d
    using store_okD(6) [OF ok] that unfolding parents_exist_def by blast
  show ?thesis
  proof (cases a)
    case (Create_Prompt c i)
    then have "i \<notin> pr_id ` set (prompt_rows db)" using fresh by simp
    from createPrompt_effect [OF ids this, of c] created_found [OF ok found this] found Create_Prompt
    show ?thesis by auto
  next
    case (Duplicate_Prompt pid i name single newId)
    from duplicatePrompt_effect [of pid i name single newId db] duplicated_found [OF ok found] found Duplicate_Prompt
    show ?thesis by auto
  next
    case (Update_Prompt pid name v ls)
    consider "perform a db = db" | p where "p \<in> set (prompt_rows db)" "pr_project p = pid" "pr_name p = name"
      "perform a db = db\<lparr>prompt_rows := map (relabel pid name (pr_id p) (set_order (ls @ pr_labels p)) ls) (prompt_rows db)\<rparr>"
      using updatePrompt_effect [OF ids, of pid name v ls] Update_Prompt by auto
    then show ?thesis
    proof cases
      case (2 p)
      have "dep_found (map (relabel (pr_project p) (pr_name p) (pr_id p) (set_order (ls @ pr_labels p)) ls) (prompt_rows db)) d"
        if "d \<in> set (dependency_rows db)" for d
        using found that by (intro found_relabel [OF ok _ 2(1)]) auto
      with 2 show ?thesis by simp
    qed (use found in simp)
  next
    case (Set_Labels pid i ls)
    consider "perform a db = db" | p where "p \<in> set (prompt_rows db)" "pr_id p = i" "pr_project p = pid"
      "filter (\<lambda>l. l \<notin> set ls) (pr_labels p) = [] \<or> label_dependents db pid (pr_name p) (filter (\<lambda>l. l \<notin> set ls) (pr_labels p)) = []"
      "perform a db = db\<lparr>prompt_rows := map (relabel pid (pr_name p) i (set_order ls) ls) (prompt_rows db)\<rparr>"
      using setLabels_effect [OF ids, of pid i ls] Set_Labels by auto
    then show ?thesis
    proof cases
      case (2 p)
      have "dep_found (map (relabel (pr_project p) (pr_name p) (pr_id p) (set_order ls) ls) (prompt_rows db)) d"
        if d: "d \<in> set (dependency_rows db)" for d
      proof (rule found_relabel [OF ok _ 2(1)])
        fix l
        assume l: "dp_childLabel d = Some l" "dp_childName d = pr_name p" "dp_project d = pr_project p" "l \<in> set (pr_labels p)"
        show "l \<in> set (set_order ls)"
        proof (rule ccontr)
          assume "l \<notin> set (set_order ls)"
          then have "l \<in> set (filter (\<lambda>l. l \<notin> set ls) (pr_labels p))" using l(4) by simp
          moreover from this have "d \<in> set (label_dependents db pid (pr_name p) (filter (\<lambda>l. l \<notin> set ls) (pr_labels p)))"
            using d l parent [OF d] 2(3) by (auto simp: label_dependents_def list_ex_iff)
          ultimately show False using 2(4) by (metis empty_iff empty_set)
        qed
      qed (use found d in auto)
      with 2 show ?thesis by simp
    qed (use found in simp)
  next
    case (Update_Tags pid name ts)
    have "dep_found (map (retag pid name ts) (prompt_rows db)) d" if "d \<in> set (dependency_rows db)" for d
      using found that by (intro found_more_labels relabel_keeps store_okD(4) [OF ok]) auto
    with Update_Tags show ?thesis by (simp add: updateTags_effect)
  next
    case (Delete_All pid name)
    have "dep_found (prompt_rows (delete_rows (map pr_id (versions_of db pid name)) db)) d"
      if none: "\<forall>d \<in> set (dependency_rows db). dp_project d = pid \<longrightarrow> dp_childName d = name \<longrightarrow>
          \<not> (\<exists>p \<in> set (prompt_rows db). pr_id p = dp_parent d \<and> pr_project p = pid)"
        and d: "d \<in> set (dependency_rows (delete_rows (map pr_id (versions_of db pid name)) db))" for d
    proof (rule delete_rows_found [OF ok found _ d])
      fix e q
      assume e: "e \<in> set (dependency_rows db)" "q \<in> set (prompt_rows db)" "pr_id q \<in> set (map pr_id (versions_of db pid name))"
        "pr_project q = dp_project e" "tag_selects (tag_of_row e) q"
      then obtain q' where "q' \<in> set (versions_of db pid name)" "pr_id q = pr_id q'" by auto
      then have "pr_project q = pid" "pr_name q = name"
        using same_id [OF ids e(2), of q'] by (auto simp: versions_of_def)
      moreover have "dp_childName e = pr_name q" using e(5) by (cases rule: tag_selects_cases) simp_all
      ultimately have False using none e(1,4) parent [OF e(1)] by auto
      then show "\<exists>r \<in> set (prompt_rows db). pr_id r \<notin> set (map pr_id (versions_of db pid name)) \<and> same_name r q \<and>
         tag_selects (tag_of_row e) r" ..
    qed
    with delete_all_effect [of pid name db] found Delete_All show ?thesis by auto
  next
    case (Delete_Prompt pid name v l)
    let ?ps = "requested_versions db pid name v l"
    have "dep_found (prompt_rows (delete_rows (map pr_id ?ps) db)) d"
      if free: "\<forall>d \<in> set (dependency_rows db). dp_project d = pid \<longrightarrow> dp_childName d = name \<longrightarrow>
          \<not> blocks_deletion ?ps (filter (\<lambda>p. pr_id p \<notin> pr_id ` set ?ps) (versions_of db pid name)) d"
        and d: "d \<in> set (dependency_rows (delete_rows (map pr_id ?ps) db))" for d
    proof (rule delete_rows_found [OF ok found _ d])
      fix e q
      assume e: "e \<in> set (dependency_rows db)" "q \<in> set (prompt_rows db)" "pr_id q \<in> set (map pr_id ?ps)"
        "pr_project q = dp_project e" "tag_selects (tag_of_row e) q"
      then obtain q' where q': "q' \<in> set ?ps" "pr_id q = pr_id q'" by auto
      then have "q' \<in> set (versions_of db pid name)" using requested_versions_of by blast
      then have qq: "q = q'" "pr_project q = pid" "pr_name q = name"
        using same_id [OF ids e(2), of q'] q'(2) by (auto simp: versions_of_def)
      have name: "dp_childName e = pr_name q" using e(5) by (cases rule: tag_selects_cases) simp_all
      then have nb: "\<not> blocks_deletion ?ps (filter (\<lambda>p. pr_id p \<notin> pr_id ` set ?ps) (versions_of db pid name)) e"
        using free e(1,4) qq by simp
      from e(5) show "\<exists>r \<in> set (prompt_rows db). pr_id r \<notin> set (map pr_id ?ps) \<and> same_name r q \<and> tag_selects (tag_of_row e) r"
      proof (cases rule: tag_selects_cases)
        case (version w)
        with nb q' qq(1) have False by (auto simp: blocks_deletion_def)
        then show ?thesis ..
      next
        case (label m)
        have "m \<noteq> []" using guard Delete_Prompt e(2) label(4) by auto
        with nb label(2) obtain r where "r \<in> set (versions_of db pid name)" "pr_id r \<notin> pr_id ` set ?ps" "m \<in> set (pr_labels r)"
          by (auto simp: blocks_deletion_def list_ex_iff)
        with label(3,5) qq show ?thesis by (intro bexI [of _ r]) (auto simp: versions_of_def same_name_def)
      qed
    qed
    note rest = this
    consider "perform a db = db" | u where "latest_moves db pid name ?ps u"
      "\<forall>d \<in> set (dependency_rows db). dp_project d = pid \<longrightarrow> dp_childName d = name \<longrightarrow>
          \<not> blocks_deletion ?ps (filter (\<lambda>p. pr_id p \<notin> pr_id ` set ?ps) (versions_of db pid name)) d"
      "perform a db = relabel_one u (delete_rows (map pr_id ?ps) db)"
      using deletePrompt_effect [OF ids requested_versions_of, of pid name v l v l] Delete_Prompt by auto
    then show ?thesis
    proof cases
      case (2 u)
      have "dep_found (prompt_rows (relabel_one u (delete_rows (map pr_id ?ps) db))) d"
        if "d \<in> set (dependency_rows (delete_rows (map pr_id ?ps) db))" for d
        using rest [OF 2(2) that] by (rule found_relabel_one [OF ok 2(1) set_map])
      then show ?thesis unfolding 2(3) by simp
    qed (use found in simp)
  next
    case (Delete_Version pid i)
    consider "perform a db = db" | p u where "p \<in> set (prompt_rows db)" "pr_id p = i" "pr_project p = pid"
      "latest_moves db pid (pr_name p) [p] u"
      "pr_labels p \<noteq> [] \<longrightarrow> (\<forall>d \<in> set (dependency_rows db). dp_project d = pid \<longrightarrow> dp_childName d = pr_name p \<longrightarrow>
          (\<exists>q \<in> set (prompt_rows db). pr_id q = dp_parent d \<and> pr_project q = pid) \<longrightarrow>
          dp_childVersion d \<noteq> Some (pr_version p) \<and>
          (case dp_childLabel d of None \<Rightarrow> True | Some l \<Rightarrow> l \<notin> set (pr_labels p)))"
      "perform a db = relabel_one u (delete_rows [i] db)"
      using delete_version_effect [OF ids store_okD(3) [OF ok], of pid i] Delete_Version by auto
    then show ?thesis
    proof cases
      case (2 p u)
      have lab: "pr_labels p \<noteq> []" using guard Delete_Version 2(1,2) by auto
      have "dep_found (prompt_rows (relabel_one u (delete_rows [i] db))) d"
        if d: "d \<in> set (dependency_rows (delete_rows [i] db))" for d
      proof (rule found_relabel_one [OF ok 2(4)])
        show "set [i] = pr_id ` set [p]" using 2(2) by simp
        show "dep_found (prompt_rows (delete_rows [i] db)) d"
        proof (rule delete_rows_found [OF ok found _ d])
          fix e q
          assume e: "e \<in> set (dependency_rows db)" "q \<in> set (prompt_rows db)" "pr_id q \<in> set [i]"
            "pr_project q = dp_project e" "tag_selects (tag_of_row e) q"
          then have q: "q = p" using same_id [OF ids e(2) 2(1)] 2(2) by simp
          have name: "dp_childName e = pr_name p" using e(5) unfolding q by (cases rule: tag_selects_cases) simp_all
          have par: "\<exists>r \<in> set (prompt_rows db). pr_id r = dp_parent e \<and> pr_project r = pid"
            using parent [OF e(1)] e(4) q 2(3) by simp
          have "dp_project e = pid" using e(4) q 2(3) by simp
          with 2(5) lab e(1) name par have no: "dp_childVersion e \<noteq> Some (pr_version p)"
            "case dp_childLabel e of None \<Rightarrow> True | Some l \<Rightarrow> l \<notin> set (pr_labels p)" by blast+
          from e(5) have False unfolding q by (cases rule: tag_selects_cases) (use no in auto)
          then show "\<exists>r \<in> set (prompt_rows db). pr_id r \<notin> set [i] \<and> same_name r q \<and> tag_selects (tag_of_row e) r" ..
        qed
      qed
      then show ?thesis unfolding 2(6) by simp
    qed (use found in simp)
  qed
qed

end
