(* ===== verification/Prompt_Latest.thy ===== *)
theory Prompt_Latest imports Prompt_Invariants begin

text \<open>
  The label \<open>latest\<close>: it stays on the highest version of every name, as long as nobody moves it by hand.
\<close>

section \<open>The label latest\<close>

definition highest_in :: "prompt_row list \<Rightarrow> prompt_row \<Rightarrow> bool" where
  "highest_in ps p \<longleftrightarrow> (\<forall>q \<in> set ps. same_name p q \<longrightarrow> pr_version q \<le> pr_version p)"

definition latest_marked :: "prompt_row list \<Rightarrow> bool" where
  "latest_marked ps \<longleftrightarrow> (\<forall>p \<in> set ps. highest_in ps p \<longrightarrow> LATEST_PROMPT_LABEL \<in> set (pr_labels p))"

lemma latest_markedD:
  "latest_marked ps \<Longrightarrow> p \<in> set ps \<Longrightarrow> highest_in ps p \<Longrightarrow> LATEST_PROMPT_LABEL \<in> set (pr_labels p)"
  by (simp add: latest_marked_def)

lemma same_name_trans: "same_name p q \<Longrightarrow> same_name q r \<Longrightarrow> same_name p r"
  by (simp add: same_name_def)

lemma highest_inD: "highest_in ps p \<Longrightarrow> q \<in> set ps \<Longrightarrow> same_name p q \<Longrightarrow> pr_version q \<le> pr_version p"
  by (simp add: highest_in_def)

lemma highest_inI:
  "(\<And>q. q \<in> set ps \<Longrightarrow> same_name p q \<Longrightarrow> pr_version q \<le> pr_version p) \<Longrightarrow> highest_in ps p"
  by (simp add: highest_in_def)

lemma same_name_sym: "same_name p q \<Longrightarrow> same_name q p"
  by (simp add: same_name_def)

lemma highest_in_mapD: "keeps_keys f \<Longrightarrow> highest_in (map f ps) (f p) \<Longrightarrow> highest_in ps p"
  by (simp add: highest_in_def keeps_keysD)

lemma highest_exists:
  assumes "p \<in> set ps"
  obtains m where "m \<in> set ps" "same_name p m" "highest_in ps m"
proof -
  let ?vs = "filter (same_name p) ps"
  have "?vs \<noteq> []" using assms by (auto simp: filter_empty_conv same_name_def)
  then have m: "highest_version ?vs \<in> set ?vs" "\<forall>q \<in> set ?vs. pr_version q \<le> pr_version (highest_version ?vs)"
    using highest_version_max by blast+
  then have in_ps: "highest_version ?vs \<in> set ps" and name: "same_name p (highest_version ?vs)" by auto
  have "highest_in ps (highest_version ?vs)"
    unfolding highest_in_def
  proof (intro ballI impI)
    fix q
    assume q: "q \<in> set ps" "same_name (highest_version ?vs) q"
    have "same_name p q" using same_name_trans [OF name q(2)] .
    with q(1) m(2) show "pr_version q \<le> pr_version (highest_version ?vs)" by simp
  qed
  with in_ps name show thesis by (rule that)
qed

lemma latest_marked_map:
  assumes "latest_marked ps" "keeps_keys f"
    and "\<And>p. p \<in> set ps \<Longrightarrow> LATEST_PROMPT_LABEL \<in> set (pr_labels p) \<Longrightarrow> LATEST_PROMPT_LABEL \<in> set (pr_labels (f p))"
  shows "latest_marked (map f ps)"
proof -
  show ?thesis
    unfolding latest_marked_def
  proof (intro ballI impI)
    fix p'
    assume p': "p' \<in> set (map f ps)" "highest_in (map f ps) p'"
    then obtain p where p: "p \<in> set ps" "p' = f p" by auto
    have "highest_in ps p" using p'(2) unfolding p(2) by (rule highest_in_mapD [OF assms(2)])
    from assms(3) [OF p(1) latest_markedD [OF assms(1) p(1) this]]
    show "LATEST_PROMPT_LABEL \<in> set (pr_labels p')" unfolding p(2) .
  qed
qed

fun keeps_latest :: "prompt_action \<Rightarrow> prompt_db \<Rightarrow> bool" where
  "keeps_latest (Update_Prompt pid name v ls) db \<longleftrightarrow> LATEST_PROMPT_LABEL \<notin> set ls"
| "keeps_latest (Set_Labels pid i ls) db \<longleftrightarrow> (\<forall>p \<in> set (prompt_rows db). pr_id p = i \<longrightarrow>
     (LATEST_PROMPT_LABEL \<in> set ls \<longleftrightarrow> LATEST_PROMPT_LABEL \<in> set (pr_labels p)))"
| "keeps_latest a db \<longleftrightarrow> True"

lemma relabel_one_latest:
  assumes ok: "store_ok db" and marked: "latest_marked (prompt_rows db)"
    and ps: "set ps \<subseteq> set (versions_of db pid name)" and moves: "latest_moves db pid name ps u"
    and idset: "set is = pr_id ` set ps"
  shows "latest_marked (prompt_rows (relabel_one u (delete_rows is db)))"
  unfolding latest_marked_def
proof (intro ballI impI)
  note parts = store_okD [OF ok]
  let ?db = "delete_rows is db"
  define f :: "prompt_row \<Rightarrow> prompt_row" where "f = (\<lambda>p. case u of None \<Rightarrow> p | Some x \<Rightarrow> if pr_id p = fst x then p\<lparr>pr_labels := snd x\<rparr> else p)"
  have rows: "prompt_rows (relabel_one u ?db) = map f (prompt_rows ?db)"
    by (cases u) (simp_all add: relabel_one_def set_labels_def update_row_def f_def)
  have keys: "keeps_keys f" by (cases u) (simp_all add: keeps_keys_def f_def)
  fix p'
  assume p': "p' \<in> set (prompt_rows (relabel_one u ?db))" "highest_in (prompt_rows (relabel_one u ?db)) p'"
  then obtain p where p: "p \<in> set (prompt_rows ?db)" "p' = f p" unfolding rows by auto
  have high: "highest_in (prompt_rows ?db) p"
    using p'(2) unfolding rows p(2) by (rule highest_in_mapD [OF keys])
  have pin: "p \<in> set (prompt_rows db)" "pr_id p \<notin> set is" using p(1) by (simp_all add: delete_rows_def)
  have grows: "LATEST_PROMPT_LABEL \<in> set (pr_labels p) \<Longrightarrow> LATEST_PROMPT_LABEL \<in> set (pr_labels (f p))"
  proof (cases u)
    case (Some x)
    assume l: "LATEST_PROMPT_LABEL \<in> set (pr_labels p)"
    have "LATEST_PROMPT_LABEL \<in> set (snd x)"
      by (rule moved_latest [OF moves [unfolded Some]]) simp
    with l Some show ?thesis by (simp add: f_def)
  qed (simp add: f_def)
  obtain m where m: "m \<in> set (prompt_rows db)" "same_name p m" "highest_in (prompt_rows db) m"
    using highest_exists [OF pin(1)] .
  have lm: "LATEST_PROMPT_LABEL \<in> set (pr_labels m)" by (rule latest_markedD [OF marked m(1,3)])
  show "LATEST_PROMPT_LABEL \<in> set (pr_labels p')"
  proof (cases "pr_id m \<in> set is")
    case False
    then have "m \<in> set (prompt_rows ?db)" using m(1) by (simp add: delete_rows_def)
    then have "pr_version m \<le> pr_version p" using highest_inD [OF high _ m(2)] by blast
    moreover have "pr_version p \<le> pr_version m" by (rule highest_inD [OF m(3) pin(1) same_name_sym [OF m(2)]])
    ultimately have "pr_id p = pr_id m" using versions_uniqueD [OF parts(2) pin(1) m(1,2)] by simp
    then have "p = m" using same_id [OF parts(1) pin(1) m(1)] by blast
    with lm grows p(2) show ?thesis by blast
  next
    case True
    then obtain m' where "m' \<in> set ps" "pr_id m' = pr_id m" using idset by auto
    then have mps: "m \<in> set ps" using ps same_id [OF parts(1) m(1), of m'] by (auto simp: versions_of_def)
    then have mn: "pr_project m = pid" "pr_name m = name" using ps by (auto simp: versions_of_def)
    let ?rem = "filter (\<lambda>p. pr_id p \<notin> set (map pr_id ps)) (versions_of db pid name)"
    have prem: "p \<in> set ?rem" using pin mn m(2) idset by (simp add: versions_of_def same_name_def)
    have "LATEST_PROMPT_LABEL \<notin> set (pr_labels r)" if r: "r \<in> set ?rem" for r
    proof
      assume lr: "LATEST_PROMPT_LABEL \<in> set (pr_labels r)"
      have rin: "r \<in> set (prompt_rows db)" "same_name r m" using r mn by (simp_all add: versions_of_def same_name_def)
      then have "pr_id r = pr_id m" using labels_uniqueD [OF parts(3) rin(1) m(1) rin(2) lr lm] by blast
      with r True idset show False by auto
    qed
    then have "list_ex (\<lambda>p. LATEST_PROMPT_LABEL \<in> set (pr_labels p)) ps \<and>
        \<not> list_ex (\<lambda>p. LATEST_PROMPT_LABEL \<in> set (pr_labels p)) ?rem \<and> ?rem \<noteq> []"
      unfolding list_ex_iff using lm mps length_pos_if_in_set [OF prem] by fastforce
    from moves [unfolded latest_moves_def Let_def if_P [OF this]] obtain h ls where h: "h \<in> set ?rem"
      "\<forall>q \<in> set ?rem. pr_version q \<le> pr_version h" "u = Some (pr_id h, ls)" "set ls = insert LATEST_PROMPT_LABEL (set (pr_labels h))"
      by blast
    have hin: "h \<in> set (prompt_rows db)" "same_name p h" "h \<in> set (prompt_rows ?db)"
      using h(1) prem idset by (simp_all add: versions_of_def same_name_def delete_rows_def)
    have "pr_version p \<le> pr_version h" using h(2) prem by blast
    moreover have "pr_version h \<le> pr_version p" by (rule highest_inD [OF high hin(3,2)])
    ultimately have "pr_id p = pr_id h" using versions_uniqueD [OF parts(2) pin(1) hin(1,2)] by simp
    with h(3,4) p(2) show ?thesis by (simp add: f_def)
  qed
qed

lemma latest_marked_append:
  assumes "latest_marked ps" "\<And>n. n \<in> set ns \<Longrightarrow> highest_in (ps @ ns) n \<Longrightarrow> LATEST_PROMPT_LABEL \<in> set (pr_labels n)"
  shows "latest_marked (ps @ ns)"
  unfolding latest_marked_def
proof (intro ballI impI)
  fix p
  assume p: "p \<in> set (ps @ ns)" "highest_in (ps @ ns) p"
  then consider "p \<in> set ps" | "p \<in> set ns" by auto
  then show "LATEST_PROMPT_LABEL \<in> set (pr_labels p)"
  proof cases
    case 1
    have "highest_in ps p" by (rule highest_inI) (use highest_inD [OF p(2)] in simp)
    with 1 show ?thesis by (rule latest_markedD [OF assms(1)])
  qed (use assms(2) p(2) in blast)
qed

lemma created_latest:
  assumes ok: "store_ok db" and marked: "latest_marked (prompt_rows db)" and chk: "creation_checked c i latest deps db"
  shows "latest_marked (prompt_rows (created_db c i latest deps db))"
  unfolding latest_marked_def
proof (intro ballI impI)
  let ?f = "after_create c latest" and ?n = "new_prompt c i latest (set_order (cp_labels c @ [LATEST_PROMPT_LABEL]))"
  have keys: "keeps_keys ?f" by (simp add: keeps_keys_def)
  have rows: "prompt_rows (created_db c i latest deps db) = map ?f (prompt_rows db) @ [?n]"
    by (simp add: created_db_def)
  fix p'
  assume p': "p' \<in> set (prompt_rows (created_db c i latest deps db))"
    and high: "highest_in (prompt_rows (created_db c i latest deps db)) p'"
  then consider "p' = ?n" | p where "p \<in> set (prompt_rows db)" "p' = ?f p" unfolding rows by auto
  then show "LATEST_PROMPT_LABEL \<in> set (pr_labels p')"
  proof cases
    case (2 p)
    have other: "\<not> same_name p ?n"
    proof
      assume "same_name p ?n"
      then have "p \<in> set (versions_of db (cp_project c) (cp_name c))"
        using 2(1) by (simp add: versions_of_def same_name_def)
      moreover have latest: "latest = find_latest (versions_of db (cp_project c) (cp_name c))"
        using chk by (simp add: creation_checked_def)
      ultimately obtain l where l: "latest = Some l" "pr_version p \<le> pr_version l"
        using find_latest_props by (metis list.set(1) empty_iff not_None_eq)
      have "same_name (?f p) ?n" using \<open>same_name p ?n\<close> by (simp add: same_name_def)
      then have "pr_version ?n \<le> pr_version (?f p)"
        using highest_inD [OF high, of ?n] unfolding rows 2(2) by simp
      with l show False by (simp add: next_version_def split: if_splits)
    qed
    have "highest_in (map ?f (prompt_rows db)) (?f p)"
      by (rule highest_inI) (use highest_inD [OF high] in \<open>simp add: rows 2(2)\<close>)
    then have "highest_in (prompt_rows db) p" by (rule highest_in_mapD [OF keys])
    then have "LATEST_PROMPT_LABEL \<in> set (pr_labels p)" by (rule latest_markedD [OF marked 2(1)])
    with other show ?thesis by (simp add: 2(2) strip_def same_name_def)
  qed simp
qed

lemma duplicated_latest:
  assumes marked: "latest_marked (prompt_rows db)"
    and ps: "ps = filter (\<lambda>p. single \<longrightarrow> pr_version p = pr_version src) (versions_of db pid (pr_name src))"
  shows "latest_marked (prompt_rows (duplicated_db name single newId ps pid db))"
proof -
  let ?f = "duplicated_row newId name single"
  have "LATEST_PROMPT_LABEL \<in> set (pr_labels (?f p))" if p: "p \<in> set ps" and high: "highest_in (prompt_rows db @ map ?f ps) (?f p)" for p
  proof (cases single)
    case True
    then show ?thesis by (simp add: duplicated_row_def)
  next
    case False
    have "highest_in (prompt_rows db) p"
    proof (rule highest_inI)
      fix q
      assume q: "q \<in> set (prompt_rows db)" "same_name p q"
      then have "q \<in> set ps" using p False by (simp add: ps versions_of_def same_name_def)
      then have "pr_version (?f q) \<le> pr_version (?f p)"
        using q(2) by (intro highest_inD [OF high]) (simp_all add: same_name_def)
      with False show "pr_version q \<le> pr_version p" by simp
    qed
    with p False show ?thesis using latest_markedD [OF marked, of p] by (simp add: ps versions_of_def)
  qed
  then have "latest_marked (prompt_rows db @ map ?f ps)" by (intro latest_marked_append [OF marked]) auto
  then show ?thesis by (simp add: duplicated_db_def)
qed

lemma perform_latest:
  assumes ok: "store_ok db" and marked: "latest_marked (prompt_rows db)"
    and fresh: "fresh_ids a db" and keeps: "keeps_latest a db"
  shows "latest_marked (prompt_rows (perform a db))"
proof -
  note ids = store_okD(1) [OF ok]
  show ?thesis
  proof (cases a)
    case (Create_Prompt c i)
    with createPrompt_effect [OF ids, of i c] created_latest [OF ok marked] marked fresh show ?thesis by auto
  next
    case (Duplicate_Prompt pid i name single newId)
    with duplicatePrompt_effect [of pid i name single newId db] marked duplicated_latest [OF marked refl]
    show ?thesis by auto
  next
    case (Update_Prompt pid name v ls)
    have "latest_marked (map (relabel pid name (pr_id p) (set_order (ls @ pr_labels p)) ls) (prompt_rows db))"
      if p: "p \<in> set (prompt_rows db)" for p
    proof (rule latest_marked_map [OF marked relabel_keeps(1)])
      fix q
      assume q: "q \<in> set (prompt_rows db)" "LATEST_PROMPT_LABEL \<in> set (pr_labels q)"
      then have "pr_id q = pr_id p \<Longrightarrow> q = p" using same_id [OF ids _ p] by blast
      with q keeps Update_Prompt show
        "LATEST_PROMPT_LABEL \<in> set (pr_labels (relabel pid name (pr_id p) (set_order (ls @ pr_labels p)) ls q))"
        by (auto simp: relabel_def strip_def)
    qed
    with Update_Prompt updatePrompt_effect [OF ids, of pid name v ls] marked show ?thesis by auto
  next
    case (Set_Labels pid i ls)
    have "latest_marked (map (relabel pid (pr_name p) i (set_order ls) ls) (prompt_rows db))"
      if p: "p \<in> set (prompt_rows db)" "pr_id p = i" "pr_project p = pid" for p
    proof (rule latest_marked_map [OF marked relabel_keeps(1)])
      fix q
      assume q: "q \<in> set (prompt_rows db)" "LATEST_PROMPT_LABEL \<in> set (pr_labels q)"
      have same: "pr_id q = i \<Longrightarrow> LATEST_PROMPT_LABEL \<in> set ls" using keeps q Set_Labels by auto
      have one: "pr_id q = i" if "same_name q p" "LATEST_PROMPT_LABEL \<in> set ls"
      proof -
        have "LATEST_PROMPT_LABEL \<in> set (pr_labels p)" using keeps p that(2) Set_Labels by auto
        with labels_uniqueD [OF store_okD(3) [OF ok] q(1) p(1) that(1) q(2)] p(2) show ?thesis by simp
      qed
      show "LATEST_PROMPT_LABEL \<in> set (pr_labels (relabel pid (pr_name p) i (set_order ls) ls q))"
        using same one q(2) p(3) by (auto simp: relabel_def strip_def same_name_def)
    qed
    with Set_Labels setLabels_effect [OF ids, of pid i ls] marked show ?thesis by auto
  next
    case (Update_Tags pid name ts)
    have "latest_marked (map (retag pid name ts) (prompt_rows db))"
      by (rule latest_marked_map [OF marked relabel_keeps(3)]) simp
    with Update_Tags show ?thesis by (simp add: updateTags_effect)
  next
    case (Delete_Prompt pid name v l)
    have "latest_marked (prompt_rows (relabel_one u (delete_rows (map pr_id (requested_versions db pid name v l)) db)))"
      if "latest_moves db pid name (requested_versions db pid name v l) u" for u
      by (rule relabel_one_latest [OF ok marked requested_versions_of that set_map])
    with Delete_Prompt deletePrompt_effect [OF ids requested_versions_of, of pid name v l v l] marked
    show ?thesis by auto
  next
    case (Delete_All pid name)
    let ?vs = "versions_of db pid name"
    have "latest_moves db pid name ?vs None" by (simp add: latest_moves_def)
    from relabel_one_latest [OF ok marked order.refl this set_map] Delete_All delete_all_effect [of pid name db] marked
    show ?thesis by (auto simp: relabel_one_def)
  next
    case (Delete_Version pid i)
    have "latest_marked (prompt_rows (relabel_one u (delete_rows [i] db)))"
      if "p \<in> set (prompt_rows db)" "pr_id p = i" "pr_project p = pid" "latest_moves db pid (pr_name p) [p] u" for p u
      by (rule relabel_one_latest [OF ok marked _ that(4)]) (use that in \<open>simp_all add: versions_of_def\<close>)
    with Delete_Version delete_version_effect [OF ids store_okD(3) [OF ok], of pid i] marked show ?thesis by auto
  qed
qed

end
