(* ===== verification/Prompt_Runs.thy ===== *)
theory Prompt_Runs imports Prompt_Safety Prompt_Latest begin

text \<open>
  The stored prompts under every sequence of operations: what is always true of them, what is true as
  long as some calls are not made, which error comes with a change, and what creating a version does.
  Concrete runs at the end show what the exceptions are for.
\<close>

section \<open>Sequences of operations\<close>

definition empty_store :: prompt_db where
  "empty_store = \<lparr>prompt_rows = [], dependency_rows = []\<rparr>"

inductive store_run :: "(prompt_action \<Rightarrow> prompt_db \<Rightarrow> bool) \<Rightarrow> prompt_db \<Rightarrow> bool" for allowed where
  run_empty: "store_run allowed empty_store"
| run_step: "store_run allowed db \<Longrightarrow> fresh_ids a db \<Longrightarrow> allowed a db \<Longrightarrow> store_run allowed (perform a db)"

definition any_call :: "prompt_action \<Rightarrow> prompt_db \<Rightarrow> bool" where
  "any_call a db \<longleftrightarrow> True"

lemma store_run_ok: "store_run allowed db \<Longrightarrow> store_ok db"
proof (induction rule: store_run.induct)
  case run_empty
  show ?case by (simp add: empty_store_def store_ok_def versions_unique_def labels_unique_def one_id_def all_same_def parents_exist_def)
qed (rule perform_ok)

section \<open>Demonstration store\<close>

definition text_prompt :: "string \<Rightarrow> string \<Rightarrow> string list \<Rightarrow> create_params" where
  "text_prompt name content labels = \<lparr>cp_project = ''P'', cp_name = name, cp_prompt = JString content,
     cp_type = ''text'', cp_labels = labels, cp_tags = None\<rparr>"

definition demo_run :: "prompt_action list \<Rightarrow> prompt_db" where
  "demo_run as = fold perform as empty_store"

definition three_calls :: "prompt_action list" where
  "three_calls = [Create_Prompt (text_prompt ''b'' ''one'' [''p'']) ''1'',
     Create_Prompt (text_prompt ''b'' ''two'' []) ''2'',
     Create_Prompt (text_prompt ''a'' ''see @@@langfusePrompt:name=b|label=p@@@'' []) ''3'']"

lemma three_calls_rows:
  "demo_run three_calls = \<lparr>prompt_rows =
     [\<lparr>pr_id = ''1'', pr_project = ''P'', pr_name = ''b'', pr_version = 1, pr_labels = [''p''], pr_tags = [],
        pr_type = ''text'', pr_prompt = JString ''one''\<rparr>,
      \<lparr>pr_id = ''2'', pr_project = ''P'', pr_name = ''b'', pr_version = 2, pr_labels = [''latest''], pr_tags = [],
        pr_type = ''text'', pr_prompt = JString ''two''\<rparr>,
      \<lparr>pr_id = ''3'', pr_project = ''P'', pr_name = ''a'', pr_version = 1, pr_labels = [''latest''], pr_tags = [],
        pr_type = ''text'', pr_prompt = JString ''see @@@langfusePrompt:name=b|label=p@@@''\<rparr>],
     dependency_rows = [\<lparr>dp_project = ''P'', dp_parent = ''3'', dp_childName = ''b'', dp_childLabel = Some ''p'',
        dp_childVersion = None\<rparr>]\<rparr>"
  by code_simp

lemma three_calls_run:
  assumes "\<And>c i db. allowed (Create_Prompt c i) db"
  shows "store_run allowed (demo_run three_calls)"
proof -
  have "store_run allowed (perform (three_calls ! 0) empty_store)"
    unfolding three_calls_def by (rule run_step [OF run_empty]) (use assms in \<open>simp_all add: empty_store_def\<close>)
  moreover have "fresh_ids (three_calls ! 1) (perform (three_calls ! 0) empty_store)"
    "fresh_ids (three_calls ! 2) (perform (three_calls ! 1) (perform (three_calls ! 0) empty_store))"
    by code_simp+
  moreover have "allowed (three_calls ! 1) d" "allowed (three_calls ! 2) d" for d
    using assms by (simp_all add: three_calls_def numeral_2_eq_2)
  ultimately have "store_run allowed (perform (three_calls ! 2) (perform (three_calls ! 1) (perform (three_calls ! 0) empty_store)))"
    by (blast intro: run_step)
  then show ?thesis by (simp add: demo_run_def three_calls_def numeral_2_eq_2)
qed

section \<open>What is always true\<close>

text \<open>
  C6: whatever calls are made, if the database carries out their writes, identifiers are unique and a name has at most one row of a version, a label
  is on at most one version of a name, the versions of a name have one type and the same tags, versions
  are positive, and the parent of every dependency exists in its project.
\<close>

theorem prompt_store_invariant:
  assumes "store_run any_call db"
  shows "store_ok db"
  by (rule store_run_ok [OF assms])


theorem prompt_store_invariant_witness:
  "store_run any_call (demo_run three_calls) \<and> store_ok (demo_run three_calls)"
  using prompt_store_invariant [OF three_calls_run] three_calls_run [of any_call] by (simp add: any_call_def)

section \<open>What holds as long as some calls are not made\<close>



text \<open>
  C13: as long as nobody adds or removes the label \<open>latest\<close> by hand, the highest version of every name has it,
  after versions are created, duplicated, relabelled and deleted in any order, as long as no deletion is
  interrupted between its two writes.
\<close>

theorem latest_label_on_highest:
  assumes "store_run keeps_latest db"
  shows "latest_marked (prompt_rows db)"
  using assms
proof (induction rule: store_run.induct)
  case run_empty
  show ?case by (simp add: empty_store_def latest_marked_def)
next
  case (run_step db a)
  show ?case by (rule perform_latest [OF store_run_ok [OF run_step(1)] run_step(4,2,3)])
qed

theorem latest_label_on_highest_witness:
  "latest_marked (prompt_rows (demo_run three_calls)) \<and> length (prompt_rows (demo_run three_calls)) = 3"
  using latest_label_on_highest [OF three_calls_run] by (simp add: three_calls_rows)

section \<open>Errors\<close>

text \<open>The error of a call, if it has one.\<close>

definition error_of :: "action_error + 'a \<Rightarrow> action_error option" where
  "error_of r = (case r of Inl e \<Rightarrow> Some e | Inr x \<Rightarrow> None)"

fun failure :: "prompt_action \<Rightarrow> prompt_db \<Rightarrow> action_error option" where
  "failure (Create_Prompt c i) db = error_of (snd (createPrompt c i db))"
| "failure (Duplicate_Prompt pid i name single newId) db = error_of (snd (duplicatePrompt pid i name single newId db))"
| "failure (Update_Prompt pid name v ls) db = error_of (snd (updatePrompt pid name v ls db))"
| "failure (Set_Labels pid i ls) db = error_of (snd (setLabels pid i ls db))"
| "failure (Update_Tags pid name ts) db = error_of (snd (updateTags pid name ts db))"
| "failure (Delete_Prompt pid name v l) db =
     error_of (snd (deletePrompt True True pid name v l (requested_versions db pid name v l) db))"
| "failure (Delete_All pid name) db = error_of (snd (delete_all pid name db))"
| "failure (Delete_Version pid i) db = error_of (snd (delete_version pid i db))"

text \<open>The errors that are raised after the transaction.\<close>

definition late_error :: "prompt_action \<Rightarrow> action_error \<Rightarrow> bool" where
  "late_error a e \<longleftrightarrow> (case e of Resolution_Failed x \<Rightarrow> True
     | Duplicate_Failed \<Rightarrow> (case a of Duplicate_Prompt pid i name single newId \<Rightarrow> \<not> single | _ \<Rightarrow> False)
     | _ \<Rightarrow> False)"

lemma error_of_simps [simp]: "error_of (Inl e) = Some e" "error_of (Inr x) = None"
  by (simp_all add: error_of_def)

lemma late_resolution [simp]: "late_error a (Resolution_Failed x)"
  by (simp add: late_error_def)

lemma promptChangeEvents_error: "promptChangeEvents db ps = Inl e \<Longrightarrow> \<exists>x. e = Resolution_Failed x"
  by (induction db ps arbitrary: e rule: promptChangeEvents.induct) (auto split: sum.splits)

lemma find_latest_above:
  "q \<in> set ps \<Longrightarrow> pr_version q < next_version (find_latest ps)"
proof -
  assume q: "q \<in> set ps"
  then obtain l where "find_latest ps = Some l" using find_latest_props(1) [of ps] by (cases "find_latest ps") auto
  with find_latest_props(2) [OF this] q show ?thesis by (auto simp: next_version_def)
qed

lemma no_clash:
  assumes "i \<notin> pr_id ` set (prompt_rows db)"
  shows "\<not> row_clash db (new_prompt c i (find_latest (versions_of db (cp_project c) (cp_name c))) ls)"
proof -
  have "pr_version q < next_version (find_latest (versions_of db (cp_project c) (cp_name c)))"
    if "q \<in> set (prompt_rows db)" "pr_project q = cp_project c" "pr_name q = cp_name c" for q
    by (rule find_latest_above) (use that in \<open>simp add: versions_of_def\<close>)
  with assms show ?thesis by (fastforce simp: row_clash_def list_ex_iff)
qed

lemma createPrompt_outcome:
  assumes fresh: "i \<notin> pr_id ` set (prompt_rows db)" and ids: "distinct (map pr_id (prompt_rows db))"
  obtains (refused) e where "createPrompt c i db = (db, Inl e)" "e \<noteq> Unique_Constraint"
  | (done_late) deps e where "createPrompt c i db =
       (created_db c i (find_latest (versions_of db (cp_project c) (cp_name c))) deps db, Inl (Resolution_Failed e))"
  | (created) deps evs where "creation_checked c i (find_latest (versions_of db (cp_project c) (cp_name c))) deps db"
      "createPrompt c i db = (created_db c i (find_latest (versions_of db (cp_project c) (cp_name c))) deps db,
         Inr (new_prompt c i (find_latest (versions_of db (cp_project c) (cp_name c)))
            (set_order (cp_labels c @ [LATEST_PROMPT_LABEL])), evs))"
proof -
  note effect = create_transaction_effect [OF ids fresh refl refl, of c]
  let ?latest = "find_latest (versions_of db (cp_project c) (cp_name c))"
  note nc = no_clash [OF fresh, of c]
  show thesis
  proof (cases "(case ?latest of None \<Rightarrow> False | Some l \<Rightarrow> pr_type l \<noteq> cp_type c) \<or>
      conflictingNames (cp_type c) (cp_prompt c) \<noteq> []")
    case True
    show ?thesis
    proof (cases "case ?latest of None \<Rightarrow> False | Some l \<Rightarrow> pr_type l \<noteq> cp_type c")
      case ty: True
      show ?thesis by (rule refused [of Type_Differs]) (simp_all only: createPrompt_def Let_def if_P [OF ty], simp)
    next
      case ty: False
      with True have nm: "conflictingNames (cp_type c) (cp_prompt c) \<noteq> []" by blast
      show ?thesis
        by (rule refused [of "Names_Conflict (conflictingNames (cp_type c) (cp_prompt c))"])
          (simp_all only: createPrompt_def Let_def if_not_P [OF ty] if_P [OF nm], simp)
    qed
  next
    case False
    then have g: "\<not> (case ?latest of None \<Rightarrow> False | Some l \<Rightarrow> pr_type l \<noteq> cp_type c)"
      "\<not> conflictingNames (cp_type c) (cp_prompt c) \<noteq> []" by blast+
    have ty: "case ?latest of None \<Rightarrow> True | Some l \<Rightarrow> pr_type l = cp_type c" using g(1) by (auto split: option.splits)
    note parts = createPrompt_def [of c i db, unfolded Let_def if_not_P [OF g(1)] if_not_P [OF g(2)]]
    show ?thesis
    proof (cases "those (map dep_of_tag (parsePromptDependencyTags (cp_prompt c)))")
      case None
      then show ?thesis by (intro refused [of Version_Not_Integer]) (simp_all add: parts)
    next
      case (Some deps)
      show ?thesis
      proof (cases "buildAndResolvePromptGraph db (cp_project c) (new_prompt c i ?latest (cp_labels c)) (Some deps)")
        case (Inl e)
        with Some show ?thesis by (intro refused [of "Resolution_Failed e"]) (simp_all add: parts)
      next
        case (Inr x)
        then have chk: "creation_checked c i ?latest deps db" using Some ty nc by (simp add: creation_checked_def)
        note all = parts [unfolded Some Inr option.case sum.case if_not_P [OF nc] effect]
        let ?ids = "map fst (removeLabelsFromPreviousPromptVersions db (cp_project c) (cp_name c) (cp_labels c @ [LATEST_PROMPT_LABEL])) @
          map fst (if haveTagsChanged (final_tags c ?latest) ?latest
            then updatePromptTagsOnAllVersions db (cp_project c) (cp_name c) (final_tags c ?latest) else [])"
        let ?new = "new_prompt c i ?latest (set_order (cp_labels c @ [LATEST_PROMPT_LABEL]))"
        let ?db = "created_db c i ?latest deps db"
        show ?thesis
        proof (cases "promptChangeEvents ?db (map (\<lambda>p. (p, Updated)) (rows_with_ids ?db (cp_project c) ?ids) @ [(?new, Created)])")
          case l: (Inl e)
          then show ?thesis using promptChangeEvents_error [OF l] by (auto simp: all intro: done_late)
        next
          case (Inr evs)
          then show ?thesis by (intro created [OF chk, of evs]) (simp add: all)
        qed
      qed
    qed
  qed
qed

lemma duplicate_no_clash:
  assumes "versions_of db pid name = []" "newId (pr_id p) \<notin> pr_id ` set (prompt_rows db)" "pr_project p = pid"
  shows "\<not> row_clash db (duplicated_row newId name single p)"
proof -
  have "\<not> (pr_project q = pid \<and> pr_name q = name)" if "q \<in> set (prompt_rows db)" for q
    using assms(1) that by (auto simp: versions_of_def filter_empty_conv)
  moreover have "pr_id q \<noteq> newId (pr_id p)" if "q \<in> set (prompt_rows db)" for q
    using assms(2) imageI [OF that, of pr_id] by auto
  ultimately show ?thesis using assms(3) by (auto simp: row_clash_def list_ex_iff)
qed

lemma events_failure:
  "error_of (snd (case promptChangeEvents d ps of Inl e \<Rightarrow> (d', Inl e) | Inr evs \<Rightarrow> (d', Inr (g evs)))) = Some e \<Longrightarrow>
   late_error a e \<and> e \<noteq> Unique_Constraint"
  using promptChangeEvents_error [of d ps] by (cases "promptChangeEvents d ps") auto

lemma deletePrompt_failure:
  assumes "deletePrompt updates deletes pid name v l ps db = (db', Inl e)"
  shows "e \<noteq> Unique_Constraint \<and> (db' = db \<or> e = Database_Failed \<and> db' = reattach_latest pid name ps db)"
  using assms unfolding deletePrompt_def Let_def by (auto split: if_splits)

lemma duplicate_failure:
  assumes fresh: "fresh_ids (Duplicate_Prompt pid i name single newId) db"
    and fail: "failure (Duplicate_Prompt pid i name single newId) db = Some e"
  shows "e \<noteq> Unique_Constraint \<and>
    (perform (Duplicate_Prompt pid i name single newId) db = db \<or> late_error (Duplicate_Prompt pid i name single newId) e)"
proof (cases "versions_of db pid name \<noteq> [] \<or> find (\<lambda>p. pr_id p = i \<and> pr_project p = pid) (prompt_rows db) = None")
  case True
  with fail show ?thesis by (cases "versions_of db pid name = []") (auto simp: duplicatePrompt_def)
next
  case False
  then obtain src where src: "find (\<lambda>p. pr_id p = i \<and> pr_project p = pid) (prompt_rows db) = Some src"
    and new: "versions_of db pid name = []" by auto
  then have p: "src \<in> set (prompt_rows db)" "pr_project src = pid" by (auto simp: find_Some_iff)
  define ps where "ps = filter (\<lambda>p. single \<longrightarrow> pr_version p = pr_version src) (versions_of db pid (pr_name src))"
  have in_ps: "src \<in> set ps" using p by (simp add: ps_def versions_of_def)
  have nc: "\<not> list_ex (row_clash db) (map (duplicated_row newId name single) ps)"
  proof -
    have "\<not> row_clash db (duplicated_row newId name single q)" if "q \<in> set ps" for q
      by (rule duplicate_no_clash [OF new]) (use that fresh in \<open>auto simp: ps_def versions_of_def\<close>)
    then show ?thesis by (simp add: list_ex_iff)
  qed
  let ?rows = "map (duplicated_row newId name single) ps"
  let ?db = "duplicated_db name single newId ps pid db"
  have "\<exists>q. find (\<lambda>p. pr_version p = 1) (versions_of ?db pid name) = Some q" if s: single
  proof -
    have "duplicated_row newId name single src \<in> set (versions_of ?db pid name)"
      using in_ps p by (simp add: versions_of_def duplicated_db_def)
    moreover have "pr_version (duplicated_row newId name single src) = 1" using s by simp
    ultimately have "find (\<lambda>p. pr_version p = 1) (versions_of ?db pid name) \<noteq> None"
      unfolding find_None_iff by blast
    then show ?thesis by blast
  qed
  note found = this
  have made: "insert_deps (concat (map (\<lambda>p. map (\<lambda>d. d\<lparr>dp_project := pid, dp_parent := newId (pr_id p)\<rparr>)
       (filter (\<lambda>d. dp_parent d = pr_id p) (dependency_rows db))) ps)) (fold insert_row ?rows db) = ?db"
    by (simp add: duplicated_db_def fold_insert_row insert_deps_def)
  have "duplicatePrompt pid i name single newId db =
     (case promptChangeEvents ?db (map (\<lambda>p. (p, Created)) ?rows) of
        Inl e \<Rightarrow> (?db, Inl e)
      | Inr evs \<Rightarrow> (case find (\<lambda>p. pr_version p = (if single then 1 else length ?rows)) (versions_of ?db pid name) of
            None \<Rightarrow> (?db, Inl Duplicate_Failed) | Some p \<Rightarrow> (?db, Inr (p, evs))))"
    unfolding duplicatePrompt_def new src Let_def option.case ps_def [symmetric] if_not_P [OF nc] made [unfolded Let_def]
    by simp
  then have "e = Duplicate_Failed \<and> \<not> single \<or> (\<exists>x. e = Resolution_Failed x)"
    using fail found promptChangeEvents_error by (auto split: sum.splits option.splits if_splits)
  then show ?thesis by (auto simp: late_error_def)
qed

lemma failed_perform:
  assumes run: "store_run any_call db" and fresh: "fresh_ids a db" and fail: "failure a db = Some e"
  shows "e \<noteq> Unique_Constraint \<and> (perform a db = db \<or> late_error a e)"
proof (cases a)
  case (Create_Prompt c i)
  have "i \<notin> pr_id ` set (prompt_rows db)" using fresh Create_Prompt by simp
  then show ?thesis
    by (rule createPrompt_outcome [OF _ store_okD(1) [OF store_run_ok [OF run]], of i c]) (use fail Create_Prompt in auto)
next
  case (Duplicate_Prompt pid i name single newId)
  with duplicate_failure fresh fail show ?thesis by simp
next
  case (Update_Prompt pid name v ls)
  show ?thesis
  proof (cases "find (\<lambda>p. pr_version p = v) (versions_of db pid name)")
    case (Some p)
    with fail show ?thesis
      unfolding Update_Prompt failure.simps perform.simps updatePrompt_def Some option.case Let_def
      by (auto split: if_splits dest: events_failure)
  qed (use fail Update_Prompt in \<open>auto simp: updatePrompt_def\<close>)
next
  case (Set_Labels pid i ls)
  show ?thesis
  proof (cases "find (\<lambda>p. pr_id p = i \<and> pr_project p = pid) (prompt_rows db)")
    case (Some p)
    with fail show ?thesis
      unfolding Set_Labels failure.simps perform.simps setLabels_def Some option.case Let_def
      by (auto split: if_splits dest: events_failure)
  qed (use fail Set_Labels in \<open>auto simp: setLabels_def\<close>)
next
  case (Update_Tags pid name ts)
  with fail show ?thesis
    unfolding Update_Tags failure.simps perform.simps updateTags_def Let_def by (auto dest: events_failure)
next
  case (Delete_Prompt pid name v l)
  let ?ps = "requested_versions db pid name v l"
  from Delete_Prompt fail have "deletePrompt True True pid name v l ?ps db = (perform a db, Inl e)"
    by (cases "deletePrompt True True pid name v l ?ps db"; cases "snd (deletePrompt True True pid name v l ?ps db)") auto
  then show ?thesis by (auto simp: deletePrompt_def Let_def split: if_splits)
next
  case (Delete_All pid name)
  with fail show ?thesis
    unfolding Delete_All failure.simps perform.simps delete_all_def Let_def by (auto split: if_splits dest: events_failure)
next
  case (Delete_Version pid i)
  show ?thesis
  proof (cases "find (\<lambda>p. pr_id p = i \<and> pr_project p = pid) (prompt_rows db)")
    case (Some p)
    with fail show ?thesis
      unfolding Delete_Version failure.simps perform.simps delete_version_def Some option.case Let_def
      by (auto split: if_splits simp del: promptChangeEvents.simps dest: events_failure)
  qed (use fail Delete_Version in \<open>auto simp: delete_version_def\<close>)
qed

text \<open>
  A call and what becomes of its writes. All of them are one transaction or one statement, the first write,
  but for those of \<open>deletePrompt\<close>; an error that comes before the first write comes whatever the database does.
\<close>

definition attempt :: "bool \<Rightarrow> bool \<Rightarrow> prompt_action \<Rightarrow> prompt_db \<Rightarrow> prompt_db \<times> action_error option" where
  "attempt updates deletes a db = (case a of
     Delete_Prompt pid name v l \<Rightarrow>
       (case deletePrompt updates deletes pid name v l (requested_versions db pid name v l) db of
          (db', r) \<Rightarrow> (db', error_of r))
   | _ \<Rightarrow> (let before = (case failure a db of None \<Rightarrow> False | Some e \<Rightarrow> \<not> late_error a e) in
       if before \<or> updates then (perform a db, failure a db) else (db, Some Database_Failed)))"

text \<open>
  C20: an operation that fails, by its own checks or because the database fails in any of its writes, leaves
  the tables as they were, with three exceptions: the error that a prompt could not be resolved for the
  change events and the error that the result of a duplication was not found, which come after the transaction
  has been done in full; and a deletion through the public interface that fails after it has moved \<open>latest\<close>,
  which leaves that move. A unique constraint is never violated.
\<close>

theorem failed_operation:
  assumes run: "store_run any_call db" and fresh: "fresh_ids a db"
    and fail: "attempt updates deletes a db = (db', Some e)"
  shows "e \<noteq> Unique_Constraint \<and> (db' = db \<or> late_error a e \<and> db' = perform a db \<or>
    e = Database_Failed \<and> (\<exists>pid name v l. a = Delete_Prompt pid name v l \<and>
      db' = reattach_latest pid name (requested_versions db pid name v l) db))"
proof (cases "\<exists>pid name v l. a = Delete_Prompt pid name v l")
  case True
  then obtain pid name v l where a: "a = Delete_Prompt pid name v l" by blast
  let ?d = "deletePrompt updates deletes pid name v l (requested_versions db pid name v l) db"
  have "?d = (db', Inl e)" using fail by (cases ?d; cases "snd ?d") (auto simp: attempt_def a)
  from deletePrompt_failure [OF this] a show ?thesis by blast
next
  case False
  then have "attempt updates deletes a db = (let before = (case failure a db of None \<Rightarrow> False | Some e \<Rightarrow> \<not> late_error a e) in
      if before \<or> updates then (perform a db, failure a db) else (db, Some Database_Failed))"
    by (cases a) (auto simp: attempt_def)
  with fail have "(e = Database_Failed \<and> db' = db) \<or> (failure a db = Some e \<and> db' = perform a db)"
    by (auto simp: Let_def split: if_splits)
  then show ?thesis using failed_perform [OF run fresh, of e] by auto
qed

text \<open>A prompt that is still used cannot be deleted.\<close>

theorem failed_operation_witness:
  "attempt True True (Delete_All ''P'' ''b'') (demo_run three_calls) =
     (demo_run three_calls, Some (Has_Dependents (dependency_rows (demo_run three_calls))))"
proof -
  have f: "failure (Delete_All ''P'' ''b'') (demo_run three_calls) = Some (Has_Dependents (dependency_rows (demo_run three_calls)))"
    unfolding three_calls_rows by code_simp
  then have "attempt True True (Delete_All ''P'' ''b'') (demo_run three_calls) =
      (perform (Delete_All ''P'' ''b'') (demo_run three_calls), Some (Has_Dependents (dependency_rows (demo_run three_calls))))"
    by (simp add: attempt_def del: failure.simps perform.simps)
  with failed_operation [OF three_calls_run, of "Delete_All ''P'' ''b''" True True] show ?thesis
    by (simp add: any_call_def late_error_def del: perform.simps)
qed

text \<open>
  The database fails between the two writes of a deletion: \<open>latest\<close> is on two versions.
\<close>

lemma interrupted_deletion_doubles_latest:
  "case attempt True False (Delete_Prompt ''P'' ''b'' (Some 2) None)
       (demo_run [Create_Prompt (text_prompt ''b'' ''one'' []) ''1'', Create_Prompt (text_prompt ''b'' ''two'' []) ''2'']) of
     (db', e) \<Rightarrow> e = Some Database_Failed \<and> map pr_labels (versions_of db' ''P'' ''b'') = [[''latest''], [''latest'']]"
  by code_simp

section \<open>Creating a version\<close>

definition highest_number :: "prompt_row list \<Rightarrow> nat" where
  "highest_number ps = fold max (map pr_version ps) 0"

lemma highest_number_max: "highest_number ps = Max (insert 0 (pr_version ` set ps))"
  by (simp add: highest_number_def Max.set_eq_fold [symmetric])

lemma next_version_highest:
  assumes "\<And>p. p \<in> set ps \<Longrightarrow> 0 < pr_version p"
  shows "next_version (find_latest ps) = Suc (highest_number ps)"
proof (cases "find_latest ps")
  case None
  then have "ps = []" using find_latest_props(1) by blast
  with None show ?thesis by (simp add: next_version_def highest_number_def)
next
  case (Some l)
  then have l: "l \<in> set ps" "\<forall>q \<in> set ps. pr_version q \<le> pr_version l" using find_latest_props(2) by blast+
  then have "Max (insert 0 (pr_version ` set ps)) = pr_version l" by (intro Max_eqI) auto
  then show ?thesis using Some assms [OF l(1)] by (simp add: next_version_def highest_number_max)
qed

text \<open>
  What becomes of an older row when \<open>p\<close> is created: a version of the same name loses the labels of \<open>p\<close> and has
  the tags of \<open>p\<close> (written anew only if they are others); any other row stays as it is.
\<close>

definition older_version :: "prompt_row \<Rightarrow> prompt_row \<Rightarrow> prompt_row" where
  "older_version p q = (if same_name p q
     then q\<lparr>pr_labels := filter (\<lambda>l. l \<notin> set (pr_labels p)) (pr_labels q),
            pr_tags := if set (pr_tags q) = set (pr_tags p) then pr_tags q else pr_tags p\<rparr>
     else q)"

text \<open>What the call promises of the tables it leaves.\<close>

definition creation_promise :: "create_params \<Rightarrow> string \<Rightarrow> prompt_db \<Rightarrow> prompt_row \<Rightarrow> prompt_db \<Rightarrow> bool" where
  "creation_promise c i db p db' \<longleftrightarrow>
     pr_id p = i \<and> pr_project p = cp_project c \<and> pr_name p = cp_name c \<and> pr_type p = cp_type c \<and>
     pr_prompt p = cp_prompt c \<and>
     pr_version p = Suc (highest_number (versions_of db (cp_project c) (cp_name c))) \<and>
     pr_labels p = set_order (cp_labels c @ [LATEST_PROMPT_LABEL]) \<and>
     (case cp_tags c of
        Some ts \<Rightarrow> set (pr_tags p) = set ts
      | None \<Rightarrow> \<forall>q \<in> set (versions_of db (cp_project c) (cp_name c)). set (pr_tags p) = set (pr_tags q)) \<and>
     prompt_rows db' = map (older_version p) (prompt_rows db) @ [p] \<and>
     (\<exists>deps. those (map dep_of_tag (parsePromptDependencyTags (cp_prompt c))) = Some deps \<and>
        dependency_rows db' = dependency_rows db @ map (row_of_tag (cp_project c) i) deps)"

lemma set_order_fold:
  "distinct (xs @ acc) \<Longrightarrow> fold (\<lambda>x acc. if x \<in> set acc then acc else x # acc) xs acc = rev xs @ acc"
  by (induction xs arbitrary: acc) auto

lemma set_order_id: "distinct xs \<Longrightarrow> set_order xs = xs"
  using set_order_fold [of xs "[]"] by (simp add: set_order_def)

lemma distinct_set_order: "distinct (set_order xs)"
proof -
  have "distinct acc \<Longrightarrow> distinct (fold (\<lambda>x acc. if x \<in> set acc then acc else x # acc) xs acc)" for acc :: "'a list"
    by (induction xs arbitrary: acc) auto
  then show ?thesis by (simp add: set_order_def)
qed

lemma after_create_older:
  assumes ok: "store_ok db" and q: "q \<in> set (prompt_rows db)"
    and latest: "latest = find_latest (versions_of db (cp_project c) (cp_name c))"
  shows "after_create c latest q = older_version (new_prompt c i latest (set_order (cp_labels c @ [LATEST_PROMPT_LABEL]))) q"
    (is "_ = older_version ?p q")
proof (cases "same_name ?p q")
  case True
  then have k: "pr_project q = cp_project c" "pr_name q = cp_name c" by (simp_all add: same_name_def)
  then have qv: "q \<in> set (versions_of db (cp_project c) (cp_name c))" using q by (simp add: versions_of_def)
  then obtain l where l: "latest = Some l" "l \<in> set (versions_of db (cp_project c) (cp_name c))"
    using find_latest_props unfolding latest by (cases "find_latest (versions_of db (cp_project c) (cp_name c))") auto
  then have "l \<in> set (prompt_rows db)" "same_name l q" using k by (auto simp: versions_of_def same_name_def)
  then have "set (pr_tags l) = set (pr_tags q)" using all_sameD [OF store_okD(5) [OF ok] _ q] by blast
  then have changed: "haveTagsChanged (final_tags c latest) latest \<longleftrightarrow> set (pr_tags q) \<noteq> set (pr_tags ?p)"
    by (auto simp: haveTagsChanged_def l new_prompt_def)
  have tags: "set_order (final_tags c latest) = pr_tags ?p"
    by (simp add: new_prompt_def final_tags_def set_order_id distinct_set_order)
  have labels: "pr_labels ?p = set_order (cp_labels c @ [LATEST_PROMPT_LABEL])" by (simp add: new_prompt_def)
  show ?thesis
    unfolding after_create_def Let_def changed tags older_version_def if_P [OF True] labels set_set_order
    using k by (auto simp: strip_def retag_def)
next
  case False
  then show ?thesis by (auto simp: after_create_def Let_def strip_def retag_def older_version_def same_name_def)
qed

text \<open>
  C12: a version that is created has the number after the highest of its name, exactly the labels that were
  asked for and \<open>latest\<close>, and the tags that were asked for or, without any, those of the other versions; the
  tables are the old ones with its row and the dependencies written in it added at the end, where the other versions
  of the name have lost just these labels and have these tags, and nothing else is changed.
\<close>

theorem created_version_exact:
  assumes run: "store_run any_call db" and fresh: "i \<notin> pr_id ` set (prompt_rows db)"
    and made: "createPrompt c i db = (db', Inr (p, evs))"
  shows "creation_promise c i db p db'"
proof -
  have ok: "store_ok db" by (rule store_run_ok [OF run])
  let ?vs = "versions_of db (cp_project c) (cp_name c)"
  let ?latest = "find_latest ?vs"
  obtain deps where chk: "creation_checked c i ?latest deps db" and db': "db' = created_db c i ?latest deps db"
    and p: "p = new_prompt c i ?latest (set_order (cp_labels c @ [LATEST_PROMPT_LABEL]))"
    by (rule createPrompt_outcome [OF fresh store_okD(1) [OF ok], of c]) (use made in auto)
  have rows: "prompt_rows db' = map (older_version p) (prompt_rows db) @ [p]"
    "dependency_rows db' = dependency_rows db @ map (row_of_tag (cp_project c) i) deps"
    using after_create_older [OF ok _ refl, of _ c i] by (simp_all add: db' p created_db_def)
  have "pr_version p = Suc (highest_number ?vs)"
    unfolding p new_prompt_fields by (rule next_version_highest) (use store_okD(7) [OF ok] in \<open>auto simp: versions_of_def\<close>)
  moreover have "those (map dep_of_tag (parsePromptDependencyTags (cp_prompt c))) = Some deps"
    using chk by (simp add: creation_checked_def)
  moreover have "set (pr_tags p) = set (pr_tags q)" if none: "cp_tags c = None" and q: "q \<in> set ?vs" for q
  proof -
    obtain l where l: "?latest = Some l" "l \<in> set ?vs" using find_latest_props q by (cases ?latest) auto
    then have "set (pr_tags l) = set (pr_tags q)"
      using q by (intro all_sameD [OF store_okD(5) [OF ok]]) (auto simp: versions_of_def same_name_def)
    then show ?thesis by (simp add: p final_tags_def none l)
  qed
  ultimately show ?thesis
    unfolding creation_promise_def rows by (auto simp: p final_tags_def split: option.split)
qed

definition third_version :: create_params where
  "third_version = text_prompt ''b'' ''three'' [''p'']"

theorem created_version_exact_witness:
  "\<exists>db' p evs. createPrompt third_version ''4'' (demo_run three_calls) = (db', Inr (p, evs)) \<and> pr_version p = 3 \<and>
     creation_promise third_version ''4'' (demo_run three_calls) p db'"
proof -
  have "case snd (createPrompt third_version ''4'' (demo_run three_calls)) of
      Inl e \<Rightarrow> False | Inr (p, evs) \<Rightarrow> pr_version p = 3"
    unfolding three_calls_rows by code_simp
  then obtain db' p evs where "createPrompt third_version ''4'' (demo_run three_calls) = (db', Inr (p, evs))" "pr_version p = 3"
    by (cases "createPrompt third_version ''4'' (demo_run three_calls)") (auto split: sum.splits)
  with created_version_exact [OF three_calls_run, of "''4''" third_version] show ?thesis
    by (auto simp: any_call_def three_calls_rows)
qed

section \<open>What the exceptions are for\<close>

lemma dependencies_found_code [code]:
  "dependencies_found db \<longleftrightarrow> (\<forall>d \<in> set (dependency_rows db).
     case find_dep db (dp_project d) (tag_of_row d) of None \<Rightarrow> False | Some q \<Rightarrow> pr_type q = ''text'')"
  by (auto simp: dependencies_found_def split: option.splits)

text \<open>
  A version without labels is deleted from the user interface although another prompt uses it by its
  number; that prompt cannot be resolved afterwards. The public interface refuses the same deletion.
\<close>

definition pinned_calls :: "prompt_action list" where
  "pinned_calls = [Create_Prompt (text_prompt ''b'' ''one'' []) ''1'',
     Create_Prompt (text_prompt ''b'' ''two'' []) ''2'',
     Create_Prompt (text_prompt ''a'' ''see @@@langfusePrompt:name=b|version=1@@@'' []) ''3'']"

lemma unlabelled_version_deleted:
  "dependencies_found (demo_run pinned_calls)"
  "failure (Delete_Version ''P'' ''1'') (demo_run pinned_calls) = None"
  "\<not> dependencies_found (perform (Delete_Version ''P'' ''1'') (demo_run pinned_calls))"
  "failure (Delete_Prompt ''P'' ''b'' (Some 1) None) (demo_run pinned_calls) \<noteq> None"
  by code_simp+

text \<open>
  Duplicating a prompt whose versions are not numbered from one without gaps makes the copies and is
  reported as failed, since the copy that is read back has the number of copies as its version.
\<close>

definition gap_calls :: "prompt_action list" where
  "gap_calls = [Create_Prompt (text_prompt ''b'' ''one'' []) ''1'', Create_Prompt (text_prompt ''b'' ''two'' []) ''2'',
     Create_Prompt (text_prompt ''b'' ''three'' []) ''3'', Delete_Version ''P'' ''2'']"

lemma duplicate_reported_failed:
  "failure (Duplicate_Prompt ''P'' ''1'' ''c'' False (\<lambda>i. i @ ''x'')) (demo_run gap_calls) = Some Duplicate_Failed"
  "map pr_version (versions_of (perform (Duplicate_Prompt ''P'' ''1'' ''c'' False (\<lambda>i. i @ ''x'')) (demo_run gap_calls)) ''P'' ''c'') = [1, 3]"
  by code_simp+

text \<open>
  Labels are moved without a look at the dependencies that they then make: two moves close a circle, the
  second is stored and its prompts can no longer be resolved.
\<close>

definition circle_calls :: "prompt_action list" where
  "circle_calls = [Create_Prompt (text_prompt ''b'' ''plain'' [''y'']) ''1'',
     Create_Prompt (text_prompt ''a'' ''@@@langfusePrompt:name=b|label=y@@@'' []) ''2'',
     Create_Prompt (text_prompt ''c'' ''plain'' [''z'']) ''3'',
     Create_Prompt (text_prompt ''b'' ''@@@langfusePrompt:name=c|label=z@@@'' []) ''4'',
     Create_Prompt (text_prompt ''c'' ''@@@langfusePrompt:name=a|version=1@@@'' []) ''5'',
     Update_Prompt ''P'' ''b'' 2 [''y'']]"

lemma circle_rows:
  "demo_run circle_calls = \<lparr>prompt_rows =
     [\<lparr>pr_id = ''1'', pr_project = ''P'', pr_name = ''b'', pr_version = 1, pr_labels = [], pr_tags = [],
        pr_type = ''text'', pr_prompt = JString ''plain''\<rparr>,
      \<lparr>pr_id = ''2'', pr_project = ''P'', pr_name = ''a'', pr_version = 1, pr_labels = [''latest''], pr_tags = [],
        pr_type = ''text'', pr_prompt = JString ''@@@langfusePrompt:name=b|label=y@@@''\<rparr>,
      \<lparr>pr_id = ''3'', pr_project = ''P'', pr_name = ''c'', pr_version = 1, pr_labels = [''z''], pr_tags = [],
        pr_type = ''text'', pr_prompt = JString ''plain''\<rparr>,
      \<lparr>pr_id = ''4'', pr_project = ''P'', pr_name = ''b'', pr_version = 2, pr_labels = [''y'', ''latest''], pr_tags = [],
        pr_type = ''text'', pr_prompt = JString ''@@@langfusePrompt:name=c|label=z@@@''\<rparr>,
      \<lparr>pr_id = ''5'', pr_project = ''P'', pr_name = ''c'', pr_version = 2, pr_labels = [''latest''], pr_tags = [],
        pr_type = ''text'', pr_prompt = JString ''@@@langfusePrompt:name=a|version=1@@@''\<rparr>],
     dependency_rows =
     [\<lparr>dp_project = ''P'', dp_parent = ''2'', dp_childName = ''b'', dp_childLabel = Some ''y'', dp_childVersion = None\<rparr>,
      \<lparr>dp_project = ''P'', dp_parent = ''4'', dp_childName = ''c'', dp_childLabel = Some ''z'', dp_childVersion = None\<rparr>,
      \<lparr>dp_project = ''P'', dp_parent = ''5'', dp_childName = ''a'', dp_childLabel = None, dp_childVersion = Some 1\<rparr>]\<rparr>"
  by code_simp

lemma label_move_closes_circle:
  "failure (Update_Prompt ''P'' ''c'' 2 [''z'']) (demo_run circle_calls) = Some (Resolution_Failed (Circular ''c'' 2)) \<and>
   map pr_labels (versions_of (perform (Update_Prompt ''P'' ''c'' 2 [''z'']) (demo_run circle_calls)) ''P'' ''c'') =
     [[], [''z'', ''latest'']]"
  unfolding circle_rows by code_simp

text \<open>The label \<open>latest\<close> can be taken from the highest version.\<close>

lemma latest_removed_by_hand:
  "failure (Set_Labels ''P'' ''2'' []) (demo_run three_calls) = None"
  "\<not> latest_marked (prompt_rows (perform (Set_Labels ''P'' ''2'' []) (demo_run three_calls)))"
  unfolding three_calls_rows by code_simp+

end
