(* ===== verification/Prompt_Cache.thy ===== *)
theory Prompt_Cache imports Prompt_Runs "HOL-Library.Sublist" begin

text \<open>
  Reading a prompt through the cache: \<open>getPromptByName\<close> of \<^verbatim>\<open>web/src/features/prompts/server/actions\<close> and
  the cache of \<^verbatim>\<open>PromptService/index.ts\<close>, with the order in which the operations of \<^verbatim>\<open>Prompt_Actions\<close> lock the
  cache, invalidate it, commit and unlock. Redis is a record of the commands the code uses on a state \<open>'s\<close>;
  a command may fail. A cached text stands for the result it is parsed to.
\<close>

section \<open>Requests, results and commands\<close>

record prompt_params =
  pp_project :: string
  pp_name :: string
  pp_version :: "nat option"
  pp_label :: "string option"

type_synonym prompt_result = "prompt_row \<times> prompt_graph option"

record 's prompt_redis =
  rd_getex :: "string \<Rightarrow> 's \<Rightarrow> prompt_result option option \<times> 's"
  rd_sadd :: "string \<Rightarrow> string \<Rightarrow> 's \<Rightarrow> bool \<times> 's"
  rd_set :: "string \<Rightarrow> prompt_result \<Rightarrow> 's \<Rightarrow> bool \<times> 's"
  rd_setex :: "string \<Rightarrow> 's \<Rightarrow> bool \<times> 's"
  rd_exists :: "string \<Rightarrow> 's \<Rightarrow> bool option \<times> 's"
  rd_smembers :: "string \<Rightarrow> 's \<Rightarrow> string list option \<times> 's"
  rd_del :: "string list \<Rightarrow> 's \<Rightarrow> bool \<times> 's"

record prompt_config =
  prompt_cache_enabled :: bool
  prompt_redis_cluster :: bool

section \<open>Keys\<close>

definition getLockKey :: "string \<Rightarrow> string" where
  "getLockKey projectId = ''LOCK:prompt:'' @ projectId"

definition getKeyIndexKey :: "string \<Rightarrow> string" where
  "getKeyIndexKey projectId = ''prompt_key_index:'' @ projectId"

definition getCacheKeyPrefix :: "prompt_params \<Rightarrow> string" where
  "getCacheKeyPrefix p = ''prompt:'' @ pp_project p @ '':'' @ pp_name p"

definition getCacheKey :: "prompt_params \<Rightarrow> string" where
  "getCacheKey p = getCacheKeyPrefix p @ '':'' @ (case pp_version p of Some v \<Rightarrow> nat_str v
     | None \<Rightarrow> (case pp_label p of Some l \<Rightarrow> l | None \<Rightarrow> ''undefined''))"

section \<open>The tables\<close>

definition resolvePrompt :: "prompt_db \<Rightarrow> prompt_row option \<Rightarrow> prompt_error + prompt_result option" where
  "resolvePrompt db prompt = (case prompt of
     None \<Rightarrow> Inr None
   | Some p \<Rightarrow> (case buildAndResolvePromptGraph db (pr_project p) p None of
        Inl e \<Rightarrow> Inl e | Inr (gr, v) \<Rightarrow> Inr (Some (p\<lparr>pr_prompt := v\<rparr>, gr))))"

definition find_version :: "prompt_db \<Rightarrow> string \<Rightarrow> string \<Rightarrow> nat \<Rightarrow> prompt_row option" where
  "find_version db projectId name v = find (\<lambda>p. pr_version p = v) (versions_of db projectId name)"

definition find_label :: "prompt_db \<Rightarrow> string \<Rightarrow> string \<Rightarrow> string \<Rightarrow> prompt_row option" where
  "find_label db projectId name l = find (\<lambda>p. l \<in> set (pr_labels p)) (versions_of db projectId name)"

definition getDbPrompt :: "prompt_db \<Rightarrow> prompt_params \<Rightarrow> prompt_error + prompt_result option" where
  "getDbPrompt db p =
     (if pp_version p \<noteq> None \<and> pp_version p \<noteq> Some 0
      then resolvePrompt db (find_version db (pp_project p) (pp_name p) (the (pp_version p)))
      else if truthy_text (pp_label p)
      then resolvePrompt db (find_label db (pp_project p) (pp_name p) (the (pp_label p)))
      else Inr None)"

section \<open>Reading through the cache\<close>

definition isCacheLocked :: "'s prompt_redis \<Rightarrow> prompt_params \<Rightarrow> 's \<Rightarrow> bool \<times> 's" where
  "isCacheLocked R p s = (case rd_exists R (getLockKey (pp_project p)) s of
     (None, s') \<Rightarrow> (False, s') | (Some b, s') \<Rightarrow> (b, s'))"

definition shouldUseCache :: "prompt_config \<Rightarrow> 's prompt_redis \<Rightarrow> prompt_params \<Rightarrow> 's \<Rightarrow> bool \<times> 's" where
  "shouldUseCache cfg R p s =
     (if \<not> prompt_cache_enabled cfg then (False, s)
      else (case isCacheLocked R p s of (isLocked, s') \<Rightarrow> (\<not> isLocked, s')))"

definition getCachedPrompt :: "'s prompt_redis \<Rightarrow> prompt_params \<Rightarrow> 's \<Rightarrow> prompt_result option \<times> 's" where
  "getCachedPrompt R p s = (case rd_getex R (getCacheKey p) s of
     (Some (Some v), s') \<Rightarrow> (Some v, s') | (_, s') \<Rightarrow> (None, s'))"

definition cachePrompt :: "'s prompt_redis \<Rightarrow> prompt_params \<Rightarrow> prompt_result \<Rightarrow> 's \<Rightarrow> 's" where
  "cachePrompt R p r s = (case rd_sadd R (getKeyIndexKey (pp_project p)) (getCacheKey p) s of
     (False, s1) \<Rightarrow> s1
   | (True, s1) \<Rightarrow> snd (rd_set R (getCacheKey p) r s1))"

definition getPrompt :: "prompt_config \<Rightarrow> 's prompt_redis \<Rightarrow> prompt_db \<Rightarrow> prompt_params \<Rightarrow> 's \<Rightarrow>
    (prompt_error + prompt_result option) \<times> 's" where
  "getPrompt cfg R db p s =
     (case shouldUseCache cfg R p s of (use, s1) \<Rightarrow>
        case (if use then getCachedPrompt R p s1 else (None, s1)) of
          (Some cachedPrompt, s2) \<Rightarrow> (Inr (Some cachedPrompt), s2)
        | (None, s2) \<Rightarrow> (case getDbPrompt db p of
            Inl e \<Rightarrow> (Inl e, s2)
          | Inr dbPrompt \<Rightarrow> (case shouldUseCache cfg R p s2 of (use', s3) \<Rightarrow>
              (Inr dbPrompt, case dbPrompt of
                 None \<Rightarrow> s3 | Some r \<Rightarrow> if use' then cachePrompt R p r s3 else s3))))"

datatype read_error = Version_And_Label | Read_Failed prompt_error

definition PRODUCTION_LABEL :: string where
  "PRODUCTION_LABEL = ''production''"

text \<open>Without resolution the row is read from the table, with the text as it was written.\<close>

definition getPromptByName :: "prompt_config \<Rightarrow> 's prompt_redis \<Rightarrow> prompt_db \<Rightarrow> prompt_params \<Rightarrow> bool \<Rightarrow> 's \<Rightarrow>
    (read_error + prompt_result option) \<times> 's" where
  "getPromptByName cfg R db p resolves s =
     (let byVersion = pp_version p \<noteq> None \<and> pp_version p \<noteq> Some 0;
          failing = (\<lambda>(r, s'). (case r of Inl e \<Rightarrow> Inl (Read_Failed e) | Inr x \<Rightarrow> Inr x, s')) in
      if byVersion \<and> truthy_text (pp_label p) then (Inl Version_And_Label, s)
      else if \<not> resolves then
        (if byVersion
         then (Inr (map_option (\<lambda>q. (q, None)) (find_version db (pp_project p) (pp_name p) (the (pp_version p)))), s)
         else (Inr (map_option (\<lambda>q. (q, None)) (find_label db (pp_project p) (pp_name p)
           (case pp_label p of Some l \<Rightarrow> l | None \<Rightarrow> PRODUCTION_LABEL))), s))
      else if byVersion then failing (getPrompt cfg R db (p\<lparr>pp_label := None\<rparr>) s)
      else if truthy_text (pp_label p) then failing (getPrompt cfg R db (p\<lparr>pp_version := None\<rparr>) s)
      else failing (getPrompt cfg R db (p\<lparr>pp_version := None, pp_label := Some PRODUCTION_LABEL\<rparr>) s))"

section \<open>Locking and invalidating\<close>

text \<open>The boolean is whether the call returned; otherwise it threw.\<close>

definition lockCache :: "prompt_config \<Rightarrow> 's prompt_redis \<Rightarrow> string \<Rightarrow> 's \<Rightarrow> bool \<times> 's" where
  "lockCache cfg R projectId s =
     (if \<not> prompt_cache_enabled cfg then (True, s) else rd_setex R (getLockKey projectId) s)"

definition unlockCache :: "prompt_config \<Rightarrow> 's prompt_redis \<Rightarrow> string \<Rightarrow> 's \<Rightarrow> bool \<times> 's" where
  "unlockCache cfg R projectId s =
     (if \<not> prompt_cache_enabled cfg then (True, s) else (True, snd (rd_del R [getLockKey projectId] s)))"

fun delete_each :: "'s prompt_redis \<Rightarrow> string list \<Rightarrow> 's \<Rightarrow> bool \<times> 's" where
  "delete_each R [] s = (True, s)"
| "delete_each R (k # ks) s = (case rd_del R [k] s of (ok, s1) \<Rightarrow>
     case delete_each R ks s1 of (oks, s2) \<Rightarrow> (ok \<and> oks, s2))"

definition delete_keys :: "prompt_config \<Rightarrow> 's prompt_redis \<Rightarrow> string list \<Rightarrow> 's \<Rightarrow> bool \<times> 's" where
  "delete_keys cfg R ks s =
     (if length ks = 0 then (True, s)
      else if prompt_redis_cluster cfg then delete_each R ks s else rd_del R ks s)"

definition invalidateCache :: "prompt_config \<Rightarrow> 's prompt_redis \<Rightarrow> string \<Rightarrow> string \<Rightarrow> 's \<Rightarrow> bool \<times> 's" where
  "invalidateCache cfg R projectId promptName s =
     (if \<not> prompt_cache_enabled cfg then (True, s)
      else
        (let keyIndexKey = getKeyIndexKey projectId in
         case rd_smembers R keyIndexKey s of
           (None, s1) \<Rightarrow> (False, s1)
         | (Some ks, s1) \<Rightarrow>
             (let legacyKeyIndexKey = keyIndexKey @ '':'' @ promptName in
              case rd_smembers R legacyKeyIndexKey s1 of
                (None, s2) \<Rightarrow> (False, s2)
              | (Some legacyKeys, s2) \<Rightarrow>
                  delete_keys cfg R (ks @ [keyIndexKey] @ legacyKeys @ [legacyKeyIndexKey]) s2)))"

section \<open>The order of the commands of an operation\<close>

datatype cache_command =
    Lock_Cache string
  | Invalidate_Cache string string
  | Commit prompt_action
  | Reattach_Latest string string "prompt_row list"
  | Delete_Many string "string list"
  | Unlock_Cache string

fun action_project :: "prompt_action \<Rightarrow> string" where
  "action_project (Create_Prompt c i) = cp_project c"
| "action_project (Duplicate_Prompt pid i name single newId) = pid"
| "action_project (Update_Prompt pid name v ls) = pid"
| "action_project (Set_Labels pid i ls) = pid"
| "action_project (Update_Tags pid name ts) = pid"
| "action_project (Delete_Prompt pid name v l) = pid"
| "action_project (Delete_All pid name) = pid"
| "action_project (Delete_Version pid i) = pid"

definition name_of_id :: "prompt_db \<Rightarrow> string \<Rightarrow> string" where
  "name_of_id db i = (case find (\<lambda>p. pr_id p = i) (prompt_rows db) of None \<Rightarrow> [] | Some p \<Rightarrow> pr_name p)"

fun action_name :: "prompt_action \<Rightarrow> prompt_db \<Rightarrow> string" where
  "action_name (Create_Prompt c i) db = cp_name c"
| "action_name (Duplicate_Prompt pid i name single newId) db = name"
| "action_name (Update_Prompt pid name v ls) db = name"
| "action_name (Set_Labels pid i ls) db = name_of_id db i"
| "action_name (Update_Tags pid name ts) db = name"
| "action_name (Delete_Prompt pid name v l) db = name"
| "action_name (Delete_All pid name) db = name"
| "action_name (Delete_Version pid i) db = name_of_id db i"

definition refused :: "prompt_action \<Rightarrow> prompt_db \<Rightarrow> bool" where
  "refused a db = (case failure a db of None \<Rightarrow> False | Some e \<Rightarrow> \<not> late_error a e)"

text \<open>
  The calls on the cache around the writes, which are one transaction but for the two of \<open>deletePrompt\<close> (the
  first of which changes nothing when \<open>latest\<close> need not move). \<open>updatePrompt\<close> locks before it reads, and its
  \<open>catch\<close> unlocks; \<open>duplicatePrompt\<close> makes no call. An operation that refuses before it locks has no command.
\<close>

definition commands :: "prompt_action \<Rightarrow> prompt_db \<Rightarrow> cache_command list" where
  "commands a db = (let pid = action_project a; n = action_name a db in case a of
     Update_Prompt _ _ _ _ \<Rightarrow>
       (if refused a db then [Lock_Cache pid, Unlock_Cache pid]
        else [Lock_Cache pid, Commit a, Invalidate_Cache pid n, Unlock_Cache pid] @
          (if failure a db = None then [] else [Unlock_Cache pid]))
   | Duplicate_Prompt _ _ _ _ _ \<Rightarrow> if refused a db then [] else [Commit a]
   | Delete_Prompt _ name v l \<Rightarrow>
       (let ps = requested_versions db pid name v l in
        if refused a db then []
        else [Lock_Cache pid, Invalidate_Cache pid n, Reattach_Latest pid name ps, Delete_Many pid (map pr_id ps), Unlock_Cache pid])
   | _ \<Rightarrow> if refused a db then [] else [Lock_Cache pid, Invalidate_Cache pid n, Commit a, Unlock_Cache pid])"

text \<open>What is still done when a command throws.\<close>

definition cleanup :: "prompt_action \<Rightarrow> cache_command list" where
  "cleanup a = (case a of
     Update_Prompt pid _ _ _ \<Rightarrow> [Unlock_Cache pid]
   | Delete_Prompt pid _ _ _ \<Rightarrow> [Unlock_Cache pid]
   | _ \<Rightarrow> [])"

fun run_command :: "prompt_config \<Rightarrow> 's prompt_redis \<Rightarrow> cache_command \<Rightarrow> prompt_db \<times> 's \<Rightarrow> bool \<times> prompt_db \<times> 's" where
  "run_command cfg R (Lock_Cache pid) (db, s) = (case lockCache cfg R pid s of (ok, s') \<Rightarrow> (ok, db, s'))"
| "run_command cfg R (Invalidate_Cache pid n) (db, s) = (case invalidateCache cfg R pid n s of (ok, s') \<Rightarrow> (ok, db, s'))"
| "run_command cfg R (Commit a) (db, s) = (True, perform a db, s)"
| "run_command cfg R (Reattach_Latest pid name ps) (db, s) = (True, reattach_latest pid name ps db, s)"
| "run_command cfg R (Delete_Many pid is) (db, s) = (True, delete_many pid is db, s)"
| "run_command cfg R (Unlock_Cache pid) (db, s) = (case unlockCache cfg R pid s of (ok, s') \<Rightarrow> (ok, db, s'))"

section \<open>What Redis is relied on for\<close>

text \<open>
  \<open>vals\<close>, \<open>idx\<close> and \<open>lck\<close> are the values, sets and locks the server has. Values and locks may expire with any
  command, so they are bounded from above; sets do not expire. A command that fails may have been done.
\<close>

definition shrinks :: "('s \<Rightarrow> string \<Rightarrow> prompt_result option) \<Rightarrow> ('s \<Rightarrow> string set) \<Rightarrow> 's \<Rightarrow> 's \<Rightarrow> bool" where
  "shrinks vals lck s s' \<longleftrightarrow> vals s' \<subseteq>\<^sub>m vals s \<and> lck s' \<subseteq> lck s"

definition redis_reads :: "'s prompt_redis \<Rightarrow> ('s \<Rightarrow> string \<Rightarrow> prompt_result option) \<Rightarrow> ('s \<Rightarrow> string \<Rightarrow> string set) \<Rightarrow>
    ('s \<Rightarrow> string set) \<Rightarrow> bool" where
  "redis_reads R vals idx lck \<longleftrightarrow>
     (\<forall>k s r s'. rd_getex R k s = (r, s') \<longrightarrow> shrinks vals lck s s' \<and> idx s' = idx s \<and>
        (\<forall>v. r = Some (Some v) \<longrightarrow> vals s k = Some v)) \<and>
     (\<forall>k s r s'. rd_exists R k s = (r, s') \<longrightarrow> shrinks vals lck s s' \<and> idx s' = idx s \<and>
        (r = None \<or> r = Some (k \<in> lck s))) \<and>
     (\<forall>k s r s'. rd_smembers R k s = (r, s') \<longrightarrow> shrinks vals lck s s' \<and> idx s' = idx s \<and>
        (\<forall>ms. r = Some ms \<longrightarrow> set ms = idx s k))"

definition redis_writes :: "'s prompt_redis \<Rightarrow> ('s \<Rightarrow> string \<Rightarrow> prompt_result option) \<Rightarrow> ('s \<Rightarrow> string \<Rightarrow> string set) \<Rightarrow>
    ('s \<Rightarrow> string set) \<Rightarrow> bool" where
  "redis_writes R vals idx lck \<longleftrightarrow>
     (\<forall>k m s ok s'. rd_sadd R k m s = (ok, s') \<longrightarrow> shrinks vals lck s s' \<and> (\<forall>j. idx s j \<subseteq> idx s' j) \<and> (ok \<longrightarrow> m \<in> idx s' k)) \<and>
     (\<forall>k v s ok s'. rd_set R k v s = (ok, s') \<longrightarrow> (vals s' \<subseteq>\<^sub>m (vals s)(k \<mapsto> v) \<or> vals s' \<subseteq>\<^sub>m vals s) \<and>
        lck s' \<subseteq> lck s \<and> idx s' = idx s) \<and>
     (\<forall>k s ok s'. rd_setex R k s = (ok, s') \<longrightarrow> vals s' \<subseteq>\<^sub>m vals s \<and> idx s' = idx s) \<and>
     (\<forall>ks s ok s'. rd_del R ks s = (ok, s') \<longrightarrow> shrinks vals lck s s' \<and> (\<forall>j. j \<notin> set ks \<longrightarrow> idx s' j = idx s j) \<and>
        (ok \<longrightarrow> (\<forall>k \<in> set ks. vals s' k = None)))"

definition prompt_redis_laws :: "'s prompt_redis \<Rightarrow> ('s \<Rightarrow> string \<Rightarrow> prompt_result option) \<Rightarrow> ('s \<Rightarrow> string \<Rightarrow> string set) \<Rightarrow>
    ('s \<Rightarrow> string set) \<Rightarrow> bool" where
  "prompt_redis_laws R vals idx lck \<longleftrightarrow> redis_reads R vals idx lck \<and> redis_writes R vals idx lck"

lemma redis_readsD:
  assumes "prompt_redis_laws R vals idx lck"
  shows "rd_getex R k s = (r, s') \<Longrightarrow> shrinks vals lck s s' \<and> idx s' = idx s \<and> (\<forall>v. r = Some (Some v) \<longrightarrow> vals s k = Some v)"
    "rd_exists R k s = (b, s') \<Longrightarrow> shrinks vals lck s s' \<and> idx s' = idx s \<and> (b = None \<or> b = Some (k \<in> lck s))"
    "rd_smembers R k s = (ms, s') \<Longrightarrow> shrinks vals lck s s' \<and> idx s' = idx s \<and> (\<forall>xs. ms = Some xs \<longrightarrow> set xs = idx s k)"
proof -
  note laws = assms [unfolded prompt_redis_laws_def redis_reads_def, THEN conjunct1]
  show "rd_getex R k s = (r, s') \<Longrightarrow> shrinks vals lck s s' \<and> idx s' = idx s \<and> (\<forall>v. r = Some (Some v) \<longrightarrow> vals s k = Some v)"
    by (rule laws [THEN conjunct1, THEN spec, THEN spec, THEN spec, THEN spec, THEN mp])
  show "rd_exists R k s = (b, s') \<Longrightarrow> shrinks vals lck s s' \<and> idx s' = idx s \<and> (b = None \<or> b = Some (k \<in> lck s))"
    by (rule laws [THEN conjunct2, THEN conjunct1, THEN spec, THEN spec, THEN spec, THEN spec, THEN mp])
  show "rd_smembers R k s = (ms, s') \<Longrightarrow> shrinks vals lck s s' \<and> idx s' = idx s \<and> (\<forall>xs. ms = Some xs \<longrightarrow> set xs = idx s k)"
    by (rule laws [THEN conjunct2, THEN conjunct2, THEN spec, THEN spec, THEN spec, THEN spec, THEN mp])
qed

lemma redis_writesD:
  assumes "prompt_redis_laws R vals idx lck"
  shows "rd_sadd R k m s = (ok, s') \<Longrightarrow> shrinks vals lck s s' \<and> (\<forall>j. idx s j \<subseteq> idx s' j) \<and> (ok \<longrightarrow> m \<in> idx s' k)"
    "rd_set R k v s = (ok, s') \<Longrightarrow> (vals s' \<subseteq>\<^sub>m (vals s)(k \<mapsto> v) \<or> vals s' \<subseteq>\<^sub>m vals s) \<and> lck s' \<subseteq> lck s \<and> idx s' = idx s"
    "rd_setex R k s = (ok, s') \<Longrightarrow> vals s' \<subseteq>\<^sub>m vals s \<and> idx s' = idx s"
    "rd_del R ks s = (ok, s') \<Longrightarrow> shrinks vals lck s s' \<and> (\<forall>j. j \<notin> set ks \<longrightarrow> idx s' j = idx s j) \<and>
       (ok \<longrightarrow> (\<forall>k \<in> set ks. vals s' k = None))"
proof -
  note laws = assms [unfolded prompt_redis_laws_def redis_writes_def, THEN conjunct2]
  show "rd_sadd R k m s = (ok, s') \<Longrightarrow> shrinks vals lck s s' \<and> (\<forall>j. idx s j \<subseteq> idx s' j) \<and> (ok \<longrightarrow> m \<in> idx s' k)"
    by (rule laws [THEN conjunct1, THEN spec, THEN spec, THEN spec, THEN spec, THEN spec, THEN mp])
  show "rd_set R k v s = (ok, s') \<Longrightarrow> (vals s' \<subseteq>\<^sub>m (vals s)(k \<mapsto> v) \<or> vals s' \<subseteq>\<^sub>m vals s) \<and> lck s' \<subseteq> lck s \<and> idx s' = idx s"
    by (rule laws [THEN conjunct2, THEN conjunct1, THEN spec, THEN spec, THEN spec, THEN spec, THEN spec, THEN mp])
  show "rd_setex R k s = (ok, s') \<Longrightarrow> vals s' \<subseteq>\<^sub>m vals s \<and> idx s' = idx s"
    by (rule laws [THEN conjunct2, THEN conjunct2, THEN conjunct1, THEN spec, THEN spec, THEN spec, THEN spec, THEN mp])
  show "rd_del R ks s = (ok, s') \<Longrightarrow> shrinks vals lck s s' \<and> (\<forall>j. j \<notin> set ks \<longrightarrow> idx s' j = idx s j) \<and>
       (ok \<longrightarrow> (\<forall>k \<in> set ks. vals s' k = None))"
    by (rule laws [THEN conjunct2, THEN conjunct2, THEN conjunct2, THEN spec, THEN spec, THEN spec, THEN spec, THEN mp])
qed

lemma shrinksD:
  "shrinks vals lck s s' \<Longrightarrow> vals s' \<subseteq>\<^sub>m vals s" "shrinks vals lck s s' \<Longrightarrow> lck s' \<subseteq> lck s"
  by (simp_all add: shrinks_def)

lemma shrinks_trans: "shrinks vals lck s s' \<Longrightarrow> shrinks vals lck s' s'' \<Longrightarrow> shrinks vals lck s s''"
  unfolding shrinks_def by (blast intro: map_le_trans)

lemma shrinks_refl [simp]: "shrinks vals lck s s"
  by (simp add: shrinks_def)

lemma none_shrinks: "m \<subseteq>\<^sub>m m' \<Longrightarrow> m' k = None \<Longrightarrow> m k = None"
  unfolding map_le_def by (metis domIff)

lemma some_shrinks: "m \<subseteq>\<^sub>m m' \<Longrightarrow> m k = Some v \<Longrightarrow> m' k = Some v"
  unfolding map_le_def by (metis domI)


section \<open>Keys are different\<close>

text \<open>
  A plain request has a version, or a label that is not a number and has no colon. Without that two
  requests may have the same key, see the end.
\<close>

definition plain_request :: "prompt_params \<Rightarrow> bool" where
  "plain_request p \<longleftrightarrow> (case (pp_version p, pp_label p) of
     (Some v, None) \<Rightarrow> v \<noteq> 0
   | (None, Some l) \<Rightarrow> l \<noteq> [] \<and> CHR '':'' \<notin> set l \<and> (\<forall>v. l \<noteq> nat_str v)
   | _ \<Rightarrow> False)"

lemma nat_str_no_colon: "CHR '':'' \<notin> set (nat_str n)"
proof (induction n rule: nat_str.induct)
  case (1 n)
  have "digit_char (n mod 10) \<noteq> CHR '':''"
  proof
    assume "digit_char (n mod 10) = CHR '':''"
    then have "48 + n mod 10 = (of_char (CHR '':'') :: nat)" by (metis of_char_digit mod_less_divisor zero_less_numeral)
    then show False using mod_less_divisor [of 10 n] by simp
  qed
  with 1 show ?case by (subst nat_str.simps) (auto simp: mod_less)
qed

lemma plain_key_inj:
  assumes p: "plain_request p" and q: "plain_request q" and pid: "pp_project p = pp_project q"
    and key: "getCacheKey p = getCacheKey q"
  shows "p = q"
proof -
  define last_part where "last_part r = (case pp_version r of Some v \<Rightarrow> nat_str v
     | None \<Rightarrow> (case pp_label r of Some l \<Rightarrow> l | None \<Rightarrow> ''undefined''))" for r :: prompt_params
  have no_colon: "CHR '':'' \<notin> set (last_part r)" if "plain_request r" for r
    using that nat_str_no_colon by (auto simp: plain_request_def last_part_def split: option.splits)
  have "getCacheKeyPrefix p @ CHR '':'' # last_part p = getCacheKeyPrefix q @ CHR '':'' # last_part q"
    using key by (simp add: getCacheKey_def last_part_def)
  from last_colon [OF this no_colon [OF p] no_colon [OF q]]
  have e: "pp_name p = pp_name q" "last_part p = last_part q"
    using pid by (simp_all add: getCacheKeyPrefix_def)
  from e(2) p q have "pp_version p = pp_version q \<and> pp_label p = pp_label q"
    by (auto simp: plain_request_def last_part_def split: option.splits dest: sym)
  with e(1) pid show ?thesis by simp
qed

section \<open>What reads and commands do to the cache\<close>

definition cache_right :: "string \<Rightarrow> prompt_db \<Rightarrow> (string \<Rightarrow> prompt_result option) \<Rightarrow> bool" where
  "cache_right pid db c \<longleftrightarrow> (\<forall>p r. plain_request p \<longrightarrow> pp_project p = pid \<longrightarrow> c (getCacheKey p) = Some r \<longrightarrow>
     getDbPrompt db p = Inr (Some r))"

definition cache_empty :: "string \<Rightarrow> (string \<Rightarrow> prompt_result option) \<Rightarrow> bool" where
  "cache_empty pid c \<longleftrightarrow> (\<forall>p. plain_request p \<longrightarrow> pp_project p = pid \<longrightarrow> c (getCacheKey p) = None)"

definition cache_indexed :: "string \<Rightarrow> (string \<Rightarrow> prompt_result option) \<Rightarrow> (string \<Rightarrow> string set) \<Rightarrow> bool" where
  "cache_indexed pid c ix \<longleftrightarrow> (\<forall>p. plain_request p \<longrightarrow> pp_project p = pid \<longrightarrow> c (getCacheKey p) \<noteq> None \<longrightarrow>
     getCacheKey p \<in> ix (getKeyIndexKey pid))"

lemma cache_empty_right: "cache_empty pid c \<Longrightarrow> cache_right pid db c"
  by (simp add: cache_empty_def cache_right_def)

lemma cache_sub:
  "cache_right pid db c \<Longrightarrow> c' \<subseteq>\<^sub>m c \<Longrightarrow> cache_right pid db c'"
  "cache_empty pid c \<Longrightarrow> c' \<subseteq>\<^sub>m c \<Longrightarrow> cache_empty pid c'"
  "cache_indexed pid c ix \<Longrightarrow> c' \<subseteq>\<^sub>m c \<Longrightarrow> ix (getKeyIndexKey pid) \<subseteq> ix' (getKeyIndexKey pid) \<Longrightarrow> cache_indexed pid c' ix'"
proof -
  assume sub: "c' \<subseteq>\<^sub>m c"
  note some = some_shrinks [OF sub] and none = none_shrinks [OF sub]
  show "cache_right pid db c \<Longrightarrow> cache_right pid db c'" unfolding cache_right_def using some by blast
  show "cache_empty pid c \<Longrightarrow> cache_empty pid c'" unfolding cache_empty_def using none by blast
  show "cache_indexed pid c' ix'" if ind: "cache_indexed pid c ix" and ix: "ix (getKeyIndexKey pid) \<subseteq> ix' (getKeyIndexKey pid)"
    unfolding cache_indexed_def
  proof (intro allI impI)
    fix p
    assume p: "plain_request p" "pp_project p = pid" "c' (getCacheKey p) \<noteq> None"
    have "c (getCacheKey p) \<noteq> None" using none [of "getCacheKey p"] p(3) by (cases "c (getCacheKey p)") simp_all
    with ind [unfolded cache_indexed_def] p have "getCacheKey p \<in> ix (getKeyIndexKey pid)" by simp
    with ix show "getCacheKey p \<in> ix' (getKeyIndexKey pid)" by (rule subsetD)
  qed
qed

lemma cache_set:
  assumes "plain_request p" "pp_project p = pid"
  shows "cache_right pid db c \<Longrightarrow> getDbPrompt db p = Inr (Some r) \<Longrightarrow> cache_right pid db (c(getCacheKey p \<mapsto> r))"
    "cache_indexed pid c ix \<Longrightarrow> getCacheKey p \<in> ix (getKeyIndexKey pid) \<Longrightarrow> cache_indexed pid (c(getCacheKey p \<mapsto> r)) ix"
proof -
  have other: "q = p" if "plain_request q" "pp_project q = pid" "getCacheKey q = getCacheKey p" for q
    using plain_key_inj [OF that(1) assms(1) _ that(3)] that(2) assms(2) by simp
  show "cache_right pid db (c(getCacheKey p \<mapsto> r))" if right: "cache_right pid db c" and ans: "getDbPrompt db p = Inr (Some r)"
    unfolding cache_right_def
  proof (intro allI impI)
    fix q x
    assume q: "plain_request q" "pp_project q = pid" "(c(getCacheKey p \<mapsto> r)) (getCacheKey q) = Some x"
    show "getDbPrompt db q = Inr (Some x)"
    proof (cases "getCacheKey q = getCacheKey p")
      case True
      with q ans other [OF q(1,2) True] show ?thesis by simp
    next
      case False
      with q(3) have "c (getCacheKey q) = Some x" by simp
      with right q(1,2) show ?thesis unfolding cache_right_def by blast
    qed
  qed
  show "cache_indexed pid (c(getCacheKey p \<mapsto> r)) ix" if "cache_indexed pid c ix" "getCacheKey p \<in> ix (getKeyIndexKey pid)"
    unfolding cache_indexed_def
  proof (intro allI impI)
    fix q
    assume q: "plain_request q" "pp_project q = pid" "(c(getCacheKey p \<mapsto> r)) (getCacheKey q) \<noteq> None"
    show "getCacheKey q \<in> ix (getKeyIndexKey pid)"
      using that q unfolding cache_indexed_def by (cases "getCacheKey q = getCacheKey p") simp_all
  qed
qed

text \<open>The question whether the cache is locked is answered, twice in a row as a read asks it.\<close>

definition lock_seen :: "'s prompt_redis \<Rightarrow> string \<Rightarrow> 's \<Rightarrow> bool" where
  "lock_seen R pid s \<longleftrightarrow> (case rd_exists R (getLockKey pid) s of
     (r, s') \<Rightarrow> r \<noteq> None \<and> fst (rd_exists R (getLockKey pid) s') \<noteq> None)"

lemma isCacheLocked_law:
  assumes laws: "prompt_redis_laws R vals idx lck" and e: "isCacheLocked R p s = (b, s')"
  shows "b \<or> getLockKey (pp_project p) \<notin> lck s \<or> fst (rd_exists R (getLockKey (pp_project p)) s) = None"
    "shrinks vals lck s s'" "idx s' = idx s" "s' = snd (rd_exists R (getLockKey (pp_project p)) s)"
proof -
  obtain r t where r: "rd_exists R (getLockKey (pp_project p)) s = (r, t)" by fastforce
  from redis_readsD(2) [OF laws r] r e
  show "b \<or> getLockKey (pp_project p) \<notin> lck s \<or> fst (rd_exists R (getLockKey (pp_project p)) s) = None"
    "shrinks vals lck s s'" "idx s' = idx s" "s' = snd (rd_exists R (getLockKey (pp_project p)) s)"
    by (auto simp: isCacheLocked_def)
qed

lemma shouldUseCache_law:
  assumes laws: "prompt_redis_laws R vals idx lck" and e: "shouldUseCache cfg R p s = (b, s')"
  shows "b \<Longrightarrow> getLockKey (pp_project p) \<notin> lck s \<or> fst (rd_exists R (getLockKey (pp_project p)) s) = None"
    "shrinks vals lck s s'" "idx s' = idx s"
    "prompt_cache_enabled cfg \<Longrightarrow> s' = snd (rd_exists R (getLockKey (pp_project p)) s)" "b \<Longrightarrow> prompt_cache_enabled cfg"
proof -
  obtain l t where l: "isCacheLocked R p s = (l, t)" by fastforce
  note law = isCacheLocked_law [OF laws l]
  from e law show "b \<Longrightarrow> getLockKey (pp_project p) \<notin> lck s \<or> fst (rd_exists R (getLockKey (pp_project p)) s) = None"
    "shrinks vals lck s s'" "idx s' = idx s"
    "prompt_cache_enabled cfg \<Longrightarrow> s' = snd (rd_exists R (getLockKey (pp_project p)) s)" "b \<Longrightarrow> prompt_cache_enabled cfg"
    by (auto simp: shouldUseCache_def l split: if_splits)
qed

lemma getCachedPrompt_law:
  assumes laws: "prompt_redis_laws R vals idx lck" and e: "getCachedPrompt R p s = (r, s')"
  shows "shrinks vals lck s s'" "idx s' = idx s" "r = Some v \<Longrightarrow> vals s (getCacheKey p) = Some v"
proof -
  obtain x t where x: "rd_getex R (getCacheKey p) s = (x, t)" by fastforce
  have t: "s' = t" "r = Some v \<longleftrightarrow> x = Some (Some v)" for v
    using e unfolding getCachedPrompt_def x by (auto split: option.splits)
  from redis_readsD(1) [OF laws x] t show "shrinks vals lck s s'" "idx s' = idx s" "r = Some v \<Longrightarrow> vals s (getCacheKey p) = Some v"
    by blast+
qed

lemma cachePrompt_law:
  assumes laws: "prompt_redis_laws R vals idx lck"
  shows "lck (cachePrompt R p r s) \<subseteq> lck s" "\<forall>j. idx s j \<subseteq> idx (cachePrompt R p r s) j"
    "vals (cachePrompt R p r s) \<subseteq>\<^sub>m vals s \<or>
     vals (cachePrompt R p r s) \<subseteq>\<^sub>m (vals s)(getCacheKey p \<mapsto> r) \<and>
       getCacheKey p \<in> idx (cachePrompt R p r s) (getKeyIndexKey (pp_project p))"
proof -
  obtain ok s1 where a: "rd_sadd R (getKeyIndexKey (pp_project p)) (getCacheKey p) s = (ok, s1)" by fastforce
  note a1 = redis_writesD(1) [OF laws a]
  obtain ok2 s2 where b: "rd_set R (getCacheKey p) r s1 = (ok2, s2)" by fastforce
  note b0 = redis_writesD(2) [OF laws b]
  then have b1: "vals s2 \<subseteq>\<^sub>m (vals s1)(getCacheKey p \<mapsto> r) \<or> vals s2 \<subseteq>\<^sub>m vals s1" "lck s2 \<subseteq> lck s1" "idx s2 = idx s1"
    by simp_all
  have sub: "(vals s1)(getCacheKey p \<mapsto> r) \<subseteq>\<^sub>m (vals s)(getCacheKey p \<mapsto> r)"
    using shrinksD(1) [of vals lck s s1] a1 by (simp add: map_le_def)
  have e: "cachePrompt R p r s = (if ok then s2 else s1)" by (simp add: cachePrompt_def a b)
  show "lck (cachePrompt R p r s) \<subseteq> lck s" using a1 b1(2) by (auto simp: e dest: shrinksD)
  show "\<forall>j. idx s j \<subseteq> idx (cachePrompt R p r s) j" using a1 b1(3) by (auto simp: e)
  show "vals (cachePrompt R p r s) \<subseteq>\<^sub>m vals s \<or>
     vals (cachePrompt R p r s) \<subseteq>\<^sub>m (vals s)(getCacheKey p \<mapsto> r) \<and>
       getCacheKey p \<in> idx (cachePrompt R p r s) (getKeyIndexKey (pp_project p))"
    using a1 b1(1,3) sub shrinksD(1) [of vals lck s s1] by (auto simp: e intro: map_le_trans)
qed

lemma getPrompt_right:
  assumes laws: "prompt_redis_laws R vals idx lck" and plain: "plain_request p"
    and right: "getLockKey (pp_project p) \<in> lck s \<and> lock_seen R (pp_project p) s \<or> cache_right (pp_project p) db (vals s)"
  shows "fst (getPrompt cfg R db p s) = getDbPrompt db p"
proof -
  obtain b s1 where u: "shouldUseCache cfg R p s = (b, s1)" by fastforce
  note u1 = shouldUseCache_law [OF laws u]
  obtain c s2 where g: "(if b then getCachedPrompt R p s1 else (None, s1)) = (c, s2)" by fastforce
  show ?thesis
  proof (cases c)
    case None
    then show ?thesis by (auto simp: getPrompt_def u g split: sum.splits prod.splits option.splits)
  next
    case (Some r)
    with g have b: "b" and gc: "getCachedPrompt R p s1 = (Some r, s2)" by (auto split: if_splits)
    have "vals s1 (getCacheKey p) = Some r" by (rule getCachedPrompt_law(3) [OF laws gc]) simp
    then have "vals s (getCacheKey p) = Some r" by (rule some_shrinks [OF shrinksD(1) [OF u1(2)]])
    moreover have "cache_right (pp_project p) db (vals s)"
      using right u1(1) [OF b] by (auto simp: lock_seen_def split: prod.splits)
    ultimately have "getDbPrompt db p = Inr (Some r)" using plain unfolding cache_right_def by blast
    with Some show ?thesis by (simp add: getPrompt_def u g)
  qed
qed

lemma getPrompt_state:
  assumes laws: "prompt_redis_laws R vals idx lck" and plain: "plain_request p" and pid: "pp_project p = pid"
    and s': "s' = snd (getPrompt cfg R db p s)"
  shows "lck s' \<subseteq> lck s" "cache_indexed pid (vals s) (idx s) \<Longrightarrow> cache_indexed pid (vals s') (idx s')"
    "cache_right pid db (vals s) \<Longrightarrow> cache_right pid db (vals s')"
    "lock_seen R pid s \<Longrightarrow> getLockKey pid \<in> lck s' \<Longrightarrow> vals s' \<subseteq>\<^sub>m vals s"
proof -
  obtain b s1 where u: "shouldUseCache cfg R p s = (b, s1)" by fastforce
  note u1 = shouldUseCache_law [OF laws u]
  obtain c s2 where g: "(if b then getCachedPrompt R p s1 else (None, s1)) = (c, s2)" by fastforce
  have g1: "shrinks vals lck s1 s2" "idx s2 = idx s1"
    using g getCachedPrompt_law(1,2) [OF laws, of p s1 c s2] by (auto split: if_splits)
  obtain b' s3 where w: "shouldUseCache cfg R p s2 = (b', s3)" by fastforce
  note w1 = shouldUseCache_law [OF laws w]
  have s2: "shrinks vals lck s s2" "idx s2 = idx s" using shrinks_trans [OF u1(2) g1(1)] g1(2) u1(3) by simp_all
  have s3: "shrinks vals lck s s3" "idx s3 = idx s" using shrinks_trans [OF s2(1) w1(2)] w1(3) s2(2) by simp_all
  have quiet: "lck t \<subseteq> lck s \<and> (cache_indexed pid (vals s) (idx s) \<longrightarrow> cache_indexed pid (vals t) (idx t)) \<and>
      (cache_right pid db (vals s) \<longrightarrow> cache_right pid db (vals t)) \<and> vals t \<subseteq>\<^sub>m vals s"
    if "shrinks vals lck s t" "idx t = idx s" for t
    using that cache_sub [OF _ shrinksD(1) [OF that(1)]] shrinksD [OF that(1)] by simp
  have store: "lck t \<subseteq> lck s \<and> (cache_indexed pid (vals s) (idx s) \<longrightarrow> cache_indexed pid (vals t) (idx t)) \<and>
      (cache_right pid db (vals s) \<longrightarrow> cache_right pid db (vals t)) \<and> (lock_seen R pid s \<longrightarrow> getLockKey pid \<in> lck t \<longrightarrow> vals t \<subseteq>\<^sub>m vals s)"
    if ans: "getDbPrompt db p = Inr (Some r)" and b': b' and t: "t = cachePrompt R p r s3" for r t
  proof -
    note c = cachePrompt_law [OF laws, where p = p and r = r and s = s3, folded t]
    note q = quiet [OF s3]
    have "getLockKey pid \<notin> lck t" if seen: "lock_seen R pid s"
    proof
      assume "getLockKey pid \<in> lck t"
      then have k: "getLockKey pid \<in> lck s" "getLockKey pid \<in> lck s2" using c(1) q shrinksD(2) [OF w1(2)] by blast+
      have on: "prompt_cache_enabled cfg" by (rule w1(5) [OF b'])
      have "\<not> b" using u1(1) k(1) seen pid by (auto simp: lock_seen_def split: prod.splits)
      then have "s2 = snd (rd_exists R (getLockKey pid) s)" using g u1(4) [OF on] pid by simp
      with w1(1) [OF b'] k(2) seen pid show False by (simp add: lock_seen_def split: prod.splits)
    qed
    moreover have "cache_right pid db (vals t)" if right: "cache_right pid db (vals s)"
    proof -
      have r3: "cache_right pid db (vals s3)" using q right by blast
      from c(3) show ?thesis
        by (elim disjE conjE) (rule cache_sub(1) [OF r3], assumption,
          rule cache_sub(1) [OF cache_set(1) [OF plain pid r3 ans]], assumption)
    qed
    moreover have "cache_indexed pid (vals t) (idx t)" if ind: "cache_indexed pid (vals s) (idx s)"
    proof -
      have i3: "cache_indexed pid (vals s3) (idx s3)" using q ind by blast
      have it: "cache_indexed pid (vals s3) (idx t)" by (rule cache_sub(3) [OF i3]) (use c(2) in auto)
      from c(3) show ?thesis
        by (elim disjE conjE) (rule cache_sub(3) [OF it], assumption, simp,
          rule cache_sub(3) [OF cache_set(2) [OF plain pid it]], use pid in auto)
    qed
    moreover have "lck t \<subseteq> lck s" using c(1) q by blast
    ultimately show ?thesis by blast
  qed
  have "s' = s2 \<or> s' = s3 \<or> (\<exists>r. getDbPrompt db p = Inr (Some r) \<and> b' \<and> s' = cachePrompt R p r s3)"
    by (cases c; cases "getDbPrompt db p") (auto simp: s' getPrompt_def u g w split: option.splits)
  then have "lck s' \<subseteq> lck s \<and> (cache_indexed pid (vals s) (idx s) \<longrightarrow> cache_indexed pid (vals s') (idx s')) \<and>
      (cache_right pid db (vals s) \<longrightarrow> cache_right pid db (vals s')) \<and> (lock_seen R pid s \<longrightarrow> getLockKey pid \<in> lck s' \<longrightarrow> vals s' \<subseteq>\<^sub>m vals s)"
    using quiet [OF s2] quiet [OF s3] store by blast
  then show "lck s' \<subseteq> lck s" "cache_indexed pid (vals s) (idx s) \<Longrightarrow> cache_indexed pid (vals s') (idx s')"
    "cache_right pid db (vals s) \<Longrightarrow> cache_right pid db (vals s')"
    "lock_seen R pid s \<Longrightarrow> getLockKey pid \<in> lck s' \<Longrightarrow> vals s' \<subseteq>\<^sub>m vals s"
    by blast+
qed

lemma delete_each_law:
  assumes laws: "prompt_redis_laws R vals idx lck"
  shows "delete_each R ks s = (ok, s') \<Longrightarrow> shrinks vals lck s s' \<and> (\<forall>j. j \<notin> set ks \<longrightarrow> idx s' j = idx s j) \<and>
    (ok \<longrightarrow> (\<forall>k \<in> set ks. vals s' k = None))"
proof (induction ks arbitrary: s ok)
  case (Cons k ks)
  obtain ok1 s1 where d: "rd_del R [k] s = (ok1, s1)" by fastforce
  obtain ok2 s2 where e: "delete_each R ks s1 = (ok2, s2)" by fastforce
  have r: "ok = (ok1 \<and> ok2)" "s' = s2" using Cons.prems by (simp_all add: d e)
  from redis_writesD(4) [OF laws d] have one: "shrinks vals lck s s1" "\<forall>j. j \<noteq> k \<longrightarrow> idx s1 j = idx s j" "ok1 \<longrightarrow> vals s1 k = None"
    by simp_all
  from Cons.IH [of s1 ok2] e r(2) have rest: "shrinks vals lck s1 s2" "\<forall>j. j \<notin> set ks \<longrightarrow> idx s2 j = idx s1 j"
    "ok2 \<longrightarrow> (\<forall>k \<in> set ks. vals s2 k = None)" by simp_all
  have "ok \<longrightarrow> vals s2 k = None" using one(3) none_shrinks [OF shrinksD(1) [OF rest(1)]] by (simp add: r)
  with one rest shrinks_trans [OF one(1) rest(1)] show ?case by (simp add: r)
qed simp

lemma delete_keys_law:
  assumes laws: "prompt_redis_laws R vals idx lck" and d: "delete_keys cfg R ks s = (ok, s')"
  shows "shrinks vals lck s s'" "ok \<Longrightarrow> k \<in> set ks \<Longrightarrow> vals s' k = None"
  using d delete_each_law [OF laws, of ks s ok s'] redis_writesD(4) [OF laws, of ks s ok s']
  by (auto simp: delete_keys_def split: if_splits)

lemma invalidateCache_law:
  assumes laws: "prompt_redis_laws R vals idx lck" and d: "invalidateCache cfg R pid n s = (ok, s')"
    and ind: "cache_indexed pid (vals s) (idx s)" and on: "prompt_cache_enabled cfg"
  shows "shrinks vals lck s s'" "ok \<Longrightarrow> cache_empty pid (vals s')"
proof -
  obtain ms s1 where m: "rd_smembers R (getKeyIndexKey pid) s = (ms, s1)" by fastforce
  note m1 = redis_readsD(3) [OF laws m]
  have both: "shrinks vals lck s s' \<and> (ok \<longrightarrow> cache_empty pid (vals s'))"
  proof (cases ms)
    case None
    with d on m1 show ?thesis by (simp add: invalidateCache_def m)
  next
    case (Some ks)
    obtain ls s2 where l: "rd_smembers R (getKeyIndexKey pid @ '':'' @ n) s1 = (ls, s2)" by fastforce
    note l1 = redis_readsD(3) [OF laws l]
    have s2: "shrinks vals lck s s2" by (rule shrinks_trans [OF conjunct1 [OF m1] conjunct1 [OF l1]])
    show ?thesis
    proof (cases ls)
      case None
      with d on s2 l Some show ?thesis by (simp add: invalidateCache_def m)
    next
      case (Some legacy)
      have del: "delete_keys cfg R (ks @ [getKeyIndexKey pid] @ legacy @ [getKeyIndexKey pid @ '':'' @ n]) s2 = (ok, s')"
        using d on l Some \<open>ms = Some ks\<close> by (simp add: invalidateCache_def m Let_def)
      note del1 = delete_keys_law [OF laws del]
      have "cache_empty pid (vals s')" if ok
        unfolding cache_empty_def
      proof (intro allI impI)
        fix p
        assume p: "plain_request p" "pp_project p = pid"
        show "vals s' (getCacheKey p) = None"
        proof (cases "vals s (getCacheKey p)")
          case None
          then show ?thesis using none_shrinks [OF shrinksD(1) [OF shrinks_trans [OF s2 del1(1)]]] by blast
        next
          case r: (Some r)
          then have "vals s (getCacheKey p) \<noteq> None" by simp
          with ind p have "getCacheKey p \<in> idx s (getKeyIndexKey pid)" unfolding cache_indexed_def by blast
          moreover have "set ks = idx s (getKeyIndexKey pid)" using m1 \<open>ms = Some ks\<close> by simp
          ultimately show ?thesis by (intro del1(2) \<open>ok\<close>) simp
        qed
      qed
      with shrinks_trans [OF s2 del1(1)] show ?thesis by simp
    qed
  qed
  then show "shrinks vals lck s s'" "ok \<Longrightarrow> cache_empty pid (vals s')" by blast+
qed

section \<open>Copies do not change what can be read\<close>

definition answers_kept :: "string \<Rightarrow> prompt_db \<Rightarrow> prompt_db \<Rightarrow> bool" where
  "answers_kept pid db db' \<longleftrightarrow> (\<forall>t q. find_dep db pid t = Some q \<longrightarrow> find_dep db' pid t = Some q) \<and>
     (\<forall>i \<in> pr_id ` set (prompt_rows db). stored_deps db' pid i = stored_deps db pid i)"

lemma for_each_kept:
  assumes "\<And>d s r. d \<in> set ds \<Longrightarrow> f d s = Inr r \<Longrightarrow> g d s = Inr r" "for_each f ds s = Inr r"
  shows "for_each g ds s = Inr r"
  using assms
proof (induction ds arbitrary: s)
  case (Cons d ds)
  from Cons.prems(2) obtain s1 where s1: "f d s = Inr s1" "for_each f ds s1 = Inr r" by (auto split: sum.splits)
  have "g d s = Inr s1" by (rule Cons.prems(1)) (use s1 in simp_all)
  moreover have "for_each g ds s1 = Inr r" by (rule Cons.IH [OF _ s1(2)]) (use Cons.prems(1) in simp)
  ultimately show ?case by simp
qed simp

lemma find_dep_in: "find_dep db pid t = Some q \<Longrightarrow> q \<in> set (prompt_rows db)"
  by (auto simp: find_dep_def find_Some_iff)

definition resolve_step :: "prompt_db \<Rightarrow> string \<Rightarrow> prompt_row \<Rightarrow> prompt_row \<Rightarrow> nat \<Rightarrow> dep_tag \<Rightarrow>
    string set \<times> adjacency \<times> string \<Rightarrow> prompt_error + string set \<times> adjacency \<times> string" where
  "resolve_step db pid parent cur level dep = (\<lambda>(seen, g, resolvedPrompt).
     case find_dep db pid dep of
       None \<Rightarrow> Inl (Dep_Not_Found dep)
     | Some depPrompt \<Rightarrow>
         if pr_type depPrompt \<noteq> ''text'' then Inl (Dep_Not_Text dep)
         else (case resolve db pid parent depPrompt None (level + 1) (seen, push_dep (pr_id cur) (ref_of depPrompt) g) of
             Inl e \<Rightarrow> Inl e
           | Inr (v, seen', g') \<Rightarrow> Inr (seen', g', js_replace (combined_pattern depPrompt) (replace_value v) resolvedPrompt)))"

lemma resolve_unfold:
  "resolve db pid parent cur deps level (seen, g) =
     (if MAX_PROMPT_NESTING_DEPTH \<le> level then Inl Max_Nesting
      else if pr_id cur \<in> seen \<or> (pr_name cur = pr_name parent \<and> pr_id cur \<noteq> pr_id parent)
      then Inl (Circular (pr_name cur) (pr_version cur))
      else let ds = (case deps of None \<Rightarrow> stored_deps db pid (pr_id cur) | Some ds \<Rightarrow> ds) in
        if ds \<noteq> [] then
          (case for_each (resolve_step db pid parent cur level) ds (insert (pr_id cur) seen, g, stringify (pr_prompt cur)) of
             Inl e \<Rightarrow> Inl e
           | Inr (seen2, g2, resolvedPrompt) \<Rightarrow> (case json_parse resolvedPrompt of
                None \<Rightarrow> Inl Json_Syntax | Some v \<Rightarrow> Inr (v, seen2 - {pr_id cur}, g2)))
        else Inr (pr_prompt cur, insert (pr_id cur) seen - {pr_id cur}, g))"
  unfolding resolve.simps [of db pid parent cur deps] resolve_step_def Let_def ..

lemma resolve_kept:
  assumes kept: "answers_kept pid db db'"
  shows "resolve db pid parent cur deps level (seen, g) = Inr r \<Longrightarrow>
    (deps = None \<longrightarrow> cur \<in> set (prompt_rows db)) \<Longrightarrow> resolve db' pid parent cur deps level (seen, g) = Inr r"
proof (induction "MAX_PROMPT_NESTING_DEPTH - level" arbitrary: level cur deps seen g r rule: less_induct)
  case less
  have deps: "(case deps of None \<Rightarrow> stored_deps db' pid (pr_id cur) | Some ds \<Rightarrow> ds) =
      (case deps of None \<Rightarrow> stored_deps db pid (pr_id cur) | Some ds \<Rightarrow> ds)"
    using less(3) kept by (auto simp: answers_kept_def split: option.split)
  have level: "level < MAX_PROMPT_NESTING_DEPTH"
    using less(2) by (rule contrapos_pp) (simp add: resolve_unfold)
  have step: "resolve_step db' pid parent cur level d s = Inr z" if r: "resolve_step db pid parent cur level d s = Inr z" for d s z
  proof (cases "find_dep db pid d")
    case None
    with r show ?thesis by (cases s) (simp add: resolve_step_def)
  next
    case (Some q)
    then have q: "find_dep db' pid d = Some q" "q \<in> set (prompt_rows db)"
      using kept find_dep_in by (auto simp: answers_kept_def)
    obtain seen1 g1 x where s: "s = (seen1, g1, x)" by (cases s)
    let ?g = "push_dep (pr_id cur) (ref_of q) g1"
    have istext: "pr_type q = ''text''" using r Some by (auto simp: resolve_step_def s split: if_splits)
    obtain y where y: "resolve db pid parent q None (level + 1) (seen1, ?g) = Inr y"
      using r Some istext by (cases "resolve db pid parent q None (level + 1) (seen1, ?g)") (simp_all add: resolve_step_def s)
    have "resolve db' pid parent q None (level + 1) (seen1, ?g) = Inr y"
      by (rule less(1) [OF _ y]) (use level q(2) in simp_all)
    with y r Some q(1) istext show ?thesis by (simp add: resolve_step_def s)
  qed
  let ?ds = "case deps of None \<Rightarrow> stored_deps db pid (pr_id cur) | Some ds \<Rightarrow> ds"
  let ?s = "(insert (pr_id cur) seen, g, stringify (pr_prompt cur))"
  show ?case
  proof (cases "?ds \<noteq> []")
    case True
    obtain z where z: "for_each (resolve_step db pid parent cur level) ?ds ?s = Inr z"
      using less(2) True by (cases "for_each (resolve_step db pid parent cur level) ?ds ?s")
        (simp_all add: resolve_unfold split: if_splits)
    have "for_each (resolve_step db' pid parent cur level) ?ds ?s = Inr z"
      by (rule for_each_kept [OF step z])
    with z less(2) show ?thesis by (simp add: resolve_unfold [of db] resolve_unfold [of db'] deps Let_def split: if_splits)
  next
    case False
    with less(2) show ?thesis by (simp add: resolve_unfold [of db] resolve_unfold [of db'] deps Let_def split: if_splits)
  qed
qed

lemma resolvePrompt_kept:
  assumes kept: "answers_kept (pr_project p) db db'" and p: "p \<in> set (prompt_rows db)"
    and r: "resolvePrompt db (Some p) = Inr (Some x)"
  shows "resolvePrompt db' (Some p) = Inr (Some x)"
proof -
  obtain y where y: "resolve db (pr_project p) p p None 0 ({}, []) = Inr y"
    using r by (cases "resolve db (pr_project p) p p None 0 ({}, [])") (simp_all add: resolvePrompt_def buildAndResolvePromptGraph_def)
  have "resolve db' (pr_project p) p p None 0 ({}, []) = Inr y"
    by (rule resolve_kept [OF kept y]) (use p in simp)
  with y r show ?thesis by (simp add: resolvePrompt_def buildAndResolvePromptGraph_def)
qed

lemma find_append: "find P xs = Some x \<Longrightarrow> find P (xs @ ys) = Some x"
  by (induction xs) auto

lemma cache_right_duplicated:
  assumes right: "cache_right pid db c" and new: "versions_of db pid name = []"
    and ps: "set ps \<subseteq> set (prompt_rows db)"
    and fresh: "\<forall>p \<in> set (prompt_rows db). newId (pr_id p) \<notin> pr_id ` set (prompt_rows db)"
  shows "cache_right pid (duplicated_db name single newId ps pid db) c"
proof -
  let ?db = "duplicated_db name single newId ps pid db"
  let ?new = "map (duplicated_row newId name single) ps"
  have rows: "prompt_rows ?db = prompt_rows db @ ?new" by (simp add: duplicated_db_def)
  have kept: "answers_kept pid db ?db"
    unfolding answers_kept_def
  proof (intro conjI allI impI ballI)
    fix t q
    assume "find_dep db pid t = Some q"
    then show "find_dep ?db pid t = Some q" unfolding find_dep_def rows by (rule find_append)
  next
    fix i
    assume i: "i \<in> pr_id ` set (prompt_rows db)"
    have "newId (pr_id p) \<noteq> i" if "p \<in> set ps" for p using fresh ps i that by blast
    then show "stored_deps ?db pid i = stored_deps db pid i"
      by (auto simp: stored_deps_def duplicated_db_def filter_empty_conv)
  qed
  have vs: "versions_of ?db pid n = versions_of db pid n @ versions_of \<lparr>prompt_rows = ?new, dependency_rows = []\<rparr> pid n" for n
    by (simp add: versions_of_def rows)
  show ?thesis
    unfolding cache_right_def
  proof (intro allI impI)
    fix p r
    assume p: "plain_request p" "pp_project p = pid" "c (getCacheKey p) = Some r"
    then have ans: "getDbPrompt db p = Inr (Some r)" using right unfolding cache_right_def by blast
    have res: "resolvePrompt ?db (Some q) = Inr (Some r)"
      if "q \<in> set (versions_of db pid n)" "resolvePrompt db (Some q) = Inr (Some r)" for q n
      by (rule resolvePrompt_kept [OF _ _ that(2)]) (use that(1) kept in \<open>simp_all add: versions_of_def\<close>)
    have found: "resolvePrompt ?db (find P (versions_of ?db pid n)) = Inr (Some r)"
      if f: "resolvePrompt db (find P (versions_of db pid n)) = Inr (Some r)" for P n
    proof (cases "find P (versions_of db pid n)")
      case (Some q)
      then have "q \<in> set (versions_of db pid n)" by (auto simp: find_Some_iff)
      with res f Some have "resolvePrompt ?db (Some q) = Inr (Some r)" by simp
      with find_append [OF Some] show ?thesis by (simp add: vs)
    qed (use f in \<open>simp add: resolvePrompt_def\<close>)
    from ans show "getDbPrompt ?db p = Inr (Some r)"
      using found p(2) by (auto simp: getDbPrompt_def find_version_def find_label_def split: if_splits)
  qed
qed

section \<open>Operations and reads in any order\<close>

record 's cache_system =
  cs_db :: prompt_db
  cs_redis :: 's
  cs_todo :: "cache_command list"
  cs_cleanup :: "cache_command list"

definition writes_tables :: "cache_command \<Rightarrow> bool" where
  "writes_tables c \<longleftrightarrow> (case c of Commit a \<Rightarrow> True | Reattach_Latest pid name ps \<Rightarrow> True | Delete_Many pid is \<Rightarrow> True | _ \<Rightarrow> False)"

text \<open>Where only the lock keeps readers from an entry that is, or will be, out of date.\<close>

fun exposed :: "cache_command list \<Rightarrow> bool" where
  "exposed (Commit a # Unlock_Cache pid # cs) = True"
| "exposed (Reattach_Latest pid name ps # cs) = True"
| "exposed (Delete_Many pid is # cs) = True"
| "exposed (Invalidate_Cache pid n # cs) = list_all (\<lambda>c. \<not> writes_tables c) cs"
| "exposed cs = False"

definition lock_alive :: "('s \<Rightarrow> string set) \<Rightarrow> string \<Rightarrow> cache_command list \<Rightarrow> 's \<Rightarrow> bool" where
  "lock_alive lck pid todo s \<longleftrightarrow> (exposed todo \<longrightarrow> getLockKey pid \<in> lck s)"

text \<open>
  The calls on one project: one operation at a time, its commands one by one, reads in between. A command
  may throw, and any write of the tables may fail, which leaves the clean-up; but an invalidation throws only
  before the transaction, and before it has deleted the index. While only the lock keeps readers from an entry,
  it is there and is seen.
\<close>

definition may_throw :: "cache_command \<Rightarrow> cache_command list \<Rightarrow> string set \<Rightarrow> string set \<Rightarrow> bool" where
  "may_throw c cs i i' \<longleftrightarrow> (case c of Invalidate_Cache pid n \<Rightarrow> \<not> exposed (c # cs) \<and> i \<subseteq> i' | _ \<Rightarrow> True)"

inductive cache_run :: "prompt_config \<Rightarrow> 's prompt_redis \<Rightarrow> ('s \<Rightarrow> string \<Rightarrow> prompt_result option) \<Rightarrow> ('s \<Rightarrow> string \<Rightarrow> string set) \<Rightarrow>
    ('s \<Rightarrow> string set) \<Rightarrow> string \<Rightarrow> 's cache_system \<Rightarrow> bool" for cfg R vals idx lck pid where
  cr_start: "vals s = Map.empty \<Longrightarrow>
    cache_run cfg R vals idx lck pid \<lparr>cs_db = db, cs_redis = s, cs_todo = [], cs_cleanup = []\<rparr>"
| cr_begin: "cache_run cfg R vals idx lck pid sys \<Longrightarrow> cs_todo sys = [] \<Longrightarrow> fresh_ids a (cs_db sys) \<Longrightarrow> action_project a = pid \<Longrightarrow>
    cache_run cfg R vals idx lck pid (sys\<lparr>cs_todo := commands a (cs_db sys), cs_cleanup := cleanup a\<rparr>)"
| cr_command: "cache_run cfg R vals idx lck pid sys \<Longrightarrow> cs_todo sys = c # cs \<Longrightarrow>
    run_command cfg R c (cs_db sys, cs_redis sys) = (True, db', s') \<Longrightarrow> lock_alive lck pid cs s' \<Longrightarrow>
    cache_run cfg R vals idx lck pid (sys\<lparr>cs_db := db', cs_redis := s', cs_todo := cs\<rparr>)"
| cr_throw: "cache_run cfg R vals idx lck pid sys \<Longrightarrow> cs_todo sys = c # cs \<Longrightarrow>
    run_command cfg R c (cs_db sys, cs_redis sys) = (False, db', s') \<Longrightarrow>
    may_throw c cs (idx (cs_redis sys) (getKeyIndexKey pid)) (idx s' (getKeyIndexKey pid)) \<Longrightarrow>
    cache_run cfg R vals idx lck pid (sys\<lparr>cs_redis := s', cs_todo := cs_cleanup sys, cs_cleanup := []\<rparr>)"
| cr_rollback: "cache_run cfg R vals idx lck pid sys \<Longrightarrow> cs_todo sys = c # cs \<Longrightarrow> writes_tables c \<Longrightarrow>
    cache_run cfg R vals idx lck pid (sys\<lparr>cs_todo := cs_cleanup sys, cs_cleanup := []\<rparr>)"
| cr_read: "cache_run cfg R vals idx lck pid sys \<Longrightarrow> plain_request p \<Longrightarrow> pp_project p = pid \<Longrightarrow>
    snd (getPrompt cfg R (cs_db sys) p (cs_redis sys)) = s' \<Longrightarrow> lock_alive lck pid (cs_todo sys) s' \<Longrightarrow>
    (exposed (cs_todo sys) \<Longrightarrow> lock_seen R pid (cs_redis sys)) \<Longrightarrow>
    cache_run cfg R vals idx lck pid (sys\<lparr>cs_redis := s'\<rparr>)"

definition table_writes :: "cache_command list \<Rightarrow> bool" where
  "table_writes ws \<longleftrightarrow> (\<exists>a. ws = [Commit a]) \<or> (\<exists>p m ps q is. ws = [Reattach_Latest p m ps, Delete_Many q is])"

definition order_ok :: "string \<Rightarrow> cache_command list \<Rightarrow> bool" where
  "order_ok pid todo \<longleftrightarrow> (\<exists>a n us ws. set us \<subseteq> {Unlock_Cache pid} \<and> table_writes ws \<and>
     (suffix todo ([Lock_Cache pid, Invalidate_Cache pid n] @ ws @ [Unlock_Cache pid]) \<or>
      suffix todo ([Lock_Cache pid, Commit a, Invalidate_Cache pid n] @ us) \<or>
      suffix todo (Lock_Cache pid # us) \<or>
      (\<exists>i name single newId. todo = [Commit (Duplicate_Prompt pid i name single newId)])))"

lemma table_writes_commit: "table_writes [Commit a]" "table_writes [Reattach_Latest p m ps, Delete_Many q is]"
  by (simp_all add: table_writes_def)

lemma order_okI:
  "set us \<subseteq> {Unlock_Cache pid} \<Longrightarrow> table_writes ws \<Longrightarrow> suffix todo ([Lock_Cache pid, Invalidate_Cache pid n] @ ws @ [Unlock_Cache pid]) \<Longrightarrow> order_ok pid todo"
  "set us \<subseteq> {Unlock_Cache pid} \<Longrightarrow> suffix todo ([Lock_Cache pid, Commit a, Invalidate_Cache pid n] @ us) \<Longrightarrow> order_ok pid todo"
  "set us \<subseteq> {Unlock_Cache pid} \<Longrightarrow> suffix todo (Lock_Cache pid # us) \<Longrightarrow> order_ok pid todo"
  "order_ok pid [Commit (Duplicate_Prompt pid i name single newId)]"
proof -
  have none: "set [] \<subseteq> {Unlock_Cache pid}" by simp
  note one = table_writes_commit(1)
  show "set us \<subseteq> {Unlock_Cache pid} \<Longrightarrow> table_writes ws \<Longrightarrow> suffix todo ([Lock_Cache pid, Invalidate_Cache pid n] @ ws @ [Unlock_Cache pid]) \<Longrightarrow> order_ok pid todo"
    unfolding order_ok_def by (intro exI conjI disjI1)
  show "set us \<subseteq> {Unlock_Cache pid} \<Longrightarrow> suffix todo ([Lock_Cache pid, Commit a, Invalidate_Cache pid n] @ us) \<Longrightarrow> order_ok pid todo"
    unfolding order_ok_def by (rule exI, rule exI, rule exI, rule exI, rule conjI, assumption, rule conjI, rule one, rule disjI2, rule disjI1)
  show "set us \<subseteq> {Unlock_Cache pid} \<Longrightarrow> suffix todo (Lock_Cache pid # us) \<Longrightarrow> order_ok pid todo"
    unfolding order_ok_def
    by (rule exI, rule exI, rule exI, rule exI, rule conjI, assumption, rule conjI, rule one, rule disjI2, rule disjI2, rule disjI1)
  show "order_ok pid [Commit (Duplicate_Prompt pid i name single newId)]"
    unfolding order_ok_def
    by (rule exI, rule exI, rule exI, rule exI, rule conjI, rule none, rule conjI, rule one, rule disjI2, rule disjI2, rule disjI2) blast
qed

lemma commands_order: "order_ok (action_project a) (commands a db)"
proof -
  let ?p = "action_project a" and ?n = "action_name a db"
  have abort: "order_ok p []" "order_ok p [Lock_Cache p, Unlock_Cache p]" for p
    using order_okI(3) [of "[Unlock_Cache p]" p] by simp_all
  have create: "order_ok p [Lock_Cache p, Invalidate_Cache p n, Commit b, Unlock_Cache p]" for p n b
    by (rule order_okI(1) [of "[]" p "[Commit b]" _ n, OF _ table_writes_commit(1)]) simp_all
  have deletion: "order_ok p [Lock_Cache p, Invalidate_Cache p n, Reattach_Latest p m ps, Delete_Many p is, Unlock_Cache p]" for p n m ps "is"
    by (rule order_okI(1) [of "[]" p "[Reattach_Latest p m ps, Delete_Many p is]" _ n, OF _ table_writes_commit(2)]) simp_all
  have update: "order_ok p ([Lock_Cache p, Commit b, Invalidate_Cache p n] @ us)" if "set us \<subseteq> {Unlock_Cache p}" for p n b us
    using order_okI(2) [OF that] by blast
  show ?thesis
    using abort create deletion order_okI(4) update [of "[Unlock_Cache ?p]"] update [of "[Unlock_Cache ?p, Unlock_Cache ?p]"]
    by (cases a) (auto simp: commands_def Let_def)
qed

lemma cleanup_order: "action_project a = pid \<Longrightarrow> order_ok pid (cleanup a)"
proof -
  have "order_ok p []" "order_ok p [Unlock_Cache p]" for p
    using order_okI(3) [of "[Unlock_Cache p]" p] by (simp_all add: suffix_Cons)
  then show "action_project a = pid \<Longrightarrow> order_ok pid (cleanup a)" by (cases a) (auto simp: cleanup_def)
qed

lemma unlocks_order: "set us \<subseteq> {Unlock_Cache pid} \<Longrightarrow> order_ok pid us"
  by (rule order_okI(3) [of us]) (simp_all add: suffix_Cons)

lemma unlocks_quiet: "set us \<subseteq> {Unlock_Cache pid} \<Longrightarrow> \<not> exposed us"
  by (cases us) auto

lemma unlocks_exposed: "set us \<subseteq> {Unlock_Cache pid} \<Longrightarrow> exposed (Invalidate_Cache p n # us)"
  by (auto simp: list_all_iff writes_tables_def)

lemma suffix_unlocks: "suffix us us' \<Longrightarrow> set us' \<subseteq> {Unlock_Cache pid} \<Longrightarrow> set us \<subseteq> {Unlock_Cache pid}"
  by (auto dest: set_mono_suffix)

lemma order_ok_tail: "order_ok pid (c # cs) \<Longrightarrow> order_ok pid cs"
proof -
  assume "order_ok pid (c # cs)"
  then obtain a n us ws where us: "set us \<subseteq> {Unlock_Cache pid}" and ws: "table_writes ws" and c:
    "suffix (c # cs) ([Lock_Cache pid, Invalidate_Cache pid n] @ ws @ [Unlock_Cache pid]) \<or>
      suffix (c # cs) ([Lock_Cache pid, Commit a, Invalidate_Cache pid n] @ us) \<or> suffix (c # cs) (Lock_Cache pid # us) \<or>
      (\<exists>i name single newId. c # cs = [Commit (Duplicate_Prompt pid i name single newId)])"
    unfolding order_ok_def by blast
  have "suffix cs ([Lock_Cache pid, Invalidate_Cache pid n] @ ws @ [Unlock_Cache pid]) \<or>
      suffix cs ([Lock_Cache pid, Commit a, Invalidate_Cache pid n] @ us) \<or> suffix cs (Lock_Cache pid # us)"
    using c by (auto dest: suffix_ConsD)
  with us ws show ?thesis unfolding order_ok_def by blast
qed

lemma order_ok_cases:
  assumes "order_ok pid (c # cs)"
  obtains (lock) "c = Lock_Cache pid" "\<not> exposed cs"
  | (invalidate_first) n ws where "c = Invalidate_Cache pid n" "cs = ws @ [Unlock_Cache pid]" "table_writes ws"
  | (invalidate_last) n where "c = Invalidate_Cache pid n" "set cs \<subseteq> {Unlock_Cache pid}"
  | (commit_last) a where "c = Commit a" "cs = [Unlock_Cache pid]"
  | (reattach) p m ps q "is" where "c = Reattach_Latest p m ps" "cs = [Delete_Many q is, Unlock_Cache pid]"
  | (delete) q "is" where "c = Delete_Many q is" "cs = [Unlock_Cache pid]"
  | (commit_first) a n us where "c = Commit a" "cs = Invalidate_Cache pid n # us" "set us \<subseteq> {Unlock_Cache pid}"
  | (commit_copy) i name single newId where "c = Commit (Duplicate_Prompt pid i name single newId)" "cs = []"
  | (unlock) "c = Unlock_Cache pid" "set cs \<subseteq> {Unlock_Cache pid}"
proof -
  from assms obtain a n us ws where us: "set us \<subseteq> {Unlock_Cache pid}" and ws: "table_writes ws" and c:
    "suffix (c # cs) (Lock_Cache pid # Invalidate_Cache pid n # ws @ [Unlock_Cache pid]) \<or>
      suffix (c # cs) (Lock_Cache pid # Commit a # Invalidate_Cache pid n # us) \<or> suffix (c # cs) (Lock_Cache pid # us) \<or>
      (\<exists>i name single newId. c # cs = [Commit (Duplicate_Prompt pid i name single newId)])"
    unfolding order_ok_def by auto
  have unlocks: "c = Unlock_Cache pid \<and> set cs \<subseteq> {Unlock_Cache pid}" if "suffix (c # cs) us"
    using suffix_unlocks [OF that us] by simp
  note quiet = unlocks_quiet [OF us]
  from c consider "suffix (c # cs) (Lock_Cache pid # Invalidate_Cache pid n # ws @ [Unlock_Cache pid])"
    | "suffix (c # cs) (Lock_Cache pid # Commit a # Invalidate_Cache pid n # us)" | "suffix (c # cs) (Lock_Cache pid # us)"
    | i name single newId where "c # cs = [Commit (Duplicate_Prompt pid i name single newId)]" by blast
  then show thesis
  proof cases
    case 1
    then consider "c = Lock_Cache pid" "cs = Invalidate_Cache pid n # ws @ [Unlock_Cache pid]"
      | "c = Invalidate_Cache pid n" "cs = ws @ [Unlock_Cache pid]" | "suffix (c # cs) (ws @ [Unlock_Cache pid])"
      by (auto simp: suffix_Cons)
    then show thesis
    proof cases
      case 1
      moreover have "\<not> exposed (Invalidate_Cache pid n # ws @ [Unlock_Cache pid])"
        using ws by (auto simp: table_writes_def writes_tables_def)
      ultimately show thesis by (intro lock) simp_all
    next
      case 2
      then show thesis by (intro invalidate_first [OF _ _ ws])
    next
      case 3
      from ws consider b where "ws = [Commit b]" | p m ps q "is" where "ws = [Reattach_Latest p m ps, Delete_Many q is]"
        unfolding table_writes_def by blast
      then show thesis
      proof cases
        case 1
        with 3 show thesis by (auto simp: suffix_Cons intro: commit_last unlock)
      next
        case 2
        with 3 show thesis by (auto simp: suffix_Cons intro: reattach delete unlock)
      qed
    qed
  next
    case 2
    then consider "c = Lock_Cache pid" "cs = Commit a # Invalidate_Cache pid n # us"
      | "c = Commit a" "cs = Invalidate_Cache pid n # us" | "c = Invalidate_Cache pid n" "cs = us" | "suffix (c # cs) us"
      by (auto simp: suffix_Cons)
    then show thesis by cases (use us unlocks unlock lock commit_first invalidate_last in auto)
  next
    case 3
    then consider "c = Lock_Cache pid" "cs = us" | "suffix (c # cs) us" by (auto simp: suffix_Cons)
    then show thesis by cases (use quiet unlocks unlock lock in auto)
  qed (use commit_copy in auto)
qed

definition system_ok :: "('s \<Rightarrow> string \<Rightarrow> prompt_result option) \<Rightarrow> ('s \<Rightarrow> string \<Rightarrow> string set) \<Rightarrow> ('s \<Rightarrow> string set) \<Rightarrow> string \<Rightarrow>
    's cache_system \<Rightarrow> bool" where
  "system_ok vals idx lck pid sys \<longleftrightarrow> cache_indexed pid (vals (cs_redis sys)) (idx (cs_redis sys)) \<and>
     (\<not> exposed (cs_todo sys) \<longrightarrow> cache_right pid (cs_db sys) (vals (cs_redis sys))) \<and>
     lock_alive lck pid (cs_todo sys) (cs_redis sys) \<and>
     (\<forall>c cs. exposed (cs_todo sys) \<longrightarrow> cs_todo sys = c # cs \<longrightarrow> writes_tables c \<longrightarrow> cache_empty pid (vals (cs_redis sys))) \<and>
     order_ok pid (cs_todo sys) \<and> set (cs_cleanup sys) \<subseteq> {Unlock_Cache pid} \<and>
     (\<forall>a. Commit a \<in> set (cs_todo sys) \<longrightarrow> fresh_ids a (cs_db sys))"

lemma system_okD:
  assumes "system_ok vals idx lck pid sys"
  shows "cache_indexed pid (vals (cs_redis sys)) (idx (cs_redis sys))"
    "\<not> exposed (cs_todo sys) \<Longrightarrow> cache_right pid (cs_db sys) (vals (cs_redis sys))"
    "lock_alive lck pid (cs_todo sys) (cs_redis sys)"
    "exposed (cs_todo sys) \<Longrightarrow> cs_todo sys = c # cs \<Longrightarrow> writes_tables c \<Longrightarrow> cache_empty pid (vals (cs_redis sys))"
    "order_ok pid (cs_todo sys)" "set (cs_cleanup sys) \<subseteq> {Unlock_Cache pid}"
    "Commit a \<in> set (cs_todo sys) \<Longrightarrow> fresh_ids a (cs_db sys)"
  using assms unfolding system_ok_def by blast+

lemma quiet_ok:
  assumes ok: "system_ok vals idx lck pid sys" and quiet: "\<not> exposed todo"
    and vals: "cache_right pid db (vals s)" and ind: "cache_indexed pid (vals s) (idx s)"
    and order: "order_ok pid todo" and fresh: "\<And>a. Commit a \<in> set todo \<Longrightarrow> fresh_ids a db" and cl: "set cl \<subseteq> {Unlock_Cache pid}"
  shows "system_ok vals idx lck pid \<lparr>cs_db = db, cs_redis = s, cs_todo = todo, cs_cleanup = cl\<rparr>"
  unfolding system_ok_def lock_alive_def using assms by simp

lemma commands_fresh: "Commit b \<in> set (commands a db) \<Longrightarrow> b = a"
  by (cases a) (auto simp: commands_def Let_def split: if_splits)

lemma commands_quiet: "\<not> exposed (commands a db)"
  by (cases a) (auto simp: commands_def Let_def)

lemma cleanup_unlocks: "action_project a = pid \<Longrightarrow> set (cleanup a) \<subseteq> {Unlock_Cache pid}"
  by (cases a) (auto simp: cleanup_def)

lemma lockCache_law:
  assumes "prompt_redis_laws R vals idx lck" "lockCache cfg R pid s = (ok, s')"
  shows "vals s' \<subseteq>\<^sub>m vals s" "idx s' = idx s"
  using assms(2) redis_writesD(3) [OF assms(1), of "getLockKey pid" s ok s'] by (auto simp: lockCache_def split: if_splits)

lemma unlockCache_law:
  assumes "prompt_redis_laws R vals idx lck" "unlockCache cfg R pid s = (ok, s')"
  shows "vals s' \<subseteq>\<^sub>m vals s" "idx s' (getKeyIndexKey q) = idx s (getKeyIndexKey q)" "ok"
proof -
  obtain b t where d: "rd_del R [getLockKey pid] s = (b, t)" by fastforce
  have "shrinks vals lck s t \<and> idx t (getKeyIndexKey q) = idx s (getKeyIndexKey q)"
    using redis_writesD(4) [OF assms(1) d] by (auto simp: getLockKey_def getKeyIndexKey_def)
  with assms(2) d show "vals s' \<subseteq>\<^sub>m vals s" "idx s' (getKeyIndexKey q) = idx s (getKeyIndexKey q)" "ok"
    by (auto simp: unlockCache_def shrinks_def split: if_splits)
qed

lemma copy_right:
  assumes right: "cache_right pid db c" and fresh: "fresh_ids (Duplicate_Prompt pid i name single newId) db"
  shows "cache_right pid (perform (Duplicate_Prompt pid i name single newId) db) c"
proof -
  let ?a = "Duplicate_Prompt pid i name single newId"
  have copy: "cache_right pid (perform ?a db) c"
    if "versions_of db pid name = []" "set ps \<subseteq> set (prompt_rows db)"
      "fst (duplicatePrompt pid i name single newId db) = duplicated_db name single newId ps pid db" for ps
    unfolding perform.simps that(3) using fresh by (intro cache_right_duplicated [OF right that(1,2)]) simp
  show ?thesis
    using duplicatePrompt_effect [of pid i name single newId db]
  proof (elim disjE exE conjE)
    assume "fst (duplicatePrompt pid i name single newId db) = db"
    then show ?thesis using right by (simp only: perform.simps)
  next
    fix src ps
    assume new: "versions_of db pid name = []"
      and ps: "ps = filter (\<lambda>p. single \<longrightarrow> pr_version p = pr_version src) (versions_of db pid (pr_name src))"
      and eff: "fst (duplicatePrompt pid i name single newId db) = duplicated_db name single newId ps pid db"
    have "set ps \<subseteq> set (prompt_rows db)" unfolding ps versions_of_def by auto
    then show ?thesis by (rule copy [OF new _ eff])
  qed
qed

lemma command_ok:
  assumes laws: "prompt_redis_laws R vals idx lck" and on: "prompt_cache_enabled cfg"
    and ok: "system_ok vals idx lck pid sys" and todo: "cs_todo sys = c # cs"
    and run: "run_command cfg R c (cs_db sys, cs_redis sys) = (True, db', s')" and alive: "lock_alive lck pid cs s'"
  shows "system_ok vals idx lck pid (sys\<lparr>cs_db := db', cs_redis := s', cs_todo := cs\<rparr>)"
proof -
  let ?db = "cs_db sys" and ?s = "cs_redis sys"
  note parts = system_okD [OF ok]
  have order: "order_ok pid (c # cs)" using parts(5) todo by simp
  have tail: "order_ok pid cs" by (rule order_ok_tail [OF order])
  note right = parts(2) [unfolded todo] and ind = parts(1)
  have fresh: "fresh_ids a ?db" if "Commit a \<in> set (c # cs)" for a using parts(7) [of a] that todo by simp
  have shape: "sys\<lparr>cs_db := db', cs_redis := s', cs_todo := cs\<rparr> = \<lparr>cs_db = db', cs_redis = s', cs_todo = cs, cs_cleanup = cs_cleanup sys\<rparr>"
    by simp
  note quiet = quiet_ok [OF ok _ _ _ tail _ parts(6)]
  have exposed: "system_ok vals idx lck pid \<lparr>cs_db = db', cs_redis = s', cs_todo = cs, cs_cleanup = cs_cleanup sys\<rparr>"
    if "exposed cs" "cache_indexed pid (vals s') (idx s')" "\<And>a. Commit a \<in> set cs \<Longrightarrow> fresh_ids a db'"
      "\<And>d ds. cs = d # ds \<Longrightarrow> writes_tables d \<Longrightarrow> cache_empty pid (vals s')"
    unfolding system_ok_def using that alive tail parts(6) by simp
  have "system_ok vals idx lck pid \<lparr>cs_db = db', cs_redis = s', cs_todo = cs, cs_cleanup = cs_cleanup sys\<rparr>"
    using order
  proof (cases rule: order_ok_cases)
    case lock
    obtain b where l: "lockCache cfg R pid ?s = (b, s')" and db: "db' = ?db" using run lock(1) by (auto split: prod.splits)
    note law = lockCache_law [OF laws l]
    show ?thesis
      unfolding db using right lock fresh cache_sub(1) [OF _ law(1)] cache_sub(3) [OF ind law(1), of "idx s'"] law(2)
      by (intro quiet) simp_all
  next
    case (invalidate_first n ws)
    have l: "invalidateCache cfg R pid n ?s = (True, s')" and db: "db' = ?db"
      using run invalidate_first(1) by (auto split: prod.splits)
    note law = invalidateCache_law [OF laws l ind on]
    have e: "cache_empty pid (vals s')" by (rule law(2)) simp
    show ?thesis
      unfolding db [symmetric] by (rule exposed) (use e fresh invalidate_first in \<open>auto simp: db cache_empty_def cache_indexed_def table_writes_def\<close>)
  next
    case (invalidate_last n)
    have l: "invalidateCache cfg R pid n ?s = (True, s')" and db: "db' = ?db"
      using run invalidate_last(1) by (auto split: prod.splits)
    note law = invalidateCache_law [OF laws l ind on]
    have e: "cache_empty pid (vals s')" by (rule law(2)) simp
    then have "cache_indexed pid (vals s') (idx s')" by (simp add: cache_empty_def cache_indexed_def)
    with cache_empty_right [OF e] show ?thesis
      unfolding db using unlocks_quiet [OF invalidate_last(2)] fresh by (intro quiet) auto
  next
    case (commit_last a)
    have r: "db' = perform a ?db" "s' = ?s" using run commit_last(1) by simp_all
    have e: "cache_empty pid (vals ?s)" by (rule parts(4) [OF _ todo]) (simp_all add: todo commit_last writes_tables_def)
    show ?thesis
      unfolding r using cache_empty_right [OF e] ind commit_last by (intro quiet) auto
  next
    case (reattach p m ps q "is")
    have r: "s' = ?s" using run reattach(1) by simp
    have e: "cache_empty pid (vals ?s)" by (rule parts(4) [OF _ todo]) (simp_all add: todo reattach writes_tables_def)
    show ?thesis by (rule exposed) (use e ind reattach r in auto)
  next
    case (delete q "is")
    have r: "s' = ?s" using run delete(1) by simp
    have e: "cache_empty pid (vals ?s)" by (rule parts(4) [OF _ todo]) (simp_all add: todo delete writes_tables_def)
    show ?thesis unfolding r using cache_empty_right [OF e] ind delete by (intro quiet) auto
  next
    case (commit_first a n us)
    have r: "db' = perform a ?db" "s' = ?s" using run commit_first(1) by simp_all
    show ?thesis
      unfolding r(1) [symmetric]
      by (rule exposed) (use unlocks_exposed [OF commit_first(3)] commit_first r ind in \<open>auto simp: writes_tables_def\<close>)
  next
    case (commit_copy i name single newId)
    have r: "db' = perform (Duplicate_Prompt pid i name single newId) ?db" "s' = ?s" using run commit_copy(1) by simp_all
    have "cache_right pid ?db (vals ?s)" using right commit_copy by simp
    then have "cache_right pid (perform (Duplicate_Prompt pid i name single newId) ?db) (vals ?s)"
      by (rule copy_right [OF _ fresh]) (simp add: commit_copy)
    then show ?thesis unfolding r using ind commit_copy by (intro quiet) simp_all
  next
    case unlock
    obtain b where l: "unlockCache cfg R pid ?s = (b, s')" and db: "db' = ?db" using run unlock(1) by (auto split: prod.splits)
    note law = unlockCache_law [OF laws l]
    show ?thesis
      unfolding db using right unlock unlocks_quiet [OF unlock(2)] fresh cache_sub(1) [OF _ law(1)]
        cache_sub(3) [OF ind law(1), of "idx s'"] law(2) [of pid]
      by (intro quiet) auto
  qed
  then show ?thesis by (simp only: shape)
qed

lemma cleanup_ok:
  assumes ok: "system_ok vals idx lck pid sys" and vals: "vals s' \<subseteq>\<^sub>m vals (cs_redis sys)"
    and idx: "idx (cs_redis sys) (getKeyIndexKey pid) \<subseteq> idx s' (getKeyIndexKey pid)"
    and right: "cache_right pid (cs_db sys) (vals s')"
  shows "system_ok vals idx lck pid (sys\<lparr>cs_redis := s', cs_todo := cs_cleanup sys, cs_cleanup := []\<rparr>)"
proof -
  note parts = system_okD [OF ok]
  have "cache_indexed pid (vals s') (idx s')" by (rule cache_sub(3) [OF parts(1) vals, of "idx s'", OF idx])
  moreover have "Commit a \<notin> set (cs_cleanup sys)" for a using parts(6) by auto
  ultimately have "system_ok vals idx lck pid \<lparr>cs_db = cs_db sys, cs_redis = s', cs_todo = cs_cleanup sys, cs_cleanup = []\<rparr>"
    using right unlocks_order [OF parts(6)] unlocks_quiet [OF parts(6)] by (intro quiet_ok [OF ok]) auto
  then show ?thesis by (cases sys) simp
qed

lemma throw_ok:
  assumes laws: "prompt_redis_laws R vals idx lck" and on: "prompt_cache_enabled cfg"
    and ok: "system_ok vals idx lck pid sys" and todo: "cs_todo sys = c # cs"
    and run: "run_command cfg R c (cs_db sys, cs_redis sys) = (False, db', s')"
    and may: "may_throw c cs (idx (cs_redis sys) (getKeyIndexKey pid)) (idx s' (getKeyIndexKey pid))"
  shows "system_ok vals idx lck pid (sys\<lparr>cs_redis := s', cs_todo := cs_cleanup sys, cs_cleanup := []\<rparr>)"
proof -
  note parts = system_okD [OF ok]
  show ?thesis
  proof (cases c)
    case (Lock_Cache q)
    have l: "lockCache cfg R q (cs_redis sys) = (False, s')" using run Lock_Cache by (auto split: prod.splits)
    note law = lockCache_law [OF laws l]
    have "cache_right pid (cs_db sys) (vals (cs_redis sys))" by (rule parts(2)) (simp add: todo Lock_Cache)
    then show ?thesis by (intro cleanup_ok [OF ok law(1)] cache_sub(1) [OF _ law(1)]) (simp_all add: law(2))
  next
    case (Invalidate_Cache q n)
    have q: "q = pid" using parts(5) unfolding todo by (cases rule: order_ok_cases) (use Invalidate_Cache in auto)
    have l: "invalidateCache cfg R pid n (cs_redis sys) = (False, s')" using run Invalidate_Cache q by (auto split: prod.splits)
    note law = shrinksD(1) [OF invalidateCache_law(1) [OF laws l parts(1) on]]
    have m: "\<not> exposed (c # cs)" "idx (cs_redis sys) (getKeyIndexKey pid) \<subseteq> idx s' (getKeyIndexKey pid)"
      using may Invalidate_Cache by (simp_all add: may_throw_def)
    have "cache_right pid (cs_db sys) (vals (cs_redis sys))" by (rule parts(2)) (use m(1) in \<open>simp add: todo\<close>)
    then show ?thesis by (intro cleanup_ok [OF ok law m(2)] cache_sub(1) [OF _ law])
  next
    case (Unlock_Cache q)
    have l: "unlockCache cfg R q (cs_redis sys) = (False, s')" using run Unlock_Cache by (auto split: prod.splits)
    show ?thesis using unlockCache_law(3) [OF laws l] by simp
  qed (use run in auto)
qed

lemma rollback_ok:
  assumes ok: "system_ok vals idx lck pid sys" and todo: "cs_todo sys = c # cs" and c: "writes_tables c"
  shows "system_ok vals idx lck pid (sys\<lparr>cs_todo := cs_cleanup sys, cs_cleanup := []\<rparr>)"
proof -
  have "cache_right pid (cs_db sys) (vals (cs_redis sys))"
    using system_okD(2) [OF ok] cache_empty_right [OF system_okD(4) [OF ok _ todo c]] by (cases "exposed (cs_todo sys)") auto
  from cleanup_ok [OF ok _ _ this] show ?thesis by simp
qed

lemma read_ok:
  assumes laws: "prompt_redis_laws R vals idx lck" and ok: "system_ok vals idx lck pid sys"
    and plain: "plain_request p" and pid: "pp_project p = pid"
    and s': "snd (getPrompt cfg R (cs_db sys) p (cs_redis sys)) = s'" and alive: "lock_alive lck pid (cs_todo sys) s'"
    and seen: "exposed (cs_todo sys) \<Longrightarrow> lock_seen R pid (cs_redis sys)"
  shows "system_ok vals idx lck pid (sys\<lparr>cs_redis := s'\<rparr>)"
proof -
  note parts = system_okD [OF ok] and st = getPrompt_state [OF laws plain pid s' [symmetric]]
  have ind: "cache_indexed pid (vals s') (idx s')" by (rule st(2) [OF parts(1)])
  have right: "cache_right pid (cs_db sys) (vals s')" if "\<not> exposed (cs_todo sys)"
    by (rule st(3) [OF parts(2) [OF that]])
  have empt: "cache_empty pid (vals s')" if "exposed (cs_todo sys)" "cs_todo sys = c # cs" "writes_tables c" for c cs
    using alive that(1) seen [OF that(1)] by (intro cache_sub(2) [OF parts(4) [OF that] st(4)]) (simp_all add: lock_alive_def)
  then have "\<forall>c cs. exposed (cs_todo sys) \<longrightarrow> cs_todo sys = c # cs \<longrightarrow> writes_tables c \<longrightarrow> cache_empty pid (vals s')" by blast
  then show ?thesis
    unfolding system_ok_def by (intro conjI) (use ind right alive parts(5,6,7) in simp_all)
qed

lemma cache_run_ok:
  assumes laws: "prompt_redis_laws R vals idx lck" and on: "prompt_cache_enabled cfg"
  shows "cache_run cfg R vals idx lck pid sys \<Longrightarrow> system_ok vals idx lck pid sys"
proof (induction rule: cache_run.induct)
  case (cr_start s db)
  with unlocks_order [of "[]" pid] show ?case
    by (simp add: system_ok_def cache_indexed_def cache_right_def lock_alive_def)
next
  case (cr_begin sys a)
  have quiet: "cache_right pid (cs_db sys) (vals (cs_redis sys))" by (rule system_okD(2) [OF cr_begin(5)]) (simp add: cr_begin(2))
  have "system_ok vals idx lck pid \<lparr>cs_db = cs_db sys, cs_redis = cs_redis sys, cs_todo = commands a (cs_db sys), cs_cleanup = cleanup a\<rparr>"
    using commands_order [of a "cs_db sys"] commands_fresh [of _ a "cs_db sys"] cr_begin(3,4) quiet system_okD(1) [OF cr_begin(5)]
    by (intro quiet_ok [OF cr_begin(5) commands_quiet] cleanup_unlocks) auto
  then show ?case by (cases sys) simp
next
  case (cr_command sys c cs db' s')
  then show ?case by (intro command_ok [OF laws on])
next
  case (cr_throw sys c cs db' s')
  then show ?case by (intro throw_ok [OF laws on])
next
  case (cr_rollback sys c cs)
  then show ?case by (intro rollback_ok)
next
  case (cr_read sys p s')
  then show ?case by (intro read_ok [OF laws])
qed

text \<open>
  C1: from an empty cache and any tables, while the operations on a project run one at a time, each call of theirs
  on Redis or the tables a step of its own, and each read is one step at any point between them, a read gives what
  the tables give at that moment, never an entry from before a change. The conditions are: the read asks
  for a version other than 0, or for a label that is not empty, not a number and has no colon; while the cache is
  kept from readers only by the lock, the lock does not expire and the server answers whether it is there;
  and an invalidation that throws does so before the transaction, with the index of keys still there. Entries
  may expire at any time, and other commands and any write of the tables may fail, also between the two writes
  of a deletion.
\<close>

theorem prompt_cache_consistent:
  assumes laws: "prompt_redis_laws R vals idx lck" and run: "cache_run cfg R vals idx lck pid sys"
    and plain: "plain_request p" and pid: "pp_project p = pid"
    and seen: "exposed (cs_todo sys) \<longrightarrow> lock_seen R pid (cs_redis sys)"
  shows "fst (getPrompt cfg R (cs_db sys) p (cs_redis sys)) = getDbPrompt (cs_db sys) p"
proof (cases "prompt_cache_enabled cfg")
  case True
  have ok: "system_ok vals idx lck pid sys" by (rule cache_run_ok [OF laws True run])
  have "getLockKey pid \<in> lck (cs_redis sys) \<and> lock_seen R pid (cs_redis sys) \<or> cache_right pid (cs_db sys) (vals (cs_redis sys))"
    using system_okD(2,3) [OF ok] seen unfolding lock_alive_def by blast
  then show ?thesis using pid by (intro getPrompt_right [OF laws plain]) simp
next
  case False
  then show ?thesis by (auto simp: getPrompt_def shouldUseCache_def split: sum.splits option.splits)
qed

section \<open>A server that never fails\<close>

record mem =
  mem_vals :: "string \<Rightarrow> prompt_result option"
  mem_sets :: "string \<Rightarrow> string list"
  mem_locks :: "string list"

definition mem_redis :: "mem prompt_redis" where
  "mem_redis = \<lparr>rd_getex = (\<lambda>k s. (Some (mem_vals s k), s)),
     rd_sadd = (\<lambda>k m s. (True, s\<lparr>mem_sets := (mem_sets s)(k := List.insert m (mem_sets s k))\<rparr>)),
     rd_set = (\<lambda>k v s. (True, s\<lparr>mem_vals := (mem_vals s)(k \<mapsto> v)\<rparr>)),
     rd_setex = (\<lambda>k s. (True, s\<lparr>mem_locks := List.insert k (mem_locks s)\<rparr>)),
     rd_exists = (\<lambda>k s. (Some (k \<in> set (mem_locks s)), s)),
     rd_smembers = (\<lambda>k s. (Some (mem_sets s k), s)),
     rd_del = (\<lambda>ks s. (True, \<lparr>mem_vals = (\<lambda>k. if k \<in> set ks then None else mem_vals s k),
        mem_sets = (\<lambda>k. if k \<in> set ks then [] else mem_sets s k), mem_locks = filter (\<lambda>k. k \<notin> set ks) (mem_locks s)\<rparr>))\<rparr>"

definition mem_config :: prompt_config where
  "mem_config = \<lparr>prompt_cache_enabled = True, prompt_redis_cluster = False\<rparr>"

definition mem_empty :: mem where
  "mem_empty = \<lparr>mem_vals = (\<lambda>k. None), mem_sets = (\<lambda>k. []), mem_locks = []\<rparr>"

abbreviation mem_idx :: "mem \<Rightarrow> string \<Rightarrow> string set" where "mem_idx s k \<equiv> set (mem_sets s k)"
abbreviation mem_lck :: "mem \<Rightarrow> string set" where "mem_lck s \<equiv> set (mem_locks s)"

lemma mem_laws: "prompt_redis_laws mem_redis mem_vals mem_idx mem_lck"
  by (auto simp: prompt_redis_laws_def redis_reads_def redis_writes_def mem_redis_def shrinks_def map_le_def)

fun mem_run :: "cache_command list \<Rightarrow> prompt_db \<times> mem \<Rightarrow> prompt_db \<times> mem" where
  "mem_run [] x = x"
| "mem_run (c # cs) x = mem_run cs (snd (run_command mem_config mem_redis c x))"

fun mem_alive :: "string \<Rightarrow> cache_command list \<Rightarrow> prompt_db \<times> mem \<Rightarrow> bool" where
  "mem_alive pid [] x \<longleftrightarrow> True"
| "mem_alive pid (c # cs) x \<longleftrightarrow> (let x' = snd (run_command mem_config mem_redis c x) in
     (if exposed cs then getLockKey pid \<in> mem_lck (snd x') else True) \<and> mem_alive pid cs x')"

lemma mem_command: "fst (run_command mem_config mem_redis c x)"
  by (cases c; cases x) (auto simp: lockCache_def unlockCache_def invalidateCache_def delete_keys_def mem_redis_def mem_config_def Let_def)

abbreviation mem_cache_run :: "string \<Rightarrow> mem cache_system \<Rightarrow> bool" where
  "mem_cache_run \<equiv> cache_run mem_config mem_redis mem_vals mem_idx mem_lck"

lemma mem_run_reaches:
  "mem_cache_run pid \<lparr>cs_db = db, cs_redis = s, cs_todo = cs, cs_cleanup = cl\<rparr> \<Longrightarrow> mem_alive pid cs (db, s) \<Longrightarrow>
   mem_cache_run pid \<lparr>cs_db = fst (mem_run cs (db, s)), cs_redis = snd (mem_run cs (db, s)), cs_todo = [], cs_cleanup = cl\<rparr>"
proof (induction cs arbitrary: db s)
  case (Cons c cs)
  obtain db' s' where r: "run_command mem_config mem_redis c (db, s) = (True, db', s')"
    using mem_command [of c "(db, s)"] by (cases "run_command mem_config mem_redis c (db, s)") auto
  have "mem_cache_run pid \<lparr>cs_db = db', cs_redis = s', cs_todo = cs, cs_cleanup = cl\<rparr>"
    using cr_command [OF Cons.prems(1), of c cs db' s'] Cons.prems(2) r by (simp add: lock_alive_def Let_def split: if_splits)
  from Cons.IH [OF this] Cons.prems(2) show ?case by (simp add: r Let_def split: if_splits)
qed simp

definition by_version :: "string \<Rightarrow> nat \<Rightarrow> prompt_params" where
  "by_version name v = \<lparr>pp_project = ''P'', pp_name = name, pp_version = Some v, pp_label = None\<rparr>"

definition by_label :: "string \<Rightarrow> string \<Rightarrow> prompt_params" where
  "by_label name l = \<lparr>pp_project = ''P'', pp_name = name, pp_version = None, pp_label = Some l\<rparr>"

definition first_create :: prompt_action where
  "first_create = Create_Prompt (text_prompt ''b'' ''one'' [''p'']) ''1''"

definition after_create_commands :: "prompt_db \<times> mem" where
  "after_create_commands = mem_run (commands first_create empty_store) (empty_store, mem_empty)"

definition after_first_read :: mem where
  "after_first_read = snd (getPrompt mem_config mem_redis (fst after_create_commands) (by_version ''b'' 1) (snd after_create_commands))"

text \<open>The second read is answered from the cache.\<close>

theorem prompt_cache_consistent_witness:
  "fst (getPrompt mem_config mem_redis (fst after_create_commands) (by_version ''b'' 1) after_first_read) =
     getDbPrompt (fst after_create_commands) (by_version ''b'' 1) \<and>
   mem_vals after_first_read (getCacheKey (by_version ''b'' 1)) \<noteq> None"
proof
  let ?sys = "\<lparr>cs_db = empty_store, cs_redis = mem_empty, cs_todo = [], cs_cleanup = []\<rparr>"
  have plain: "plain_request (by_version ''b'' 1)" "pp_project (by_version ''b'' 1) = ''P''"
    by (simp_all add: plain_request_def by_version_def)
  have "mem_cache_run ''P'' ?sys" by (rule cr_start) (simp add: mem_empty_def)
  then have "mem_cache_run ''P'' (?sys\<lparr>cs_todo := commands first_create (cs_db ?sys), cs_cleanup := cleanup first_create\<rparr>)"
    by (rule cr_begin) (simp_all add: first_create_def empty_store_def text_prompt_def)
  then have "mem_cache_run ''P'' \<lparr>cs_db = empty_store, cs_redis = mem_empty, cs_todo = commands first_create empty_store,
      cs_cleanup = cleanup first_create\<rparr>" by simp
  moreover have "mem_alive ''P'' (commands first_create empty_store) (empty_store, mem_empty)" by code_simp
  ultimately have "mem_cache_run ''P'' \<lparr>cs_db = fst after_create_commands, cs_redis = snd after_create_commands, cs_todo = [],
      cs_cleanup = cleanup first_create\<rparr>" unfolding after_create_commands_def by (rule mem_run_reaches)
  from cr_read [OF this plain] have "mem_cache_run ''P'' \<lparr>cs_db = fst after_create_commands, cs_redis = after_first_read, cs_todo = [],
      cs_cleanup = cleanup first_create\<rparr>" by (simp add: after_first_read_def lock_alive_def)
  from prompt_cache_consistent [OF mem_laws this plain]
  show "fst (getPrompt mem_config mem_redis (fst after_create_commands) (by_version ''b'' 1) after_first_read) =
     getDbPrompt (fst after_create_commands) (by_version ''b'' 1)" by simp
  show "mem_vals after_first_read (getCacheKey (by_version ''b'' 1)) \<noteq> None" by code_simp
qed

section \<open>What the conditions are for\<close>

text \<open>A version and a label that is its number have one key: the read of version 1 gives version 2.\<close>

definition number_label :: "prompt_db" where
  "number_label = demo_run [Create_Prompt (text_prompt ''b'' ''one'' []) ''1'', Create_Prompt (text_prompt ''b'' ''two'' [''1'']) ''2'']"

definition version_read :: "(prompt_error + prompt_result option) \<times> mem \<Rightarrow> nat option" where
  "version_read r = (case fst r of Inr (Some (p, g)) \<Rightarrow> Some (pr_version p) | _ \<Rightarrow> None)"

definition tags_read :: "(prompt_error + prompt_result option) \<times> mem \<Rightarrow> string list option" where
  "tags_read r = (case fst r of Inr (Some (p, g)) \<Rightarrow> Some (pr_tags p) | _ \<Rightarrow> None)"

lemma number_label_shadows_version:
  "version_read (getPrompt mem_config mem_redis number_label (by_version ''b'' 1)
     (snd (getPrompt mem_config mem_redis number_label (by_label ''b'' ''1'') mem_empty))) = Some 2"
  by code_simp

definition tagging :: "string list \<Rightarrow> cache_command list" where
  "tagging ts = commands (Update_Tags ''P'' ''b'' ts) (demo_run three_calls)"

definition read_b :: "prompt_db \<times> mem \<Rightarrow> (prompt_error + prompt_result option) \<times> mem" where
  "read_b x = getPrompt mem_config mem_redis (fst x) (by_label ''b'' ''p'') (snd x)"

text \<open>
  Two operations at a time: the second unlocks the cache while the first has not committed, a read caches
  what the first then changes, and that stays in the cache.
\<close>

lemma foreign_unlock_leaves_stale:
  "let x1 = mem_run (take 2 (tagging [''t'']) @ tagging [''u'']) (demo_run three_calls, mem_empty);
       x2 = mem_run (drop 2 (tagging [''t''])) (fst x1, snd (read_b x1))
   in tags_read (read_b x2) = Some [''u''] \<and> map pr_tags (versions_of (fst x2) ''P'' ''b'') = [[''t''], [''t'']]"
  by code_simp

text \<open>
  A read that has read the tables before an operation writes to the cache after it; every later read
  finds the entry and renews its time.
\<close>

lemma slow_read_leaves_stale:
  "let old = fst (read_b (demo_run three_calls, mem_empty));
       x = mem_run (tagging [''t'']) (demo_run three_calls, mem_empty)
   in (case old of Inr (Some r) \<Rightarrow>
       tags_read (read_b (fst x, cachePrompt mem_redis (by_label ''b'' ''p'') r (snd x))) = Some [] \<and>
       map pr_tags (versions_of (fst x) ''P'' ''b'') = [[''t''], [''t'']]
     | _ \<Rightarrow> False)"
  by code_simp

text \<open>
  \<open>updatePrompt\<close> invalidates after the transaction; if that throws, the lock is removed and the old entry
  is read: the label that was moved to the second version still gives the first.
\<close>

definition moving :: prompt_action where
  "moving = Update_Prompt ''P'' ''b'' 2 [''p'']"

lemma failed_invalidation_leaves_stale:
  "let cached = snd (read_b (demo_run three_calls, mem_empty));
       x = mem_run (take 2 (commands moving (demo_run three_calls)) @ cleanup moving) (demo_run three_calls, cached)
   in version_read (read_b x) = Some 1 \<and> map pr_labels (versions_of (fst x) ''P'' ''b'') = [[], [''p'', ''latest'']]"
  by code_simp

text \<open>
  The server does not answer whether the cache is locked, which counts as not locked: a read between the
  invalidation and the transaction caches what the transaction then changes.
\<close>

definition mute_redis :: "mem prompt_redis" where
  "mute_redis = mem_redis\<lparr>rd_exists := (\<lambda>k s. (None, s))\<rparr>"

lemma unanswered_lock_leaves_stale:
  "let x1 = mem_run (take 2 (tagging [''t''])) (demo_run three_calls, mem_empty);
       read = snd (getPrompt mem_config mute_redis (fst x1) (by_label ''b'' ''p'') (snd x1));
       x2 = mem_run (drop 2 (tagging [''t''])) (fst x1, read)
   in tags_read (read_b x2) = Some [] \<and> map pr_tags (versions_of (fst x2) ''P'' ''b'') = [[''t''], [''t'']]"
  by code_simp

text \<open>The two writes of \<open>deletePrompt\<close> are the commands of its call.\<close>

lemma deletion_commands:
  "failure (Delete_Prompt pid name v l) db = None \<Longrightarrow>
   perform (Delete_Prompt pid name v l) db = (let ps = requested_versions db pid name v l in
     delete_many pid (map pr_id ps) (reattach_latest pid name ps db))"
  by (auto simp: deletePrompt_def Let_def split: if_splits)

end
