(* ===== verification/Spec2Isabelle.thy ===== *)
theory Spec2Isabelle imports Tree_Build Writer_Liveness Trace_Flatten Expansion_Keys Periodic_Runner Batch_Cleaners
  Webhook_Delivery Model_Match Prompt_Cache begin

text \<open>
  A model of core parts of Continuwitty, with the theorems that make them correct.

  \<^bold>\<open>The program.\<close> The repository is a Go backend, a small React application (\<^verbatim>\<open>src/web/src\<close>) and a
  copy of the observability platform Langfuse (\<^verbatim>\<open>src/langfuse\<close>), which has three packages: \<^verbatim>\<open>packages/shared\<close>
  (tables, services and helpers both other packages use), \<^verbatim>\<open>web\<close> (the Next.js application: routers,
  server actions, views) and \<^verbatim>\<open>worker\<close> (queues and periodic jobs). The development models TypeScript of
  the three packages; file names below are relative to \<^verbatim>\<open>src/langfuse\<close>. The parts meet as follows: the web
  application stores prompts and automations through the shared services; the worker delivers webhooks
  for prompt changes, writes ingested records to ClickHouse in batches, matches models and prices for
  them, and deletes expired data under a lock; the web application shows traces as trees and their
  payloads in a JSON viewer.

  \<^bold>\<open>The library.\<close> \<^verbatim>\<open>Prelude\<close> has the operations of the JavaScript library on strings and objects and
  generic lemmas; \<^verbatim>\<open>Js_Uri\<close> has \<open>encodeURIComponent\<close>, which keys of the cache are written with, and its inverse; \<^verbatim>\<open>Stack_Walk\<close> has rose trees, their traversals, and the explicit-stack loops the code
  uses in place of recursion, with the lemmas that such a loop is a traversal; \<^verbatim>\<open>Json_Text\<close> has
  \<open>JSON.stringify\<close>, \<open>JSON.parse\<close> and the replacement of literal texts, the round trip of the first two,
  and the lemma that replacing in a written text is replacing in its strings.

  \<^bold>\<open>The JSON viewer\<close> (\<^verbatim>\<open>web/src/components/ui/AdvancedJsonViewer/utils\<close>).
  \<^item> \<^verbatim>\<open>Json_Value\<close>: \<^verbatim>\<open>jsonTypes.ts\<close>, \<^verbatim>\<open>pathUtils.ts\<close>, \<^verbatim>\<open>rowCount.ts\<close>, \<^verbatim>\<open>calculateWidth.ts\<close>.
  \<^item> \<^verbatim>\<open>Tree_Store\<close>: the mutable tree nodes of \<^verbatim>\<open>treeStructure.ts\<close> as a store from addresses to records
    (the code links parents and children by reference), and the contract of the tree: every node knows
    its visible descendants and the running sums of its children's.
  \<^item> \<^verbatim>\<open>Tree_Structure\<close>, \<^verbatim>\<open>Tree_Build_Loop\<close>, \<^verbatim>\<open>Tree_Build\<close>: the four passes of \<^verbatim>\<open>buildTreeFromJSON\<close>; the built
    tree mirrors the value and keeps the contract.
  \<^item> \<^verbatim>\<open>Tree_Navigation\<close>: \<^verbatim>\<open>treeNavigation.ts\<close>; the binary search by row is the listing of visible nodes.
  \<^item> \<^verbatim>\<open>Tree_Expansion\<close>, \<^verbatim>\<open>Tree_Passes\<close>: \<^verbatim>\<open>treeExpansion.ts\<close>; toggling and the passes over the tree keep
    the contract, and what they expand. The two operations that do not keep it are shown on runs.

  \<^bold>\<open>The trace view\<close> (\<^verbatim>\<open>web/src/components/trace2\<close>).
  \<^item> \<^verbatim>\<open>Trace_Tree\<close>, \<^verbatim>\<open>Trace_Build\<close>, \<^verbatim>\<open>Trace_Ui\<close>: \<^verbatim>\<open>lib/tree-building.ts\<close>; the phases (filtering, the dependency
    graph, the bottom-up construction by in-degrees) refine a recursive specification, end for every
    hierarchy, and the cost at the top is the sum of the costs.
  \<^item> \<^verbatim>\<open>Trace_Flatten\<close>: the flat lists of the tree, the timeline and the log view and the aggregates; a row is
    determined by its node and the places of the node and its ancestors among their siblings.
  \<^item> \<^verbatim>\<open>Expansion_Keys\<close>: \<^verbatim>\<open>contexts/json-expansion-utils.ts\<close>, storing and restoring of expansion states.

  \<^bold>\<open>The worker.\<close>
  \<^item> \<^verbatim>\<open>Clickhouse_Writer\<close>: \<^verbatim>\<open>worker/src/services/ClickhouseWriter/index.ts\<close> as a step relation over queues and
    the writes in flight; no record is lost or doubled, every run of writes ends, truncated records fit.
  \<^item> \<^verbatim>\<open>Writer_Liveness\<close>: infinite behaviours of the same relation; under fairness every record settles.
  \<^item> \<^verbatim>\<open>Redis_Lock\<close>, \<^verbatim>\<open>Periodic_Runner\<close>: \<^verbatim>\<open>worker/src/utils\<close>; the lock excludes for as long as it lives, in every
    interleaving of invocations; one chain of timers. The Redis server is a locale with its documented laws.
  \<^item> \<^verbatim>\<open>Batch_Cleaners\<close>: the two deletion jobs of \<^verbatim>\<open>worker/src/features\<close>, composed with lock and runner.

  \<^bold>\<open>Webhooks.\<close> \<^verbatim>\<open>Address_Blocking\<close>, \<^verbatim>\<open>Webhook_Guard\<close>: \<^verbatim>\<open>packages/shared/src/server/webhooks\<close>; what is
  blocked, what an accepted URL is, and that every redirect is checked. \<^verbatim>\<open>Webhook_Delivery\<close>: the delivery
  with its retries in \<^verbatim>\<open>worker/src/queues/webhooks.ts\<close>, and the count of consecutive failures of
  \<^verbatim>\<open>automation-repository.ts\<close>, which refines a counter.

  \<^bold>\<open>Models and prices.\<close> \<^verbatim>\<open>Pricing_Tiers\<close>: validation and matching of price tiers. \<^verbatim>\<open>Model_Match\<close>: the lookup of
  a model with its cache (\<^verbatim>\<open>server/ingestion/modelMatch.ts\<close>), which is transparent.

  \<^bold>\<open>Prompts.\<close> \<^verbatim>\<open>Prompt_Graph\<close>: the resolution of dependencies in \<^verbatim>\<open>PromptService/index.ts\<close>; the substitution in
  the stringified text refines substitution in the value, a prompt resolves exactly if its chains of
  dependencies are short, acyclic and complete, and the graph that is returned is exact. \<^verbatim>\<open>Prompt_Tags\<close>: the
  parser of tags; what is written as a tag is read as that tag. \<^verbatim>\<open>Prompt_Actions\<close>: the operations of
  \<^verbatim>\<open>web/src/features/prompts/server\<close> that change prompts (\<open>createPrompt\<close>, \<open>duplicatePrompt\<close>, \<open>updatePrompt\<close>,
  \<open>deletePrompt\<close>, and \<open>delete\<close>, \<open>deleteVersion\<close>, \<open>setLabels\<close>, \<open>updateTags\<close> of the router) on the tables of rows
  and dependencies, each with its outcome; each of them writes in one transaction or statement, but \<open>deletePrompt\<close>
  moves the label \<open>latest\<close> and deletes in two, either of which can fail. \<^verbatim>\<open>Prompt_Invariants\<close>: what each of them does to the rows, and that
  all keep the tables consistent. \<^verbatim>\<open>Prompt_Safety\<close>: which keep every dependency resolvable. \<^verbatim>\<open>Prompt_Latest\<close>:
  which keep the label \<open>latest\<close> on the highest version. \<^verbatim>\<open>Prompt_Runs\<close>: these for every sequence of
  operations that the database carries out, the errors and what a failing write leaves, what creating promises, and runs that show why the exceptions are needed.
  \<^verbatim>\<open>Prompt_Cache\<close>: \<open>getPromptByName\<close>, the cache of \<^verbatim>\<open>PromptService/index.ts\<close> and the order in which the
  operations lock, invalidate, commit and unlock, as a relation whose steps are the single commands and the
  reads between them, any of which can fail, the question whether the lock is there included; every read gives what
  the tables give, under conditions whose need is shown on runs.

  \<^bold>\<open>Interfaces.\<close> What lies outside \<^verbatim>\<open>src\<close> (Redis, Postgres, ClickHouse, DNS, \<open>fetch\<close>, \<^verbatim>\<open>ipaddr.js\<close>, \<^verbatim>\<open>decimal.js\<close>,
  regular expression engines) is a parameter: a record of operations with a predicate or a locale for the
  documented laws, and an instance that has the laws in the witness of every theorem that assumes them.

  \<^bold>\<open>Numbers, bounds and fuel.\<close> Strings are lists of characters, so code units above 255 are left out. Lengths,
  versions and counters are natural numbers; none of them comes near 2 to the power 53. Prices, widths and
  times are exact where the code has doubles. Loops over explicit stacks and the resolution of prompts end by
  a measure. \<open>json_parse\<close> takes the length of its text as bound on the depth, which \<open>parse_stringify\<close> shows
  to be enough.

  \<^bold>\<open>Not modelled.\<close> The Go backend and every other language; React components, hooks and contexts, whose effects are
  on the DOM; the other routers, public API handlers and repositories, which are mostly queries in SQL or an ORM whose
  meaning is in the databases; the OpenTelemetry and ingestion pipelines, evaluation, exports and billing,
  which call external services at each step; generated code (\<^verbatim>\<open>otlp-proto\<close>), database schemas and migrations, tests and
  configuration. These are listed as components that are not modelled.
\<close>

end
